(* ===== verification/Prelude.thy ===== *)
theory Prelude
  imports Main "HOL-Library.Word" "HOL-Library.Finite_Map" "HOL-Library.List_Lexorder"
    "HOL-Library.Product_Lexorder"
begin

text \<open>
  The shared vocabulary of the development: Rust's machine integers as words, byte
  strings, Unicode text, the fixed-width big- and little-endian integer encodings the wire
  formats use, and the generic lemmas the component theories share. Nothing here is
  specific to one component.
\<close>

unbundle bit_operations_syntax

section \<open>Types\<close>

type_synonym u8 = "8 word"
type_synonym u16 = "16 word"
type_synonym u32 = "32 word"
type_synonym u64 = "64 word"
type_synonym bytes = "u8 list"

text \<open>
  A Rust \<open>str\<close> is a sequence of Unicode scalar values stored as UTF-8. It is modelled
  as the list of its code points; \<open>str_len\<close> is the byte length that \<open>str::len\<close>
  returns.
\<close>

type_synonym uchar = nat
type_synonym str = "uchar list"

abbreviation lit :: "string \<Rightarrow> str" where
  "lit s \<equiv> map of_char s"

text \<open>\<open>u64::MAX\<close>.\<close>

abbreviation u64_max :: u64 where
  "u64_max \<equiv> - 1"

text \<open>Collections of rewrite rules: wire encodings, and invariants of the stateful services.\<close>

named_theorems wire_simps
named_theorems state_simps

section \<open>Text\<close>

definition utf8_width :: "uchar \<Rightarrow> nat" where
  "utf8_width c = (if c < 128 then 1 else if c < 2048 then 2 else if c < 65536 then 3 else 4)"

definition str_len :: "str \<Rightarrow> nat" where
  "str_len s = sum_list (map utf8_width s)"

text \<open>\<open>char::is_whitespace\<close>: the code points with the Unicode property White\_Space.\<close>

definition is_whitespace :: "uchar \<Rightarrow> bool" where
  "is_whitespace c \<longleftrightarrow>
     (9 \<le> c \<and> c \<le> 13) \<or> c = 32 \<or> c = 133 \<or> c = 160 \<or> c = 5760 \<or>
     (8192 \<le> c \<and> c \<le> 8202) \<or> c = 8232 \<or> c = 8233 \<or> c = 8239 \<or> c = 8287 \<or> c = 12288"

text \<open>\<open>char::is_control\<close>: the code points of category Cc.\<close>

definition is_control :: "uchar \<Rightarrow> bool" where
  "is_control c \<longleftrightarrow> c < 32 \<or> (127 \<le> c \<and> c < 160)"

definition trim_start :: "str \<Rightarrow> str" where
  "trim_start s = dropWhile is_whitespace s"

definition trim_end :: "str \<Rightarrow> str" where
  "trim_end s = rev (dropWhile is_whitespace (rev s))"

definition trim :: "str \<Rightarrow> str" where
  "trim s = trim_end (trim_start s)"

definition ascii_lower :: "uchar \<Rightarrow> uchar" where
  "ascii_lower c = (if 65 \<le> c \<and> c \<le> 90 then c + 32 else c)"

definition to_ascii_lowercase :: "str \<Rightarrow> str" where
  "to_ascii_lowercase s = map ascii_lower s"

section \<open>Saturating arithmetic\<close>

text \<open>
  Clocks and counters are kept as \<open>nat\<close> or \<open>int\<close>, with the ends of the Rust type written
  out where the code saturates.
\<close>

definition U64_MAX :: nat where "U64_MAX = 2 ^ 64 - 1"
definition U32_MAX :: nat where "U32_MAX = 2 ^ 32 - 1"
definition I64_MAX :: int where "I64_MAX = 2 ^ 63 - 1"

definition sat_add64 :: "nat \<Rightarrow> nat \<Rightarrow> nat" where
  "sat_add64 a b = min (a + b) U64_MAX"

definition sat_mul64 :: "nat \<Rightarrow> nat \<Rightarrow> nat" where
  "sat_mul64 a b = min (a * b) U64_MAX"

definition div_ceil :: "nat \<Rightarrow> nat \<Rightarrow> nat" where
  "div_ceil a b = (if a mod b = 0 then a div b else a div b + 1)"

lemma div_ceil_exact: "a mod b = 0 \<Longrightarrow> div_ceil a b = a div b"
  and div_ceil_over: "a mod b \<noteq> 0 \<Longrightarrow> div_ceil a b = a div b + 1"
  by (simp_all add: div_ceil_def)

lemma pair_of_snd: "snd p = x \<Longrightarrow> p = (fst p, x)"
  by (cases p) simp

section \<open>Slices\<close>

text \<open>\<open>slice::chunks\<close>; the code calls it with positive sizes only.\<close>

function chunks :: "nat \<Rightarrow> 'a list \<Rightarrow> 'a list list" where
  "chunks n xs = (if n = 0 \<or> xs = [] then [] else take n xs # chunks n (drop n xs))"
  by pat_completeness auto
termination
  by (relation "measure (\<lambda>(n, xs). length xs)") auto

declare chunks.simps [simp del]

lemma chunks_Nil [simp]: "chunks n [] = []"
  by (simp add: chunks.simps)

lemma concat_chunks: "0 < n \<Longrightarrow> concat (chunks n xs) = xs"
proof (induction n xs rule: chunks.induct)
  case (1 n xs)
  then show ?case by (cases "xs = []") (simp_all add: chunks.simps[of n xs])
qed

lemma chunk_bounds: "0 < n \<Longrightarrow> c \<in> set (chunks n xs) \<Longrightarrow> c \<noteq> [] \<and> length c \<le> n"
proof (induction n xs rule: chunks.induct)
  case (1 n xs)
  then show ?case by (cases "xs = []") (auto simp: chunks.simps[of n xs])
qed

section \<open>Hash maps in key order\<close>

text \<open>
  A Rust \<open>HashMap\<close> is a finite map. Code that collects one and then sorts by the (distinct)
  keys is modelled by the listing in key order.
\<close>

definition sorted_pairs :: "('k::linorder, 'v) fmap \<Rightarrow> ('k \<times> 'v) list" where
  "sorted_pairs m = map (\<lambda>k. (k, the (fmlookup m k))) (sorted_list_of_fset (fmdom m))"

lemma set_sorted_pairs: "(k, v) \<in> set (sorted_pairs m) \<longleftrightarrow> fmlookup m k = Some v"
  by (force simp: sorted_pairs_def fmlookup_dom_iff)

lemma map_fst_sorted_pairs [simp]: "map fst (sorted_pairs m) = sorted_list_of_fset (fmdom m)"
  by (simp add: sorted_pairs_def comp_def)

lemma fmdrop_absent: "fmlookup m k = None \<Longrightarrow> fmdrop k m = m"
  by (rule fmap_ext) simp

lemma fmdrop_fmupd_same [simp]: "fmdrop k (fmupd k v m) = fmdrop k m"
  by (rule fmap_ext) simp

lemma fmran_drop_iff: "a |\<in>| fmran (fmdrop k m) \<longleftrightarrow> (\<exists>x. x \<noteq> k \<and> fmlookup m x = Some a)"
  by (auto simp: fmlookup_ran_iff simp del: fmran_drop)

declare fmran_drop [simp del]

lemma fmran_upd_iff:
  "a |\<in>| fmran (fmupd k v m) \<longleftrightarrow> a = v \<or> (\<exists>x. x \<noteq> k \<and> fmlookup m x = Some a)"
  by (auto simp: fmlookup_ran_iff)

section \<open>Interface: an answer cache\<close>

text \<open>
  A service that memoises answers per key promises that the key determines the answer. Every
  cache entry carries the generation it was computed in; entries are only ever added for the
  current generation and table, and the cache is emptied when the table changes. Under that
  contract a cache hit returns what a fresh computation would.
\<close>

locale keyed_cache =
  fixes ok :: "'q \<Rightarrow> bool"
    and key :: "'q \<Rightarrow> 'k"
    and answer :: "'t \<Rightarrow> 'q \<Rightarrow> 'v"
  assumes key_determines: "ok q \<Longrightarrow> ok q' \<Longrightarrow> key q = key q' \<Longrightarrow> answer t q = answer t q'"
begin

definition sound :: "'t \<Rightarrow> 'g \<Rightarrow> ('k, 'g \<times> 'v) fmap \<Rightarrow> bool" where
  "sound t g c \<longleftrightarrow>
     (\<forall>k g' v. fmlookup c k = Some (g', v) \<longrightarrow>
        g' = g \<and> (\<forall>q. ok q \<and> key q = k \<longrightarrow> answer t q = v))"

lemma sound_empty: "sound t g fmempty"
  by (simp add: sound_def)

lemma sound_hit: "sound t g c \<Longrightarrow> ok q \<Longrightarrow> fmlookup c (key q) = Some (g', v) \<Longrightarrow> v = answer t q"
  by (auto simp: sound_def)

lemma sound_store:
  assumes "sound t g c" "ok q"
  shows "sound t g (fmupd (key q) (g, answer t q) c)"
  using assms(1) key_determines[OF assms(2)] by (auto simp: sound_def dest: sym)

end

section \<open>Interface: an event log\<close>

text \<open>
  Services publish on a bus that delivers in publication order. The contract: publishing appends
  one event. What a client derives: publishing in a loop appends the mapped list.
\<close>

locale event_log =
  fixes publish :: "'e \<Rightarrow> 's \<Rightarrow> 's" and log :: "'s \<Rightarrow> 'e list" and rest :: "'s \<Rightarrow> 'r"
  assumes log_publish: "log (publish e s) = log s @ [e]"
    and rest_publish: "rest (publish e s) = rest s"
begin

lemma log_fold: "log (fold (\<lambda>x. publish (f x)) xs s) = log s @ map f xs"
  by (induction xs arbitrary: s) (simp_all add: log_publish)

lemma rest_fold: "rest (fold (\<lambda>x. publish (f x)) xs s) = rest s"
  by (induction xs arbitrary: s) (simp_all add: rest_publish)

end

section \<open>Interface: machines with a retry budget\<close>

text \<open>A machine is driven by a sequence of calls; each gives a new machine and a result.\<close>

fun run_calls :: "('s \<Rightarrow> 'c \<Rightarrow> 's \<times> 'r) \<Rightarrow> 's \<Rightarrow> 'c list \<Rightarrow> 's \<times> 'r list" where
  "run_calls step s [] = (s, [])"
| "run_calls step s (c # cs) =
     (let (s', r) = step s c; (s'', rs) = run_calls step s' cs in (s'', r # rs))"

lemma find_append: "List.find P (xs @ ys) = (case List.find P xs of Some x \<Rightarrow> Some x | None \<Rightarrow> List.find P ys)"
  by (induction xs) auto

lemma run_calls_append:
  "run_calls step s (xs @ ys) =
     (let (s', rs) = run_calls step s xs; (s'', rs') = run_calls step s' ys in (s'', rs @ rs'))"
  by (induction xs arbitrary: s) (simp_all add: split_beta Let_def)

text \<open>How many of the calls are granted, each judged in the machine it meets.\<close>

fun grants :: "('s \<Rightarrow> 'c \<Rightarrow> 's \<times> 'r) \<Rightarrow> ('s \<Rightarrow> 'c \<Rightarrow> bool) \<Rightarrow> 's \<Rightarrow> 'c list \<Rightarrow> nat" where
  "grants step granted s [] = 0"
| "grants step granted s (c # cs) =
     (if granted s c then 1 else 0) + grants step granted (fst (step s c)) cs"

text \<open>
  The contract: every granted call spends one unit of a budget that nothing gives back and that is
  never overdrawn. The client's gain: no sequence of calls, however long, gets more than the budget.
\<close>

locale retry_budget =
  fixes step :: "'s \<Rightarrow> 'c \<Rightarrow> 's \<times> 'r"
    and granted :: "'s \<Rightarrow> 'c \<Rightarrow> bool"
    and spent :: "'s \<Rightarrow> nat"
    and budget :: nat
  assumes grant_spends: "granted s c \<Longrightarrow> spent s < budget \<and> spent (fst (step s c)) = Suc (spent s)"
    and never_refunded: "spent s \<le> spent (fst (step s c))"
    and never_overdrawn: "spent s \<le> budget \<Longrightarrow> spent (fst (step s c)) \<le> budget"
begin

lemma grants_within: "spent s \<le> budget \<Longrightarrow> spent s + grants step granted s cs \<le> budget"
proof (induction cs arbitrary: s)
  case (Cons c cs)
  have "spent (fst (step s c)) + grants step granted (fst (step s c)) cs \<le> budget"
    using Cons never_overdrawn by blast
  then show ?case using grant_spends[of s c] never_refunded[of s c] by auto
qed simp

end

section \<open>Interface: independent machines behind one table\<close>

text \<open>
  A table of machines, each call addressed to one of them by its key. The contract: a call steps the
  machine it is addressed to by that machine's own step, and leaves the others alone. The client's
  gain: what one machine sees of any interleaving is a run of that machine alone.
\<close>

locale multiplexed =
  fixes step :: "'s \<Rightarrow> 'c \<Rightarrow> 's \<times> 'r"
    and key :: "'c \<Rightarrow> 'k"
    and cell :: "'s \<Rightarrow> 'k \<Rightarrow> 'm"
    and own :: "'m \<Rightarrow> 'c \<Rightarrow> 'm \<times> 'r"
  assumes own_step: "(cell (fst (step s c)) (key c), snd (step s c)) = own (cell s (key c)) c"
    and other_cells: "key c \<noteq> k \<Longrightarrow> cell (fst (step s c)) k = cell s k"
begin

lemma projection:
  "run_calls own (cell s k) (filter (\<lambda>c. key c = k) cs) =
     (cell (fst (run_calls step s cs)) k,
      map snd (filter (\<lambda>(c, r). key c = k) (zip cs (snd (run_calls step s cs)))))"
proof (induction cs arbitrary: s)
  case (Cons c cs)
  show ?case
    using Cons[of "fst (step s c)"] own_step[of s c] other_cells[of c k s]
    by (cases "key c = k") (simp_all add: case_prod_unfold Let_def, metis fst_conv snd_conv)
qed simp

end

end
