(* ===== verification/Wire.thy ===== *)
theory Wire
  imports Prelude "HOL-Library.Sublist"
begin

text \<open>
  Fixed-width integers on the wire (\<open>to_be_bytes\<close>, \<open>from_le_bytes\<close> and their kin) and the two
  interfaces the byte-oriented protocols share: byte stuffing, where every payload byte is escaped
  on its own, and length-delimited streams, where whole messages are cut out of a byte buffer.
\<close>

section \<open>Integers as bytes\<close>

definition be16 :: "u16 \<Rightarrow> bytes" where
  "be16 w = [ucast (drop_bit 8 w), ucast w]"

definition be32 :: "u32 \<Rightarrow> bytes" where
  "be32 w = [ucast (drop_bit 24 w), ucast (drop_bit 16 w), ucast (drop_bit 8 w), ucast w]"

definition le32 :: "u32 \<Rightarrow> bytes" where
  "le32 w = [ucast w, ucast (drop_bit 8 w), ucast (drop_bit 16 w), ucast (drop_bit 24 w)]"

definition of_be16 :: "u8 \<Rightarrow> u8 \<Rightarrow> u16" where
  "of_be16 a b = push_bit 8 (ucast a) OR ucast b"

definition of_be32 :: "u8 \<Rightarrow> u8 \<Rightarrow> u8 \<Rightarrow> u8 \<Rightarrow> u32" where
  "of_be32 a b c d = push_bit 24 (ucast a) OR push_bit 16 (ucast b) OR push_bit 8 (ucast c) OR ucast d"

definition le64 :: "u64 \<Rightarrow> bytes" where
  "le64 w = map (\<lambda>i. ucast (drop_bit (8 * i) w)) [0..<8]"

definition of_le32 :: "u8 \<Rightarrow> u8 \<Rightarrow> u8 \<Rightarrow> u8 \<Rightarrow> u32" where
  "of_le32 a b c d = of_be32 d c b a"

lemma length_ints [simp]: "length (be16 w) = 2" "length (be32 x) = 4" "length (le32 x) = 4"
  by (simp_all add: be16_def be32_def le32_def)

lemma le32_rev: "le32 w = rev (be32 w)"
  by (simp add: le32_def be32_def)

lemma of_be16_be16 [wire_simps]: "of_be16 (ucast (drop_bit 8 w)) (ucast w) = w"
  by (rule bit_word_eqI) (auto simp: of_be16_def bit_or_iff bit_push_bit_iff bit_ucast_iff bit_drop_bit_eq)

lemma of_be32_be32 [wire_simps]:
  "of_be32 (ucast (drop_bit 24 w)) (ucast (drop_bit 16 w)) (ucast (drop_bit 8 w)) (ucast w) = w"
proof (rule bit_word_eqI)
  fix n :: nat
  assume "n < LENGTH(32)"
  then consider "n < 8" | "8 \<le> n" "n < 16" | "16 \<le> n" "n < 24" | "24 \<le> n" "n < 32" by fastforce
  then show "bit (of_be32 (ucast (drop_bit 24 w)) (ucast (drop_bit 16 w)) (ucast (drop_bit 8 w)) (ucast w)) n =
      bit w n"
    by cases (auto simp: of_be32_def bit_or_iff bit_push_bit_iff bit_ucast_iff bit_drop_bit_eq)
qed

lemma of_le32_le32 [wire_simps]:
  "of_le32 (ucast w) (ucast (drop_bit 8 w)) (ucast (drop_bit 16 w)) (ucast (drop_bit 24 w)) = w"
  by (simp add: of_le32_def of_be32_be32)

lemma byte_bit_high: "8 \<le> n \<Longrightarrow> \<not> bit (b :: u8) n"
  using bit_imp_le_length[of b n] by auto

lemma be32_of_be32 [wire_simps]: "be32 (of_be32 a b c d) = [a, b, c, d]"
  by (auto simp: be32_def of_be32_def bit_or_iff bit_push_bit_iff bit_ucast_iff bit_drop_bit_eq
      byte_bit_high intro!: bit_word_eqI)

section \<open>Cut streams\<close>

lemma strict_prefix_append_cases:
  "strict_prefix p (xs @ ys) \<longleftrightarrow> strict_prefix p xs \<or> (\<exists>q. p = xs @ q \<and> strict_prefix q ys)"
  by (auto simp: strict_prefix_def prefix_append)

section \<open>Interface: byte stuffing\<close>

text \<open>
  An encoder with some state turns each byte into a short run of wire bytes; the decoder reads one
  item off the front of its input and says how many bytes it took, or that the item is cut short.
  The contract is per byte; a client that loops over a slice gets the step it needs for any loop of
  its own.
\<close>

locale byte_stuffing =
  fixes push :: "'st \<Rightarrow> u8 \<Rightarrow> bytes \<times> 'st"
    and push_all :: "'st \<Rightarrow> bytes \<Rightarrow> bytes \<times> 'st"
    and decode :: "bytes \<Rightarrow> 'e + ('i \<times> nat)"
    and item :: "u8 \<Rightarrow> 'i"
    and cut :: 'e
  assumes push_all_Nil: "push_all st [] = ([], st)"
    and push_all_Cons: "push_all st (b # bs) =
      (let (out, st') = push st b; (outs, st'') = push_all st' bs in (out @ outs, st''))"
    and decode_push: "decode (fst (push st b) @ rest) = Inr (item b, length (fst (push st b)))"
    and push_nonempty: "fst (push st b) \<noteq> []"
    and decode_cut: "strict_prefix p (fst (push st b)) \<Longrightarrow> decode p = Inl cut"
begin

lemma fst_push_all_Cons:
  "fst (push_all st (b # bs)) = fst (push st b) @ fst (push_all (snd (push st b)) bs)"
  by (simp add: push_all_Cons case_prod_unfold Let_def)

lemma decode_slice:
  "decode (fst (push_all st (b # bs)) @ rest) = Inr (item b, length (fst (push st b)))"
  by (simp add: fst_push_all_Cons decode_push)

lemma drop_slice:
  "drop (length (fst (push st b))) (fst (push_all st (b # bs)) @ rest) =
    fst (push_all (snd (push st b)) bs) @ rest"
  by (simp add: fst_push_all_Cons)

lemma cut_slice:
  assumes "strict_prefix p (fst (push_all st bs))"
  shows "\<exists>xs y ys q. bs = xs @ y # ys \<and> p = fst (push_all st xs) @ q \<and> decode q = Inl cut"
  using assms
proof (induction bs arbitrary: st p)
  case Nil
  then show ?case by (simp add: push_all_Nil)
next
  case (Cons b bs)
  let ?w = "fst (push st b)"
  from Cons.prems consider "strict_prefix p ?w"
    | q where "p = ?w @ q" "strict_prefix q (fst (push_all (snd (push st b)) bs))"
    using strict_prefix_append_cases[of p ?w] by (auto simp: fst_push_all_Cons)
  then show ?case
  proof cases
    case 1
    then have "b # bs = [] @ b # bs \<and> p = fst (push_all st []) @ p \<and> decode p = Inl cut"
      by (simp add: push_all_Nil decode_cut)
    then show ?thesis by blast
  next
    case 2
    from Cons.IH[OF 2(2)] obtain xs y ys r where
      "bs = xs @ y # ys" "q = fst (push_all (snd (push st b)) xs) @ r" "decode r = Inl cut" by blast
    then have "b # bs = (b # xs) @ y # ys \<and> p = fst (push_all st (b # xs)) @ r \<and> decode r = Inl cut"
      using 2(1) by (simp add: fst_push_all_Cons)
    then show ?thesis by blast
  qed
qed

lemma push_all_append:
  "push_all st (xs @ ys) =
    (fst (push_all st xs) @ fst (push_all (snd (push_all st xs)) ys), snd (push_all (snd (push_all st xs)) ys))"
  by (induction xs arbitrary: st) (simp_all add: push_all_Nil push_all_Cons case_prod_unfold Let_def)

end

section \<open>Interface: streams of whole messages\<close>

text \<open>
  A stream codec keeps a buffer; \<open>step\<close> cuts the next message off its front if it is all there.
  \<open>drain\<close> takes every message that is complete, at most \<open>n\<close> of them, and \<open>feed_all\<close> is a reader
  that appends what arrives, fragment by fragment, and drains after each.
\<close>

fun drain :: "(bytes \<Rightarrow> bytes \<times> ('e + 'm option)) \<Rightarrow> nat \<Rightarrow> bytes \<Rightarrow> 'e + 'm list \<times> bytes" where
  "drain step 0 buf = Inr ([], buf)"
| "drain step (Suc n) buf =
     (case step buf of
        (_, Inl e) \<Rightarrow> Inl e
      | (buf', Inr None) \<Rightarrow> Inr ([], buf')
      | (buf', Inr (Some m)) \<Rightarrow>
          (case drain step n buf' of Inl e \<Rightarrow> Inl e | Inr (ms, buf'') \<Rightarrow> Inr (m # ms, buf'')))"

fun feed_all :: "(bytes \<Rightarrow> bytes \<times> ('e + 'm option)) \<Rightarrow> bytes \<Rightarrow> bytes list \<Rightarrow> 'e + 'm list \<times> bytes" where
  "feed_all step buf [] = Inr ([], buf)"
| "feed_all step buf (c # cs) =
     (case drain step (length (buf @ c)) (buf @ c) of
        Inl e \<Rightarrow> Inl e
      | Inr (ms, buf') \<Rightarrow> (case feed_all step buf' cs of Inl e \<Rightarrow> Inl e | Inr (ms', b) \<Rightarrow> Inr (ms @ ms', b)))"

text \<open>
  The contract is about one message at the front of the buffer: whole, it comes off and leaves the
  rest; cut short, the codec waits and keeps the bytes. The client's gain: a stream of messages
  is read back in order however the transport fragments it.
\<close>

locale stream_codec =
  fixes enc :: "'m \<Rightarrow> bytes"
    and step :: "bytes \<Rightarrow> bytes \<times> ('e + 'm option)"
    and ok :: "'m \<Rightarrow> bool"
  assumes enc_nonempty: "ok m \<Longrightarrow> enc m \<noteq> []"
    and step_whole: "ok m \<Longrightarrow> step (enc m @ rest) = (rest, Inr (Some m))"
    and step_cut: "ok m \<Longrightarrow> strict_prefix p (enc m) \<Longrightarrow> step p = (p, Inr None)"
    and step_empty: "step [] = ([], Inr None)"
begin

lemma drain_stream:
  assumes "\<forall>m \<in> set ms. ok m" "prefix buf (concat (map enc ms))" "length buf \<le> n"
  shows "\<exists>xs ys q. ms = xs @ ys \<and> drain step n buf = Inr (xs, q) \<and> buf = concat (map enc xs) @ q \<and>
    (ys = [] \<and> q = [] \<or> ys \<noteq> [] \<and> strict_prefix q (enc (hd ys)))"
  using assms
proof (induction ms arbitrary: buf n)
  case Nil
  then show ?case by (cases n) (simp_all add: step_empty)
next
  case (Cons m ms)
  then have m: "ok m" "enc m \<noteq> []" using enc_nonempty by simp_all
  from Cons.prems(2) consider "strict_prefix buf (enc m)"
    | r where "buf = enc m @ r" "prefix r (concat (map enc ms))"
    by (cases "buf = enc m") (auto simp: prefix_append strict_prefix_def)
  then show ?case
  proof cases
    case 1
    then have "drain step n buf = Inr ([], buf)"
      using Cons.prems(3) m by (cases n) (simp_all add: step_cut)
    then have "m # ms = [] @ (m # ms) \<and> drain step n buf = Inr ([], buf) \<and> buf = concat (map enc []) @ buf \<and>
        (m # ms = [] \<and> buf = [] \<or> m # ms \<noteq> [] \<and> strict_prefix buf (enc (hd (m # ms))))"
      using 1 by simp
    then show ?thesis by blast
  next
    case 2
    then obtain k where n: "n = Suc k" "length r \<le> k"
      using Cons.prems(3) m by (cases n; cases "enc m") auto
    from Cons.IH[OF _ 2(2) n(2)] Cons.prems(1) obtain xs ys q where
      "ms = xs @ ys" "drain step k r = Inr (xs, q)" "r = concat (map enc xs) @ q"
      "ys = [] \<and> q = [] \<or> ys \<noteq> [] \<and> strict_prefix q (enc (hd ys))" by auto
    then have "m # ms = (m # xs) @ ys \<and> drain step n buf = Inr (m # xs, q) \<and> buf = concat (map enc (m # xs)) @ q \<and>
        (ys = [] \<and> q = [] \<or> ys \<noteq> [] \<and> strict_prefix q (enc (hd ys)))"
      using m 2(1) n(1) by (simp add: step_whole)
    then show ?thesis by blast
  qed
qed

lemma step_buffered:
  assumes "\<forall>m \<in> set ms. ok m" "buf @ ahead = concat (map enc ms)"
  obtains (waiting) "step buf = (buf, Inr None)" "ms = [] \<or> ahead \<noteq> []"
    | (whole) m ms' rest where "ms = m # ms'" "buf = enc m @ rest" "step buf = (rest, Inr (Some m))"
      "rest @ ahead = concat (map enc ms')"
proof (cases ms)
  case Nil
  then show ?thesis using assms waiting by (simp add: step_empty)
next
  case (Cons m ms')
  then have m: "ok m" "buf @ ahead = enc m @ concat (map enc ms')" using assms by simp_all
  show ?thesis
  proof (cases "prefix (enc m) buf")
    case True
    then obtain rest where rest: "buf = enc m @ rest" by (auto simp: prefix_def)
    then show ?thesis using whole[OF Cons rest] m by (simp add: step_whole)
  next
    case False
    then have "strict_prefix buf (enc m)"
      using m(2) by (metis append_eq_append_conv2 prefixI strict_prefixI' prefix_order.less_le)
    moreover from False m(2) have "ahead \<noteq> []" by auto
    ultimately show ?thesis using waiting m(1) by (simp add: step_cut)
  qed
qed

lemma feed_all_from:
  assumes "\<forall>m \<in> set ms. ok m" "buf @ concat cs = concat (map enc ms)"
    and "ms = [] \<and> buf = [] \<or> ms \<noteq> [] \<and> strict_prefix buf (enc (hd ms))"
  shows "feed_all step buf cs = Inr (ms, [])"
  using assms
proof (induction cs arbitrary: buf ms)
  case Nil
  then show ?case by (cases ms) (auto simp: strict_prefix_def)
next
  case (Cons c cs)
  have "prefix (buf @ c) (concat (map enc ms))" using Cons.prems(2) by (auto simp: prefix_def intro!: exI[of _ "concat cs"])
  from drain_stream[OF Cons.prems(1) this order_refl] obtain xs ys q where
    d: "ms = xs @ ys" "drain step (length (buf @ c)) (buf @ c) = Inr (xs, q)" "buf @ c = concat (map enc xs) @ q"
      "ys = [] \<and> q = [] \<or> ys \<noteq> [] \<and> strict_prefix q (enc (hd ys))" by blast
  have "q @ concat cs = concat (map enc ys)"
  proof -
    have "concat (map enc xs) @ q @ concat cs = (buf @ c) @ concat cs" using d(3) by simp
    also have "\<dots> = concat (map enc xs) @ concat (map enc ys)" using Cons.prems(2) d(1) by simp
    finally show ?thesis by simp
  qed
  from Cons.IH[OF _ this d(4)] Cons.prems(1) d show ?case by simp
qed

lemma any_fragmentation:
  "\<forall>m \<in> set ms. ok m \<Longrightarrow> concat cs = concat (map enc ms) \<Longrightarrow> feed_all step [] cs = Inr (ms, [])"
  using feed_all_from[of ms "[]" cs] enc_nonempty[of "hd ms"]
  by (cases ms; cases "enc (hd ms)") auto

end

end
