(* ===== verification/Text.thy ===== *)
theory Text
  imports Prelude
begin

text \<open>
  The string functions of Rust's standard library that several components use: UTF-8 encoding,
  checked and lossy decoding, splitting, and decimal numbers. A string is the list of its code
  points; bytes are its UTF-8 form.
\<close>

section \<open>UTF-8\<close>

definition in_range :: "u8 \<Rightarrow> u8 \<Rightarrow> u8 \<Rightarrow> bool" where
  "in_range lo hi b \<longleftrightarrow> lo \<le> b \<and> b \<le> hi"

definition cont_byte :: "u8 \<Rightarrow> bool" where
  "cont_byte b \<longleftrightarrow> b AND 0xC0 = 0x80"

text \<open>The \<open>i\<close>-th byte, zero past the end.\<close>

definition safe_get :: "bytes \<Rightarrow> nat \<Rightarrow> u8" where
  "safe_get xs i = (if i < length xs then xs ! i else 0)"

definition second_ok :: "u8 \<Rightarrow> u8 \<Rightarrow> bool" where
  "second_ok b c \<longleftrightarrow>
     (if b = 0xE0 then in_range 0xA0 0xBF c
      else if b = 0xED then in_range 0x80 0x9F c
      else if b = 0xF0 then in_range 0x90 0xBF c
      else if b = 0xF4 then in_range 0x80 0x8F c
      else in_range 0x80 0xBF c)"

definition utf8_char_width :: "u8 \<Rightarrow> nat" where
  "utf8_char_width b =
     (if b < 0x80 then 1 else if in_range 0xC2 0xDF b then 2
      else if in_range 0xE0 0xEF b then 3 else if in_range 0xF0 0xF4 b then 4 else 0)"

text \<open>One step over non-empty input: whether a character starts here, and the bytes it or the broken sequence takes.\<close>

definition utf8_step :: "bytes \<Rightarrow> bool \<times> nat" where
  "utf8_step xs =
     (let b = safe_get xs 0; w = utf8_char_width b in
      if w = 1 then (True, 1)
      else if w = 2 then (if cont_byte (safe_get xs 1) then (True, 2) else (False, 1))
      else if w = 3 then
        (if \<not> second_ok b (safe_get xs 1) then (False, 1)
         else if \<not> cont_byte (safe_get xs 2) then (False, 2) else (True, 3))
      else if w = 4 then
        (if \<not> second_ok b (safe_get xs 1) then (False, 1)
         else if \<not> cont_byte (safe_get xs 2) then (False, 2)
         else if \<not> cont_byte (safe_get xs 3) then (False, 3) else (True, 4))
      else (False, 1))"

lemma utf8_step_used: "0 < snd (utf8_step xs)"
  by (simp add: utf8_step_def Let_def)

function utf8_lossy :: "bytes \<Rightarrow> bytes" where
  "utf8_lossy xs =
     (if xs = [] then []
      else let (ok, n) = utf8_step xs
           in (if ok then take n xs else [0xEF, 0xBF, 0xBD]) @ utf8_lossy (drop n xs))"
  by pat_completeness auto
termination
  by (relation "measure length") (use utf8_step_used in \<open>auto simp: prod_eq_iff intro!: diff_less\<close>)

declare utf8_lossy.simps [simp del]

function utf8_valid :: "bytes \<Rightarrow> bool" where
  "utf8_valid xs =
     (if xs = [] then True else let (ok, n) = utf8_step xs in ok \<and> utf8_valid (drop n xs))"
  by pat_completeness auto
termination
  by (relation "measure length") (use utf8_step_used in \<open>auto simp: prod_eq_iff intro!: diff_less\<close>)

declare utf8_valid.simps [simp del]

text \<open>The UTF-8 form of one code point, and of a string.\<close>

definition utf8_char :: "uchar \<Rightarrow> bytes" where
  "utf8_char c =
     (if c < 0x80 then [of_nat c]
      else if c < 0x800 then [of_nat (0xC0 + c div 64), of_nat (0x80 + c mod 64)]
      else if c < 0x10000 then
        [of_nat (0xE0 + c div 4096), of_nat (0x80 + c div 64 mod 64), of_nat (0x80 + c mod 64)]
      else [of_nat (0xF0 + c div 262144), of_nat (0x80 + c div 4096 mod 64),
            of_nat (0x80 + c div 64 mod 64), of_nat (0x80 + c mod 64)])"

definition as_bytes :: "str \<Rightarrow> bytes" where
  "as_bytes s = concat (map utf8_char s)"

text \<open>The code point in the first \<open>n\<close> bytes, which form a character.\<close>

definition char_of :: "nat \<Rightarrow> bytes \<Rightarrow> uchar" where
  "char_of n xs =
     (if n = 1 then unat (xs ! 0)
      else if n = 2 then (unat (xs ! 0) - 0xC0) * 64 + (unat (xs ! 1) - 0x80)
      else if n = 3 then (unat (xs ! 0) - 0xE0) * 4096 + (unat (xs ! 1) - 0x80) * 64 + (unat (xs ! 2) - 0x80)
      else (unat (xs ! 0) - 0xF0) * 262144 + (unat (xs ! 1) - 0x80) * 4096 + (unat (xs ! 2) - 0x80) * 64 +
           (unat (xs ! 3) - 0x80))"

text \<open>\<open>str::from_utf8\<close>: \<open>None\<close> on bytes that are not UTF-8.\<close>

function from_utf8 :: "bytes \<Rightarrow> str option" where
  "from_utf8 xs =
     (if xs = [] then Some []
      else let (ok, n) = utf8_step xs
           in if ok then map_option (Cons (char_of n xs)) (from_utf8 (drop n xs)) else None)"
  by pat_completeness auto
termination
  by (relation "measure length") (use utf8_step_used in \<open>auto simp: prod_eq_iff intro!: diff_less\<close>)

declare from_utf8.simps [simp del]

lemma utf8_step_ascii: "b < 0x80 \<Longrightarrow> utf8_step (b # xs) = (True, 1)"
  by (simp add: utf8_step_def utf8_char_width_def safe_get_def Let_def)

lemma utf8_lossy_ascii: "(\<forall>b \<in> set xs. b < 0x80) \<Longrightarrow> utf8_lossy xs = xs"
proof (induction xs)
  case (Cons b bs)
  then show ?case by (simp add: utf8_lossy.simps[of "b # bs"] utf8_step_ascii)
qed (simp add: utf8_lossy.simps)

text \<open>Unicode scalar values: what a Rust \<open>char\<close> can hold.\<close>

definition scalar :: "uchar \<Rightarrow> bool" where
  "scalar c \<longleftrightarrow> c < 0x110000 \<and> \<not> (0xD800 \<le> c \<and> c \<le> 0xDFFF)"

lemma and_high_bits: "(b :: u8) AND 0xC0 = push_bit 6 (drop_bit 6 b)"
proof (rule bit_word_eqI)
  fix n :: nat
  assume "n < LENGTH(8)"
  then have "n \<in> {0, 1, 2, 3, 4, 5, 6, 7}" by auto
  then show "bit (b AND 0xC0) n = bit (push_bit 6 (drop_bit 6 b)) n"
    by (elim insertE emptyE) (simp_all add: bit_simps)
qed

lemma cont_byte_range: "0x80 \<le> unat b \<Longrightarrow> unat b < 0xC0 \<Longrightarrow> cont_byte b"
proof -
  assume "0x80 \<le> unat b" "unat b < 0xC0"
  then have "unat b div 64 = 2" by (simp add: div_nat_eqI)
  then have "unat (drop_bit 6 b) = unat (2 :: u8)" by (simp add: drop_bit_eq_div unat_div_distrib)
  then have "drop_bit 6 b = 2" by (rule unsigned_word_eqI)
  then show ?thesis by (simp add: cont_byte_def and_high_bits)
qed

lemma unat_small: "n < 256 \<Longrightarrow> unat (of_nat n :: u8) = n"
  by (simp add: unat_of_nat take_bit_nat_eq_self)

lemma in_range_of_nat: "n < 256 \<Longrightarrow> in_range lo hi (of_nat n) \<longleftrightarrow> unat lo \<le> n \<and> n \<le> unat hi"
  by (simp add: in_range_def word_le_nat_alt unat_small)

lemma of_nat_byte_eq: "n < 256 \<Longrightarrow> (of_nat n :: u8) = b \<longleftrightarrow> n = unat b"
  by (metis unat_small of_nat_unat ucast_id)

lemma cont_of_nat: "k < 64 \<Longrightarrow> cont_byte (of_nat (0x80 + k))"
  by (rule cont_byte_range) (simp_all only: unat_small)

lemma utf8_step_char:
  assumes "scalar c"
  shows "utf8_step (utf8_char c @ rest) = (True, length (utf8_char c))"
proof -
  consider "c < 0x80" | "0x80 \<le> c" "c < 0x800" | "0x800 \<le> c" "c < 0x10000" | "0x10000 \<le> c" "c < 0x110000"
    using assms by (fastforce simp: scalar_def)
  then show ?thesis
  proof cases
    case 1
    then have "(of_nat c :: u8) < 0x80" by (simp add: word_less_nat_alt unat_small)
    then show ?thesis using 1 by (simp add: utf8_char_def utf8_step_ascii)
  next
    case 2
    then have "2 \<le> c div 64" "c div 64 < 32" by auto
    then have "utf8_char_width (of_nat (0xC0 + c div 64)) = 2"
      by (simp only: utf8_char_width_def in_range_of_nat word_less_nat_alt unat_small) simp
    moreover have "cont_byte (of_nat (0x80 + c mod 64))" by (rule cont_of_nat) simp
    ultimately show ?thesis using 2 by (simp add: utf8_char_def utf8_step_def safe_get_def Let_def)
  next
    case 3
    have lead: "c div 4096 < 16" using 3 by auto
    then have w: "utf8_char_width (of_nat (0xE0 + c div 4096)) = 3"
      by (simp only: utf8_char_width_def in_range_of_nat word_less_nat_alt unat_small) simp
    have conts: "cont_byte (of_nat (0x80 + c mod 64))" by (rule cont_of_nat) simp
    have mid: "c div 64 mod 64 < 64" by simp
    have split: "c div 64 = 64 * (c div 4096) + c div 64 mod 64" 
      using mult_div_mod_eq[of 64 "c div 64"] div_mult2_eq[of c 64 64] by simp
    have "second_ok (of_nat (0xE0 + c div 4096)) (of_nat (0x80 + c div 64 mod 64))"
    proof -
      have "c div 4096 = 0 \<Longrightarrow> 0x20 \<le> c div 64 mod 64" using 3 split by linarith
      moreover have "c div 4096 = 13 \<Longrightarrow> c div 64 mod 64 < 0x20" using assms 3 split by (auto simp: scalar_def)
      ultimately show ?thesis
        using lead mid by (simp only: second_ok_def of_nat_byte_eq in_range_of_nat) auto
    qed
    then show ?thesis using 3 w conts by (simp add: utf8_char_def utf8_step_def safe_get_def Let_def)
  next
    case 4
    have lead: "c div 262144 < 5" using 4 by auto
    then have w: "utf8_char_width (of_nat (0xF0 + c div 262144)) = 4"
      by (simp only: utf8_char_width_def in_range_of_nat word_less_nat_alt unat_small) simp
    have conts: "cont_byte (of_nat (0x80 + c mod 64))" "cont_byte (of_nat (0x80 + c div 64 mod 64))"
      by (rule cont_of_nat, simp)+
    have mid: "c div 4096 mod 64 < 64" by simp
    have split: "c div 4096 = 64 * (c div 262144) + c div 4096 mod 64"
      using mult_div_mod_eq[of 64 "c div 4096"] div_mult2_eq[of c 4096 64] by simp
    have "second_ok (of_nat (0xF0 + c div 262144)) (of_nat (0x80 + c div 4096 mod 64))"
    proof -
      have "c div 262144 = 0 \<Longrightarrow> 0x10 \<le> c div 4096 mod 64" using 4 split by linarith
      moreover have "c div 262144 = 4 \<Longrightarrow> c div 4096 mod 64 < 0x10" using 4 split by linarith
      ultimately show ?thesis
        using lead mid by (simp only: second_ok_def of_nat_byte_eq in_range_of_nat) auto
    qed
    then show ?thesis using 4 w conts by (simp add: utf8_char_def utf8_step_def safe_get_def Let_def)
  qed
qed

lemma unat_cont_mod: "unat (of_nat (0x80 + k mod 64) :: u8) = 0x80 + k mod 64"
  by (rule unat_small) (use mod_less_divisor[of 64 k] in linarith)

lemma char_of_char:
  assumes "scalar c"
  shows "char_of (length (utf8_char c)) (utf8_char c @ rest) = c"
proof -
  consider "c < 0x80" | "0x80 \<le> c" "c < 0x800" | "0x800 \<le> c" "c < 0x10000" | "0x10000 \<le> c" "c < 0x110000"
    using assms by (fastforce simp: scalar_def)
  then show ?thesis
  proof cases
    case 1
    then show ?thesis by (simp add: utf8_char_def char_of_def unat_small)
  next
    case 2
    then have "0xC0 + c div 64 < 256" by auto
    then show ?thesis using 2 unat_small[of "0xC0 + c div 64"]
      by (simp add: utf8_char_def char_of_def unat_cont_mod del: of_nat_add)
  next
    case 3
    then have "0xE0 + c div 4096 < 256" by auto
    moreover have "(c div 4096) * 4096 + (c div 64 mod 64) * 64 + c mod 64 = c"
      using mult_div_mod_eq[of 64 "c div 64"] mult_div_mod_eq[of 64 c] div_mult2_eq[of c 64 64, simplified] by linarith
    ultimately show ?thesis
      using 3 unat_small[of "0xE0 + c div 4096"]
      by (simp add: utf8_char_def char_of_def unat_cont_mod del: of_nat_add)
  next
    case 4
    then have "0xF0 + c div 262144 < 256" by auto
    moreover have "(c div 262144) * 262144 + (c div 4096 mod 64) * 4096 + (c div 64 mod 64) * 64 + c mod 64 = c"
      using mult_div_mod_eq[of 64 "c div 4096"] mult_div_mod_eq[of 64 "c div 64"] mult_div_mod_eq[of 64 c]
        div_mult2_eq[of c 64 64, simplified] div_mult2_eq[of c 4096 64, simplified] by linarith
    ultimately show ?thesis
      using 4 unat_small[of "0xF0 + c div 262144"]
      by (simp add: utf8_char_def char_of_def unat_cont_mod del: of_nat_add)
  qed
qed

lemma utf8_char_nonempty [simp]: "utf8_char c \<noteq> []"
  by (simp add: utf8_char_def)

lemma from_utf8_char: "scalar c \<Longrightarrow> from_utf8 (utf8_char c @ xs) = map_option (Cons c) (from_utf8 xs)"
  by (simp add: from_utf8.simps[of "utf8_char c @ xs"] utf8_step_char char_of_char)

lemma from_utf8_as_bytes: "list_all scalar s \<Longrightarrow> from_utf8 (as_bytes s) = Some s"
  by (induction s) (simp_all add: as_bytes_def from_utf8_char from_utf8.simps[of "[]"])

section \<open>Splitting\<close>

text \<open>\<open>split_once\<close>: what is before and after the first occurrence of a character.\<close>

fun split_once :: "uchar \<Rightarrow> str \<Rightarrow> (str \<times> str) option" where
  "split_once c [] = None"
| "split_once c (x # xs) = (if x = c then Some ([], xs) else map_option (apfst (Cons x)) (split_once c xs))"

lemma split_once_first: "c \<notin> set s \<Longrightarrow> split_once c (s @ c # t) = Some (s, t)"
  by (induction s) auto

lemma split_once_None: "split_once c s = None \<longleftrightarrow> c \<notin> set s"
  by (induction s) auto

text \<open>\<open>split(c)\<close>\<close>

fun split_on :: "uchar \<Rightarrow> str \<Rightarrow> str list" where
  "split_on c [] = [[]]"
| "split_on c (x # xs) =
     (if x = c then [] # split_on c xs
      else case split_on c xs of s # ss \<Rightarrow> (x # s) # ss | [] \<Rightarrow> [[x]])"

lemma split_on_segments: "s \<in> set (split_on c p) \<Longrightarrow> c \<notin> set s \<and> set s \<subseteq> set p"
proof (induction p arbitrary: s)
  case (Cons x xs)
  then show ?case by (auto split: if_splits list.splits) blast+
qed simp

lemma split_on_nonempty: "split_on c p \<noteq> []"
  by (cases p) (auto split: list.splits)

definition strip_prefix :: "str \<Rightarrow> str \<Rightarrow> str option" where
  "strip_prefix p s = (if take (length p) s = p then Some (drop (length p) s) else None)"

lemma strip_prefix_append [simp]: "strip_prefix p (p @ s) = Some s"
  by (simp add: strip_prefix_def)

function split_whitespace :: "str \<Rightarrow> str list" where
  "split_whitespace s =
     (let s = dropWhile is_whitespace s in
      if s = [] then []
      else takeWhile (\<lambda>c. \<not> is_whitespace c) s # split_whitespace (dropWhile (\<lambda>c. \<not> is_whitespace c) s))"
  by pat_completeness auto
termination
proof (relation "measure length", goal_cases)
  case (2 s t)
  then have "t \<noteq> []" "\<not> is_whitespace (hd t)" "length t \<le> length s"
    by (auto simp: length_dropWhile_le hd_dropWhile)
  then show ?case using length_dropWhile_le[of "\<lambda>c. \<not> is_whitespace c" "tl t"] by (cases t) auto
qed simp

declare split_whitespace.simps [simp del]

text \<open>A word: not empty, no white space in it.\<close>

definition word_text :: "str \<Rightarrow> bool" where
  "word_text w \<longleftrightarrow> w \<noteq> [] \<and> \<not> list_ex is_whitespace w"

lemma split_whitespace_word:
  assumes "word_text w" "rest = [] \<or> is_whitespace (hd rest)"
  shows "split_whitespace (w @ rest) = w # split_whitespace rest"
proof -
  have no: "\<forall>c \<in> set w. \<not> is_whitespace c" and "w \<noteq> []" using assms(1) by (auto simp: word_text_def list_ex_iff)
  then have "dropWhile is_whitespace (w @ rest) = w @ rest" by (cases w) auto
  moreover have "takeWhile (\<lambda>c. \<not> is_whitespace c) (w @ rest) = w" "dropWhile (\<lambda>c. \<not> is_whitespace c) (w @ rest) = rest"
    using no assms(2) by (cases rest; simp add: takeWhile_append2 dropWhile_append2)+
  ultimately show ?thesis using \<open>w \<noteq> []\<close> by (simp add: split_whitespace.simps[of "w @ rest"])
qed

lemma split_whitespace_Nil [simp]: "split_whitespace [] = []"
  by (simp add: split_whitespace.simps)

lemma split_whitespace_blank: "is_whitespace c \<Longrightarrow> split_whitespace (c # s) = split_whitespace s"
  by (simp add: split_whitespace.simps[of "c # s"] split_whitespace.simps[of s])

text \<open>\<open>join(" ")\<close>\<close>

fun join_blank :: "str list \<Rightarrow> str" where
  "join_blank [] = []"
| "join_blank [w] = w"
| "join_blank (w # ws) = w @ 32 # join_blank ws"

lemma is_whitespace_blank [simp]: "is_whitespace 32"
  by (simp add: is_whitespace_def)

lemma split_join_blank: "\<forall>w \<in> set ws. word_text w \<Longrightarrow> split_whitespace (join_blank ws) = ws"
proof (induction ws rule: join_blank.induct)
  case (2 w)
  then show ?case using split_whitespace_word[of w "[]"] by simp
next
  case (3 w v ws)
  then show ?case using split_whitespace_word[of w "32 # join_blank (v # ws)"] by (simp add: split_whitespace_blank)
qed simp

section \<open>Decimal numbers\<close>

function decimal :: "nat \<Rightarrow> str" where
  "decimal n = (if n < 10 then [48 + n] else decimal (n div 10) @ [48 + n mod 10])"
  by pat_completeness auto
termination by (relation "measure id") auto

declare decimal.simps [simp del]

definition decimal_digit :: "uchar \<Rightarrow> nat option" where
  "decimal_digit c = (if 48 \<le> c \<and> c \<le> 57 then Some (c - 48) else None)"

fun parse_decimal :: "nat \<Rightarrow> nat \<Rightarrow> str \<Rightarrow> nat option" where
  "parse_decimal bound acc [] = Some acc"
| "parse_decimal bound acc (c # cs) =
     (case decimal_digit c of
        None \<Rightarrow> None
      | Some d \<Rightarrow> if acc * 10 + d > bound then None else parse_decimal bound (acc * 10 + d) cs)"

text \<open>\<open>parse::<u16>()\<close> and its kin: an optional plus sign, at least one digit, no overflow.\<close>

definition parse_unsigned :: "nat \<Rightarrow> str \<Rightarrow> nat option" where
  "parse_unsigned bound s =
     (let ds = (case s of c # cs \<Rightarrow> if c = 43 then cs else s | [] \<Rightarrow> []) in
      if ds = [] then None else parse_decimal bound 0 ds)"

lemma parse_decimal_append:
  "parse_decimal b acc (xs @ ys) = Option.bind (parse_decimal b acc xs) (\<lambda>a. parse_decimal b a ys)"
  by (induction xs arbitrary: acc) (auto split: option.splits)

lemma decimal_digits: "decimal n \<noteq> [] \<and> (\<forall>c \<in> set (decimal n). 48 \<le> c \<and> c \<le> 57)"
proof (induction n rule: decimal.induct)
  case (1 n)
  then show ?case by (auto simp: decimal.simps[of n])
qed

lemma parse_decimal_decimal: "n \<le> b \<Longrightarrow> parse_decimal b 0 (decimal n) = Some n"
proof (induction n rule: decimal.induct)
  case (1 n)
  then show ?case
    by (cases "n < 10") (simp_all add: decimal.simps[of n] decimal_digit_def parse_decimal_append)
qed

lemma parse_unsigned_decimal: "n \<le> b \<Longrightarrow> parse_unsigned b (decimal n) = Some n"
  using decimal_digits[of n] parse_decimal_decimal[of n b]
  by (cases "decimal n") (auto simp: parse_unsigned_def)

lemma decimal_word [simp]: "word_text (decimal n)"
proof -
  have "\<not> is_whitespace c" if "48 \<le> c" "c \<le> 57" for c using that by (auto simp: is_whitespace_def)
  then show ?thesis using decimal_digits[of n] by (auto simp: word_text_def list_ex_iff)
qed

end
