(* ===== verification/Zmodem_File.thy ===== *)
theory Zmodem_File
  imports Wire Text
begin

text \<open>
  The ZFILE information block (\<open>crates/legacy-zmodem/src/zfile.rs\<close>): file name and positional
  metadata. A Rust \<open>String\<close> is its UTF-8 bytes here; \<open>from_utf8\<close>, \<open>from_utf8_lossy\<close>, decimal and
  octal formatting, \<open>from_str_radix\<close> and \<open>split_ascii_whitespace\<close> of the standard library are
  written out for the uses the code makes of them. The main result: what \<open>encode\<close> emits, \<open>decode\<close>
  reads back, with the positional gaps filled by zero as documented.
\<close>

section \<open>Numbers and fields\<close>

definition digit_byte :: "nat \<Rightarrow> u8" where
  "digit_byte d = of_nat (48 + d)"

text \<open>Formatting in radix \<open>r\<close>, most significant digit first.\<close>

function digits :: "nat \<Rightarrow> nat \<Rightarrow> bytes" where
  "digits r n = (if r < 2 \<or> n < r then [digit_byte n] else digits r (n div r) @ [digit_byte (n mod r)])"
  by pat_completeness auto
termination
  by (relation "measure snd") auto

declare digits.simps [simp del]

definition to_digit :: "nat \<Rightarrow> u8 \<Rightarrow> nat option" where
  "to_digit r b = (if 48 \<le> b \<and> b \<le> 57 \<and> unat b - 48 < r then Some (unat b - 48) else None)"

fun parse_digits :: "nat \<Rightarrow> nat \<Rightarrow> bytes \<Rightarrow> nat option" where
  "parse_digits r acc [] = Some acc"
| "parse_digits r acc (b # bs) =
     (case to_digit r b of
        None \<Rightarrow> None
      | Some d \<Rightarrow> if acc * r + d > U64_MAX then None else parse_digits r (acc * r + d) bs)"

definition from_str_radix :: "nat \<Rightarrow> bytes \<Rightarrow> u64 option" where
  "from_str_radix r s =
     (if s = [] \<or> s = [43] \<or> s = [45] then None
      else map_option of_nat (parse_digits r 0 (if hd s = 43 then tl s else s)))"

definition is_ascii_ws :: "u8 \<Rightarrow> bool" where
  "is_ascii_ws b \<longleftrightarrow> b \<in> {0x09, 0x0A, 0x0C, 0x0D, 0x20}"

function split_ascii_whitespace :: "bytes \<Rightarrow> bytes list" where
  "split_ascii_whitespace s =
     (let s = dropWhile is_ascii_ws s in
      if s = [] then []
      else takeWhile (\<lambda>b. \<not> is_ascii_ws b) s # split_ascii_whitespace (dropWhile (\<lambda>b. \<not> is_ascii_ws b) s))"
  by pat_completeness auto
termination
proof (relation "measure length", goal_cases)
  case (2 s t)
  then have "t \<noteq> []" "\<not> is_ascii_ws (hd t)" "length t \<le> length s"
    by (auto simp: length_dropWhile_le hd_dropWhile)
  then have "dropWhile (\<lambda>b. \<not> is_ascii_ws b) t = dropWhile (\<lambda>b. \<not> is_ascii_ws b) (tl t)"
    by (cases t) auto
  then show ?case
    using \<open>t \<noteq> []\<close> \<open>length t \<le> length s\<close> length_dropWhile_le[of "\<lambda>b. \<not> is_ascii_ws b" "tl t"]
    by (cases t) auto
qed simp

declare split_ascii_whitespace.simps [simp del]

section \<open>The block\<close>

datatype zfield = FLength | FMtime | FMode | FSerial

datatype file_info_error =
    MissingNameTerminator | EmptyName | NameNotUtf8 | BadField zfield bytes | NameContainsNul

record file_info =
  fname :: bytes
  flength :: "u64 option"
  mtime :: "u64 option"
  mode :: "u32 option"
  serial :: "u32 option"

definition new_file_info :: "bytes \<Rightarrow> file_info" where
  "new_file_info n = \<lparr>fname = n, flength = None, mtime = None, mode = None, serial = None\<rparr>"

definition info_fields :: "file_info \<Rightarrow> bytes option list" where
  "info_fields f =
     [map_option (\<lambda>v. digits 10 (unat v)) (flength f), map_option (\<lambda>v. digits 8 (unat v)) (mtime f),
      map_option (\<lambda>v. digits 8 (unat v)) (mode f), map_option (\<lambda>v. digits 8 (unat v)) (serial f)]"

text \<open>\<open>rposition\<close>: the index of the last element that satisfies the test.\<close>

fun rposition :: "('a \<Rightarrow> bool) \<Rightarrow> 'a list \<Rightarrow> nat option" where
  "rposition P [] = None"
| "rposition P (x # xs) =
     (case rposition P xs of Some i \<Rightarrow> Some (i + 1) | None \<Rightarrow> if P x then Some 0 else None)"

fun join_fields :: "bytes list \<Rightarrow> bytes" where
  "join_fields [] = []"
| "join_fields [x] = x"
| "join_fields (x # xs) = x @ 0x20 # join_fields xs"

definition field_text :: "bytes option \<Rightarrow> bytes" where
  "field_text f = (case f of Some t \<Rightarrow> t | None \<Rightarrow> [0x30])"

definition encode_info :: "file_info \<Rightarrow> file_info_error + bytes" where
  "encode_info f =
     (if fname f = [] then Inl EmptyName
      else if 0 \<in> set (fname f) then Inl NameContainsNul
      else
        let fields = info_fields f;
            info = (case rposition (\<lambda>x. x \<noteq> None) fields of
                      None \<Rightarrow> []
                    | Some l \<Rightarrow> join_fields (map field_text (take (l + 1) fields)))
        in Inr (fname f @ [0] @ info @ [0]))"

definition parse_field :: "bytes option \<Rightarrow> zfield \<Rightarrow> nat \<Rightarrow> file_info_error + u64 option" where
  "parse_field text field radix =
     (case text of
        None \<Rightarrow> Inr None
      | Some t \<Rightarrow> (case from_str_radix radix t of
                     Some v \<Rightarrow> Inr (Some v)
                   | None \<Rightarrow> Inl (BadField field t)))"

definition nth_field :: "bytes list \<Rightarrow> nat \<Rightarrow> bytes option" where
  "nth_field fs i = (if i < length fs then Some (fs ! i) else None)"

definition decode_info :: "bytes \<Rightarrow> file_info_error + file_info" where
  "decode_info data =
     (let nul = length (takeWhile (\<lambda>b. b \<noteq> 0) data) in
      if nul = length data then Inl MissingNameTerminator
      else if nul = 0 then Inl EmptyName
      else if \<not> utf8_valid (take nul data) then Inl NameNotUtf8
      else
        let rest = drop (nul + 1) data;
            fields = split_ascii_whitespace (utf8_lossy (takeWhile (\<lambda>b. b \<noteq> 0) rest))
        in case parse_field (nth_field fields 0) FLength 10 of Inl e \<Rightarrow> Inl e | Inr l \<Rightarrow>
           case parse_field (nth_field fields 1) FMtime 8 of Inl e \<Rightarrow> Inl e | Inr m \<Rightarrow>
           case parse_field (nth_field fields 2) FMode 8 of Inl e \<Rightarrow> Inl e | Inr d \<Rightarrow>
           case parse_field (nth_field fields 3) FSerial 8 of Inl e \<Rightarrow> Inl e | Inr s \<Rightarrow>
             Inr \<lparr>fname = take nul data, flength = l, mtime = m, mode = map_option ucast d,
                  serial = map_option ucast s\<rparr>)"

section \<open>Reading back what was written\<close>

lemma digit_byte_range: "d < 10 \<Longrightarrow> unat (digit_byte d) = 48 + d"
  by (simp add: digit_byte_def unat_of_nat take_bit_nat_eq_self del: of_nat_add)

lemma digit_byte_parses: "d < r \<Longrightarrow> r \<le> 10 \<Longrightarrow> to_digit r (digit_byte d) = Some d"
  by (simp add: to_digit_def digit_byte_range word_le_nat_alt)

lemma parse_digits_append:
  "parse_digits r acc (xs @ ys) = Option.bind (parse_digits r acc xs) (\<lambda>a. parse_digits r a ys)"
  by (induction xs arbitrary: acc) (auto split: option.splits)

lemma parse_digits_format: "2 \<le> r \<Longrightarrow> r \<le> 10 \<Longrightarrow> n \<le> U64_MAX \<Longrightarrow> parse_digits r 0 (digits r n) = Some n"
proof (induction r n rule: digits.induct)
  case (1 r n)
  show ?case
  proof (cases "n < r")
    case True
    then show ?thesis using 1 by (simp add: digits.simps digit_byte_parses)
  next
    case False
    have "n div r \<le> U64_MAX" using 1(4) by (meson div_le_dividend order_trans)
    then have "parse_digits r 0 (digits r (n div r)) = Some (n div r)" using 1 False by simp
    then show ?thesis
      using False 1(2-4) by (simp add: digits.simps[of r n] parse_digits_append digit_byte_parses)
  qed
qed

lemma digits_bytes: "2 \<le> r \<Longrightarrow> r \<le> 10 \<Longrightarrow> digits r n \<noteq> [] \<and> (\<forall>b \<in> set (digits r n). 48 \<le> unat b \<and> unat b < 58)"
proof (induction r n rule: digits.induct)
  case (1 r n)
  have "n mod r < r" using 1(2) by simp
  then have "n mod r < 10" using 1(3) by simp
  then show ?case using 1 by (auto simp: digits.simps[of r n] digit_byte_range)
qed

lemma from_str_radix_format:
  "2 \<le> r \<Longrightarrow> r \<le> 10 \<Longrightarrow> n \<le> U64_MAX \<Longrightarrow> from_str_radix r (digits r n) = Some (of_nat n)"
proof -
  assume r: "2 \<le> r" "r \<le> 10" "n \<le> U64_MAX"
  obtain b bs where d: "digits r n = b # bs" using digits_bytes[OF r(1,2)] by (cases "digits r n") auto
  then have "48 \<le> unat b" using digits_bytes[OF r(1,2), of n] by simp
  then have "b \<noteq> 43" "b \<noteq> 45" by auto
  then show ?thesis using parse_digits_format[OF r] by (simp add: from_str_radix_def d)
qed

text \<open>A field as it travels: not empty, visible ASCII.\<close>

definition token :: "bytes \<Rightarrow> bool" where
  "token t \<longleftrightarrow> t \<noteq> [] \<and> (\<forall>b \<in> set t. 48 \<le> unat b \<and> unat b < 58)"

lemma token_byte: "48 \<le> unat b \<Longrightarrow> unat b < 58 \<Longrightarrow> \<not> is_ascii_ws b \<and> b \<noteq> 0 \<and> b < 0x80"
  by (auto simp: is_ascii_ws_def word_less_nat_alt)

lemma split_token:
  assumes "token t" "rest = [] \<or> is_ascii_ws (hd rest)"
  shows "split_ascii_whitespace (t @ rest) = t # split_ascii_whitespace rest"
proof -
  have no: "\<forall>b \<in> set t. \<not> is_ascii_ws b" and "t \<noteq> []" using assms(1) token_byte by (auto simp: token_def)
  then have "dropWhile is_ascii_ws (t @ rest) = t @ rest" by (cases t) auto
  moreover have "takeWhile (\<lambda>b. \<not> is_ascii_ws b) (t @ rest) = t" "dropWhile (\<lambda>b. \<not> is_ascii_ws b) (t @ rest) = rest"
    using no assms(2) by (cases rest; simp add: takeWhile_append2 dropWhile_append2)+
  ultimately show ?thesis using \<open>t \<noteq> []\<close> by (simp add: split_ascii_whitespace.simps[of "t @ rest"])
qed

lemma split_blank: "split_ascii_whitespace (0x20 # s) = split_ascii_whitespace s"
  by (simp add: split_ascii_whitespace.simps[of "0x20 # s"] split_ascii_whitespace.simps[of s] is_ascii_ws_def)

lemma split_Nil [simp]: "split_ascii_whitespace [] = []"
  by (simp add: split_ascii_whitespace.simps)

lemma split_join_tokens: "\<forall>t \<in> set ts. token t \<Longrightarrow> split_ascii_whitespace (join_fields ts) = ts"
proof (induction ts rule: join_fields.induct)
  case (2 t)
  then show ?case using split_token[of t "[]"] by simp
next
  case (3 t u ts)
  then show ?case using split_token[of t "0x20 # join_fields (u # ts)"]
    by (simp add: split_blank is_ascii_ws_def)
qed simp

lemma join_fields_bytes: "b \<in> set (join_fields ts) \<Longrightarrow> b = 0x20 \<or> (\<exists>t \<in> set ts. b \<in> set t)"
  by (induction ts rule: join_fields.induct) auto

lemma join_tokens_plain: "\<forall>t \<in> set ts. token t \<Longrightarrow> b \<in> set (join_fields ts) \<Longrightarrow> b \<noteq> 0 \<and> b < 0x80"
  using token_byte by (auto simp: token_def dest!: join_fields_bytes)

lemma decode_tokens:
  assumes "n \<noteq> []" "0 \<notin> set n" "utf8_valid n" "\<forall>t \<in> set ts. token t"
  shows "decode_info (n @ 0 # join_fields ts @ [0]) =
    (case parse_field (nth_field ts 0) FLength 10 of Inl e \<Rightarrow> Inl e | Inr l \<Rightarrow>
     case parse_field (nth_field ts 1) FMtime 8 of Inl e \<Rightarrow> Inl e | Inr m \<Rightarrow>
     case parse_field (nth_field ts 2) FMode 8 of Inl e \<Rightarrow> Inl e | Inr d \<Rightarrow>
     case parse_field (nth_field ts 3) FSerial 8 of Inl e \<Rightarrow> Inl e | Inr s \<Rightarrow>
       Inr \<lparr>fname = n, flength = l, mtime = m, mode = map_option ucast d, serial = map_option ucast s\<rparr>)"
proof -
  have "takeWhile (\<lambda>b. b \<noteq> 0) (n @ 0 # join_fields ts @ [0]) = n" using assms(2) by (auto simp: takeWhile_append)
  moreover have "takeWhile (\<lambda>b. b \<noteq> 0) (join_fields ts @ [0]) = join_fields ts"
    using join_tokens_plain[OF assms(4)] by (auto simp: takeWhile_append)
  moreover have "utf8_lossy (join_fields ts) = join_fields ts"
    using join_tokens_plain[OF assms(4)] by (intro utf8_lossy_ascii) blast
  ultimately show ?thesis
    using assms(1,3) by (simp add: decode_info_def Let_def split_join_tokens[OF assms(4)] cong: sum.case_cong)
qed

lemma token_digits: "token (digits 10 n)" "token (digits 8 n)" "token [0x30]"
  using digits_bytes[of 10 n] digits_bytes[of 8 n] by (simp_all add: token_def)

lemma unat_u64_max: "unat (v :: u64) \<le> U64_MAX" "unat (w :: u32) \<le> U64_MAX"
proof -
  have "unat v < 2 ^ LENGTH(64)" "unat w < 2 ^ LENGTH(32)" by (rule unsigned_less)+
  then show "unat v \<le> U64_MAX" "unat w \<le> U64_MAX" by (simp_all add: U64_MAX_def)
qed

lemma narrow_widened [simp]: "(ucast (ucast (w :: u32) :: u64) :: u32) = w"
  by (rule bit_word_eqI) (simp add: bit_ucast_iff)

lemma parse_field_digits:
  "parse_field (Some (digits 10 (unat (v :: u64)))) f 10 = Inr (Some v)"
  "parse_field (Some (digits 8 (unat v))) f 8 = Inr (Some v)"
  "parse_field (Some (digits 8 (unat (w :: u32)))) f 8 = Inr (Some (ucast w))"
  using unat_u64_max(1)[of v] unat_u64_max(2)[of w] by (simp_all add: parse_field_def from_str_radix_format)

lemma parse_field_zero: "r \<in> {8, 10} \<Longrightarrow> parse_field (Some [0x30]) f r = Inr (Some 0)"
  by (auto simp: parse_field_def from_str_radix_def to_digit_def)

text \<open>The documented reading of the positional fields: a gap before a present field counts as zero.\<close>

definition positional :: "file_info \<Rightarrow> file_info" where
  "positional f = f\<lparr>
     flength := (if flength f = None \<and> (mtime f \<noteq> None \<or> mode f \<noteq> None \<or> serial f \<noteq> None)
                 then Some 0 else flength f),
     mtime := (if mtime f = None \<and> (mode f \<noteq> None \<or> serial f \<noteq> None) then Some 0 else mtime f),
     mode := (if mode f = None \<and> serial f \<noteq> None then Some 0 else mode f)\<rparr>"

lemma decode_encode_info:
  assumes "encode_info f = Inr out" "utf8_valid (fname f)"
  shows "decode_info out = Inr (positional f)"
proof -
  obtain n l m d s where f: "f = \<lparr>fname = n, flength = l, mtime = m, mode = d, serial = s\<rparr>"
    by (cases f)
  from assms have n: "n \<noteq> []" "0 \<notin> set n" "utf8_valid n" by (auto simp: f encode_info_def split: if_splits)
  from assms(1) n(1,2) have out: "out = n @ 0 # join_fields (case rposition (\<lambda>x. x \<noteq> None) (info_fields f) of
      None \<Rightarrow> [] | Some l \<Rightarrow> map field_text (take (l + 1) (info_fields f))) @ [0]"
    by (auto simp: f encode_info_def Let_def split: if_splits option.splits)
  show ?thesis
    unfolding out
    by (cases l; cases m; cases d; cases s)
      (simp_all add: f info_fields_def field_text_def decode_tokens[OF n] token_digits nth_field_def
        parse_field_digits parse_field_zero positional_def parse_field_def[of None]
        del: join_fields.simps)
qed

text \<open>
  A file description survives the trip: decoding an encoded block gives back the name and every
  present field, each at full width, with exactly the gaps before a present field read as zero.
\<close>

lemma file_info_roundtrip:
  assumes "encode_info f = Inr out" "utf8_valid (fname f)"
  shows "decode_info out = Inr (positional f)"
  using assms by (rule decode_encode_info)

end
