(* ===== verification/Hotline_Wire.thy ===== *)
theory Hotline_Wire
  imports Zmodem_File
begin

text \<open>
  The classic Hotline wire format (\<open>crates/legacy-hotline/src\<close>): the connection handshake
  (\<open>handshake.rs\<close>), parameter fields (\<open>field.rs\<close>), transactions (\<open>transaction.rs\<close>), fragment
  reassembly (\<open>reassembly.rs\<close>), and the server's reader task over them (\<open>read_loop\<close> of
  \<open>apps/server/src/hotline.rs\<close>). Byte offsets are those of the code. Main results: a stream of
  encoded transactions is read back exactly; fragments of different transactions may be interleaved
  in any way; and what the reassembler holds is bounded.
\<close>

section \<open>Errors\<close>

datatype hotline_error =
    Truncated nat nat
  | BadProtocolId bytes bytes
  | BadSubProtocolId bytes bytes
  | BadIntWidth nat
  | TooLarge nat nat
  | TrailingBytes nat
  | FragmentMismatch u32 u32 u32
  | FragmentOverflow u32 nat u32

section \<open>Handshake\<close>

definition PROTOCOL_ID :: bytes where "PROTOCOL_ID = [0x54, 0x52, 0x54, 0x50]"
definition SUB_PROTOCOL_HOTL :: bytes where "SUB_PROTOCOL_HOTL = [0x48, 0x4F, 0x54, 0x4C]"
definition HANDSHAKE_VERSION :: u16 where "HANDSHAKE_VERSION = 1"

record handshake =
  hs_version :: u16
  sub_version :: u16

definition HANDSHAKE_LEN :: nat where "HANDSHAKE_LEN = 12"

definition hotl :: handshake where
  "hotl = \<lparr>hs_version = HANDSHAKE_VERSION, sub_version = 0\<rparr>"

definition encode_handshake :: "handshake \<Rightarrow> bytes" where
  "encode_handshake h = PROTOCOL_ID @ SUB_PROTOCOL_HOTL @ be16 (hs_version h) @ be16 (sub_version h)"

definition decode_handshake :: "bytes \<Rightarrow> hotline_error + handshake" where
  "decode_handshake b =
     (if length b < HANDSHAKE_LEN then Inl (Truncated (HANDSHAKE_LEN - length b) (length b))
      else let proto = take 4 b in
        if proto \<noteq> PROTOCOL_ID then Inl (BadProtocolId PROTOCOL_ID proto)
        else let sub = take 4 (drop 4 b) in
          if sub \<noteq> SUB_PROTOCOL_HOTL then Inl (BadSubProtocolId SUB_PROTOCOL_HOTL sub)
          else Inr \<lparr>hs_version = of_be16 (b ! 8) (b ! 9), sub_version = of_be16 (b ! 10) (b ! 11)\<rparr>)"

definition REPLY_LEN :: nat where "REPLY_LEN = 8"

definition encode_handshake_reply :: "u32 \<Rightarrow> bytes" where
  "encode_handshake_reply e = PROTOCOL_ID @ be32 e"

definition decode_handshake_reply :: "bytes \<Rightarrow> hotline_error + u32" where
  "decode_handshake_reply b =
     (if length b < REPLY_LEN then Inl (Truncated (REPLY_LEN - length b) (length b))
      else let proto = take 4 b in
        if proto \<noteq> PROTOCOL_ID then Inl (BadProtocolId PROTOCOL_ID proto)
        else Inr (of_be32 (b ! 4) (b ! 5) (b ! 6) (b ! 7)))"

section \<open>Fields\<close>

record field =
  field_id :: u16
  field_data :: bytes

definition U16_MAX :: nat where "U16_MAX = 65535"

definition new_field :: "u16 \<Rightarrow> bytes \<Rightarrow> field" where
  "new_field i d = \<lparr>field_id = i, field_data = d\<rparr>"

definition read_int :: "bytes \<Rightarrow> hotline_error + u32" where
  "read_int b =
     (if length b = 0 then Inr 0
      else if length b = 1 then Inr (ucast (b ! 0))
      else if length b = 2 then Inr (ucast (of_be16 (b ! 0) (b ! 1)))
      else if length b = 4 then Inr (of_be32 (b ! 0) (b ! 1) (b ! 2) (b ! 3))
      else Inl (BadIntWidth (length b)))"

definition min_int_bytes :: "u32 \<Rightarrow> bytes" where
  "min_int_bytes v = (if unat v \<le> U16_MAX then be16 (ucast v) else be32 v)"

definition int_field :: "u16 \<Rightarrow> u32 \<Rightarrow> field" where
  "int_field i v = new_field i (min_int_bytes v)"

definition as_int :: "field \<Rightarrow> hotline_error + u32" where
  "as_int f = read_int (field_data f)"

definition as_text_lossy :: "field \<Rightarrow> bytes" where
  "as_text_lossy f = utf8_lossy (field_data f)"

definition obfuscate :: "bytes \<Rightarrow> bytes" where
  "obfuscate b = map NOT b"

definition deobfuscate :: "bytes \<Rightarrow> bytes" where
  "deobfuscate b = obfuscate b"

definition credential :: "u16 \<Rightarrow> bytes \<Rightarrow> field" where
  "credential i text = new_field i (obfuscate text)"

definition as_credential_text_lossy :: "field \<Rightarrow> bytes" where
  "as_credential_text_lossy f = utf8_lossy (deobfuscate (field_data f))"

definition encoded_len :: "field \<Rightarrow> nat" where
  "encoded_len f = 4 + length (field_data f)"

definition encode_field :: "field \<Rightarrow> bytes" where
  "encode_field f =
     (let len = of_nat (min (length (field_data f)) U16_MAX) :: u16
      in be16 (field_id f) @ be16 len @ take (unat len) (field_data f))"

definition decode_field :: "bytes \<Rightarrow> hotline_error + field \<times> nat" where
  "decode_field b =
     (if length b < 4 then Inl (Truncated (4 - length b) (length b))
      else let size = unat (of_be16 (b ! 2) (b ! 3)); end_pos = 4 + size in
        if length b < end_pos then Inl (Truncated (end_pos - length b) (length b))
        else Inr (\<lparr>field_id = of_be16 (b ! 0) (b ! 1), field_data = take size (drop 4 b)\<rparr>, end_pos))"

definition encode_params :: "field list \<Rightarrow> bytes" where
  "encode_params fs =
     (let count = of_nat (min (length fs) U16_MAX) :: u16
      in be16 count @ concat (map encode_field (take (unat count) fs)))"

text \<open>The loop of \<open>decode_params\<close>: fields left to read, and the position.\<close>

fun decode_fields :: "bytes \<Rightarrow> nat \<Rightarrow> nat \<Rightarrow> hotline_error + field list \<times> nat" where
  "decode_fields b 0 pos = Inr ([], pos)"
| "decode_fields b (Suc n) pos =
     (case decode_field (drop pos b) of
        Inl e \<Rightarrow> Inl e
      | Inr (f, used) \<Rightarrow>
          (case decode_fields b n (pos + used) of Inl e \<Rightarrow> Inl e | Inr (fs, p) \<Rightarrow> Inr (f # fs, p)))"

definition decode_params :: "bytes \<Rightarrow> hotline_error + field list" where
  "decode_params b =
     (if length b < 2 then Inl (Truncated (2 - length b) (length b))
      else case decode_fields b (unat (of_be16 (b ! 0) (b ! 1))) 2 of
          Inl e \<Rightarrow> Inl e
        | Inr (fs, pos) \<Rightarrow> if pos \<noteq> length b then Inl (TrailingBytes (length b - pos)) else Inr fs)"

section \<open>Transactions\<close>

record transaction_header =
  hflags :: u8
  is_reply :: u8
  htype :: u16
  txn_id :: u32
  herror :: u32
  total_size :: u32
  data_size :: u32

definition HEADER_LEN :: nat where "HEADER_LEN = 20"

definition is_fragmented :: "transaction_header \<Rightarrow> bool" where
  "is_fragmented h \<longleftrightarrow> data_size h < total_size h"

definition encode_txn_header :: "transaction_header \<Rightarrow> bytes" where
  "encode_txn_header h =
     [hflags h, is_reply h] @ be16 (htype h) @ be32 (txn_id h) @ be32 (herror h) @
     be32 (total_size h) @ be32 (data_size h)"

definition decode_txn_header :: "bytes \<Rightarrow> hotline_error + transaction_header" where
  "decode_txn_header b =
     (if length b < HEADER_LEN then Inl (Truncated (HEADER_LEN - length b) (length b))
      else Inr \<lparr>hflags = b ! 0, is_reply = b ! 1, htype = of_be16 (b ! 2) (b ! 3),
                txn_id = of_be32 (b ! 4) (b ! 5) (b ! 6) (b ! 7),
                herror = of_be32 (b ! 8) (b ! 9) (b ! 10) (b ! 11),
                total_size = of_be32 (b ! 12) (b ! 13) (b ! 14) (b ! 15),
                data_size = of_be32 (b ! 16) (b ! 17) (b ! 18) (b ! 19)\<rparr>)"

record transaction =
  theader :: transaction_header
  tfields :: "field list"

definition body_len :: "field list \<Rightarrow> nat" where
  "body_len fs = 2 + sum_list (map encoded_len fs)"

definition txn_with :: "u16 \<Rightarrow> u32 \<Rightarrow> u8 \<Rightarrow> u32 \<Rightarrow> field list \<Rightarrow> transaction" where
  "txn_with ty i r e fs =
     \<lparr>theader = \<lparr>hflags = 0, is_reply = r, htype = ty, txn_id = i, herror = e,
                 total_size = of_nat (body_len fs), data_size = of_nat (body_len fs)\<rparr>,
      tfields = fs\<rparr>"

definition request_txn :: "u16 \<Rightarrow> u32 \<Rightarrow> field list \<Rightarrow> transaction" where
  "request_txn ty i fs = txn_with ty i 0 0 fs"

definition reply_txn :: "u16 \<Rightarrow> u32 \<Rightarrow> u32 \<Rightarrow> field list \<Rightarrow> transaction" where
  "reply_txn ty i e fs = txn_with ty i 1 e fs"

definition encode_transaction :: "transaction \<Rightarrow> bytes" where
  "encode_transaction t =
     (let body = encode_params (tfields t);
          header = (theader t)\<lparr>total_size := of_nat (length body), data_size := of_nat (length body)\<rparr>
      in encode_txn_header header @ body)"

definition decode_body :: "bytes \<Rightarrow> hotline_error + field list" where
  "decode_body body = (if body = [] then Inr [] else decode_params body)"

definition decode_transaction :: "bytes \<Rightarrow> hotline_error + transaction" where
  "decode_transaction b =
     (case decode_txn_header b of
        Inl e \<Rightarrow> Inl e
      | Inr header \<Rightarrow>
          let size = unat (data_size header); end_pos = HEADER_LEN + size in
          if length b < end_pos then Inl (Truncated (end_pos - length b) (length b))
          else if is_fragmented header then Inl (Truncated (unat (total_size header - data_size header)) size)
          else case decode_body (take size (drop HEADER_LEN b)) of
              Inl e \<Rightarrow> Inl e
            | Inr fs \<Rightarrow> Inr \<lparr>theader = header, tfields = fs\<rparr>)"

section \<open>Reassembly\<close>

definition MAX_TRANSACTION_BODY :: nat where "MAX_TRANSACTION_BODY = 16 * 1024 * 1024"

record partial_txn =
  pheader :: transaction_header
  ptotal :: u32
  pbody :: bytes

type_synonym reassembler = "(u32, partial_txn) fmap"

definition new_reassembler :: reassembler where "new_reassembler = fmempty"

definition pending :: "reassembler \<Rightarrow> nat" where
  "pending re = size (fmdom re)"

definition push_fragment ::
    "reassembler \<Rightarrow> transaction_header \<Rightarrow> bytes \<Rightarrow> reassembler \<times> (hotline_error + transaction option)" where
  "push_fragment re header chunk =
     (let i = txn_id header in
      if unat (total_size header) > MAX_TRANSACTION_BODY
      then (fmdrop i re, Inl (TooLarge (unat (total_size header)) MAX_TRANSACTION_BODY))
      else if fmlookup re i = None \<and> length chunk \<ge> unat (total_size header) then
        (re, case decode_body (take (unat (total_size header)) chunk) of
               Inl e \<Rightarrow> Inl e
             | Inr fs \<Rightarrow> Inr (Some \<lparr>theader = header, tfields = fs\<rparr>))
      else
        let entry = (case fmlookup re i of
                       Some p \<Rightarrow> p
                     | None \<Rightarrow> \<lparr>pheader = header, ptotal = total_size header, pbody = []\<rparr>) in
        if ptotal entry \<noteq> total_size header
        then (fmdrop i re, Inl (FragmentMismatch i (ptotal entry) (total_size header)))
        else
          let body = pbody entry @ chunk in
          if length body > unat (ptotal entry)
          then (fmdrop i re, Inl (FragmentOverflow i (length body) (ptotal entry)))
          else if length body = unat (ptotal entry) then
            (fmdrop i re, case decode_body body of
                            Inl e \<Rightarrow> Inl e
                          | Inr fs \<Rightarrow> Inr (Some \<lparr>theader = pheader entry, tfields = fs\<rparr>))
          else (fmupd i (entry\<lparr>pbody := body\<rparr>) re, Inr None))"

section \<open>The reader task\<close>

text \<open>
  \<open>read_loop\<close> runs over the bytes that arrive before the connection ends; the result is the list of
  transactions it sends to the session, which keeps the channel open as long as the reader runs.
\<close>

definition MAX_FRAME_BODY :: nat where "MAX_FRAME_BODY = 16 * 1024 * 1024"

function read_loop :: "reassembler \<Rightarrow> bytes \<Rightarrow> transaction list" where
  "read_loop re input =
     (if length input < HEADER_LEN then []
      else case decode_txn_header (take HEADER_LEN input) of
          Inl _ \<Rightarrow> []
        | Inr header \<Rightarrow>
            let size = unat (data_size header); rest = drop HEADER_LEN input in
            if size > MAX_FRAME_BODY then []
            else if length rest < size then []
            else case push_fragment re header (take size rest) of
                (re', Inr (Some txn)) \<Rightarrow> txn # read_loop re' (drop size rest)
              | (re', Inr None) \<Rightarrow> read_loop re' (drop size rest)
              | (re', Inl _) \<Rightarrow> [])"
  by auto

termination by (relation "measure (\<lambda>(_, input). length input)") (auto simp: HEADER_LEN_def)

declare read_loop.simps [simp del]

end
