(* ===== verification/Hotline_Correct.thy ===== *)
theory Hotline_Correct
  imports Hotline_Wire
begin

text \<open>
  Correctness of the Hotline wire format: parameter lists, headers and transactions are inverted by
  their decoders; the reassembler is a table of independent assemblers, one per transaction id
  (an instance of \<open>multiplexed\<close>), which makes interleaving harmless; and what it holds is bounded.
\<close>

section \<open>Fields and headers\<close>

lemma of_be16_prefix: "of_be16 ((be16 w @ xs) ! 0) ((be16 w @ xs) ! 1) = w"
  by (simp add: be16_def of_be16_be16)

lemma unat_u16: "n \<le> U16_MAX \<Longrightarrow> unat (of_nat n :: u16) = n"
  by (simp add: U16_MAX_def unat_of_nat take_bit_nat_eq_self)

definition field_fits :: "field \<Rightarrow> bool" where
  "field_fits f \<longleftrightarrow> length (field_data f) \<le> U16_MAX"

lemma encode_field_fits:
  "field_fits f \<Longrightarrow>
     encode_field f = be16 (field_id f) @ be16 (of_nat (length (field_data f))) @ field_data f"
  by (simp add: encode_field_def field_fits_def unat_u16 min_absorb1)

lemma length_encode_field: "field_fits f \<Longrightarrow> length (encode_field f) = encoded_len f"
  by (simp add: encode_field_fits encoded_len_def)

lemma decode_encode_field:
  assumes "field_fits f"
  shows "decode_field (encode_field f @ rest) = Inr (f, encoded_len f)"
proof -
  have "of_be16 ((encode_field f @ rest) ! 2) ((encode_field f @ rest) ! 3) = of_nat (length (field_data f))"
    using assms by (simp add: encode_field_fits be16_def of_be16_be16)
  moreover have "of_be16 ((encode_field f @ rest) ! 0) ((encode_field f @ rest) ! 1) = field_id f"
    using assms by (simp add: encode_field_fits be16_def of_be16_be16)
  moreover have "take (length (field_data f)) (drop 4 (encode_field f @ rest)) = field_data f"
    using assms by (simp add: encode_field_fits be16_def)
  ultimately show ?thesis
    using assms by (simp add: decode_field_def length_encode_field encoded_len_def field_fits_def unat_u16)
qed

definition params_fit :: "field list \<Rightarrow> bool" where
  "params_fit fs \<longleftrightarrow> length fs \<le> U16_MAX \<and> (\<forall>f \<in> set fs. field_fits f) \<and> body_len fs \<le> MAX_TRANSACTION_BODY"

lemma encode_params_fit:
  "length fs \<le> U16_MAX \<Longrightarrow> encode_params fs = be16 (of_nat (length fs)) @ concat (map encode_field fs)"
  by (simp add: encode_params_def unat_u16 min_absorb1)

lemma length_encode_params:
  assumes "params_fit fs"
  shows "length (encode_params fs) = body_len fs"
proof -
  have "sum_list (map (length \<circ> encode_field) fs) = sum_list (map encoded_len fs)"
    using assms by (intro arg_cong[of _ _ sum_list]) (auto simp: params_fit_def length_encode_field)
  then show ?thesis using assms by (simp add: params_fit_def encode_params_fit body_len_def length_concat)
qed

lemma decode_fields_encoded:
  assumes "\<forall>f \<in> set fs. field_fits f" "drop pos b = concat (map encode_field fs) @ rest" "pos \<le> length b"
  shows "decode_fields b (length fs) pos = Inr (fs, pos + sum_list (map encoded_len fs))"
  using assms
proof (induction fs arbitrary: pos)
  case (Cons f fs)
  have "decode_field (drop pos b) = Inr (f, encoded_len f)"
    using Cons.prems decode_encode_field[of f] by simp
  moreover have "drop (pos + encoded_len f) b = concat (map encode_field fs) @ rest"
  proof -
    have "drop (pos + encoded_len f) b = drop (encoded_len f) (drop pos b)" by (simp add: add.commute)
    also have "\<dots> = concat (map encode_field fs) @ rest"
      using Cons.prems(1) unfolding Cons.prems(2) by (simp add: length_encode_field[symmetric])
    finally show ?thesis .
  qed
  moreover have "pos + encoded_len f \<le> length b"
    using arg_cong[OF Cons.prems(2), of length] Cons.prems(1,3) by (simp add: length_encode_field)
  ultimately show ?case using Cons.IH[of "pos + encoded_len f"] Cons.prems(1) by (simp add: add.assoc)
qed simp

lemma decode_encode_params:
  assumes "params_fit fs"
  shows "decode_params (encode_params fs) = Inr fs"
proof -
  have "drop 2 (encode_params fs) = concat (map encode_field fs) @ []"
    using assms by (simp add: params_fit_def encode_params_fit)
  then have "decode_fields (encode_params fs) (length fs) 2 = Inr (fs, body_len fs)"
    using assms decode_fields_encoded[of fs 2 "encode_params fs" "[]"]
    by (simp add: params_fit_def encode_params_fit body_len_def)
  moreover have "unat (of_be16 (encode_params fs ! 0) (encode_params fs ! 1)) = length fs"
    using assms by (simp add: params_fit_def encode_params_fit of_be16_prefix[simplified] unat_u16)
  ultimately show ?thesis
    using length_encode_params[OF assms] by (simp add: decode_params_def body_len_def)
qed

lemma encode_params_nonempty: "encode_params fs \<noteq> []"
  by (simp add: encode_params_def Let_def be16_def)

lemma decode_body_params: "params_fit fs \<Longrightarrow> decode_body (encode_params fs) = Inr fs"
  by (simp add: decode_body_def encode_params_nonempty decode_encode_params)

lemma length_encode_txn_header [simp]: "length (encode_txn_header h) = HEADER_LEN"
  by (simp add: encode_txn_header_def HEADER_LEN_def)

lemma decode_encode_txn_header: "decode_txn_header (encode_txn_header h @ rest) = Inr h"
  by (simp add: decode_txn_header_def)
     (simp add: encode_txn_header_def be16_def be32_def of_be16_be16 of_be32_be32)

section \<open>Whole transactions\<close>

text \<open>What \<open>encode\<close> puts on the wire: the transaction with the sizes of its body.\<close>

definition as_sent :: "transaction \<Rightarrow> transaction" where
  "as_sent t =
     t\<lparr>theader := (theader t)\<lparr>total_size := of_nat (body_len (tfields t)), data_size := of_nat (body_len (tfields t))\<rparr>\<rparr>"

lemma unat_body_len: "params_fit fs \<Longrightarrow> unat (of_nat (body_len fs) :: u32) = body_len fs"
  by (simp add: params_fit_def MAX_TRANSACTION_BODY_def unat_of_nat take_bit_nat_eq_self)

lemma encode_transaction_fits:
  "params_fit (tfields t) \<Longrightarrow>
     encode_transaction t = encode_txn_header (theader (as_sent t)) @ encode_params (tfields t)"
  by (simp add: encode_transaction_def as_sent_def length_encode_params)

lemma decode_encode_transaction:
  assumes "params_fit (tfields t)"
  shows "decode_transaction (encode_transaction t @ rest) = Inr (as_sent t)"
proof -
  let ?h = "theader (as_sent t)" and ?b = "encode_params (tfields t)"
  have "unat (data_size ?h) = length ?b" "\<not> is_fragmented ?h"
    using assms by (simp_all add: as_sent_def is_fragmented_def unat_body_len length_encode_params)
  moreover have "\<lparr>theader = ?h, tfields = tfields t\<rparr> = as_sent t" by (simp add: as_sent_def)
  ultimately show ?thesis
    using assms by (simp add: decode_transaction_def encode_transaction_fits decode_encode_txn_header decode_body_params)
qed

section \<open>One transaction at a time\<close>

text \<open>The reassembler seen from a single transaction id: its entry and what a frame does to it.\<close>

definition assemble ::
    "partial_txn option \<Rightarrow> transaction_header \<times> bytes \<Rightarrow> partial_txn option \<times> (hotline_error + transaction option)" where
  "assemble slot frame =
     (let (header, chunk) = frame; re = (case slot of None \<Rightarrow> fmempty | Some p \<Rightarrow> fmupd (txn_id header) p fmempty);
          (re', r) = push_fragment re header chunk
      in (fmlookup re' (txn_id header), r))"

abbreviation push_frame :: "reassembler \<Rightarrow> transaction_header \<times> bytes \<Rightarrow> reassembler \<times> (hotline_error + transaction option)" where
  "push_frame re fr \<equiv> push_fragment re (fst fr) (snd fr)"

lemma push_fragment_local:
  assumes "fmlookup re (txn_id h) = fmlookup re' (txn_id h)"
  shows "snd (push_fragment re h c) = snd (push_fragment re' h c)"
    and "fmlookup (fst (push_fragment re h c)) (txn_id h) = fmlookup (fst (push_fragment re' h c)) (txn_id h)"
  using assms by (simp_all add: push_fragment_def Let_def)

lemma push_fragment_other:
  "txn_id h \<noteq> k \<Longrightarrow> fmlookup (fst (push_fragment re h c)) k = fmlookup re k"
  by (simp add: push_fragment_def Let_def)

interpretation hotline_table: multiplexed push_frame "\<lambda>fr. txn_id (fst fr)" fmlookup assemble
proof (unfold_locales, goal_cases)
  case (1 re fr)
  obtain h c where fr: "fr = (h, c)" by fastforce
  let ?re' = "case fmlookup re (txn_id h) of None \<Rightarrow> fmempty | Some p \<Rightarrow> fmupd (txn_id h) p fmempty"
  have "fmlookup re (txn_id h) = fmlookup ?re' (txn_id h)" by (simp split: option.splits)
  from push_fragment_local[OF this, of c] show ?case
    unfolding fr assemble_def Let_def case_prod_unfold fst_conv snd_conv by simp
next
  case (2 fr k re)
  then show ?case by (simp add: push_fragment_other)
qed

text \<open>The frames of one transaction: same announced size, at most the maximum.\<close>

lemma assemble_None:
  assumes "unat (total_size h) \<le> MAX_TRANSACTION_BODY"
  shows "assemble None (h, c) =
    (if unat (total_size h) \<le> length c
     then (None, case decode_body (take (unat (total_size h)) c) of
        Inl e \<Rightarrow> Inl e | Inr fs \<Rightarrow> Inr (Some \<lparr>theader = h, tfields = fs\<rparr>))
     else (Some \<lparr>pheader = h, ptotal = total_size h, pbody = c\<rparr>, Inr None))"
  using assms by (simp add: assemble_def push_fragment_def Let_def)

lemma assemble_Some:
  assumes "unat (total_size h) \<le> MAX_TRANSACTION_BODY" "ptotal p = total_size h"
    and "length (pbody p @ c) \<le> unat (total_size h)"
  shows "assemble (Some p) (h, c) =
    (if length (pbody p @ c) < unat (total_size h) then (Some (p\<lparr>pbody := pbody p @ c\<rparr>), Inr None)
     else (None, case decode_body (pbody p @ c) of
        Inl e \<Rightarrow> Inl e | Inr fs \<Rightarrow> Inr (Some \<lparr>theader = pheader p, tfields = fs\<rparr>)))"
  using assms by (simp add: assemble_def push_fragment_def Let_def)

lemma assemble_rest:
  assumes "mine \<noteq> []" "\<forall>(h, c) \<in> set mine. total_size h = ptotal p" "unat (ptotal p) \<le> MAX_TRANSACTION_BODY"
    and "length (pbody p @ concat (map snd mine)) = unat (ptotal p)"
    and "length (pbody p @ concat (map snd (butlast mine))) < unat (ptotal p)"
    and "decode_body (pbody p @ concat (map snd mine)) = Inr fs"
  shows "run_calls assemble (Some p) mine =
    (None, replicate (length mine - 1) (Inr None) @ [Inr (Some \<lparr>theader = pheader p, tfields = fs\<rparr>)])"
  using assms
proof (induction mine arbitrary: p)
  case (Cons fr mine)
  obtain h c where fr: "fr = (h, c)" by fastforce
  have h: "total_size h = ptotal p" using Cons.prems(2) by (simp add: fr)
  show ?case
  proof (cases "mine = []")
    case True
    then show ?thesis
      using Cons.prems by (simp add: fr h assemble_Some)
  next
    case False
    have "length (pbody p @ c) \<le> length (pbody p @ concat (map snd (butlast (fr # mine))))"
      using False by (simp add: fr)
    then have less: "length (pbody p @ c) < unat (ptotal p)" using Cons.prems(5) by linarith
    let ?p = "p\<lparr>pbody := pbody p @ c\<rparr>"
    have "assemble (Some p) (h, c) = (Some ?p, Inr None)"
      using less Cons.prems(3) by (simp add: h assemble_Some)
    moreover have "run_calls assemble (Some ?p) mine =
        (None, replicate (length mine - 1) (Inr None) @ [Inr (Some \<lparr>theader = pheader ?p, tfields = fs\<rparr>)])"
      using Cons.prems False by (intro Cons.IH) (auto simp: fr)
    ultimately show ?thesis using False by (cases mine) (simp_all add: fr)
  qed
qed simp

text \<open>A body cut into frames: the announced size is that of the body, and only the last frame completes it.\<close>

definition fragments_of :: "bytes \<Rightarrow> (transaction_header \<times> bytes) list \<Rightarrow> bool" where
  "fragments_of body mine \<longleftrightarrow>
     mine \<noteq> [] \<and> length body \<le> MAX_TRANSACTION_BODY \<and> concat (map snd mine) = body \<and>
     (\<forall>fr \<in> set mine. total_size (fst fr) = of_nat (length body)) \<and>
     (length mine = 1 \<or> length (concat (map snd (butlast mine))) < length body)"

lemma assemble_all:
  assumes "fragments_of body mine" "decode_body body = Inr fs"
  shows "run_calls assemble None mine =
    (None, replicate (length mine - 1) (Inr None) @ [Inr (Some \<lparr>theader = fst (hd mine), tfields = fs\<rparr>)])"
proof -
  from assms(1) obtain h c rest where mine: "mine = (h, c) # rest" by (cases mine) (auto simp: fragments_of_def)
  have total: "unat (total_size h) = length body" "total_size h = of_nat (length body)"
    and small: "length body \<le> MAX_TRANSACTION_BODY"
    using assms(1) by (auto simp: mine fragments_of_def MAX_TRANSACTION_BODY_def unat_of_nat take_bit_nat_eq_self)
  show ?thesis
  proof (cases "rest = []")
    case True
    then show ?thesis
      using assms small total by (simp add: mine fragments_of_def assemble_None)
  next
    case False
    let ?p = "\<lparr>pheader = h, ptotal = total_size h, pbody = c\<rparr>"
    have less: "length (c @ concat (map snd (butlast rest))) < length body"
      using assms(1) False by (simp add: mine fragments_of_def)
    then have "assemble None (h, c) = (Some ?p, Inr None)"
      using small total(1) by (simp add: assemble_None)
    moreover have "run_calls assemble (Some ?p) rest =
        (None, replicate (length rest - 1) (Inr None) @ [Inr (Some \<lparr>theader = pheader ?p, tfields = fs\<rparr>)])"
      using assms False total small less by (intro assemble_rest) (auto simp: mine fragments_of_def)
    ultimately show ?thesis using False by (cases rest) (simp_all add: mine)
  qed
qed

text \<open>
  C14. Fragments may be interleaved at will: whatever other frames arrive in between, malformed ones
  included, the frames of a transaction that was not in flight yield nothing until the last of
  them, which yields the transaction with the first frame's header and the fields of the whole body,
  and no trace of it is left in the reassembler.
\<close>

theorem reassembly_interleaved:
  assumes "fmlookup re i = None" "decode_body body = Inr fs"
    and "fragments_of body (filter (\<lambda>fr. txn_id (fst fr) = i) frames)"
    and "run_calls push_frame re frames = (re', results)"
  shows "map snd (filter (\<lambda>(fr, r). txn_id (fst fr) = i) (zip frames results)) =
      replicate (length (filter (\<lambda>fr. txn_id (fst fr) = i) frames) - 1) (Inr None) @
      [Inr (Some \<lparr>theader = fst (hd (filter (\<lambda>fr. txn_id (fst fr) = i) frames)), tfields = fs\<rparr>)] \<and>
    fmlookup re' i = None"
  using assemble_all[OF assms(3,2)] hotline_table.projection[of re i frames] assms(1,4) by simp

definition demo_header :: "u32 \<Rightarrow> u32 \<Rightarrow> transaction_header" where
  "demo_header i n = \<lparr>hflags = 0, is_reply = 0, htype = 105, txn_id = i, herror = 0, total_size = n, data_size = n\<rparr>"

theorem reassembly_interleaved_witness:
  "\<exists>re' results. run_calls push_frame new_reassembler
       [(demo_header 1 6, [0, 1, 0]), (demo_header 2 100, [9]), (demo_header 2 200, [9]), (demo_header 1 6, [101, 0, 0])] =
       (re', results) \<and> results ! 3 = Inr (Some \<lparr>theader = demo_header 1 6, tfields = [new_field 101 []]\<rparr>) \<and>
     fmlookup re' 1 = None"
proof -
  let ?frames = "[(demo_header 1 6, [0, 1, 0]), (demo_header 2 100, [9]), (demo_header 2 200, [9]), (demo_header 1 6, [101, 0, 0])]"
  obtain re' results where run: "run_calls push_frame new_reassembler ?frames = (re', results)" by fastforce
  have "decode_body [0, 1, 0, 101, 0, 0] = Inr [new_field 101 []]"
    by (simp add: decode_body_def decode_params_def of_be16_def decode_field_def new_field_def)
  moreover have "fragments_of [0, 1, 0, 101, 0, 0] (filter (\<lambda>fr. txn_id (fst fr) = 1) ?frames)"
    by (simp add: fragments_of_def demo_header_def MAX_TRANSACTION_BODY_def)
  moreover have "length results = 4" using run by (auto simp: case_prod_unfold Let_def)
  ultimately show ?thesis
    using run reassembly_interleaved[OF _ _ _ run, of 1 "[0, 1, 0, 101, 0, 0]" "[new_field 101 []]"]
    by (auto simp: new_reassembler_def demo_header_def length_Suc_conv eval_nat_numeral)
qed

section \<open>What the reassembler holds\<close>

definition entry_ok :: "u32 \<Rightarrow> partial_txn \<Rightarrow> bool" where
  "entry_ok k p \<longleftrightarrow> txn_id (pheader p) = k \<and> total_size (pheader p) = ptotal p \<and>
     unat (ptotal p) \<le> MAX_TRANSACTION_BODY \<and> length (pbody p) < unat (ptotal p)"

lemma push_fragment_entry_ok:
  assumes "\<And>k p. fmlookup re k = Some p \<Longrightarrow> entry_ok k p"
  shows "fmlookup (fst (push_fragment re h c)) k = Some p \<Longrightarrow> entry_ok k p"
  using assms[of k p] assms[of "txn_id h"]
  by (cases "fmlookup re (txn_id h)")
     (fastforce simp: push_fragment_def Let_def entry_ok_def split: if_splits)+

lemma run_entry_ok:
  assumes "\<And>k p. fmlookup re k = Some p \<Longrightarrow> entry_ok k p"
  shows "fmlookup (fst (run_calls push_frame re frames)) k = Some p \<Longrightarrow> entry_ok k p"
  using assms
proof (induction frames arbitrary: re)
  case (Cons fr frames)
  then show ?case
    using push_fragment_entry_ok[of re "fst fr" "snd fr"] by (simp add: case_prod_unfold Let_def)
qed simp

lemma push_fragment_settled:
  "snd (push_fragment re h c) \<noteq> Inr None \<Longrightarrow> fmlookup (fst (push_fragment re h c)) (txn_id h) = None"
  by (simp add: push_fragment_def Let_def split: if_splits)

text \<open>
  What the reassembler holds is bounded and consistent after any frames whatever: an entry is
  filed under its own transaction id, belongs to a body of at most 16 MiB and is still incomplete; and
  as soon as a frame completes its transaction or is refused, nothing of that transaction is kept.
\<close>

lemma reassembler_bounded:
  "fmlookup (fst (run_calls push_frame new_reassembler frames)) k = Some p \<Longrightarrow>
     txn_id (pheader p) = k \<and> total_size (pheader p) = ptotal p \<and>
     unat (ptotal p) \<le> MAX_TRANSACTION_BODY \<and> length (pbody p) < unat (ptotal p) \<and>
     (snd (push_fragment (fst (run_calls push_frame new_reassembler frames)) h c) \<noteq> Inr None \<longrightarrow>
        fmlookup (fst (push_fragment (fst (run_calls push_frame new_reassembler frames)) h c)) (txn_id h) = None)"
  using run_entry_ok[of new_reassembler frames k p] push_fragment_settled
  by (simp add: new_reassembler_def entry_ok_def)

section \<open>The reader\<close>

lemma read_loop_frame:
  assumes "data_size h = of_nat (length c)" "length c \<le> MAX_FRAME_BODY"
  shows "read_loop re (encode_txn_header h @ c @ rest) =
    (case push_fragment re h c of
       (re', Inr (Some txn)) \<Rightarrow> txn # read_loop re' rest
     | (re', Inr None) \<Rightarrow> read_loop re' rest
     | (re', Inl _) \<Rightarrow> [])"
proof -
  have "unat (data_size h) = length c"
    using assms by (simp add: MAX_FRAME_BODY_def unat_of_nat take_bit_nat_eq_self)
  then show ?thesis
    using assms(2) decode_encode_txn_header[of h "[]"] by (subst read_loop.simps) simp
qed

lemma read_loop_transaction:
  assumes "params_fit (tfields t)"
  shows "read_loop fmempty (encode_transaction t @ rest) = as_sent t # read_loop fmempty rest"
proof -
  let ?h = "theader (as_sent t)" and ?b = "encode_params (tfields t)"
  have len: "length ?b = body_len (tfields t)" by (rule length_encode_params[OF assms])
  have sizes: "total_size ?h = of_nat (length ?b)" "data_size ?h = of_nat (length ?b)"
    by (simp_all add: as_sent_def len)
  have small: "length ?b \<le> MAX_TRANSACTION_BODY" using assms by (simp add: len params_fit_def)
  have "unat (total_size ?h) = length ?b" by (simp add: sizes len unat_body_len assms)
  then have "push_fragment fmempty ?h ?b = (fmempty, Inr (Some (as_sent t)))"
    using small by (simp add: push_fragment_def decode_body_params assms) (simp add: as_sent_def)
  then show ?thesis
    using read_loop_frame[OF sizes(2)] small
    by (simp add: encode_transaction_fits assms MAX_FRAME_BODY_def MAX_TRANSACTION_BODY_def)
qed

lemma read_loop_cut:
  assumes "params_fit (tfields t)" "strict_prefix q (encode_transaction t)"
  shows "read_loop re q = []"
proof (cases "length q < HEADER_LEN")
  case False
  let ?h = "theader (as_sent t)" and ?b = "encode_params (tfields t)"
  from assms False obtain q' where q: "q = encode_txn_header ?h @ q'" "strict_prefix q' ?b"
    using prefix_length_less[of q "encode_txn_header ?h"]
    by (auto simp: encode_transaction_fits strict_prefix_append_cases)
  have "length q' < unat (data_size ?h)"
    using prefix_length_less[OF q(2)] assms(1) by (simp add: as_sent_def unat_body_len length_encode_params)
  then show ?thesis
    using decode_encode_txn_header[of ?h "[]"] by (subst read_loop.simps) (simp add: q(1) Let_def)
qed (simp add: read_loop.simps)

text \<open>
  C13. The reader delivers a stream of encoded transactions exactly and in order, and drops a last
  one the connection cut short instead of delivering half of it; a single transaction at the front of
  a buffer is decoded with whatever follows it ignored. This holds for every list of fields the
  format can carry: at most 65535 of them, none longer than 65535 bytes, 16 MiB in all.
\<close>

theorem hotline_stream_delivers:
  assumes "\<forall>t \<in> set ts. params_fit (tfields t)" "params_fit (tfields u)"
  shows "read_loop new_reassembler (concat (map encode_transaction ts)) = map as_sent ts \<and>
    (strict_prefix q (encode_transaction u) \<longrightarrow>
      read_loop new_reassembler (concat (map encode_transaction ts) @ q) = map as_sent ts) \<and>
    decode_transaction (encode_transaction u @ rest) = Inr (as_sent u)"
proof -
  have "read_loop fmempty (concat (map encode_transaction ts) @ q) = map as_sent ts @ read_loop fmempty q" for q
    using assms(1) by (induction ts) (simp_all add: read_loop_transaction)
  from this[of "[]"] this[of q] read_loop_cut[OF assms(2), of q fmempty] decode_encode_transaction[OF assms(2)]
  show ?thesis by (simp add: new_reassembler_def read_loop.simps[of _ "[]"] HEADER_LEN_def)
qed

theorem hotline_stream_delivers_witness:
  "read_loop new_reassembler (encode_transaction (request_txn 300 7 []) @ encode_transaction (request_txn 107 1 [new_field 105 [1]]) @
      [0, 0, 1]) = [request_txn 300 7 [], request_txn 107 1 [new_field 105 [1]]]"
proof -
  let ?t = "request_txn 300 7 []" and ?u = "request_txn 107 1 [new_field 105 [1]]"
  have fit: "\<forall>t \<in> set [?t, ?u]. params_fit (tfields t)"
    by (simp add: params_fit_def field_fits_def request_txn_def txn_with_def new_field_def body_len_def
        encoded_len_def U16_MAX_def MAX_TRANSACTION_BODY_def)
  have "as_sent ?t = ?t" "as_sent ?u = ?u" by (simp_all add: as_sent_def request_txn_def txn_with_def)
  moreover have "strict_prefix [0, 0, 1] (encode_transaction ?t)"
    by (simp add: strict_prefix_def prefix_def encode_transaction_def encode_txn_header_def request_txn_def txn_with_def be16_def Let_def)
  ultimately show ?thesis using hotline_stream_delivers[OF fit, of ?t "[0, 0, 1]"] fit by simp
qed

end
