(* ===== verification/Permissions.thy ===== *)
theory Permissions
  imports Prelude
begin

text \<open>
  Authorization (\<open>crates/server-core/src/permissions.rs\<close>): capability masks, ordered
  roles, the projection on the legacy 0--255 security level, and the evaluator that walks a
  resource's ancestors for the nearest access-control rule and caches its answers.
  The answer cache sits behind a lock and is written by the read path, so \<open>effective\<close>
  returns the evaluator it leaves behind. The main results: the cache never changes an
  answer in any reachable state, the winning rule is the one of the longest matching
  ancestor, deny beats allow there, and the legacy level is strictly monotone in the role.
\<close>

section \<open>Capabilities\<close>

type_synonym caps = u64

definition SEE :: caps where "SEE = push_bit 0 1"
definition WHO :: caps where "WHO = push_bit 1 1"
definition CANNOT_BE_KICKED :: caps where "CANNOT_BE_KICKED = push_bit 2 1"
definition CHAT_READ :: caps where "CHAT_READ = push_bit 8 1"
definition CHAT_SEND :: caps where "CHAT_SEND = push_bit 9 1"
definition CHAT_CREATE_ROOM :: caps where "CHAT_CREATE_ROOM = push_bit 10 1"
definition CHAT_MODERATE :: caps where "CHAT_MODERATE = push_bit 11 1"
definition DM_SEND :: caps where "DM_SEND = push_bit 16 1"
definition BOARD_READ :: caps where "BOARD_READ = push_bit 20 1"
definition BOARD_POST :: caps where "BOARD_POST = push_bit 21 1"
definition BOARD_MODERATE :: caps where "BOARD_MODERATE = push_bit 22 1"
definition FILE_LIST :: caps where "FILE_LIST = push_bit 28 1"
definition FILE_DOWNLOAD :: caps where "FILE_DOWNLOAD = push_bit 29 1"
definition FILE_UPLOAD :: caps where "FILE_UPLOAD = push_bit 30 1"
definition FILE_MANAGE :: caps where "FILE_MANAGE = push_bit 31 1"
definition DROPBOX_VIEW :: caps where "DROPBOX_VIEW = push_bit 32 1"
definition SWARM_ADVERTISE :: caps where "SWARM_ADVERTISE = push_bit 40 1"
definition DOOR_RUN :: caps where "DOOR_RUN = push_bit 44 1"
definition USER_KICK :: caps where "USER_KICK = push_bit 48 1"
definition USER_BAN :: caps where "USER_BAN = push_bit 49 1"
definition ACCOUNT_ADMIN :: caps where "ACCOUNT_ADMIN = push_bit 50 1"
definition CONFIG_ADMIN :: caps where "CONFIG_ADMIN = push_bit 51 1"
definition BROADCAST :: caps where "BROADCAST = push_bit 52 1"
definition AUDIT_READ :: caps where "AUDIT_READ = push_bit 53 1"
definition MODERATE :: caps where "MODERATE = push_bit 54 1"

lemmas caps_defs = SEE_def WHO_def CANNOT_BE_KICKED_def CHAT_READ_def CHAT_SEND_def
  CHAT_CREATE_ROOM_def CHAT_MODERATE_def DM_SEND_def BOARD_READ_def BOARD_POST_def
  BOARD_MODERATE_def FILE_LIST_def FILE_DOWNLOAD_def FILE_UPLOAD_def FILE_MANAGE_def
  DROPBOX_VIEW_def SWARM_ADVERTISE_def DOOR_RUN_def USER_KICK_def USER_BAN_def
  ACCOUNT_ADMIN_def CONFIG_ADMIN_def BROADCAST_def AUDIT_READ_def MODERATE_def

definition caps_union :: "caps \<Rightarrow> caps \<Rightarrow> caps" where
  "caps_union self other = self OR other"

definition caps_contains :: "caps \<Rightarrow> caps \<Rightarrow> bool" where
  "caps_contains self needed \<longleftrightarrow> self AND needed = needed"

section \<open>Roles\<close>

datatype role = Guest | User | Moderator | Admin | Superuser

fun role_ordinal :: "role \<Rightarrow> u8" where
  "role_ordinal Guest = 0"
| "role_ordinal User = 1"
| "role_ordinal Moderator = 2"
| "role_ordinal Admin = 3"
| "role_ordinal Superuser = 4"

lemma role_ordinal_inj: "role_ordinal r = role_ordinal r' \<longleftrightarrow> r = r'"
  by (cases r; cases r') simp_all

instantiation role :: linorder
begin

definition less_eq_role :: "role \<Rightarrow> role \<Rightarrow> bool" where
  "less_eq_role r r' \<longleftrightarrow> role_ordinal r \<le> role_ordinal r'"

definition less_role :: "role \<Rightarrow> role \<Rightarrow> bool" where
  "less_role r r' \<longleftrightarrow> role_ordinal r < role_ordinal r'"

instance
  by standard (auto simp: less_eq_role_def less_role_def order_less_le role_ordinal_inj)

end

definition from_ordinal :: "u8 \<Rightarrow> role" where
  "from_ordinal n =
     (if n = 0 then Guest else if n = 1 then User else if n = 2 then Moderator
      else if n = 3 then Admin else Superuser)"

definition guest_caps :: caps where
  "guest_caps = SEE OR WHO OR CHAT_READ OR CHAT_SEND OR BOARD_READ OR FILE_LIST"

definition user_caps :: caps where
  "user_caps = guest_caps OR DM_SEND OR BOARD_POST OR FILE_DOWNLOAD OR FILE_UPLOAD OR
     CHAT_CREATE_ROOM OR SWARM_ADVERTISE OR DOOR_RUN"

definition moderator_caps :: caps where
  "moderator_caps = user_caps OR CHAT_MODERATE OR BOARD_MODERATE OR USER_KICK OR
     DROPBOX_VIEW OR AUDIT_READ OR MODERATE"

definition admin_caps :: caps where
  "admin_caps = moderator_caps OR USER_BAN OR ACCOUNT_ADMIN OR CONFIG_ADMIN OR BROADCAST OR
     FILE_MANAGE"

fun default_caps :: "role \<Rightarrow> caps" where
  "default_caps Guest = guest_caps"
| "default_caps User = user_caps"
| "default_caps Moderator = moderator_caps"
| "default_caps Admin = admin_caps"
| "default_caps Superuser = u64_max"

fun class_name :: "role \<Rightarrow> str" where
  "class_name Guest = lit ''guest''"
| "class_name User = lit ''member''"
| "class_name Moderator = lit ''moderator''"
| "class_name Admin = lit ''admin''"
| "class_name Superuser = lit ''superuser''"

definition parse_min_role :: "str \<Rightarrow> role option" where
  "parse_min_role s =
     (let t = to_ascii_lowercase (trim s) in
      if t = lit ''guest'' then Some Guest
      else if t = lit ''user'' \<or> t = lit ''member'' then Some User
      else if t = lit ''moderator'' then Some Moderator
      else if t = lit ''admin'' then Some Admin
      else None)"

fun min_role_name :: "role \<Rightarrow> str" where
  "min_role_name Guest = lit ''guest''"
| "min_role_name User = lit ''user''"
| "min_role_name Moderator = lit ''moderator''"
| "min_role_name Admin = lit ''admin''"
| "min_role_name Superuser = lit ''superuser''"

section \<open>Subjects\<close>

record subject =
  account_id :: int
  subj_role :: role
  class_id :: "int option"
  class_mask :: u64
  grant_mask :: u64
  revoke_mask :: u64

definition base_caps :: "subject \<Rightarrow> u64" where
  "base_caps s =
     (let caps = default_caps (subj_role s) OR class_mask s;
          caps = caps OR grant_mask s;
          caps = caps AND NOT (revoke_mask s)
      in if subj_role s = Superuser then u64_max else caps)"

datatype principal = Everyone | RoleP role | ClassP int | AccountP int

definition principals :: "subject \<Rightarrow> principal list" where
  "principals s =
     [Everyone, RoleP (subj_role s), AccountP (account_id s)] @
     (case class_id s of Some c \<Rightarrow> [ClassP c] | None \<Rightarrow> [])"

section \<open>The legacy security level\<close>

definition SL_NUDGE_CAPS :: "caps list" where
  "SL_NUDGE_CAPS =
     [DM_SEND, BOARD_POST, FILE_DOWNLOAD, FILE_UPLOAD, CHAT_CREATE_ROOM, SWARM_ADVERTISE,
      DOOR_RUN, DROPBOX_VIEW, CHAT_MODERATE, BOARD_MODERATE, USER_KICK, FILE_MANAGE]"

text \<open>One turn of the loop over the participation capabilities.\<close>

definition sl_nudge :: "u64 \<Rightarrow> u64 \<Rightarrow> caps \<Rightarrow> int \<Rightarrow> int" where
  "sl_nudge defaults held cap level =
     (let by_default = (defaults AND cap = cap); in_hand = (held AND cap = cap) in
      if \<not> by_default \<and> in_hand then level + 2
      else if by_default \<and> \<not> in_hand then level - 2
      else level)"

text \<open>Base, floor and ceiling of a role's band; the superuser is handled before.\<close>

fun sl_band :: "role \<Rightarrow> int \<times> int \<times> int" where
  "sl_band Guest = (10, 1, 25)"
| "sl_band User = (30, 26, 70)"
| "sl_band Moderator = (80, 71, 95)"
| "sl_band Admin = (100, 96, 250)"
| "sl_band Superuser = (255, 255, 255)"

definition clamp :: "int \<Rightarrow> int \<Rightarrow> int \<Rightarrow> int" where
  "clamp x lo hi = (if x < lo then lo else if x > hi then hi else x)"

definition security_level :: "subject \<Rightarrow> u8" where
  "security_level s =
     (if subj_role s = Superuser then 255
      else
        (let (base, floor, ceil) = sl_band (subj_role s);
             level = fold (sl_nudge (default_caps (subj_role s)) (base_caps s)) SL_NUDGE_CAPS base
         in word_of_int (clamp level floor ceil)))"

section \<open>The access-control table\<close>

record acl_rule =
  allow :: u64
  deny :: u64

record acl_table =
  rules :: "(str, (principal \<times> acl_rule) list) fmap"

definition empty_table :: acl_table where
  "empty_table = \<lparr>rules = fmempty\<rparr>"

text \<open>Overwrite the first entry of the principal, or append one.\<close>

fun upsert_rule :: "principal \<Rightarrow> acl_rule \<Rightarrow> (principal \<times> acl_rule) list \<Rightarrow> (principal \<times> acl_rule) list" where
  "upsert_rule p r [] = [(p, r)]"
| "upsert_rule p r ((q, r') # es) = (if q = p then (q, r) # es else (q, r') # upsert_rule p r es)"

definition acl_insert :: "acl_table \<Rightarrow> str \<Rightarrow> principal \<Rightarrow> acl_rule \<Rightarrow> acl_table" where
  "acl_insert t resource p r =
     (let entry = (case fmlookup (rules t) resource of Some es \<Rightarrow> es | None \<Rightarrow> [])
      in t\<lparr>rules := fmupd resource (upsert_rule p r entry) (rules t)\<rparr>)"

fun combine_rules :: "principal list \<Rightarrow> (principal \<times> acl_rule) list \<Rightarrow> acl_rule option \<Rightarrow> acl_rule option" where
  "combine_rules ps [] combined = combined"
| "combine_rules ps ((p, r) # es) combined =
     (if p \<in> set ps
      then let c = (case combined of Some c \<Rightarrow> c | None \<Rightarrow> \<lparr>allow = 0, deny = 0\<rparr>)
           in combine_rules ps es (Some \<lparr>allow = allow c OR allow r, deny = deny c OR deny r\<rparr>)
      else combine_rules ps es combined)"

definition level_rule :: "acl_table \<Rightarrow> str \<Rightarrow> principal list \<Rightarrow> acl_rule option" where
  "level_rule t resource ps =
     (case fmlookup (rules t) resource of
        None \<Rightarrow> None
      | Some entries \<Rightarrow> combine_rules ps entries None)"

section \<open>Ancestors of a resource\<close>

text \<open>\<open>str::rfind\<close> of one character: the index of its last occurrence.\<close>

fun rfind :: "uchar \<Rightarrow> str \<Rightarrow> nat option" where
  "rfind c [] = None"
| "rfind c (x # xs) =
     (case rfind c xs of Some i \<Rightarrow> Some (Suc i) | None \<Rightarrow> if x = c then Some 0 else None)"

abbreviation slash :: uchar where
  "slash \<equiv> 47"

definition parent :: "str \<Rightarrow> str" where
  "parent r = (case rfind slash r of None \<Rightarrow> [] | Some i \<Rightarrow> take i r)"

lemma rfind_less: "rfind c xs = Some i \<Longrightarrow> i < length xs"
  by (induction xs arbitrary: i) (auto split: option.splits if_splits)

lemma parent_shorter: "r \<noteq> [] \<Longrightarrow> length (parent r) < length r"
  by (auto simp: parent_def split: option.splits dest: rfind_less)

function ancestors :: "str \<Rightarrow> str list" where
  "ancestors r = r # (if r = [] then [] else ancestors (parent r))"
  by pat_completeness auto
termination
  by (relation "measure length") (auto simp: parent_shorter)

declare ancestors.simps [simp del]

section \<open>The evaluator\<close>

type_synonym cache_key = "int \<times> u64 \<times> u8 \<times> int \<times> str"

record permission_evaluator =
  acl :: acl_table
  generation :: u64
  cache :: "(cache_key, u64 \<times> u64) fmap"

definition new_evaluator :: permission_evaluator where
  "new_evaluator = \<lparr>acl = empty_table, generation = 0, cache = fmempty\<rparr>"

definition cache_key_of :: "subject \<Rightarrow> str \<Rightarrow> cache_key" where
  "cache_key_of s resource =
     (account_id s, base_caps s, role_ordinal (subj_role s),
      (case class_id s of Some c \<Rightarrow> c | None \<Rightarrow> -1), resource)"

definition invalidate :: "permission_evaluator \<Rightarrow> permission_evaluator" where
  "invalidate ev = ev\<lparr>generation := generation ev + 1, cache := fmempty\<rparr>"

definition replace_table :: "permission_evaluator \<Rightarrow> acl_table \<Rightarrow> permission_evaluator" where
  "replace_table ev t = invalidate (ev\<lparr>acl := t\<rparr>)"

definition insert_rule :: "permission_evaluator \<Rightarrow> str \<Rightarrow> principal \<Rightarrow> acl_rule \<Rightarrow> permission_evaluator" where
  "insert_rule ev resource p r = invalidate (ev\<lparr>acl := acl_insert (acl ev) resource p r\<rparr>)"

text \<open>The walk up the ancestors: the first level with a matching rule decides.\<close>

fun walk :: "acl_table \<Rightarrow> principal list \<Rightarrow> u64 \<Rightarrow> str list \<Rightarrow> u64" where
  "walk t ps caps [] = caps"
| "walk t ps caps (level # levels) =
     (case level_rule t level ps of
        Some r \<Rightarrow> (caps OR allow r) AND NOT (deny r)
      | None \<Rightarrow> walk t ps caps levels)"

definition effective :: "permission_evaluator \<Rightarrow> subject \<Rightarrow> str \<Rightarrow> u64 \<times> permission_evaluator" where
  "effective ev s resource =
     (if subj_role s = Superuser then (u64_max, ev)
      else
        (let key = cache_key_of s resource;
             compute =
               (let caps = walk (acl ev) (principals s) (base_caps s) (ancestors resource)
                in (caps, ev\<lparr>cache := fmupd key (generation ev, caps) (cache ev)\<rparr>))
         in case fmlookup (cache ev) key of
              Some (g, caps) \<Rightarrow> if g = generation ev then (caps, ev) else compute
            | None \<Rightarrow> compute))"

definition allows :: "permission_evaluator \<Rightarrow> subject \<Rightarrow> str \<Rightarrow> caps \<Rightarrow> bool \<times> permission_evaluator" where
  "allows ev s resource needed =
     (let (caps, ev') = effective ev s resource in (caps AND needed = needed, ev'))"


section \<open>Ancestor paths\<close>

lemma rfind_None: "rfind c xs = None \<longleftrightarrow> c \<notin> set xs"
  by (induction xs) (auto split: option.splits)

lemma rfind_last: "c \<notin> set q \<Longrightarrow> rfind c (p @ c # q) = Some (length p)"
  by (induction p) (simp_all add: rfind_None[THEN iffD2])

lemma parent_no_slash: "slash \<notin> set r \<Longrightarrow> parent r = []"
  by (simp add: parent_def rfind_None[THEN iffD2])

lemma parent_slash: "slash \<notin> set q \<Longrightarrow> parent (p @ slash # q) = p"
  by (simp add: parent_def rfind_last)

lemma split_last_slash:
  assumes "slash \<in> set r"
  obtains p q where "r = p @ slash # q" "slash \<notin> set q"
  using split_list_last[OF assms] by blast

lemma ancestors_Nil: "ancestors [] = [[]]"
  by (simp add: ancestors.simps)

lemma ancestors_no_slash: "r \<noteq> [] \<Longrightarrow> slash \<notin> set r \<Longrightarrow> ancestors r = [r, []]"
  by (subst ancestors.simps) (simp add: parent_no_slash ancestors_Nil)

lemma ancestors_slash:
  "slash \<notin> set q \<Longrightarrow> ancestors (p @ slash # q) = (p @ slash # q) # ancestors p"
  by (subst ancestors.simps) (simp add: parent_slash)

text \<open>Exactly the resource, its prefixes at a separator, and the root.\<close>

definition is_ancestor :: "str \<Rightarrow> str \<Rightarrow> bool" where
  "is_ancestor p r \<longleftrightarrow> p = r \<or> p = [] \<or> (\<exists>q. r = p @ slash # q)"

lemma is_ancestor_slash:
  assumes "slash \<notin> set q"
  shows "is_ancestor x (p @ slash # q) \<longleftrightarrow> x = p @ slash # q \<or> is_ancestor x p"
proof
  assume L: "is_ancestor x (p @ slash # q)"
  show "x = p @ slash # q \<or> is_ancestor x p"
  proof (cases "x = p @ slash # q \<or> x = []")
    case False
    with L obtain s where s: "p @ slash # q = x @ slash # s"
      by (auto simp: is_ancestor_def)
    then consider us where "p = x @ slash # us" | "p = x"
      | us where "x = p @ slash # us" "q = us @ slash # s"
      by (auto simp: append_eq_append_conv2 Cons_eq_append_conv append_eq_Cons_conv)
    then show ?thesis using assms by cases (auto simp: is_ancestor_def)
  qed (auto simp: is_ancestor_def)
next
  assume "x = p @ slash # q \<or> is_ancestor x p"
  then show "is_ancestor x (p @ slash # q)" by (auto simp: is_ancestor_def)
qed

lemma ancestors_cases [case_names root top nested]:
  assumes "r = [] \<Longrightarrow> P" "\<lbrakk>r \<noteq> []; slash \<notin> set r\<rbrakk> \<Longrightarrow> P"
    "\<And>p q. \<lbrakk>r = p @ slash # q; slash \<notin> set q\<rbrakk> \<Longrightarrow> P"
  shows P
  using assms split_last_slash by metis

lemma set_ancestors: "x \<in> set (ancestors r) \<longleftrightarrow> is_ancestor x r"
proof (induction r rule: measure_induct_rule[where f = length])
  case (less r)
  show ?case
  proof (cases r rule: ancestors_cases)
    case root
    then show ?thesis by (auto simp: ancestors_Nil is_ancestor_def)
  next
    case top
    then show ?thesis by (auto simp: ancestors_no_slash is_ancestor_def)
  next
    case (nested p q)
    then have "x \<in> set (ancestors p) \<longleftrightarrow> is_ancestor x p" by (intro less) simp
    with nested show ?thesis by (simp add: ancestors_slash is_ancestor_slash)
  qed
qed

lemma ancestors_lengths: "sorted_wrt (\<lambda>p p'. length p' < length p) (ancestors r)"
proof (induction r rule: ancestors.induct)
  case (1 r)
  have "\<forall>p \<in> set (ancestors (parent r)). length p < length r" if "r \<noteq> []"
  proof
    fix p assume "p \<in> set (ancestors (parent r))"
    then have "length p \<le> length (parent r)" by (auto simp: set_ancestors is_ancestor_def)
    with parent_shorter[OF that] show "length p < length r" by simp
  qed
  with 1 show ?case by (subst ancestors.simps) auto
qed

section \<open>The table\<close>

text \<open>The abstract table: a rule per resource and principal.\<close>

definition acl_abs :: "acl_table \<Rightarrow> str \<Rightarrow> principal \<Rightarrow> acl_rule option" where
  "acl_abs t resource =
     map_of (case fmlookup (rules t) resource of Some es \<Rightarrow> es | None \<Rightarrow> [])"

definition acl_wf :: "acl_table \<Rightarrow> bool" where
  "acl_wf t \<longleftrightarrow> (\<forall>resource es. fmlookup (rules t) resource = Some es \<longrightarrow> distinct (map fst es))"

lemma map_of_upsert: "map_of (upsert_rule p r es) = (map_of es)(p \<mapsto> r)"
  by (induction p r es rule: upsert_rule.induct) auto

lemma fst_upsert: "set (map fst (upsert_rule p r es)) = insert p (set (map fst es))"
  by (induction p r es rule: upsert_rule.induct) auto

lemma distinct_upsert: "distinct (map fst es) \<Longrightarrow> distinct (map fst (upsert_rule p r es))"
  by (induction p r es rule: upsert_rule.induct) (use fst_upsert in auto)

lemma acl_insert_wf: "acl_wf t \<Longrightarrow> acl_wf (acl_insert t resource p r)"
  by (auto simp: acl_wf_def acl_insert_def Let_def distinct_upsert split: option.splits if_splits)

text \<open>Bits a combined rule carries: those of the accumulator and of every matching entry.\<close>

lemma combine_rules_None:
  "combine_rules ps es c = None \<longleftrightarrow> c = None \<and> (\<forall>(p, r) \<in> set es. p \<notin> set ps)"
  by (induction ps es c rule: combine_rules.induct) (auto simp: Let_def)

definition rule_bits :: "(acl_rule \<Rightarrow> u64) \<Rightarrow> acl_rule option \<Rightarrow> nat \<Rightarrow> bool" where
  "rule_bits f c n \<longleftrightarrow> (case c of None \<Rightarrow> False | Some r \<Rightarrow> bit (f r) n)"

lemma combine_rules_bits:
  assumes "f \<in> {allow, deny}"
  shows "rule_bits f (combine_rules ps es c) n \<longleftrightarrow>
    rule_bits f c n \<or> (\<exists>(p, r) \<in> set es. p \<in> set ps \<and> bit (f r) n)"
  using assms
  by (induction ps es c rule: combine_rules.induct)
    (auto simp: Let_def rule_bits_def bit_or_iff split: option.splits)

lemma level_rule_None:
  assumes "acl_wf t"
  shows "level_rule t resource ps = None \<longleftrightarrow> (\<forall>p \<in> set ps. acl_abs t resource p = None)"
proof (cases "fmlookup (rules t) resource")
  case None
  then show ?thesis by (simp add: level_rule_def acl_abs_def)
next
  case (Some es)
  then show ?thesis
    by (fastforce simp: level_rule_def acl_abs_def combine_rules_None map_of_eq_None_iff)
qed

lemma level_rule_bits:
  assumes "acl_wf t" "level_rule t resource ps = Some rule" "f \<in> {allow, deny}"
  shows "bit (f rule) n \<longleftrightarrow> (\<exists>p r. p \<in> set ps \<and> acl_abs t resource p = Some r \<and> bit (f r) n)"
proof -
  from assms(2) obtain es where es: "fmlookup (rules t) resource = Some es"
    and c: "combine_rules ps es None = Some rule"
    by (auto simp: level_rule_def split: option.splits)
  from es assms(1) have d: "distinct (map fst es)" by (auto simp: acl_wf_def)
  have "bit (f rule) n \<longleftrightarrow> rule_bits f (combine_rules ps es None) n"
    by (simp add: c rule_bits_def)
  also have "\<dots> \<longleftrightarrow> (\<exists>(p, r) \<in> set es. p \<in> set ps \<and> bit (f r) n)"
    using combine_rules_bits[OF assms(3), of ps es None n] by (simp add: rule_bits_def)
  also have "\<dots> \<longleftrightarrow> (\<exists>p r. p \<in> set ps \<and> map_of es p = Some r \<and> bit (f r) n)"
    using map_of_eq_Some_iff[OF d] by fastforce
  finally show ?thesis by (simp add: acl_abs_def es)
qed

section \<open>The cache is transparent\<close>

text \<open>What \<open>effective\<close> would answer with no cache.\<close>

definition uncached :: "acl_table \<Rightarrow> subject \<times> str \<Rightarrow> u64" where
  "uncached t q = walk t (principals (fst q)) (base_caps (fst q)) (ancestors (snd q))"

text \<open>Class ids are row ids; only the id \<open>-1\<close> shares its key with ``no class''.\<close>

definition proper_class :: "subject \<Rightarrow> bool" where
  "proper_class s \<longleftrightarrow> class_id s \<noteq> Some (-1)"

interpretation perm_cache: keyed_cache
  "\<lambda>q. proper_class (fst q)" "\<lambda>q. cache_key_of (fst q) (snd q)" uncached
proof unfold_locales
  fix q q' :: "subject \<times> str" and t
  assume ok: "proper_class (fst q)" "proper_class (fst q')"
    and key: "cache_key_of (fst q) (snd q) = cache_key_of (fst q') (snd q')"
  from key have "class_id (fst q) = class_id (fst q')"
    using ok by (auto simp: cache_key_of_def proper_class_def split: option.splits)
  with key have "principals (fst q) = principals (fst q')" "base_caps (fst q) = base_caps (fst q')"
    "snd q = snd q'"
    by (auto simp: cache_key_of_def principals_def role_ordinal_inj)
  then show "uncached t q = uncached t q'" by (simp add: uncached_def)
qed

abbreviation cache_ok :: "permission_evaluator \<Rightarrow> bool" where
  "cache_ok ev \<equiv> perm_cache.sound (acl ev) (generation ev) (cache ev)"

lemma effective_answer:
  assumes "cache_ok ev" "proper_class s"
  shows "fst (effective ev s r) = (if subj_role s = Superuser then u64_max else uncached (acl ev) (s, r))"
  using perm_cache.sound_hit[of _ _ _ "(s, r)", OF assms(1)] assms(2)
  by (auto simp: effective_def Let_def uncached_def split: option.splits)

lemma effective_frame [simp]:
  "acl (snd (effective ev s r)) = acl ev" "generation (snd (effective ev s r)) = generation ev"
  by (auto simp: effective_def Let_def split: option.splits)

lemma effective_cache_ok:
  assumes "cache_ok ev" "proper_class s"
  shows "cache_ok (snd (effective ev s r))"
proof -
  have "perm_cache.sound (acl ev) (generation ev)
      (fmupd (cache_key_of s r) (generation ev, uncached (acl ev) (s, r)) (cache ev))"
    using perm_cache.sound_store[of _ _ _ "(s, r)", OF assms(1)] assms(2) by simp
  then show ?thesis
    using assms(1) by (auto simp: effective_def Let_def uncached_def split: option.splits)
qed

lemma invalidate_cache_ok: "cache_ok (invalidate ev)"
  by (simp add: invalidate_def perm_cache.sound_empty)

text \<open>
  Tables are only built by \<open>acl_insert\<close> from the empty one (the field is private), so every
  table handed to \<open>replace_table\<close> is well formed.
\<close>

inductive perm_step :: "permission_evaluator \<Rightarrow> permission_evaluator \<Rightarrow> bool" where
  replace: "acl_wf t \<Longrightarrow> perm_step ev (replace_table ev t)"
| insert: "perm_step ev (insert_rule ev resource p r)"
| query: "proper_class s \<Longrightarrow> perm_step ev (snd (effective ev s resource))"

inductive perm_reachable :: "permission_evaluator \<Rightarrow> bool" where
  start: "perm_reachable new_evaluator"
| step: "perm_reachable ev \<Longrightarrow> perm_step ev ev' \<Longrightarrow> perm_reachable ev'"

lemma perm_step_cache_ok: "perm_step ev ev' \<Longrightarrow> cache_ok ev \<Longrightarrow> cache_ok ev'"
  by (induction rule: perm_step.induct)
    (simp_all only: replace_table_def insert_rule_def invalidate_cache_ok effective_cache_ok)

lemma perm_reachable_cache_ok: "perm_reachable ev \<Longrightarrow> cache_ok ev"
  by (induction rule: perm_reachable.induct)
    (auto simp: new_evaluator_def perm_cache.sound_empty intro: perm_step_cache_ok)

lemma perm_reachable_wf: "perm_reachable ev \<Longrightarrow> acl_wf (acl ev)"
proof (induction rule: perm_reachable.induct)
  case start
  then show ?case by (simp add: new_evaluator_def empty_table_def acl_wf_def)
next
  case (step ev ev')
  from step.hyps(2) step.IH show ?case
    by cases (simp_all add: replace_table_def insert_rule_def invalidate_def acl_insert_wf)
qed

text \<open>
  C1. In every state the evaluator can reach, under any interleaving of rule insertions,
  table replacements and cached queries, \<open>effective\<close> answers what the uncached walk over the
  current table gives (all capabilities for a superuser). A stale answer is never served.
\<close>

theorem effective_cache_transparent:
  assumes "perm_reachable ev" "proper_class s"
  shows "fst (effective ev s r) =
    (if subj_role s = Superuser then u64_max
     else walk (acl ev) (principals s) (base_caps s) (ancestors r))"
  using effective_answer[OF perm_reachable_cache_ok[OF assms(1)] assms(2)]
  by (simp add: uncached_def)

text \<open>A concrete evaluator: one rule at \<open>a\<close> that denies and allows for everyone.\<close>

definition demo_subject :: subject where
  "demo_subject = \<lparr>account_id = 7, subj_role = User, class_id = None, class_mask = 0,
     grant_mask = 0, revoke_mask = 0\<rparr>"

definition demo_evaluator :: permission_evaluator where
  "demo_evaluator = insert_rule new_evaluator (lit ''a'') Everyone \<lparr>allow = 2048, deny = 512\<rparr>"

lemma demo_reachable: "perm_reachable demo_evaluator"
  unfolding demo_evaluator_def by (rule perm_reachable.step[OF perm_reachable.start perm_step.insert])

lemma demo_proper: "proper_class demo_subject"
  by (simp add: proper_class_def demo_subject_def)

theorem effective_cache_transparent_witness:
  "perm_reachable demo_evaluator \<and> proper_class demo_subject \<and>
   fst (effective (snd (effective demo_evaluator demo_subject (lit ''a''))) demo_subject (lit ''a'')) =
   walk (acl demo_evaluator) (principals demo_subject) (base_caps demo_subject) (ancestors (lit ''a''))"
proof -
  have r: "perm_reachable (snd (effective demo_evaluator demo_subject (lit ''a'')))"
    by (rule perm_reachable.step[OF demo_reachable perm_step.query[OF demo_proper]])
  show ?thesis
    using effective_cache_transparent[OF r demo_proper] demo_reachable demo_proper
    by (simp add: demo_subject_def)
qed

section \<open>The nearest ancestor decides\<close>

lemma walk_first:
  assumes "level_rule t p ps = Some rule" "p \<in> set ls"
    and "sorted_wrt (\<lambda>p p'. length p' < length p) ls"
    and "\<And>p'. p' \<in> set ls \<Longrightarrow> length p < length p' \<Longrightarrow> level_rule t p' ps = None"
  shows "walk t ps caps ls = (caps OR allow rule) AND NOT (deny rule)"
  using assms(2-4)
proof (induction ls)
  case Nil
  then show ?case by simp
next
  case (Cons l ls)
  then show ?case using assms(1) by (cases "l = p") auto
qed

lemma walk_none: "(\<And>p. p \<in> set ls \<Longrightarrow> level_rule t p ps = None) \<Longrightarrow> walk t ps caps ls = caps"
  by (induction ls) auto

text \<open>
  For a subject below superuser the longest ancestor of the resource on which any of the
  subject's principals has a rule decides alone, whatever the levels above it say: a capability
  is held if the base mask or some matching rule of that level allows it, and no matching rule
  of that level denies it.
\<close>

lemma effective_nearest_ancestor:
  assumes "perm_reachable ev" "proper_class s" "subj_role s \<noteq> Superuser"
    and "is_ancestor p r" "q \<in> set (principals s)" "acl_abs (acl ev) p q \<noteq> None"
    and "\<And>p' q'. is_ancestor p' r \<Longrightarrow> length p < length p' \<Longrightarrow> q' \<in> set (principals s) \<Longrightarrow>
      acl_abs (acl ev) p' q' = None"
  shows "bit (fst (effective ev s r)) n \<longleftrightarrow>
    (bit (base_caps s) n \<or>
      (\<exists>q x. q \<in> set (principals s) \<and> acl_abs (acl ev) p q = Some x \<and> bit (allow x) n)) \<and>
    \<not> (\<exists>q x. q \<in> set (principals s) \<and> acl_abs (acl ev) p q = Some x \<and> bit (deny x) n)"
proof -
  note wf = perm_reachable_wf[OF assms(1)]
  obtain rule where rule: "level_rule (acl ev) p (principals s) = Some rule"
    using level_rule_None[OF wf, of p "principals s"] assms(5,6) by fastforce
  have "walk (acl ev) (principals s) (base_caps s) (ancestors r) =
      (base_caps s OR allow rule) AND NOT (deny rule)"
    using assms(4,7) level_rule_None[OF wf]
    by (intro walk_first[OF rule _ ancestors_lengths]) (auto simp: set_ancestors)
  then have "fst (effective ev s r) = (base_caps s OR allow rule) AND NOT (deny rule)"
    using effective_answer[OF perm_reachable_cache_ok[OF assms(1)] assms(2), of r] assms(3)
    by (simp add: uncached_def)
  then show ?thesis
    using level_rule_bits[OF wf rule, of allow n] level_rule_bits[OF wf rule, of deny n]
    by (auto simp: bit_and_iff bit_or_iff bit_not_iff dest: bit_imp_possible_bit)
qed

lemma demo_table: "acl_abs (acl demo_evaluator) p q =
    (if p = lit ''a'' \<and> q = Everyone then Some \<lparr>allow = 2048, deny = 512\<rparr> else None)"
  by (simp add: demo_evaluator_def insert_rule_def invalidate_def acl_insert_def new_evaluator_def
      empty_table_def acl_abs_def Let_def)

section \<open>Writing a rule\<close>

text \<open>
  Inserting a rule refines a point update of the abstract table: afterwards exactly that
  principal on exactly that resource has the new rule, every other entry is what it was, and no
  principal has two entries on a resource.
\<close>

lemma acl_insert_refines:
  assumes "acl_wf t"
  shows "acl_abs (acl_insert t resource p r) = (acl_abs t)(resource := (acl_abs t resource)(p \<mapsto> r))
    \<and> acl_wf (acl_insert t resource p r)"
  using acl_insert_wf[OF assms]
  by (auto simp: acl_abs_def acl_insert_def Let_def map_of_upsert)

section \<open>The security level\<close>

lemma clamp_bounds: "lo \<le> hi \<Longrightarrow> lo \<le> clamp x lo hi \<and> clamp x lo hi \<le> hi"
  by (simp add: clamp_def)

fun sl_floor :: "role \<Rightarrow> nat" where
  "sl_floor Guest = 1" | "sl_floor User = 26" | "sl_floor Moderator = 71"
| "sl_floor Admin = 96" | "sl_floor Superuser = 255"

fun sl_ceil :: "role \<Rightarrow> nat" where
  "sl_ceil Guest = 25" | "sl_ceil User = 70" | "sl_ceil Moderator = 95"
| "sl_ceil Admin = 250" | "sl_ceil Superuser = 255"

lemma unat_byte_of_int: "0 \<le> x \<Longrightarrow> x < 256 \<Longrightarrow> unat (word_of_int x :: u8) = nat x"
  by (simp add: unat_eq_nat_uint uint_word_of_int_eq take_bit_int_eq_self)

lemma security_level_band:
  "sl_floor (subj_role s) \<le> unat (security_level s) \<and> unat (security_level s) \<le> sl_ceil (subj_role s)"
proof -
  let ?lv = "\<lambda>b. fold (sl_nudge (default_caps (subj_role s)) (base_caps s)) SL_NUDGE_CAPS b"
  have bounded: "lo \<le> unat (word_of_int (clamp x (int lo) (int hi)) :: u8) \<and>
      unat (word_of_int (clamp x (int lo) (int hi)) :: u8) \<le> hi" if "lo \<le> hi" "hi < 256" for x lo hi
    using that clamp_bounds[of "int lo" "int hi" x] by (subst (1 2) unat_byte_of_int) auto
  show ?thesis
    using bounded[of 1 25 "?lv 10"] bounded[of 26 70 "?lv 30"] bounded[of 71 95 "?lv 80"]
      bounded[of 96 250 "?lv 100"]
    by (cases "subj_role s") (simp_all add: security_level_def)
qed

text \<open>
  The projection on the classic security level never ranks a higher role at or below a lower
  one: whatever classes, grants and revocations either subject has, a strictly lower role gets a
  strictly lower level, and each level stays in the documented band of its role.
\<close>

lemma security_level_monotone:
  assumes "subj_role s < subj_role s'"
  shows "unat (security_level s) < unat (security_level s') \<and>
    sl_floor (subj_role s) \<le> unat (security_level s) \<and> unat (security_level s) \<le> sl_ceil (subj_role s)"
proof -
  have "sl_ceil r < sl_floor r'" if "r < r'" for r r'
    using that by (cases r; cases r') (simp_all add: less_role_def)
  from this[OF assms] have "sl_ceil (subj_role s) < sl_floor (subj_role s')" .
  with security_level_band[of s] security_level_band[of s'] show ?thesis by linarith
qed

text \<open>
  The configuration spelling of a minimum role parses back to the role it names, and the
  superuser is the one role with a name that is not an accepted minimum.
\<close>

lemma parse_min_role_inverse:
  "parse_min_role (min_role_name r) = (if r = Superuser then None else Some r)"
  by (cases r) (simp_all add: parse_min_role_def trim_def trim_start_def trim_end_def
      is_whitespace_def to_ascii_lowercase_def ascii_lower_def)

end
