(* ===== verification/Hotline_Access.thy ===== *)
theory Hotline_Access
  imports Hotline_Wire Permissions
begin

text \<open>
  Hotline accounts carry a 64-bit privilege bitmap, RabbitHole accounts a role, a class and
  capability masks. This theory holds the bitmap and the user flags (\<open>crates/legacy-hotline/src/access.rs\<close>),
  the projection between the two worlds (\<open>apps/server/src/hotline/access.rs\<close>, \<open>access_mask_for\<close> and
  \<open>role_for_access\<close> of \<open>hotline.rs\<close>), and the decisions of the account handlers NewUser and SetUser
  over the permission evaluator's subjects. Main results: the projection loses nothing it can
  represent, an accepted bitmap means exactly what it says, and neither handler lets an operator
  hand out a right or a rank that operator does not have.
\<close>

section \<open>Privileges and the access bitmap\<close>

datatype privilege =
    DeleteFiles | UploadFiles | DownloadFiles | RenameFiles | MoveFiles | CreateFolders |
    DeleteFolders | RenameFolders | MoveFolders | ReadChat | SendChat | OpenChat | CloseChat |
    ShowInList | CreateUsers | DeleteUsers | OpenUsers | ModifyUsers | ChangeOwnPassword |
    SendPrivateMessages | NewsReadArticle | NewsPostArticle | DisconnectUsers |
    CannotBeDisconnected | GetClientInfo | UploadAnywhere | AnyName | NoAgreement | SetFileComment |
    SetFolderComment | ViewDropBoxes | MakeAliases | Broadcast | NewsDeleteArticle |
    NewsCreateCategory | NewsDeleteCategory | NewsCreateFolder | NewsDeleteFolder

fun privilege_bit :: "privilege \<Rightarrow> nat" where
  "privilege_bit DeleteFiles = 0"
| "privilege_bit UploadFiles = 1"
| "privilege_bit DownloadFiles = 2"
| "privilege_bit RenameFiles = 3"
| "privilege_bit MoveFiles = 4"
| "privilege_bit CreateFolders = 5"
| "privilege_bit DeleteFolders = 6"
| "privilege_bit RenameFolders = 7"
| "privilege_bit MoveFolders = 8"
| "privilege_bit ReadChat = 9"
| "privilege_bit SendChat = 10"
| "privilege_bit OpenChat = 11"
| "privilege_bit CloseChat = 12"
| "privilege_bit ShowInList = 13"
| "privilege_bit CreateUsers = 14"
| "privilege_bit DeleteUsers = 15"
| "privilege_bit OpenUsers = 16"
| "privilege_bit ModifyUsers = 17"
| "privilege_bit ChangeOwnPassword = 18"
| "privilege_bit SendPrivateMessages = 19"
| "privilege_bit NewsReadArticle = 20"
| "privilege_bit NewsPostArticle = 21"
| "privilege_bit DisconnectUsers = 22"
| "privilege_bit CannotBeDisconnected = 23"
| "privilege_bit GetClientInfo = 24"
| "privilege_bit UploadAnywhere = 25"
| "privilege_bit AnyName = 26"
| "privilege_bit NoAgreement = 27"
| "privilege_bit SetFileComment = 28"
| "privilege_bit SetFolderComment = 29"
| "privilege_bit ViewDropBoxes = 30"
| "privilege_bit MakeAliases = 31"
| "privilege_bit Broadcast = 32"
| "privilege_bit NewsDeleteArticle = 33"
| "privilege_bit NewsCreateCategory = 34"
| "privilege_bit NewsDeleteCategory = 35"
| "privilege_bit NewsCreateFolder = 36"
| "privilege_bit NewsDeleteFolder = 37"

definition ALL_PRIVILEGES :: "privilege list" where
  "ALL_PRIVILEGES =
    [DeleteFiles, UploadFiles, DownloadFiles, RenameFiles, MoveFiles, CreateFolders, DeleteFolders,
    RenameFolders, MoveFolders, ReadChat, SendChat, OpenChat, CloseChat, ShowInList, CreateUsers,
    DeleteUsers, OpenUsers, ModifyUsers, ChangeOwnPassword, SendPrivateMessages, NewsReadArticle,
    NewsPostArticle, DisconnectUsers, CannotBeDisconnected, GetClientInfo, UploadAnywhere, AnyName,
    NoAgreement, SetFileComment, SetFolderComment, ViewDropBoxes, MakeAliases, Broadcast,
    NewsDeleteArticle, NewsCreateCategory, NewsDeleteCategory, NewsCreateFolder, NewsDeleteFolder]"

text \<open>Eight bytes; bit 0 is the most significant bit of the first.\<close>

type_synonym access_mask = bytes

definition MASK_LEN :: nat where "MASK_LEN = 8"

definition MASK_NONE :: access_mask where "MASK_NONE = replicate MASK_LEN 0"

definition decode_mask :: "bytes \<Rightarrow> hotline_error + access_mask" where
  "decode_mask b =
     (if length b < MASK_LEN then Inl (Truncated (MASK_LEN - length b) (length b))
      else if length b > MASK_LEN then Inl (TrailingBytes (length b - MASK_LEN))
      else Inr b)"

definition mask_bit :: "access_mask \<Rightarrow> nat \<Rightarrow> bool" where
  "mask_bit m n \<longleftrightarrow> (if n \<ge> 64 then False else m ! (n div 8) AND drop_bit (n mod 8) 0x80 \<noteq> 0)"

definition set_mask_bit :: "access_mask \<Rightarrow> nat \<Rightarrow> bool \<Rightarrow> access_mask" where
  "set_mask_bit m n on =
     (if n \<ge> 64 then m
      else let am = drop_bit (n mod 8) 0x80; b = m ! (n div 8)
           in m[n div 8 := (if on then b OR am else b AND NOT am)])"

definition has :: "access_mask \<Rightarrow> privilege \<Rightarrow> bool" where
  "has m p = mask_bit m (privilege_bit p)"

definition grant :: "access_mask \<Rightarrow> privilege \<Rightarrow> access_mask" where
  "grant m p = set_mask_bit m (privilege_bit p) True"

definition revoke :: "access_mask \<Rightarrow> privilege \<Rightarrow> access_mask" where
  "revoke m p = set_mask_bit m (privilege_bit p) False"

definition mask_from_iter :: "privilege list \<Rightarrow> access_mask" where
  "mask_from_iter ps = foldl grant MASK_NONE ps"

section \<open>User flags\<close>

definition decode_flags :: "bytes \<Rightarrow> hotline_error + u16" where
  "decode_flags b =
     (case read_int b of
        Inl e \<Rightarrow> Inl e
      | Inr v \<Rightarrow> if unat v \<le> U16_MAX then Inr (ucast v) else Inl (TooLarge (unat v) U16_MAX))"

definition flag_bit :: "u16 \<Rightarrow> nat \<Rightarrow> bool" where
  "flag_bit w n \<longleftrightarrow> (if n \<ge> 16 then False else w AND push_bit n 1 \<noteq> 0)"

definition set_flag_bit :: "u16 \<Rightarrow> nat \<Rightarrow> bool \<Rightarrow> u16" where
  "set_flag_bit w n on = (if n \<ge> 16 then w else if on then w OR push_bit n 1 else w AND NOT (push_bit n 1))"

section \<open>The projection\<close>

definition GROUPS :: "(caps \<times> privilege list) list" where
  "GROUPS = [
     (WHO, [GetClientInfo]),
     (CHAT_READ, [ReadChat]),
     (CHAT_SEND, [SendChat]),
     (CHAT_CREATE_ROOM, [OpenChat]),
     (CHAT_MODERATE, [CloseChat]),
     (DM_SEND, [SendPrivateMessages]),
     (BOARD_READ, [NewsReadArticle]),
     (BOARD_POST, [NewsPostArticle]),
     (BOARD_MODERATE, [NewsDeleteArticle, NewsCreateCategory, NewsDeleteCategory, NewsCreateFolder, NewsDeleteFolder]),
     (FILE_DOWNLOAD, [DownloadFiles]),
     (FILE_UPLOAD, [UploadFiles]),
     (FILE_MANAGE, [DeleteFiles, RenameFiles, MoveFiles, CreateFolders, DeleteFolders, RenameFolders, MoveFolders, UploadAnywhere, SetFileComment, SetFolderComment, MakeAliases]),
     (DROPBOX_VIEW, [ViewDropBoxes]),
     (USER_KICK, [DisconnectUsers]),
     (CANNOT_BE_KICKED, [CannotBeDisconnected]),
     (ACCOUNT_ADMIN, [CreateUsers, DeleteUsers, OpenUsers, ModifyUsers]),
     (BROADCAST, [Broadcast])]"

definition mapped_caps :: u64 where
  "mapped_caps = foldl (\<lambda>am (cap, _). am OR cap) 0 GROUPS"

datatype access_error = GroupsDisagree | UnsupportedBit

text \<open>The loop of \<open>requested_caps\<close>: the groups left, the capabilities and the supported bits so far.\<close>

fun requested_loop :: "access_mask \<Rightarrow> (caps \<times> privilege list) list \<Rightarrow> u64 \<Rightarrow> access_mask \<Rightarrow>
    access_error + u64 \<times> access_mask" where
  "requested_loop am [] caps supported = Inr (caps, supported)"
| "requested_loop am ((cap, bits) # groups) caps supported =
     (let count = length (filter (has am) bits) in
      if count \<noteq> 0 \<and> count \<noteq> length bits then Inl GroupsDisagree
      else requested_loop am groups (if count > 0 then caps OR cap else caps) (foldl grant supported bits))"

definition requested_caps :: "access_mask \<Rightarrow> access_error + u64" where
  "requested_caps am =
     (case requested_loop am GROUPS 0 (mask_from_iter [ShowInList, ChangeOwnPassword, AnyName]) of
        Inl e \<Rightarrow> Inl e
      | Inr (caps, supported) \<Rightarrow>
          if list_ex (\<lambda>n. mask_bit am n \<and> \<not> mask_bit supported n) [0..<64] then Inl UnsupportedBit
          else Inr caps)"

definition access_mask_for :: "role \<Rightarrow> u64 \<Rightarrow> access_mask" where
  "access_mask_for r caps =
     (let m = grant MASK_NONE ShowInList;
          m = foldl (\<lambda>m (cap, bits). if caps AND cap = cap then foldl grant m bits else m) m GROUPS
      in if r \<ge> User then grant (grant m ChangeOwnPassword) AnyName else m)"

definition role_for_access :: "access_mask \<Rightarrow> role" where
  "role_for_access m =
     (if has m CreateUsers \<or> has m DeleteUsers \<or> has m ModifyUsers then Admin
      else if has m DisconnectUsers \<or> has m NewsDeleteArticle \<or> has m CloseChat then Moderator
      else if has m NewsPostArticle \<or> has m UploadFiles \<or> has m DownloadFiles \<or>
              has m SendPrivateMessages \<or> has m OpenChat then User
      else Guest)"

section \<open>Accounts\<close>

text \<open>The columns of an account row that access decisions read.\<close>

record account =
  acc_id :: int
  acc_role :: u8
  acc_class :: "int option"
  acc_grant :: u64
  acc_revoke :: u64

record account_access =
  aa_role :: u8
  aa_class :: "int option"
  aa_grant :: u64
  aa_revoke :: u64

definition access_of :: "account \<Rightarrow> account_access" where
  "access_of a = \<lparr>aa_role = acc_role a, aa_class = acc_class a, aa_grant = acc_grant a, aa_revoke = acc_revoke a\<rparr>"

definition overrides :: "role \<Rightarrow> int option \<Rightarrow> u64 \<Rightarrow> u64 \<Rightarrow> account option \<Rightarrow> account_access" where
  "overrides r cid cmask desired previous =
     (let base = default_caps r OR cmask;
          (g, v) = (case previous of
                      Some a \<Rightarrow> (acc_grant a AND NOT mapped_caps, acc_revoke a AND NOT mapped_caps)
                    | None \<Rightarrow> (0, 0))
      in \<lparr>aa_role = role_ordinal r, aa_class = cid,
          aa_grant = g OR (desired AND mapped_caps) OR (desired AND NOT base),
          aa_revoke = v OR (mapped_caps AND NOT desired) OR (base AND NOT desired)\<rparr>)"

text \<open>The class table: id, name and capability mask of each class.\<close>

type_synonym classes = "(int \<times> str \<times> u64) list"

definition class_by_id :: "classes \<Rightarrow> int \<Rightarrow> u64 option" where
  "class_by_id cs i = map_option (\<lambda>(_, _, m). m) (List.find (\<lambda>(j, _, _). j = i) cs)"

definition class_by_name :: "classes \<Rightarrow> str \<Rightarrow> (int \<times> u64) option" where
  "class_by_name cs n = map_option (\<lambda>(j, _, m). (j, m)) (List.find (\<lambda>(_, n', _). n' = n) cs)"

datatype admin_error =
    ClassChanged | AccessRefused access_error | InvalidBitmap | CannotAssign | CannotGrant | CannotChange
  | SuperuserAccess

definition current_class_mask :: "classes \<Rightarrow> int option \<Rightarrow> admin_error + u64" where
  "current_class_mask cs cid =
     (case cid of
        Some i \<Rightarrow> (case class_by_id cs i of Some m \<Rightarrow> Inr m | None \<Rightarrow> Inl ClassChanged)
      | None \<Rightarrow> Inr 0)"

text \<open>An account row and its class mask as a subject of the evaluator.\<close>

definition subject_of :: "int \<Rightarrow> account_access \<Rightarrow> u64 \<Rightarrow> subject" where
  "subject_of i a cmask =
     \<lparr>account_id = i, subj_role = from_ordinal (aa_role a), class_id = aa_class a, class_mask = cmask,
      grant_mask = aa_grant a, revoke_mask = aa_revoke a\<rparr>"

definition may_manage :: "subject \<Rightarrow> account \<Rightarrow> bool" where
  "may_manage op target \<longleftrightarrow>
     (if acc_id target = account_id op then False
      else subj_role op = Superuser \<or> from_ordinal (acc_role target) < subj_role op)"

definition may_assign :: "subject \<Rightarrow> role \<Rightarrow> bool" where
  "may_assign op r \<longleftrightarrow> subj_role op = Superuser \<or> r \<le> subj_role op"

section \<open>The handlers' decisions\<close>

definition requested_access :: "bytes option \<Rightarrow> admin_error + (access_mask \<times> u64) option" where
  "requested_access fld =
     (case fld of
        None \<Rightarrow> Inr None
      | Some b \<Rightarrow>
          (case decode_mask b of
             Inl _ \<Rightarrow> Inl InvalidBitmap
           | Inr am \<Rightarrow>
               (case requested_caps am of
                  Inl e \<Rightarrow> Inl (AccessRefused e)
                | Inr caps \<Rightarrow> Inr (Some (am, caps)))))"

text \<open>
  NewUser: from the operator \<open>op\<close>, the class table and the USER\_ACCESS field to the access record the
  account is created with. The store's own refusals (login taken, database errors) come after it.
\<close>

definition new_user :: "classes \<Rightarrow> subject \<Rightarrow> bytes option \<Rightarrow> admin_error + account_access" where
  "new_user cs op fld =
     (case requested_access fld of
        Inl e \<Rightarrow> Inl e
      | Inr requested \<Rightarrow>
          let r = (case requested of Some (am, _) \<Rightarrow> role_for_access am | None \<Rightarrow> User) in
          if \<not> may_assign op r then Inl CannotAssign
          else
            let class = class_by_name cs (class_name r);
                cid = map_option fst class;
                cmask = (case class of Some (_, m) \<Rightarrow> m | None \<Rightarrow> 0);
                desired = (case requested of
                             Some (_, caps) \<Rightarrow> caps OR SEE OR FILE_LIST
                           | None \<Rightarrow> default_caps r OR cmask) in
            if desired AND NOT (base_caps op) \<noteq> 0 then Inl CannotGrant
            else Inr (case requested of
                        Some _ \<Rightarrow> overrides r cid cmask desired None
                      | None \<Rightarrow> \<lparr>aa_role = role_ordinal r, aa_class = cid, aa_grant = 0, aa_revoke = 0\<rparr>))"

text \<open>
  SetUser: the access record the account is to have, the capabilities it then has, and whether the
  row is written at all (an unchanged record with no new password is not).
\<close>

definition set_user :: "classes \<Rightarrow> subject \<Rightarrow> account \<Rightarrow> bytes option \<Rightarrow> bool \<Rightarrow>
    admin_error + account_access \<times> u64 \<times> bool" where
  "set_user cs op acct fld new_password =
     (case requested_access fld of
        Inl e \<Rightarrow> Inl e
      | Inr requested \<Rightarrow>
          (case current_class_mask cs (acc_class acct) of
             Inl e \<Rightarrow> Inl e
           | Inr cmask \<Rightarrow>
               let current = from_ordinal (acc_role acct);
                   current_caps = base_caps (subject_of (acc_id acct) (access_of acct) cmask);
                   edited = (case requested of
                       None \<Rightarrow> Inr (access_of acct, current_caps)
                     | Some (am, desired_mapped) \<Rightarrow>
                         if desired_mapped = current_caps AND mapped_caps then Inr (access_of acct, current_caps)
                         else if current = Superuser then Inl SuperuserAccess
                         else
                           let wanted = role_for_access am;
                               (cid, cmask') =
                                 (if wanted = current then (acc_class acct, cmask)
                                  else case class_by_name cs (class_name wanted) of
                                      Some (i, m) \<Rightarrow> (Some i, m)
                                    | None \<Rightarrow> (None, 0));
                               desired = (current_caps AND NOT mapped_caps) OR desired_mapped in
                           if (desired AND NOT current_caps) AND NOT (base_caps op) \<noteq> 0 then Inl CannotGrant
                           else Inr (overrides wanted cid cmask' desired (Some acct), desired)) in
               (case edited of
                  Inl e \<Rightarrow> Inl e
                | Inr (edit, next_caps) \<Rightarrow>
                    let changed = (edit \<noteq> access_of acct \<or> new_password) in
                    if changed \<and> (\<not> may_manage op acct \<or> \<not> may_assign op (from_ordinal (aa_role edit)))
                    then Inl CannotChange
                    else Inr (edit, next_caps, changed))))"

end
