(* ===== verification/Hotline_Access_Correct.thy ===== *)
theory Hotline_Access_Correct
  imports Hotline_Access
begin

text \<open>
  Correctness of the Hotline access projection and of the account handlers: bitmaps are sets of
  privilege bits, the projection and its inverse agree on everything a bitmap can say, and the
  handlers never create or edit an account beyond the operator's own standing.
\<close>

section \<open>Bitmaps as sets of bits\<close>

lemma high_bit_shifted: "j < 8 \<Longrightarrow> drop_bit j (0x80 :: u8) = push_bit (7 - j) 1"
proof -
  assume "j < 8"
  then have "j \<in> {0, 1, 2, 3, 4, 5, 6, 7}" by auto
  then show ?thesis by (elim insertE emptyE) (simp_all add: drop_bit_eq_div push_bit_eq_mult)
qed

lemma mask_bit_iff: "mask_bit m n \<longleftrightarrow> n < 64 \<and> bit (m ! (n div 8)) (7 - n mod 8)"
  by (simp add: mask_bit_def high_bit_shifted bit_iff_and_push_bit_not_eq_0)

lemma bit_position_eq: "(n :: nat) div 8 = k div 8 \<Longrightarrow> 7 - n mod 8 = 7 - k mod 8 \<Longrightarrow> n = k"
  using div_mult_mod_eq[of n 8] div_mult_mod_eq[of k 8] mod_less_divisor[of 8 n] mod_less_divisor[of 8 k]
  by linarith

lemma mask_bit_set:
  assumes "length m = MASK_LEN"
  shows "mask_bit (set_mask_bit m n on) k \<longleftrightarrow> (if k = n \<and> n < 64 then on else mask_bit m k)"
proof (cases "n < 64 \<and> k < 64")
  case True
  let ?b = "m ! (n div 8)" and ?j = "7 - n mod 8"
  have n: "n div 8 < length m" "?j < 8" using True assms less_mult_imp_div_less[of n 8 8] by (simp_all add: MASK_LEN_def)
  define v where "v = (if on then ?b OR push_bit ?j 1 else ?b AND NOT (push_bit ?j 1))"
  have flip: "bit v i = (if i = ?j then on else bit ?b i)" for i
    using n(2) by (auto simp: v_def bit_simps dest: bit_imp_le_length)
  have "set_mask_bit m n on = m[n div 8 := v]"
    using True by (simp add: set_mask_bit_def Let_def high_bit_shifted v_def)
  then show ?thesis
    using True n(1) bit_position_eq[of k n]
    by (cases "k div 8 = n div 8") (auto simp: mask_bit_iff flip)
qed (auto simp: mask_bit_iff set_mask_bit_def)

lemma length_set_mask_bit [simp]: "length (set_mask_bit m n on) = length m"
  by (simp add: set_mask_bit_def Let_def)

lemma privilege_UNIV: "p \<in> set ALL_PRIVILEGES"
  by (cases p) (simp_all add: ALL_PRIVILEGES_def)

lemma privilege_bits_all: "map privilege_bit ALL_PRIVILEGES = [0..<38]"
  by (simp add: ALL_PRIVILEGES_def upt_rec)

lemma privilege_bit_bound: "privilege_bit p < 64"
proof -
  have "privilege_bit p \<in> set [0..<38]"
    using privilege_UNIV[of p] by (metis privilege_bits_all image_eqI list.set_map)
  then show ?thesis by simp
qed

lemma privilege_bit_inj: "privilege_bit p = privilege_bit q \<longleftrightarrow> p = q"
proof -
  have "distinct (map privilege_bit ALL_PRIVILEGES)" by (simp add: privilege_bits_all)
  then show ?thesis by (metis distinct_map inj_onD privilege_UNIV)
qed

lemma length_grants [simp]: "length (foldl grant m ps) = length m"
  by (induction ps arbitrary: m) (simp_all add: grant_def)

lemma length_grant [simp]: "length (grant m p) = length m"
  by (simp add: grant_def)

lemma length_MASK_NONE [simp]: "length MASK_NONE = MASK_LEN"
  by (simp add: MASK_NONE_def)

lemma mask_bit_NONE [simp]: "\<not> mask_bit MASK_NONE n"
  by (simp add: mask_bit_iff MASK_NONE_def MASK_LEN_def)

lemma mask_bit_grant:
  "length m = MASK_LEN \<Longrightarrow> mask_bit (grant m p) n \<longleftrightarrow> n = privilege_bit p \<or> mask_bit m n"
  using privilege_bit_bound[of p] by (auto simp: grant_def mask_bit_set)

lemma mask_bit_grants:
  "length m = MASK_LEN \<Longrightarrow> mask_bit (foldl grant m ps) n \<longleftrightarrow> n \<in> privilege_bit ` set ps \<or> mask_bit m n"
  by (induction ps arbitrary: m) (auto simp: mask_bit_grant)

section \<open>Groups\<close>

lemma shared_element:
  "distinct (concat (map snd gs)) \<Longrightarrow> (c, bs) \<in> set gs \<Longrightarrow> (c', bs') \<in> set gs \<Longrightarrow> b \<in> set bs \<Longrightarrow> b \<in> set bs' \<Longrightarrow>
     c = c' \<and> bs = bs'"
  by (induction gs) fastforce+

lemma GROUPS_distinct: "distinct (concat (map snd GROUPS))"
  by (simp add: GROUPS_def)

lemma GROUPS_nonempty: "(c, bs) \<in> set GROUPS \<Longrightarrow> bs \<noteq> []"
  by (auto simp: GROUPS_def)

lemma GROUPS_no_identity: "(c, bs) \<in> set GROUPS \<Longrightarrow> set bs \<inter> {ShowInList, ChangeOwnPassword, AnyName} = {}"
  by (auto simp: GROUPS_def)

lemmas cap_defs = SEE_def WHO_def CANNOT_BE_KICKED_def CHAT_READ_def CHAT_SEND_def CHAT_CREATE_ROOM_def
  CHAT_MODERATE_def DM_SEND_def BOARD_READ_def BOARD_POST_def BOARD_MODERATE_def FILE_LIST_def
  FILE_DOWNLOAD_def FILE_UPLOAD_def FILE_MANAGE_def DROPBOX_VIEW_def SWARM_ADVERTISE_def DOOR_RUN_def
  USER_KICK_def USER_BAN_def ACCOUNT_ADMIN_def CONFIG_ADMIN_def BROADCAST_def AUDIT_READ_def MODERATE_def

definition group_bits :: "nat list" where
  "group_bits = [1, 8, 9, 10, 11, 16, 20, 21, 22, 29, 30, 31, 32, 48, 2, 50, 52]"

lemma GROUPS_caps: "map fst GROUPS = map (\<lambda>i. 2 ^ i) group_bits"
  by (simp only: GROUPS_def group_bits_def cap_defs list.map fst_conv push_bit_of_1)

lemma GROUPS_single_bit:
  assumes "(c, bs) \<in> set GROUPS"
  obtains i where "c = 2 ^ i" "i < 64"
proof -
  have "c \<in> set (map fst GROUPS)" using assms by force
  then obtain i where "c = 2 ^ i" "i \<in> set group_bits" unfolding GROUPS_caps list.set_map by (rule imageE)
  moreover have "\<forall>i \<in> set group_bits. i < 64" by (simp add: group_bits_def)
  ultimately show thesis using that by blast
qed

lemma and_single_bit:
  assumes "i < 64"
  shows "(caps :: u64) AND 2 ^ i = 2 ^ i \<longleftrightarrow> bit caps i"
proof
  assume "caps AND 2 ^ i = 2 ^ i"
  then have "bit (caps AND 2 ^ i) i = bit (2 ^ i :: u64) i" by simp
  then show "bit caps i" using assms by (simp add: bit_simps)
next
  assume "bit caps i"
  then show "caps AND 2 ^ i = 2 ^ i" by (intro bit_word_eqI) (auto simp: bit_simps)
qed

lemma bit_single: "i < 64 \<Longrightarrow> bit (2 ^ i :: u64) k \<longleftrightarrow> k = i"
  by (auto simp: bit_simps)

lemma group_held: "(c, bs) \<in> set GROUPS \<Longrightarrow> (caps AND c = c \<and> bit c k) \<longleftrightarrow> (bit caps k \<and> bit c k)"
  by (erule GROUPS_single_bit) (auto simp: and_single_bit bit_single)

section \<open>The two directions of the projection\<close>

definition grant_groups :: "u64 \<Rightarrow> access_mask \<Rightarrow> (caps \<times> privilege list) list \<Rightarrow> access_mask" where
  "grant_groups caps = foldl (\<lambda>m (cap, bits). if caps AND cap = cap then foldl grant m bits else m)"

lemma length_grant_groups [simp]: "length (grant_groups caps m gs) = length m"
  by (induction gs arbitrary: m) (simp_all add: grant_groups_def split: prod.splits)

lemma mask_bit_groups:
  "length m = MASK_LEN \<Longrightarrow> mask_bit (grant_groups caps m gs) n \<longleftrightarrow>
      mask_bit m n \<or> (\<exists>cap bits. (cap, bits) \<in> set gs \<and> caps AND cap = cap \<and> n \<in> privilege_bit ` set bits)"
proof (induction gs arbitrary: m)
  case (Cons g gs)
  obtain cap bits where g: "g = (cap, bits)" by fastforce
  let ?m = "if caps AND cap = cap then foldl grant m bits else m"
  have "mask_bit (grant_groups caps m (g # gs)) n = mask_bit (grant_groups caps ?m gs) n"
    by (simp add: g grant_groups_def)
  also have "\<dots> \<longleftrightarrow> mask_bit ?m n \<or> (\<exists>cap bits. (cap, bits) \<in> set gs \<and> caps AND cap = cap \<and> n \<in> privilege_bit ` set bits)"
    using Cons.prems by (intro Cons.IH) simp
  moreover have "(\<exists>c bs. (c, bs) \<in> set (g # gs) \<and> Q c bs) \<longleftrightarrow> Q cap bits \<or> (\<exists>c bs. (c, bs) \<in> set gs \<and> Q c bs)" for Q
    by (auto simp: g)
  ultimately show ?case using mask_bit_grants[OF Cons.prems] by (simp add: disj_ac)
qed (simp add: grant_groups_def)

lemma length_access_mask_for: "length (access_mask_for r caps) = MASK_LEN"
  by (simp add: access_mask_for_def Let_def grant_groups_def[symmetric])

lemma mask_bit_access_mask_for:
  "mask_bit (access_mask_for r caps) n \<longleftrightarrow>
     n \<in> privilege_bit ` (if r \<ge> User then {ShowInList, ChangeOwnPassword, AnyName} else {ShowInList}) \<or>
     (\<exists>cap bits. (cap, bits) \<in> set GROUPS \<and> caps AND cap = cap \<and> n \<in> privilege_bit ` set bits)"
  by (auto simp: access_mask_for_def Let_def mask_bit_grant mask_bit_groups grant_groups_def[symmetric])

lemma has_access_mask_for:
  assumes "(c, bs) \<in> set GROUPS" "p \<in> set bs"
  shows "has (access_mask_for r caps) p \<longleftrightarrow> caps AND c = c"
proof -
  have "p \<notin> {ShowInList, ChangeOwnPassword, AnyName}" using GROUPS_no_identity[OF assms(1)] assms(2) by auto
  then have "has (access_mask_for r caps) p \<longleftrightarrow> (\<exists>cap bits. (cap, bits) \<in> set GROUPS \<and> caps AND cap = cap \<and> p \<in> set bits)"
    by (auto simp: has_def mask_bit_access_mask_for image_iff privilege_bit_inj)
  also have "\<dots> \<longleftrightarrow> caps AND c = c"
    using shared_element[OF GROUPS_distinct assms(1) _ assms(2)] assms by metis
  finally show ?thesis .
qed

definition uniform :: "access_mask \<Rightarrow> privilege list \<Rightarrow> bool" where
  "uniform am bits \<longleftrightarrow> (\<forall>b \<in> set bits. has am b = has am (hd bits))"

lemma length_filter_all: "length (filter P xs) = length xs \<longleftrightarrow> (\<forall>x \<in> set xs. P x)"
  by (induction xs) (simp_all, metis Suc_n_not_le_n length_filter_le)

lemma count_uniform:
  assumes "bits \<noteq> []"
  shows "uniform am bits \<longleftrightarrow> length (filter (has am) bits) = 0 \<or> length (filter (has am) bits) = length bits"
    and "uniform am bits \<Longrightarrow> (length (filter (has am) bits) > 0) = has am (hd bits)"
proof -
  show "uniform am bits \<longleftrightarrow> length (filter (has am) bits) = 0 \<or> length (filter (has am) bits) = length bits"
    using hd_in_set[OF assms] by (auto simp: uniform_def filter_empty_conv length_filter_all)
  show "uniform am bits \<Longrightarrow> (length (filter (has am) bits) > 0) = has am (hd bits)"
    using hd_in_set[OF assms] unfolding uniform_def length_greater_0_conv filter_empty_conv by blast
qed

lemma requested_loop_eq:
  assumes "\<forall>(_, bits) \<in> set gs. bits \<noteq> []"
  shows "requested_loop am gs caps supported =
    (if \<forall>(_, bits) \<in> set gs. uniform am bits
     then Inr (foldl (\<lambda>c (cap, bits). if has am (hd bits) then c OR cap else c) caps gs,
               foldl grant supported (concat (map snd gs)))
     else Inl GroupsDisagree)"
  using assms
proof (induction gs arbitrary: caps supported)
  case (Cons g gs)
  obtain cap bits where g: "g = (cap, bits)" by fastforce
  with Cons.prems count_uniform[of bits am] show ?case
    by (cases "uniform am bits") (auto simp: Cons.IH Let_def)
qed simp

lemma bit_fold_caps:
  "bit (foldl (\<lambda>c (cap, bits). if P cap bits then c OR cap else c) c gs) k \<longleftrightarrow>
     bit c k \<or> (\<exists>(cap, bits) \<in> set gs. P cap bits \<and> bit cap k)"
  by (induction gs arbitrary: c) (auto simp: bit_or_iff split: prod.splits)

lemma bit_mapped_caps: "bit mapped_caps k \<longleftrightarrow> (\<exists>(cap, bits) \<in> set GROUPS. bit cap k)"
  using bit_fold_caps[of "\<lambda>_ _. True" 0 GROUPS k] by (simp add: mapped_caps_def)

definition supported_bits :: "nat set" where
  "supported_bits = privilege_bit ` ({ShowInList, ChangeOwnPassword, AnyName} \<union> set (concat (map snd GROUPS)))"

lemma in_supported_bits:
  "n \<in> supported_bits \<longleftrightarrow>
     n \<in> privilege_bit ` {ShowInList, ChangeOwnPassword, AnyName} \<or>
     (\<exists>cap bits. (cap, bits) \<in> set GROUPS \<and> n \<in> privilege_bit ` set bits)"
proof -
  have "set (concat (map snd GROUPS)) = {p. \<exists>cap bits. (cap, bits) \<in> set GROUPS \<and> p \<in> set bits}" by force
  then show ?thesis unfolding supported_bits_def image_Un by blast
qed

lemma requested_caps_eq:
  "requested_caps am =
    (if \<forall>(_, bits) \<in> set GROUPS. uniform am bits
     then if \<exists>n<64. mask_bit am n \<and> n \<notin> supported_bits then Inl UnsupportedBit
          else Inr (foldl (\<lambda>c (cap, bits). if has am (hd bits) then c OR cap else c) 0 GROUPS)
     else Inl GroupsDisagree)"
proof -
  have "\<forall>(_, bits) \<in> set GROUPS. bits \<noteq> []" using GROUPS_nonempty by fast
  moreover have "mask_bit (foldl grant (mask_from_iter [ShowInList, ChangeOwnPassword, AnyName]) (concat (map snd GROUPS))) n \<longleftrightarrow>
      n \<in> supported_bits" for n
    by (auto simp: mask_bit_grants mask_bit_grant mask_from_iter_def supported_bits_def)
  ultimately show ?thesis
    by (simp add: requested_caps_def requested_loop_eq list_ex_iff Bex_def atLeast0LessThan conj_ac) auto
qed

lemma GROUPS_cap_inj:
  assumes "(c, bs) \<in> set GROUPS" "(c, bs') \<in> set GROUPS"
  shows "bs = bs'"
proof -
  have "inj_on (\<lambda>i. 2 ^ i :: u64) (set group_bits)"
  proof (rule inj_onI)
    fix i j
    assume "i \<in> set group_bits" "j \<in> set group_bits" "2 ^ i = (2 ^ j :: u64)"
    moreover have "\<forall>i \<in> set group_bits. i < 64" by (simp add: group_bits_def)
    ultimately show "i = j" using bit_single[of i i] bit_single[of j i] by simp
  qed
  then have "distinct (map fst GROUPS)"
    unfolding GROUPS_caps distinct_map by (simp add: group_bits_def)
  then show ?thesis using assms by (simp add: eq_key_imp_eq_value)
qed

lemma projected_uniform: "(c, bs) \<in> set GROUPS \<Longrightarrow> uniform (access_mask_for r caps) bs"
  using has_access_mask_for[of c bs] GROUPS_nonempty[of c bs] by (simp add: uniform_def)

lemma requested_projected: "requested_caps (access_mask_for r caps) = Inr (caps AND mapped_caps)"
proof -
  have "\<not> (\<exists>n<64. mask_bit (access_mask_for r caps) n \<and> n \<notin> supported_bits)"
    unfolding in_supported_bits mask_bit_access_mask_for by (auto split: if_splits)
  moreover have "foldl (\<lambda>c (cap, bits). if has (access_mask_for r caps) (hd bits) then c OR cap else c) 0 GROUPS =
      caps AND mapped_caps"
  proof (rule bit_word_eqI)
    fix k
    have "(has (access_mask_for r caps) (hd bits) \<and> bit cap k) = (bit caps k \<and> bit cap k)"
      if "(cap, bits) \<in> set GROUPS" for cap bits
      using has_access_mask_for[OF that hd_in_set[OF GROUPS_nonempty[OF that]]] group_held[OF that] by simp
    then have "(\<exists>(cap, bits) \<in> set GROUPS. has (access_mask_for r caps) (hd bits) \<and> bit cap k) \<longleftrightarrow>
        (\<exists>(cap, bits) \<in> set GROUPS. bit caps k \<and> bit cap k)"
      by (intro bex_cong refl) (simp add: case_prod_beta)
    then show "bit (foldl (\<lambda>c (cap, bits). if has (access_mask_for r caps) (hd bits) then c OR cap else c) 0 GROUPS) k =
        bit (caps AND mapped_caps) k"
      unfolding bit_fold_caps[of "\<lambda>_ bits. has (access_mask_for r caps) (hd bits)"] by (auto simp: bit_and_iff bit_mapped_caps)
  qed
  ultimately show ?thesis using projected_uniform by (simp add: requested_caps_eq split: prod.splits) blast
qed

lemma requested_caps_bit:
  assumes "requested_caps am = Inr c" "(cap, bits) \<in> set GROUPS"
  shows "c AND cap = cap \<longleftrightarrow> has am (hd bits)"
proof -
  obtain i where i: "cap = 2 ^ i" "i < 64" using assms(2) by (rule GROUPS_single_bit)
  have c: "c = foldl (\<lambda>c (cap, bits). if has am (hd bits) then c OR cap else c) 0 GROUPS"
    using assms(1) by (simp add: requested_caps_eq split: if_splits)
  have "c AND cap = cap \<longleftrightarrow> bit c i" unfolding i(1) by (rule and_single_bit[OF i(2)])
  also have "\<dots> \<longleftrightarrow> (\<exists>(cap', bits') \<in> set GROUPS. has am (hd bits') \<and> bit cap' i)"
    unfolding c bit_fold_caps[of "\<lambda>_ bits. has am (hd bits)"] by simp
  also have "\<dots> \<longleftrightarrow> has am (hd bits)"
  proof
    assume "\<exists>(cap', bits') \<in> set GROUPS. has am (hd bits') \<and> bit cap' i"
    then obtain cap' bits' where g: "(cap', bits') \<in> set GROUPS" "has am (hd bits')" "bit cap' i" by auto
    obtain j where "cap' = 2 ^ j" "j < 64" using g(1) by (rule GROUPS_single_bit)
    with g(3) i have "cap' = cap" by (simp add: bit_single)
    with GROUPS_cap_inj g(1,2) assms(2) show "has am (hd bits)" by blast
  next
    assume "has am (hd bits)"
    then show "\<exists>(cap', bits') \<in> set GROUPS. has am (hd bits') \<and> bit cap' i"
      using assms(2) i by (intro bexI[of _ "(cap, bits)"]) (simp_all add: bit_single)
  qed
  finally show ?thesis .
qed

lemma accepted_is_projection:
  assumes "requested_caps am = Inr c" "n \<notin> privilege_bit ` {ShowInList, ChangeOwnPassword, AnyName}"
  shows "mask_bit am n = mask_bit (access_mask_for r c) n"
proof (cases "\<exists>cap bits p. (cap, bits) \<in> set GROUPS \<and> p \<in> set bits \<and> n = privilege_bit p")
  case True
  then obtain cap bits p where g: "(cap, bits) \<in> set GROUPS" "p \<in> set bits" "n = privilege_bit p" by blast
  have "uniform am bits" using assms(1) g(1) by (auto simp: requested_caps_eq split: if_splits)
  then have "mask_bit am n = has am (hd bits)" using g by (simp add: uniform_def has_def)
  also have "\<dots> = (c AND cap = cap)" using requested_caps_bit[OF assms(1) g(1)] by simp
  also have "\<dots> = mask_bit (access_mask_for r c) n"
    using has_access_mask_for[OF g(1,2)] g(3) by (simp add: has_def)
  finally show ?thesis .
next
  case False
  then have "n \<notin> supported_bits" using assms(2) unfolding in_supported_bits by blast
  then have "\<not> mask_bit am n"
    using assms(1) by (auto simp: requested_caps_eq mask_bit_iff split: if_splits)
  moreover have "\<not> mask_bit (access_mask_for r c) n"
    using False assms(2) by (auto simp: mask_bit_access_mask_for split: if_splits)
  ultimately show ?thesis by simp
qed

lemmas group_members = has_access_mask_for[of ACCOUNT_ADMIN "[CreateUsers, DeleteUsers, OpenUsers, ModifyUsers]"]
  has_access_mask_for[of USER_KICK "[DisconnectUsers]"]
  has_access_mask_for[of BOARD_MODERATE "[NewsDeleteArticle, NewsCreateCategory, NewsDeleteCategory, NewsCreateFolder, NewsDeleteFolder]"]
  has_access_mask_for[of CHAT_MODERATE "[CloseChat]"]
  has_access_mask_for[of BOARD_POST "[NewsPostArticle]"]
  has_access_mask_for[of FILE_UPLOAD "[UploadFiles]"]
  has_access_mask_for[of FILE_DOWNLOAD "[DownloadFiles]"]
  has_access_mask_for[of DM_SEND "[SendPrivateMessages]"]
  has_access_mask_for[of CHAT_CREATE_ROOM "[OpenChat]"]

lemma role_for_projection:
  "role_for_access (access_mask_for r caps) =
     (if caps AND ACCOUNT_ADMIN = ACCOUNT_ADMIN then Admin
      else if caps AND USER_KICK = USER_KICK \<or> caps AND BOARD_MODERATE = BOARD_MODERATE \<or>
              caps AND CHAT_MODERATE = CHAT_MODERATE then Moderator
      else if caps AND BOARD_POST = BOARD_POST \<or> caps AND FILE_UPLOAD = FILE_UPLOAD \<or>
              caps AND FILE_DOWNLOAD = FILE_DOWNLOAD \<or> caps AND DM_SEND = DM_SEND \<or>
              caps AND CHAT_CREATE_ROOM = CHAT_CREATE_ROOM then User
      else Guest)"
  by (simp add: role_for_access_def group_members GROUPS_def)

lemma role_of_default_projection:
  "role_for_access (access_mask_for r (default_caps r)) = (if r = Superuser then Admin else r)"
  by (cases r) (simp_all add: role_for_projection guest_caps_def user_caps_def moderator_caps_def admin_caps_def cap_defs)

text \<open>
  The bitmap projection is exact: what a bitmap is accepted as is precisely the set of
  capabilities it was projected from, as far as a bitmap can say; every accepted bitmap is, apart
  from the three identity indicators, the projection of the capabilities it is accepted as, so no
  bit is rounded up or silently ignored; and the default rights of a role project to a bitmap that
  reads as that role, with superuser reading as admin.
\<close>

lemma access_projection_exact:
  "requested_caps (access_mask_for r caps) = Inr (caps AND mapped_caps) \<and>
   (requested_caps am = Inr c \<and> n \<notin> privilege_bit ` {ShowInList, ChangeOwnPassword, AnyName} \<longrightarrow>
      mask_bit am n = mask_bit (access_mask_for r c) n) \<and>
   role_for_access (access_mask_for r (default_caps r)) = (if r = Superuser then Admin else r)"
  using requested_projected accepted_is_projection role_of_default_projection by blast

section \<open>Standing\<close>

lemma from_ordinal_role [simp]: "from_ordinal (role_ordinal r) = r"
  by (cases r) (simp_all add: from_ordinal_def)

lemma role_for_access_not_superuser [simp]: "role_for_access m \<noteq> Superuser"
  by (simp add: role_for_access_def)

lemma requested_caps_mapped: "requested_caps am = Inr c \<Longrightarrow> bit c k \<Longrightarrow> bit mapped_caps k"
  using bit_fold_caps[of "\<lambda>_ bits. has am (hd bits)" 0 GROUPS k]
  by (fastforce simp: requested_caps_eq bit_mapped_caps split: if_splits)

lemma base_caps_subject_of:
  "base_caps (subject_of i a m) =
     (if from_ordinal (aa_role a) = Superuser then u64_max
      else (default_caps (from_ordinal (aa_role a)) OR m OR aa_grant a) AND NOT (aa_revoke a))"
  by (simp add: base_caps_def subject_of_def Let_def or.assoc)

lemma base_caps_overrides_None:
  "r \<noteq> Superuser \<Longrightarrow> base_caps (subject_of i (overrides r cid m desired None) m) = desired"
  by (intro bit_word_eqI) (auto simp: base_caps_subject_of overrides_def Let_def bit_simps)

lemma base_caps_overrides_Some:
  assumes "r \<noteq> Superuser" "from_ordinal (acc_role a) \<noteq> Superuser"
    and "\<And>k. bit c k \<Longrightarrow> bit mapped_caps k"
    and "desired = (base_caps (subject_of j (access_of a) m0) AND NOT mapped_caps) OR c"
  shows "base_caps (subject_of i (overrides r cid m desired (Some a)) m) = desired"
  using assms(1-3)
  by (intro bit_word_eqI)
     (auto simp: assms(4) base_caps_subject_of overrides_def access_of_def Let_def bit_simps)

lemma class_by_name_mask:
  assumes "distinct (map fst cs)" "class_by_name cs n = Some (i, m)"
  shows "current_class_mask cs (Some i) = Inr m"
proof -
  from assms(2) obtain n' where "(i, n', m) \<in> set cs" by (auto simp: class_by_name_def find_Some_iff) (metis nth_mem)
  then have "List.find (\<lambda>(j, _, _). j = i) cs = Some (i, n', m)"
    using assms(1) by (induction cs) (auto simp: image_iff)
  then show ?thesis by (simp add: current_class_mask_def class_by_id_def)
qed

lemma class_choice_mask:
  assumes "distinct (map fst cs)"
  shows "current_class_mask cs (map_option fst (class_by_name cs n)) =
    Inr (case class_by_name cs n of Some (_, m) \<Rightarrow> m | None \<Rightarrow> 0)"
  using class_by_name_mask[OF assms] by (auto simp: current_class_mask_def split: option.splits)

text \<open>
  NewUser cannot be used to climb: when it creates an account, that account has exactly the
  capabilities asked for (with the two that every account needs), every one of them is held by the
  operator, and its role is one the operator may assign.
\<close>

lemma new_user_within_standing:
  assumes "distinct (map fst cs)" "new_user cs op fld = Inr a"
  shows "\<exists>m. current_class_mask cs (aa_class a) = Inr m \<and>
    base_caps (subject_of i a m) AND NOT (base_caps op) = 0 \<and> may_assign op (from_ordinal (aa_role a)) \<and>
    (\<forall>am c. requested_access fld = Inr (Some (am, c)) \<longrightarrow>
       base_caps (subject_of i a m) = c OR SEE OR FILE_LIST \<and> from_ordinal (aa_role a) = role_for_access am)"
proof -
  from assms(2) obtain requested where req: "requested_access fld = Inr requested"
    by (auto simp: new_user_def split: sum.splits)
  show ?thesis
  proof (cases requested)
    case None
    let ?m = "case class_by_name cs (class_name User) of Some (_, m) \<Rightarrow> m | None \<Rightarrow> 0"
    have a: "a = \<lparr>aa_role = 1, aa_class = map_option fst (class_by_name cs (class_name User)), aa_grant = 0, aa_revoke = 0\<rparr>"
      and ok: "may_assign op User" "(default_caps User OR ?m) AND NOT (base_caps op) = 0"
      using assms(2) by (auto simp: new_user_def req None Let_def split: if_splits)
    have "from_ordinal 1 = User" by (simp add: from_ordinal_def)
    then show ?thesis
      using ok class_choice_mask[OF assms(1), of "class_name User"]
      by (intro exI[of _ ?m]) (simp add: a req None base_caps_subject_of)
  next
    case (Some p)
    obtain am c where p: "p = (am, c)" by fastforce
    let ?r = "role_for_access am"
    let ?m = "case class_by_name cs (class_name ?r) of Some (_, m) \<Rightarrow> m | None \<Rightarrow> 0"
    have a: "a = overrides ?r (map_option fst (class_by_name cs (class_name ?r))) ?m (c OR SEE OR FILE_LIST) None"
      and ok: "may_assign op ?r" "(c OR SEE OR FILE_LIST) AND NOT (base_caps op) = 0"
      using assms(2) by (auto simp: new_user_def req Some p Let_def split: if_splits)
    have "aa_class a = map_option fst (class_by_name cs (class_name ?r))" "from_ordinal (aa_role a) = ?r"
      by (simp_all add: a overrides_def Let_def)
    then show ?thesis
      using ok class_choice_mask[OF assms(1), of "class_name ?r"]
      by (intro exI[of _ ?m]) (simp add: req Some p, simp add: a base_caps_overrides_None)
  qed
qed

definition demo_admin :: subject where
  "demo_admin = \<lparr>account_id = 1, subj_role = Superuser, class_id = None, class_mask = 0, grant_mask = 0, revoke_mask = 0\<rparr>"

lemma set_user_cases:
  assumes "set_user cs op acct fld pw = Inr (edit, caps, changed)"
  obtains m where "current_class_mask cs (acc_class acct) = Inr m" "edit = access_of acct"
      "caps = base_caps (subject_of (acc_id acct) (access_of acct) m)"
      "\<And>am c. requested_access fld = Inr (Some (am, c)) \<Longrightarrow> caps AND mapped_caps = c"
      "pw \<Longrightarrow> may_manage op acct \<and> may_assign op (from_ordinal (aa_role edit))"
  | m am c cid m' where "current_class_mask cs (acc_class acct) = Inr m" "requested_access fld = Inr (Some (am, c))"
      "from_ordinal (acc_role acct) \<noteq> Superuser"
      "(cid, m') = (if role_for_access am = from_ordinal (acc_role acct) then (acc_class acct, m)
         else case class_by_name cs (class_name (role_for_access am)) of Some (i, m) \<Rightarrow> (Some i, m) | None \<Rightarrow> (None, 0))"
      "caps = (base_caps (subject_of (acc_id acct) (access_of acct) m) AND NOT mapped_caps) OR c"
      "(caps AND NOT (base_caps (subject_of (acc_id acct) (access_of acct) m))) AND NOT (base_caps op) = 0"
      "edit = overrides (role_for_access am) cid m' caps (Some acct)"
      "edit \<noteq> access_of acct \<or> pw \<Longrightarrow> may_manage op acct \<and> may_assign op (from_ordinal (aa_role edit))"
proof -
  from assms obtain requested m where req: "requested_access fld = Inr requested"
    and m: "current_class_mask cs (acc_class acct) = Inr m" by (auto simp: set_user_def split: sum.splits)
  let ?cur = "base_caps (subject_of (acc_id acct) (access_of acct) m)"
  show thesis
  proof (cases requested)
    case None
    then show thesis using assms m req that(1)[OF m] by (auto simp: set_user_def Let_def split: if_splits)
  next
    case (Some p)
    obtain am c where p: "p = (am, c)" by fastforce
    show thesis
    proof (cases "c = ?cur AND mapped_caps")
      case True
      then show thesis using assms m req Some p that(1)[OF m] by (auto simp: set_user_def Let_def split: if_splits)
    next
      case False
      obtain cid m' where cm: "(cid, m') = (if role_for_access am = from_ordinal (acc_role acct) then (acc_class acct, m)
         else case class_by_name cs (class_name (role_for_access am)) of Some (i, m) \<Rightarrow> (Some i, m) | None \<Rightarrow> (None, 0))"
        by (metis surj_pair)
      then show thesis
        using assms m req Some p False that(2)[OF m _ _ cm]
        by (auto simp: set_user_def Let_def cm[symmetric] split: if_splits)
    qed
  qed
qed

lemma class_kept_or_chosen:
  assumes "distinct (map fst cs)" "current_class_mask cs k = Inr m"
    and "(cid, m') = (if keep then (k, m) else case class_by_name cs n of Some (i, m) \<Rightarrow> (Some i, m) | None \<Rightarrow> (None, 0))"
  shows "current_class_mask cs cid = Inr m'"
  using assms class_by_name_mask[OF assms(1), of n]
  by (cases keep; cases "class_by_name cs n") (auto simp: current_class_mask_def[of cs None])

lemma may_manage_iff:
  "may_manage op a \<longleftrightarrow> acc_id a \<noteq> account_id op \<and> (subj_role op = Superuser \<or> from_ordinal (acc_role a) < subj_role op)"
  by (simp add: may_manage_def)

text \<open>
  C15. SetUser does what the bitmap says and no more: the account it writes has exactly the requested
  capabilities among those a bitmap can express and its old ones among the rest, whatever role and
  class the edit moves it to; every capability it gains is one the operator holds; and a row is only
  ever written for an account other than the operator's own, with a role the operator may assign, and
  only when that account has a strictly lower role or the operator is a superuser. (A superuser may
  write another superuser's account; only its access bitmap is then refused any change.)
\<close>

theorem set_user_within_standing:
  assumes "distinct (map fst cs)" "set_user cs op acct fld pw = Inr (edit, caps, changed)"
    and "current_class_mask cs (acc_class acct) = Inr m"
  shows "\<exists>m'. current_class_mask cs (aa_class edit) = Inr m' \<and>
    base_caps (subject_of (acc_id acct) edit m') = caps \<and>
    caps AND NOT mapped_caps = base_caps (subject_of (acc_id acct) (access_of acct) m) AND NOT mapped_caps \<and>
    (\<forall>am c. requested_access fld = Inr (Some (am, c)) \<longrightarrow> caps AND mapped_caps = c) \<and>
    (caps AND NOT (base_caps (subject_of (acc_id acct) (access_of acct) m))) AND NOT (base_caps op) = 0 \<and>
    (edit \<noteq> access_of acct \<or> pw \<longrightarrow>
       acc_id acct \<noteq> account_id op \<and> (subj_role op = Superuser \<or> from_ordinal (acc_role acct) < subj_role op) \<and>
       may_assign op (from_ordinal (aa_role edit)))"
  using assms(2)
proof (cases rule: set_user_cases)
  case (1 m0)
  then show ?thesis
    using assms(3) by (intro exI[of _ m]) (auto simp: access_of_def may_manage_iff and.assoc)
next
  case (2 m0 am c cid m')
  have m0: "m0 = m" using 2(1) assms(3) by simp
  have mapped: "\<And>k. bit c k \<Longrightarrow> bit mapped_caps k"
    using 2(2) requested_caps_mapped by (auto simp: requested_access_def split: option.splits sum.splits)
  have "aa_class edit = cid" by (simp add: 2(7) overrides_def case_prod_unfold Let_def)
  moreover have "current_class_mask cs cid = Inr m'" by (rule class_kept_or_chosen[OF assms(1) 2(1,4)])
  moreover have "base_caps (subject_of (acc_id acct) edit m') = caps"
    unfolding 2(7) using 2(3,5) mapped by (intro base_caps_overrides_Some) simp_all
  moreover have "caps AND NOT mapped_caps = base_caps (subject_of (acc_id acct) (access_of acct) m) AND NOT mapped_caps"
    "caps AND mapped_caps = c"
    using mapped by (auto simp: 2(5) m0 bit_simps intro!: bit_word_eqI)
  ultimately show ?thesis using 2(2,6,8) m0 by (auto simp: may_manage_iff)
qed

definition demo_account :: account where
  "demo_account = \<lparr>acc_id = 5, acc_role = 1, acc_class = None, acc_grant = 0, acc_revoke = 0\<rparr>"

theorem set_user_within_standing_witness:
  "\<exists>caps changed. set_user [] demo_admin demo_account (Some (access_mask_for User WHO)) False =
       Inr (overrides Guest None 0 caps (Some demo_account), caps, changed) \<and> caps AND mapped_caps = WHO AND mapped_caps"
proof -
  let ?am = "access_mask_for User WHO" and ?c = "WHO AND mapped_caps"
  have "decode_mask ?am = Inr ?am" by (simp add: decode_mask_def length_access_mask_for)
  then have req: "requested_access (Some ?am) = Inr (Some (?am, ?c))"
    by (simp add: requested_access_def requested_projected)
  have role: "role_for_access ?am = Guest" by (simp add: role_for_projection cap_defs)
  have cur: "base_caps (subject_of 5 (access_of demo_account) 0) = user_caps"
    by (simp add: base_caps_subject_of access_of_def demo_account_def from_ordinal_def)
  have "bit user_caps 8" "\<not> bit ?c 8" "bit mapped_caps 8"
    by (auto simp: user_caps_def guest_caps_def cap_defs mapped_caps_def GROUPS_def bit_simps)
  then have ne: "?c \<noteq> user_caps AND mapped_caps" by (metis bit_and_iff)
  let ?caps = "(user_caps AND NOT mapped_caps) OR ?c"
  have "set_user [] demo_admin demo_account (Some ?am) False =
      Inr (overrides Guest None 0 ?caps (Some demo_account), ?caps,
           overrides Guest None 0 ?caps (Some demo_account) \<noteq> access_of demo_account)"
    using ne cur
    by (simp add: set_user_def Let_def req role current_class_mask_def class_by_name_def may_manage_def may_assign_def
        demo_account_def demo_admin_def base_caps_def[of "\<lparr>account_id = 1, subj_role = Superuser, class_id = None,
          class_mask = 0, grant_mask = 0, revoke_mask = 0\<rparr>"] from_ordinal_def)
  moreover from set_user_within_standing[OF _ this, of 0] have "?caps AND mapped_caps = ?c"
    by (auto simp: current_class_mask_def demo_account_def req)
  ultimately show ?thesis by blast
qed

end
