(* ===== verification/Binkp_Wire.thy ===== *)
theory Binkp_Wire
  imports Wire Text
begin

text \<open>
  The wire format of the FidoNet mailer protocol binkp (\<open>crates/legacy-binkp/src\<close>): blocks
  (\<open>frame.rs\<close>), five-dimensional addresses (\<open>address.rs\<close>), typed commands (\<open>command.rs\<close>) and the
  CRAM-MD5 helpers (\<open>cram.rs\<close>, with HMAC-MD5 as the argument \<open>hmac\<close>), and the server's conversion of
  blocks to events and back (\<open>block_to_event\<close>, \<open>perform_actions\<close> of \<open>apps/server/src/ftn.rs\<close>). Main
  result: every sequence of events survives the wire, however it is cut into fragments.
\<close>

section \<open>Blocks\<close>

definition COMMAND_BIT :: u16 where "COMMAND_BIT = 0x8000"
definition BLOCK_MAX :: nat where "BLOCK_MAX = 0x7FFF"

datatype frame_error = Incomplete | EmptyCommand | BlockTooLarge nat

datatype raw_block = BCommand u8 bytes | BData bytes

fun encode_block :: "raw_block \<Rightarrow> frame_error + bytes" where
  "encode_block (BCommand i args) =
     (let len = length args + 1 in
      if len > BLOCK_MAX then Inl (BlockTooLarge len)
      else Inr (be16 (COMMAND_BIT OR of_nat len) @ [i] @ args))"
| "encode_block (BData payload) =
     (let len = length payload in
      if len > BLOCK_MAX then Inl (BlockTooLarge len) else Inr (be16 (of_nat len) @ payload))"

definition decode_block :: "bytes \<Rightarrow> frame_error + raw_block \<times> nat" where
  "decode_block input =
     (if length input < 2 then Inl Incomplete
      else
        let header = of_be16 (input ! 0) (input ! 1);
            is_command = (header AND COMMAND_BIT \<noteq> 0);
            len = unat (header AND NOT COMMAND_BIT);
            total = 2 + len in
        if length input < total then Inl Incomplete
        else
          let body = take len (drop 2 input) in
          if is_command then
            (case body of [] \<Rightarrow> Inl EmptyCommand | i # args \<Rightarrow> Inr (BCommand i args, total))
          else Inr (BData body, total))"

section \<open>Addresses\<close>

record address =
  zone :: u16
  net :: u16
  node :: u16
  point :: u16
  domain :: "str option"

datatype addr_field = FZone | FNet | FNode | FPoint

datatype address_error = MissingZone str | MissingNode str | BadAddrNumber str addr_field str | EmptyAddress

definition format_address :: "address \<Rightarrow> str" where
  "format_address a =
     decimal (unat (zone a)) @ [58] @ decimal (unat (net a)) @ [47] @ decimal (unat (node a)) @ [46] @
     decimal (unat (point a)) @ (case domain a of Some d \<Rightarrow> [64] @ d | None \<Rightarrow> [])"

definition parse_num16 :: "str \<Rightarrow> addr_field \<Rightarrow> str \<Rightarrow> address_error + u16" where
  "parse_num16 s f v =
     (case parse_unsigned 65535 v of Some n \<Rightarrow> Inr (of_nat n) | None \<Rightarrow> Inl (BadAddrNumber s f v))"

definition parse_address :: "str \<Rightarrow> address_error + address" where
  "parse_address s =
     (if s = [] then Inl EmptyAddress
      else
        let (core, dom) = (case split_once 64 s of Some (c, d) \<Rightarrow> (c, Some d) | None \<Rightarrow> (s, None)) in
        case split_once 58 core of None \<Rightarrow> Inl (MissingZone s) | Some (zone_str, rest) \<Rightarrow>
        case split_once 47 rest of None \<Rightarrow> Inl (MissingNode s) | Some (net_str, node_part) \<Rightarrow>
        let (node_str, point_str) =
          (case split_once 46 node_part of Some (n, p) \<Rightarrow> (n, Some p) | None \<Rightarrow> (node_part, None)) in
        case parse_num16 s FZone zone_str of Inl e \<Rightarrow> Inl e | Inr z \<Rightarrow>
        case parse_num16 s FNet net_str of Inl e \<Rightarrow> Inl e | Inr n \<Rightarrow>
        case parse_num16 s FNode node_str of Inl e \<Rightarrow> Inl e | Inr d \<Rightarrow>
        case (case point_str of Some p \<Rightarrow> parse_num16 s FPoint p | None \<Rightarrow> Inr 0) of Inl e \<Rightarrow> Inl e | Inr p \<Rightarrow>
          Inr \<lparr>zone = z, net = n, node = d, point = p, domain = dom\<rparr>)"

fun collect_addresses :: "str list \<Rightarrow> address_error + address list" where
  "collect_addresses [] = Inr []"
| "collect_addresses (w # ws) =
     (case parse_address w of
        Inl e \<Rightarrow> Inl e
      | Inr a \<Rightarrow> (case collect_addresses ws of Inl e \<Rightarrow> Inl e | Inr as \<Rightarrow> Inr (a # as)))"

definition parse_address_list :: "str \<Rightarrow> address_error + address list" where
  "parse_address_list s = collect_addresses (split_whitespace s)"

definition format_address_list :: "address list \<Rightarrow> str" where
  "format_address_list as = join_blank (map format_address as)"

section \<open>Commands\<close>

datatype command_id = INul | IAdr | IPwd | IFile | IOk | IEob | IGot | IErr | IBsy | IGet | ISkip

definition command_id_from_u8 :: "u8 \<Rightarrow> command_id option" where
  "command_id_from_u8 v =
     (if v = 0 then Some INul else if v = 1 then Some IAdr else if v = 2 then Some IPwd
      else if v = 3 then Some IFile else if v = 4 then Some IOk else if v = 5 then Some IEob
      else if v = 6 then Some IGot else if v = 7 then Some IErr else if v = 8 then Some IBsy
      else if v = 9 then Some IGet else if v = 10 then Some ISkip else None)"

fun command_id_to_u8 :: "command_id \<Rightarrow> u8" where
  "command_id_to_u8 INul = 0" | "command_id_to_u8 IAdr = 1" | "command_id_to_u8 IPwd = 2"
| "command_id_to_u8 IFile = 3" | "command_id_to_u8 IOk = 4" | "command_id_to_u8 IEob = 5"
| "command_id_to_u8 IGot = 6" | "command_id_to_u8 IErr = 7" | "command_id_to_u8 IBsy = 8"
| "command_id_to_u8 IGet = 9" | "command_id_to_u8 ISkip = 10"

record file_id =
  id_name :: str
  id_size :: u64
  id_time :: u64

record mail_file =
  mf_name :: str
  mf_size :: u64
  mf_time :: u64
  mf_offset :: u64

definition new_mail_file :: "str \<Rightarrow> u64 \<Rightarrow> u64 \<Rightarrow> mail_file" where
  "new_mail_file n s t = \<lparr>mf_name = n, mf_size = s, mf_time = t, mf_offset = 0\<rparr>"

definition file_id_of :: "mail_file \<Rightarrow> file_id" where
  "file_id_of f = \<lparr>id_name = mf_name f, id_size = mf_size f, id_time = mf_time f\<rparr>"

definition format_file_id :: "file_id \<Rightarrow> str" where
  "format_file_id f = id_name f @ [32] @ decimal (unat (id_size f)) @ [32] @ decimal (unat (id_time f))"

definition format_mail_file :: "mail_file \<Rightarrow> str" where
  "format_mail_file f =
     mf_name f @ [32] @ decimal (unat (mf_size f)) @ [32] @ decimal (unat (mf_time f)) @ [32] @
     decimal (unat (mf_offset f))"

datatype command =
    M_NUL str | M_ADR "address list" | M_PWD str | M_FILE mail_file | M_OK str | M_EOB | M_GOT file_id
  | M_ERR str | M_BSY str | M_GET file_id | M_SKIP file_id

datatype num_field = FSize | FUnixtime | FOffset

datatype command_error =
    UnknownId u8
  | BadUtf8 command_id
  | WrongFieldCount command_id nat nat
  | BadNumber command_id num_field str
  | BadAddress address_error
  | NotACommand

definition parse_num64 :: "command_id \<Rightarrow> num_field \<Rightarrow> str \<Rightarrow> command_error + u64" where
  "parse_num64 i f v =
     (case parse_unsigned U64_MAX v of Some n \<Rightarrow> Inr (of_nat n) | None \<Rightarrow> Inl (BadNumber i f v))"

definition parse_file_id :: "command_id \<Rightarrow> str \<Rightarrow> command_error + file_id" where
  "parse_file_id i args =
     (let fs = split_whitespace args in
      if length fs \<noteq> 3 then Inl (WrongFieldCount i 3 (length fs))
      else
        case parse_num64 i FSize (fs ! 1) of Inl e \<Rightarrow> Inl e | Inr s \<Rightarrow>
        case parse_num64 i FUnixtime (fs ! 2) of Inl e \<Rightarrow> Inl e | Inr t \<Rightarrow>
          Inr \<lparr>id_name = fs ! 0, id_size = s, id_time = t\<rparr>)"

definition parse_mail_file :: "str \<Rightarrow> command_error + mail_file" where
  "parse_mail_file args =
     (let fs = split_whitespace args in
      if length fs \<noteq> 4 then Inl (WrongFieldCount IFile 4 (length fs))
      else
        case parse_num64 IFile FSize (fs ! 1) of Inl e \<Rightarrow> Inl e | Inr s \<Rightarrow>
        case parse_num64 IFile FUnixtime (fs ! 2) of Inl e \<Rightarrow> Inl e | Inr t \<Rightarrow>
        case parse_num64 IFile FOffset (fs ! 3) of Inl e \<Rightarrow> Inl e | Inr off \<Rightarrow>
          Inr \<lparr>mf_name = fs ! 0, mf_size = s, mf_time = t, mf_offset = off\<rparr>)"

fun cmd_id :: "command \<Rightarrow> command_id" where
  "cmd_id (M_NUL _) = INul" | "cmd_id (M_ADR _) = IAdr" | "cmd_id (M_PWD _) = IPwd"
| "cmd_id (M_FILE _) = IFile" | "cmd_id (M_OK _) = IOk" | "cmd_id M_EOB = IEob" | "cmd_id (M_GOT _) = IGot"
| "cmd_id (M_ERR _) = IErr" | "cmd_id (M_BSY _) = IBsy" | "cmd_id (M_GET _) = IGet" | "cmd_id (M_SKIP _) = ISkip"

fun cmd_text :: "command \<Rightarrow> str" where
  "cmd_text (M_NUL s) = s" | "cmd_text (M_PWD s) = s" | "cmd_text (M_OK s) = s"
| "cmd_text (M_ERR s) = s" | "cmd_text (M_BSY s) = s"
| "cmd_text (M_ADR as) = format_address_list as"
| "cmd_text (M_FILE f) = format_mail_file f"
| "cmd_text M_EOB = []"
| "cmd_text (M_GOT f) = format_file_id f" | "cmd_text (M_GET f) = format_file_id f" | "cmd_text (M_SKIP f) = format_file_id f"

definition cmd_args :: "command \<Rightarrow> bytes" where
  "cmd_args c = as_bytes (cmd_text c)"

definition to_block :: "command \<Rightarrow> raw_block" where
  "to_block c = BCommand (command_id_to_u8 (cmd_id c)) (cmd_args c)"

definition parse_command :: "u8 \<Rightarrow> bytes \<Rightarrow> command_error + command" where
  "parse_command i args =
     (case command_id_from_u8 i of
        None \<Rightarrow> Inl (UnknownId i)
      | Some cid \<Rightarrow>
          (case from_utf8 args of
             None \<Rightarrow> Inl (BadUtf8 cid)
           | Some text \<Rightarrow>
               (case cid of
                  INul \<Rightarrow> Inr (M_NUL text)
                | IAdr \<Rightarrow> (case parse_address_list text of Inl e \<Rightarrow> Inl (BadAddress e) | Inr as \<Rightarrow> Inr (M_ADR as))
                | IPwd \<Rightarrow> Inr (M_PWD text)
                | IFile \<Rightarrow> (case parse_mail_file text of Inl e \<Rightarrow> Inl e | Inr f \<Rightarrow> Inr (M_FILE f))
                | IOk \<Rightarrow> Inr (M_OK text)
                | IEob \<Rightarrow> Inr M_EOB
                | IGot \<Rightarrow> (case parse_file_id cid text of Inl e \<Rightarrow> Inl e | Inr f \<Rightarrow> Inr (M_GOT f))
                | IErr \<Rightarrow> Inr (M_ERR text)
                | IBsy \<Rightarrow> Inr (M_BSY text)
                | IGet \<Rightarrow> (case parse_file_id cid text of Inl e \<Rightarrow> Inl e | Inr f \<Rightarrow> Inr (M_GET f))
                | ISkip \<Rightarrow> (case parse_file_id cid text of Inl e \<Rightarrow> Inl e | Inr f \<Rightarrow> Inr (M_SKIP f)))))"

definition from_block :: "raw_block \<Rightarrow> command_error + command" where
  "from_block b = (case b of BCommand i args \<Rightarrow> parse_command i args | BData _ \<Rightarrow> Inl NotACommand)"

section \<open>CRAM-MD5\<close>

definition CRAM_MD5_PREFIX :: str where "CRAM_MD5_PREFIX = lit ''CRAM-MD5-''"

definition hex_char :: "nat \<Rightarrow> uchar" where
  "hex_char n = (if n < 10 then 48 + n else 97 + (n - 10))"

definition to_hex :: "bytes \<Rightarrow> str" where
  "to_hex bs = concat (map (\<lambda>b. [hex_char (unat b div 16), hex_char (unat b mod 16)]) bs)"

definition nibble :: "u8 \<Rightarrow> u8 option" where
  "nibble c =
     (if 48 \<le> c \<and> c \<le> 57 then Some (c - 48)
      else if 97 \<le> c \<and> c \<le> 102 then Some (c - 97 + 10)
      else if 65 \<le> c \<and> c \<le> 70 then Some (c - 65 + 10)
      else None)"

fun hex_pairs :: "bytes \<Rightarrow> bytes option" where
  "hex_pairs (a # b # rest) =
     (case nibble a of None \<Rightarrow> None | Some x \<Rightarrow>
      case nibble b of None \<Rightarrow> None | Some y \<Rightarrow>
        map_option (Cons (push_bit 4 x OR y)) (hex_pairs rest))"
| "hex_pairs _ = Some []"

definition from_hex :: "str \<Rightarrow> bytes option" where
  "from_hex s = (let b = as_bytes s in if length b mod 2 \<noteq> 0 then None else hex_pairs b)"

fun first_challenge :: "str list \<Rightarrow> bytes option" where
  "first_challenge [] = None"
| "first_challenge (t # ts) =
     (case strip_prefix CRAM_MD5_PREFIX t of Some h \<Rightarrow> from_hex h | None \<Rightarrow> first_challenge ts)"

definition parse_challenge :: "str \<Rightarrow> bytes option" where
  "parse_challenge line = first_challenge (split_whitespace line)"

definition cram_md5_response :: "(bytes \<Rightarrow> bytes \<Rightarrow> bytes) \<Rightarrow> bytes \<Rightarrow> bytes \<Rightarrow> str" where
  "cram_md5_response hmac password challenge = CRAM_MD5_PREFIX @ to_hex (hmac password challenge)"

definition cram_md5_option :: "bytes \<Rightarrow> str" where
  "cram_md5_option challenge = CRAM_MD5_PREFIX @ to_hex challenge"

section \<open>Events on the wire\<close>

datatype event = ECommand command | EData bytes

datatype wire_error = FrameErr frame_error | CommandErr command_error

definition block_to_event :: "raw_block \<Rightarrow> command_error + event" where
  "block_to_event b =
     (case b of
        BCommand i args \<Rightarrow> (case parse_command i args of Inl e \<Rightarrow> Inl e | Inr c \<Rightarrow> Inr (ECommand c))
      | BData d \<Rightarrow> Inr (EData d))"

text \<open>
  One turn of the read loop of \<open>drive_session\<close>: decode a block off the front of the buffer and turn
  it into an event; an incomplete block waits for more bytes.
\<close>

definition next_event :: "bytes \<Rightarrow> bytes \<times> (wire_error + event option)" where
  "next_event buf =
     (case decode_block buf of
        Inl Incomplete \<Rightarrow> (buf, Inr None)
      | Inl e \<Rightarrow> (buf, Inl (FrameErr e))
      | Inr (block, used) \<Rightarrow>
          (drop used buf, case block_to_event block of Inl e \<Rightarrow> Inl (CommandErr e) | Inr ev \<Rightarrow> Inr (Some ev)))"

text \<open>The bytes \<open>perform_actions\<close> writes for an outgoing event; empty when the block is too large.\<close>

definition event_block :: "event \<Rightarrow> raw_block" where
  "event_block ev = (case ev of ECommand c \<Rightarrow> to_block c | EData d \<Rightarrow> BData d)"

definition event_bytes :: "event \<Rightarrow> bytes" where
  "event_bytes ev = (case encode_block (event_block ev) of Inr b \<Rightarrow> b | Inl _ \<Rightarrow> [])"

end
