(* ===== verification/Binkp_Correct.thy ===== *)
theory Binkp_Correct
  imports Binkp_Wire
begin

text \<open>
  Correctness of the binkp wire format: blocks, addresses, commands and the CRAM-MD5 hex forms are
  inverted by their parsers, and the event stream is an instance of \<open>stream_codec\<close>.
\<close>

section \<open>Blocks\<close>

lemma no_command_bit: "n \<le> BLOCK_MAX \<Longrightarrow> \<not> bit (of_nat n :: u16) 15"
proof -
  assume "n \<le> BLOCK_MAX"
  then have "n div 2 ^ 15 = 0" by (simp add: BLOCK_MAX_def)
  then have "\<not> bit n 15" by (simp add: bit_iff_odd)
  moreover have "unat (of_nat n :: u16) = n"
    using \<open>n \<le> BLOCK_MAX\<close> by (simp add: BLOCK_MAX_def unat_of_nat take_bit_nat_eq_self)
  ultimately show ?thesis using bit_unsigned_iff[where ?'a = nat, of "of_nat n :: u16" 15] by simp
qed

lemma block_header:
  assumes "n \<le> BLOCK_MAX"
  shows "(of_nat n :: u16) AND COMMAND_BIT = 0" "(COMMAND_BIT OR of_nat n) AND COMMAND_BIT = COMMAND_BIT"
    and "(of_nat n :: u16) AND NOT COMMAND_BIT = of_nat n" "(COMMAND_BIT OR of_nat n) AND NOT COMMAND_BIT = of_nat n"
    and "unat (of_nat n :: u16) = n"
proof -
  have c: "COMMAND_BIT = 2 ^ 15" by (simp add: COMMAND_BIT_def)
  show "(of_nat n :: u16) AND COMMAND_BIT = 0"
    unfolding c using no_command_bit[OF assms] by (simp add: and_exp_eq_0_iff_not_bit del: push_bit_of_1 power_numeral)
  show "(COMMAND_BIT OR of_nat n) AND COMMAND_BIT = COMMAND_BIT"
    by (rule bit_word_eqI) (auto simp: bit_simps)
  show "(of_nat n :: u16) AND NOT COMMAND_BIT = of_nat n" "(COMMAND_BIT OR of_nat n) AND NOT COMMAND_BIT = of_nat n"
    unfolding c using no_command_bit[OF assms] by (auto intro!: bit_word_eqI simp: bit_simps simp del: power_numeral)
  show "unat (of_nat n :: u16) = n" using assms by (simp add: BLOCK_MAX_def unat_of_nat take_bit_nat_eq_self)
qed

fun block_body :: "raw_block \<Rightarrow> bytes" where
  "block_body (BCommand i args) = i # args"
| "block_body (BData d) = d"

fun block_header_word :: "raw_block \<Rightarrow> u16" where
  "block_header_word (BCommand i args) = COMMAND_BIT OR of_nat (length args + 1)"
| "block_header_word (BData d) = of_nat (length d)"

definition block_fits :: "raw_block \<Rightarrow> bool" where
  "block_fits b \<longleftrightarrow> length (block_body b) \<le> BLOCK_MAX"

lemma encode_block_fits: "block_fits b \<Longrightarrow> encode_block b = Inr (be16 (block_header_word b) @ block_body b)"
  by (cases b) (simp_all add: block_fits_def)

lemma header_of_prefix: "of_be16 ((be16 w @ xs) ! 0) ((be16 w @ xs) ! 1) = w"
  by (simp add: be16_def of_be16_be16)

lemma header_length: "block_fits b \<Longrightarrow> unat (block_header_word b AND NOT COMMAND_BIT) = length (block_body b)"
  by (cases b) (simp_all add: block_fits_def block_header del: of_nat_Suc)

lemma decode_block_whole:
  assumes "block_fits b"
  shows "decode_block (be16 (block_header_word b) @ block_body b @ rest) = Inr (b, 2 + length (block_body b))"
proof -
  have "COMMAND_BIT \<noteq> 0" by (simp add: COMMAND_BIT_def)
  then show ?thesis
    using assms header_of_prefix[of "block_header_word b" "block_body b @ rest"] header_length[OF assms]
    by (cases b) (auto simp: decode_block_def Let_def block_fits_def block_header simp del: of_nat_Suc)
qed

lemma decode_block_cut:
  assumes "block_fits b" "strict_prefix p (be16 (block_header_word b) @ block_body b)"
  shows "decode_block p = Inl Incomplete"
proof (cases "length p < 2")
  case False
  from assms(2) False obtain q where q: "p = be16 (block_header_word b) @ q" "strict_prefix q (block_body b)"
    using prefix_length_less[of p "be16 (block_header_word b)"] by (auto simp: strict_prefix_append_cases)
  have "length q < length (block_body b)" using q(2) by (rule prefix_length_less)
  then show ?thesis
    using header_of_prefix[of "block_header_word b" q] header_length[OF assms(1)]
    by (simp add: decode_block_def Let_def q(1))
qed (simp add: decode_block_def)

section \<open>Numbers, addresses, files\<close>

lemma parse_num16_decimal: "parse_num16 s f (decimal (unat w)) = Inr w"
proof -
  have "unat w < 2 ^ 16" by (rule order_less_le_trans[OF unsigned_less]) simp
  then have "unat w \<le> 65535" by simp
  then show ?thesis by (simp add: parse_num16_def parse_unsigned_decimal)
qed

lemma parse_num64_decimal: "parse_num64 i f (decimal (unat w)) = Inr w"
proof -
  have "unat w < 2 ^ 64" by (rule order_less_le_trans[OF unsigned_less]) simp
  then have "unat w \<le> U64_MAX" by (simp add: U64_MAX_def)
  then show ?thesis by (simp add: parse_num64_def parse_unsigned_decimal)
qed

lemma not_in_decimal: "c < 48 \<or> 57 < c \<Longrightarrow> c \<notin> set (decimal n)"
  using decimal_digits[of n] by auto

definition address_ok :: "address \<Rightarrow> bool" where
  "address_ok a \<longleftrightarrow> (\<forall>d. domain a = Some d \<longrightarrow> \<not> list_ex is_whitespace d)"

lemma parse_format_address: "parse_address (format_address a) = Inr a"
proof -
  let ?core = "decimal (unat (zone a)) @ 58 # decimal (unat (net a)) @ 47 # decimal (unat (node a)) @ 46 # decimal (unat (point a))"
  have core: "64 \<notin> set ?core" by (simp add: not_in_decimal)
  have "split_once 64 (format_address a) = (case domain a of Some d \<Rightarrow> Some (?core, d) | None \<Rightarrow> None)"
    using split_once_first[OF core] core by (auto simp: format_address_def split_once_None split: option.splits)
  moreover have "domain a = None \<Longrightarrow> format_address a = ?core" by (simp add: format_address_def)
  moreover have "split_once 58 ?core = Some (decimal (unat (zone a)), decimal (unat (net a)) @ 47 # decimal (unat (node a)) @ 46 # decimal (unat (point a)))"
    by (rule split_once_first) (simp add: not_in_decimal)
  moreover have "split_once 47 (decimal (unat (net a)) @ 47 # decimal (unat (node a)) @ 46 # decimal (unat (point a))) =
      Some (decimal (unat (net a)), decimal (unat (node a)) @ 46 # decimal (unat (point a)))"
    by (rule split_once_first) (simp add: not_in_decimal)
  moreover have "split_once 46 (decimal (unat (node a)) @ 46 # decimal (unat (point a))) = Some (decimal (unat (node a)), decimal (unat (point a)))"
    by (rule split_once_first) (simp add: not_in_decimal)
  moreover have "format_address a \<noteq> []" by (simp add: format_address_def)
  ultimately show ?thesis
    by (cases "domain a") (simp_all add: parse_address_def parse_num16_decimal)
qed

lemma format_address_word: "address_ok a \<Longrightarrow> word_text (format_address a)"
  using decimal_word
  by (auto simp: word_text_def format_address_def address_ok_def is_whitespace_def split: option.splits)

lemma parse_format_address_list: "list_all address_ok as \<Longrightarrow> parse_address_list (format_address_list as) = Inr as"
proof -
  have "collect_addresses (map format_address as) = Inr as"
    by (induction as) (simp_all add: parse_format_address)
  moreover assume "list_all address_ok as"
  then have "\<forall>w \<in> set (map format_address as). word_text w" by (auto simp: list_all_iff format_address_word)
  ultimately show ?thesis by (simp add: parse_address_list_def format_address_list_def split_join_blank)
qed

lemma parse_format_file_id: "word_text (id_name f) \<Longrightarrow> parse_file_id i (format_file_id f) = Inr f"
  using split_join_blank[of "[id_name f, decimal (unat (id_size f)), decimal (unat (id_time f))]"]
  by (simp add: parse_file_id_def format_file_id_def parse_num64_decimal)

lemma parse_format_mail_file: "word_text (mf_name f) \<Longrightarrow> parse_mail_file (format_mail_file f) = Inr f"
  using split_join_blank[of "[mf_name f, decimal (unat (mf_size f)), decimal (unat (mf_time f)), decimal (unat (mf_offset f))]"]
  by (simp add: parse_mail_file_def format_mail_file_def parse_num64_decimal eval_nat_numeral)

section \<open>Commands and events\<close>

text \<open>A command that can travel: its text consists of Unicode scalar values, names are single words.\<close>

fun cmd_ok :: "command \<Rightarrow> bool" where
  "cmd_ok (M_ADR as) = list_all address_ok as"
| "cmd_ok (M_FILE f) = word_text (mf_name f)"
| "cmd_ok (M_GOT f) = word_text (id_name f)"
| "cmd_ok (M_GET f) = word_text (id_name f)"
| "cmd_ok (M_SKIP f) = word_text (id_name f)"
| "cmd_ok _ = True"

lemma command_id_inverse [simp]: "command_id_from_u8 (command_id_to_u8 i) = Some i"
  by (cases i) (simp_all add: command_id_from_u8_def)

lemma parse_command_args:
  "cmd_ok c \<Longrightarrow> list_all scalar (cmd_text c) \<Longrightarrow> parse_command (command_id_to_u8 (cmd_id c)) (cmd_args c) = Inr c"
  by (cases c) (simp_all add: parse_command_def cmd_args_def from_utf8_as_bytes parse_format_address_list
      parse_format_file_id parse_format_mail_file command_id_from_u8_def)

definition event_ok :: "event \<Rightarrow> bool" where
  "event_ok ev \<longleftrightarrow> block_fits (event_block ev) \<and>
     (case ev of ECommand c \<Rightarrow> cmd_ok c \<and> list_all scalar (cmd_text c) | EData _ \<Rightarrow> True)"

lemma block_to_event_block: "event_ok ev \<Longrightarrow> block_to_event (event_block ev) = Inr ev"
  by (cases ev) (simp_all add: event_ok_def event_block_def to_block_def block_to_event_def parse_command_args)

lemma event_bytes_ok:
  "event_ok ev \<Longrightarrow> event_bytes ev = be16 (block_header_word (event_block ev)) @ block_body (event_block ev)"
  by (simp add: event_bytes_def event_ok_def encode_block_fits)

interpretation binkp: stream_codec event_bytes next_event event_ok
proof (unfold_locales, goal_cases)
  case (1 ev)
  then show ?case by (simp add: event_bytes_ok be16_def)
next
  case (2 ev rest)
  then have "decode_block (event_bytes ev @ rest) = Inr (event_block ev, 2 + length (block_body (event_block ev)))"
    using decode_block_whole by (simp add: event_bytes_ok event_ok_def)
  then show ?case using 2 by (simp add: next_event_def block_to_event_block event_bytes_ok)
next
  case (3 ev p)
  then have "decode_block p = Inl Incomplete"
    using decode_block_cut[of "event_block ev" p] by (simp add: event_bytes_ok) (simp add: event_ok_def)
  then show ?case by (simp add: next_event_def)
next
  case 4
  then show ?case by (simp add: next_event_def decode_block_def)
qed

section \<open>Hex\<close>

lemma as_bytes_ascii: "\<forall>c \<in> set s. c < 0x80 \<Longrightarrow> as_bytes s = map of_nat s"
  by (induction s) (simp_all add: as_bytes_def utf8_char_def)

lemma hex_char_cases: "n < 16 \<Longrightarrow> nibble (of_nat (hex_char n)) = Some (of_nat n) \<and> hex_char n < 0x80"
proof -
  assume "n < 16"
  then have "n \<in> {0, 1, 2, 3, 4, 5, 6, 7, 8, 9, 10, 11, 12, 13, 14, 15}" by (simp; presburger)
  then show ?thesis by (elim insertE emptyE) (simp_all add: hex_char_def nibble_def)
qed

lemma join_nibbles: "push_bit 4 (of_nat (unat b div 16)) OR of_nat (unat b mod 16) = (b :: u8)"
proof -
  have "(of_nat (unat b div 16) :: u8) = drop_bit 4 b"
    by (simp add: drop_bit_eq_div word_arith_nat_div)
  moreover have "(of_nat (unat b mod 16) :: u8) = take_bit 4 b"
    by (simp add: take_bit_eq_mod word_arith_nat_mod)
  moreover have "push_bit 4 (drop_bit 4 b) OR take_bit 4 b = b"
    by (rule bit_word_eqI) (auto simp: bit_simps)
  ultimately show ?thesis by simp
qed

lemma nibbles_small: "unat (b :: u8) div 16 < 16" "unat b mod 16 < 16"
proof -
  have "unat b < 2 ^ 8" by (rule order_less_le_trans[OF unsigned_less]) simp
  then show "unat b div 16 < 16" "unat b mod 16 < 16" by auto
qed

lemma hex_pairs_to_hex: "hex_pairs (map of_nat (to_hex bs)) = Some bs"
proof (induction bs)
  case (Cons b bs)
  then show ?case
    using hex_char_cases[OF nibbles_small(1), of b] hex_char_cases[OF nibbles_small(2), of b]
    by (simp add: to_hex_def join_nibbles)
qed (simp add: to_hex_def)

lemma to_hex_ascii: "c \<in> set (to_hex bs) \<Longrightarrow> 48 \<le> c \<and> c < 0x80"
proof -
  assume "c \<in> set (to_hex bs)"
  then obtain b where "c = hex_char (unat (b :: u8) div 16) \<or> c = hex_char (unat b mod 16)"
    by (auto simp: to_hex_def)
  then obtain n where "n < 16" "c = hex_char n" using nibbles_small by blast
  then show ?thesis by (auto simp: hex_char_def)
qed

lemma from_hex_to_hex: "from_hex (to_hex bs) = Some bs"
proof -
  have "as_bytes (to_hex bs) = map of_nat (to_hex bs)" using to_hex_ascii by (intro as_bytes_ascii) blast
  moreover have "length (to_hex bs) mod 2 = 0" by (induction bs) (simp_all add: to_hex_def)
  ultimately show ?thesis by (simp add: from_hex_def hex_pairs_to_hex)
qed

lemma cram_option_word: "word_text (cram_md5_option ch)"
proof -
  have "\<not> is_whitespace c" if "c \<in> set (to_hex ch)" for c
    using to_hex_ascii[OF that] by (auto simp: is_whitespace_def)
  then show ?thesis
    by (auto simp: word_text_def cram_md5_option_def CRAM_MD5_PREFIX_def list_ex_iff is_whitespace_def)
qed

lemma parse_challenge_option: "parse_challenge (lit ''OPT '' @ cram_md5_option ch) = Some ch"
proof -
  have "split_whitespace (lit ''OPT'' @ 32 # cram_md5_option ch) = [lit ''OPT'', cram_md5_option ch]"
    using split_join_blank[of "[lit ''OPT'', cram_md5_option ch]"] cram_option_word[of ch]
    by (simp add: word_text_def is_whitespace_def)
  then show ?thesis
    using from_hex_to_hex[of ch]
    by (simp add: parse_challenge_def cram_md5_option_def strip_prefix_def CRAM_MD5_PREFIX_def)
qed

end
