(* ===== verification/Binkp_Session.thy ===== *)
theory Binkp_Session
  imports Binkp_Correct
begin

text \<open>
  The sans-IO binkp session of \<open>crates/legacy-binkp/src/session.rs\<close>: one record, one function per
  method, each returning the new session beside the actions or the error. SHA-256 and HMAC-MD5 are
  third-party functions and the arguments \<open>sha\<close> and \<open>hmac\<close>. The last section is the driver of
  \<open>apps/server/src/ftn.rs\<close>, which carries out the actions: \<open>perform_actions\<close> and a turn of the loop of
  \<open>drive_session\<close> (without the failed-login throttle of inbound connections).
\<close>

section \<open>Types\<close>

datatype brole = Originating | Answering

record session_config =
  cfg_addresses :: "address list"
  cfg_system_info :: "str list"
  cfg_password :: str
  cfg_challenge :: "bytes option"
  cfg_outgoing :: "mail_file list"

datatype phase = Greeting | AwaitOk | Transfer | Done | Failed

fun phase_name :: "phase \<Rightarrow> string" where
  "phase_name Greeting = ''Greeting''" | "phase_name AwaitOk = ''AwaitOk''"
| "phase_name Transfer = ''Transfer''" | "phase_name Done = ''Done''" | "phase_name Failed = ''Failed''"

fun command_name :: "command_id \<Rightarrow> string" where
  "command_name INul = ''M_NUL''" | "command_name IAdr = ''M_ADR''" | "command_name IPwd = ''M_PWD''"
| "command_name IFile = ''M_FILE''" | "command_name IOk = ''M_OK''" | "command_name IEob = ''M_EOB''"
| "command_name IGot = ''M_GOT''" | "command_name IErr = ''M_ERR''" | "command_name IBsy = ''M_BSY''"
| "command_name IGet = ''M_GET''" | "command_name ISkip = ''M_SKIP''"

fun event_name :: "event \<Rightarrow> string" where
  "event_name (EData _) = ''data block''"
| "event_name (ECommand c) = command_name (cmd_id c)"

datatype action =
    SendCommand command | StreamFile mail_file | ExpectFile mail_file | WriteData bytes | FileComplete file_id
  | Authenticated | Finished | Aborted str

datatype mailer_error = Unexpected string string | UnexpectedData

record session =
  brole :: brole
  phase :: phase
  addresses :: "address list"
  system_info :: "str list"
  password :: str
  password_hash :: bytes
  cram_password_hash :: "bytes option"
  unsecured :: bool
  challenge :: "bytes option"
  peer_challenge :: "bytes option"
  peer_addresses :: "address list"
  outgoing :: "mail_file list"
  sending :: "file_id option"
  receiving :: "(mail_file \<times> u64) option"
  local_eob :: bool
  peer_eob :: bool
  started :: bool

section \<open>Construction and greeting\<close>

definition new_session ::
    "(bytes \<Rightarrow> bytes) \<Rightarrow> (bytes \<Rightarrow> bytes \<Rightarrow> bytes) \<Rightarrow> brole \<Rightarrow> session_config \<Rightarrow> session" where
  "new_session sha hmac r c =
     \<lparr>brole = r, phase = Greeting, addresses = cfg_addresses c, system_info = cfg_system_info c,
      password = cfg_password c, password_hash = sha (as_bytes (cfg_password c)),
      cram_password_hash = map_option (\<lambda>ch. sha (as_bytes (cram_md5_response hmac (as_bytes (cfg_password c)) ch))) (cfg_challenge c),
      unsecured = (cfg_password c = [] \<or> cfg_password c = lit ''-''),
      challenge = cfg_challenge c, peer_challenge = None, peer_addresses = [], outgoing = cfg_outgoing c,
      sending = None, receiving = None, local_eob = False, peer_eob = False, started = False\<rparr>"

definition start_session :: "session \<Rightarrow> session \<times> action list" where
  "start_session s =
     (if started s then (s, [])
      else (s\<lparr>started := True\<rparr>,
        map (\<lambda>l. SendCommand (M_NUL l)) (system_info s) @
        (if brole s = Answering then
           (case challenge s of
              Some ch \<Rightarrow> [SendCommand (M_NUL (lit ''OPT '' @ cram_md5_option ch))]
            | None \<Rightarrow> [])
         else []) @
        [SendCommand (M_ADR (addresses s))]))"

section \<open>Helpers\<close>

definition maybe_finish :: "session \<Rightarrow> session \<times> action list" where
  "maybe_finish s =
     (if local_eob s \<and> peer_eob s \<and> sending s = None \<and> receiving s = None \<and> phase s = Transfer
      then (s\<lparr>phase := Done\<rparr>, [Finished]) else (s, []))"

definition start_next_send :: "session \<Rightarrow> session \<times> action list" where
  "start_next_send s =
     (case outgoing s of
        info # rest \<Rightarrow>
          (s\<lparr>outgoing := rest, sending := Some (file_id_of info)\<rparr>, [SendCommand (M_FILE info), StreamFile info])
      | [] \<Rightarrow>
          if \<not> local_eob s then
            let (s', acts) = maybe_finish (s\<lparr>local_eob := True\<rparr>) in (s', SendCommand M_EOB # acts)
          else maybe_finish s)"

definition enter_transfer :: "session \<Rightarrow> session \<times> action list" where
  "enter_transfer s = start_next_send (s\<lparr>phase := Transfer\<rparr>)"

definition password_value :: "(bytes \<Rightarrow> bytes \<Rightarrow> bytes) \<Rightarrow> session \<Rightarrow> str" where
  "password_value hmac s =
     (if unsecured s then lit ''-''
      else case peer_challenge s of
          Some ch \<Rightarrow> cram_md5_response hmac (as_bytes (password s)) ch
        | None \<Rightarrow> password s)"

definition verify_password :: "(bytes \<Rightarrow> bytes) \<Rightarrow> session \<Rightarrow> str \<Rightarrow> bool" where
  "verify_password sha s pw =
     (let received = sha (as_bytes pw);
          plaintext = (password_hash s = received);
          cram = (case cram_password_hash s of None \<Rightarrow> False | Some expected \<Rightarrow> expected = received)
      in plaintext \<or> cram \<or> unsecured s)"

section \<open>The phases\<close>

definition advance_greeting :: "(bytes \<Rightarrow> bytes) \<Rightarrow> (bytes \<Rightarrow> bytes \<Rightarrow> bytes) \<Rightarrow> session \<Rightarrow> event \<Rightarrow>
    session \<times> (mailer_error + action list)" where
  "advance_greeting sha hmac s ev =
     (case ev of
        EData _ \<Rightarrow> (s, Inl UnexpectedData)
      | ECommand cmd \<Rightarrow>
          (case cmd of
             M_NUL line \<Rightarrow>
               ((if peer_challenge s = None then
                   (case parse_challenge line of Some ch \<Rightarrow> s\<lparr>peer_challenge := Some ch\<rparr> | None \<Rightarrow> s)
                 else s), Inr [])
           | M_ADR addrs \<Rightarrow>
               let s = s\<lparr>peer_addresses := addrs\<rparr> in
               (case brole s of
                  Originating \<Rightarrow> (s\<lparr>phase := AwaitOk\<rparr>, Inr [SendCommand (M_PWD (password_value hmac s))])
                | Answering \<Rightarrow> (s, Inr []))
           | M_PWD pw \<Rightarrow>
               if brole s = Answering then
                 if verify_password sha s pw then
                   let (s', acts) = enter_transfer s
                   in (s', Inr ([SendCommand (M_OK (lit ''secure'')), Authenticated] @ acts))
                 else
                   (s\<lparr>phase := Failed\<rparr>,
                    Inr [SendCommand (M_ERR (lit ''bad password'')), Aborted (lit ''bad password'')])
               else (s, Inl (Unexpected (phase_name (phase s)) (command_name (cmd_id cmd))))
           | M_ERR t \<Rightarrow> (s\<lparr>phase := Failed\<rparr>, Inr [Aborted t])
           | M_BSY t \<Rightarrow> (s\<lparr>phase := Failed\<rparr>, Inr [Aborted t])
           | _ \<Rightarrow> (s, Inl (Unexpected (phase_name (phase s)) (command_name (cmd_id cmd))))))"

definition advance_await_ok :: "session \<Rightarrow> event \<Rightarrow> session \<times> (mailer_error + action list)" where
  "advance_await_ok s ev =
     (case ev of
        EData _ \<Rightarrow> (s, Inl UnexpectedData)
      | ECommand cmd \<Rightarrow>
          (case cmd of
             M_OK _ \<Rightarrow> let (s', acts) = enter_transfer s in (s', Inr (Authenticated # acts))
           | M_NUL _ \<Rightarrow> (s, Inr [])
           | M_ADR _ \<Rightarrow> (s, Inr [])
           | M_ERR t \<Rightarrow> (s\<lparr>phase := Failed\<rparr>, Inr [Aborted t])
           | M_BSY t \<Rightarrow> (s\<lparr>phase := Failed\<rparr>, Inr [Aborted t])
           | _ \<Rightarrow> (s, Inl (Unexpected (phase_name (phase s)) (command_name (cmd_id cmd))))))"

definition on_file :: "session \<Rightarrow> mail_file \<Rightarrow> session \<times> (mailer_error + action list)" where
  "on_file s info =
     (if receiving s \<noteq> None then (s, Inl (Unexpected (phase_name (phase s)) ''M_FILE''))
      else if mf_size info = 0 then
        let (s', acts) = maybe_finish s
        in (s', Inr ([ExpectFile info, SendCommand (M_GOT (file_id_of info)), FileComplete (file_id_of info)] @ acts))
      else (s\<lparr>receiving := Some (info, 0)\<rparr>, Inr [ExpectFile info]))"

definition on_data :: "session \<Rightarrow> bytes \<Rightarrow> session \<times> (mailer_error + action list)" where
  "on_data s bs =
     (case receiving s of
        None \<Rightarrow> (s, Inl UnexpectedData)
      | Some (info, received) \<Rightarrow>
          let received = received + of_nat (length bs) in
          if received \<ge> mf_size info then
            let (s', acts) = maybe_finish (s\<lparr>receiving := None\<rparr>)
            in (s', Inr ([WriteData bs, SendCommand (M_GOT (file_id_of info)), FileComplete (file_id_of info)] @ acts))
          else (s\<lparr>receiving := Some (info, received)\<rparr>, Inr [WriteData bs]))"

definition advance_transfer :: "session \<Rightarrow> event \<Rightarrow> session \<times> (mailer_error + action list)" where
  "advance_transfer s ev =
     (let acked = (if sending s \<noteq> None
          then let (s', acts) = start_next_send (s\<lparr>sending := None\<rparr>) in (s', Inr acts)
          else (s, Inl (Unexpected (phase_name (phase s)) ''M_GOT''))) in
      case ev of
        EData bs \<Rightarrow> on_data s bs
      | ECommand cmd \<Rightarrow>
          (case cmd of
             M_FILE info \<Rightarrow> on_file s info
           | M_GOT _ \<Rightarrow> acked
           | M_SKIP _ \<Rightarrow> acked
           | M_EOB \<Rightarrow> let (s', acts) = maybe_finish (s\<lparr>peer_eob := True\<rparr>) in (s', Inr acts)
           | M_NUL _ \<Rightarrow> (s, Inr [])
           | M_ADR _ \<Rightarrow> (s, Inr [])
           | M_ERR t \<Rightarrow> (s\<lparr>phase := Failed\<rparr>, Inr [Aborted t])
           | M_BSY t \<Rightarrow> (s\<lparr>phase := Failed\<rparr>, Inr [Aborted t])
           | _ \<Rightarrow> (s, Inl (Unexpected (phase_name (phase s)) (command_name (cmd_id cmd))))))"

definition advance :: "(bytes \<Rightarrow> bytes) \<Rightarrow> (bytes \<Rightarrow> bytes \<Rightarrow> bytes) \<Rightarrow> session \<Rightarrow> event \<Rightarrow>
    session \<times> (mailer_error + action list)" where
  "advance sha hmac s ev =
     (case phase s of
        Greeting \<Rightarrow> advance_greeting sha hmac s ev
      | AwaitOk \<Rightarrow> advance_await_ok s ev
      | Transfer \<Rightarrow> advance_transfer s ev
      | Done \<Rightarrow> (s, Inl (Unexpected (phase_name (phase s)) (event_name ev)))
      | Failed \<Rightarrow> (s, Inl (Unexpected (phase_name (phase s)) (event_name ev))))"

section \<open>The driver\<close>

text \<open>
  What \<open>perform_actions\<close> of \<open>apps/server/src/ftn.rs\<close> does: bytes written to the peer, files created
  and written in the inbound directory, and whether the session is over. \<open>files\<close> holds the outbound
  bodies by name.
\<close>

record inbound =
  spool :: "str \<rightharpoonup> bytes"
  cur_file :: "str option"
  received :: "str list"

datatype ftn_error = EncodeErr frame_error | NoOpenFile | PeerAborted str | WireErr wire_error | SessionErr mailer_error

definition sanitize_name :: "str \<Rightarrow> str" where
  "sanitize_name nm =
     (let base = trim (rev (takeWhile (\<lambda>c. c \<noteq> 47 \<and> c \<noteq> 92) (rev nm))) in
      if base = [] \<or> base = lit ''.'' \<or> base = lit ''..'' then lit ''inbound.pkt'' else base)"

fun write_blocks :: "raw_block list \<Rightarrow> bytes \<times> ftn_error option" where
  "write_blocks [] = ([], None)"
| "write_blocks (b # bs) =
     (case encode_block b of
        Inl e \<Rightarrow> ([], Some (EncodeErr e))
      | Inr out \<Rightarrow> let (rest, e) = write_blocks bs in (out @ rest, e))"

definition outbound_blocks :: "(str \<rightharpoonup> bytes) \<Rightarrow> action \<Rightarrow> raw_block list" where
  "outbound_blocks files a =
     (case a of
        SendCommand cmd \<Rightarrow> [to_block cmd]
      | StreamFile info \<Rightarrow>
          (case files (mf_name info) of Some body \<Rightarrow> map BData (chunks BLOCK_MAX body) | None \<Rightarrow> [])
      | _ \<Rightarrow> [])"

definition inbound_action :: "action \<Rightarrow> inbound \<Rightarrow> ftn_error + inbound" where
  "inbound_action a i =
     (case a of
        ExpectFile info \<Rightarrow>
          let path = sanitize_name (mf_name info) in Inr (i\<lparr>spool := (spool i)(path \<mapsto> []), cur_file := Some path\<rparr>)
      | WriteData b \<Rightarrow>
          (case cur_file i of
             None \<Rightarrow> Inl NoOpenFile
           | Some path \<Rightarrow>
               Inr (i\<lparr>spool := (spool i)(path \<mapsto> (case spool i path of Some c \<Rightarrow> c | None \<Rightarrow> []) @ b)\<rparr>))
      | FileComplete _ \<Rightarrow>
          (case cur_file i of
             Some path \<Rightarrow> Inr (i\<lparr>cur_file := None, received := received i @ [path]\<rparr>)
           | None \<Rightarrow> Inr i)
      | Aborted reason \<Rightarrow> Inl (PeerAborted reason)
      | _ \<Rightarrow> Inr i)"

fun perform_actions :: "(str \<rightharpoonup> bytes) \<Rightarrow> action list \<Rightarrow> inbound \<Rightarrow> inbound \<times> bytes \<times> (ftn_error + bool)" where
  "perform_actions files [] i = (i, [], Inr False)"
| "perform_actions files (a # acts) i =
     (case write_blocks (outbound_blocks files a) of
        (out, Some e) \<Rightarrow> (i, out, Inl e)
      | (out, None) \<Rightarrow>
          (case inbound_action a i of
             Inl e \<Rightarrow> (i, out, Inl e)
           | Inr i' \<Rightarrow>
               if a = Finished then (i', out, Inr True)
               else let (i'', rest, r) = perform_actions files acts i' in (i'', out @ rest, r)))"

text \<open>
  The state of \<open>drive_session\<close> between two turns of its loop: the session, the unread part of the
  input buffer, the inbound directory and whether the session has finished. A turn decodes a block
  and carries out what the session makes of it; when the block is incomplete the loop reads.
\<close>

record driver =
  sess :: session
  inbuf :: bytes
  inbox :: inbound
  finished :: bool

definition open_driver :: "(str \<rightharpoonup> bytes) \<Rightarrow> session \<Rightarrow> inbound \<Rightarrow> driver \<times> bytes \<times> ftn_error option" where
  "open_driver files s i =
     (let (s', acts) = start_session s;
          (i', out, r) = perform_actions files acts i
      in (\<lparr>sess = s', inbuf = [], inbox = i', finished = (r = Inr True)\<rparr>, out,
          case r of Inl e \<Rightarrow> Some e | Inr _ \<Rightarrow> None))"

definition drive_turn :: "(bytes \<Rightarrow> bytes) \<Rightarrow> (bytes \<Rightarrow> bytes \<Rightarrow> bytes) \<Rightarrow> (str \<rightharpoonup> bytes) \<Rightarrow> driver \<Rightarrow>
    (driver \<times> bytes \<times> ftn_error option) option" where
  "drive_turn sha hmac files d =
     (if finished d then None
      else case next_event (inbuf d) of
        (_, Inr None) \<Rightarrow> None
      | (buf, Inl e) \<Rightarrow> Some (d\<lparr>inbuf := buf\<rparr>, [], Some (WireErr e))
      | (buf, Inr (Some ev)) \<Rightarrow>
          (case advance sha hmac (sess d) ev of
             (s', Inl e) \<Rightarrow> Some (d\<lparr>inbuf := buf, sess := s'\<rparr>, [], Some (SessionErr e))
           | (s', Inr acts) \<Rightarrow>
               let (i', out, r) = perform_actions files acts (inbox d)
               in Some (\<lparr>sess = s', inbuf = buf, inbox = i', finished = (r = Inr True)\<rparr>, out,
                        case r of Inl e \<Rightarrow> Some e | Inr _ \<Rightarrow> None)))"

lemma decode_block_used: "decode_block input = Inr (b, used) \<Longrightarrow> 2 \<le> used \<and> used \<le> length input"
  by (auto simp: decode_block_def Let_def split: if_splits list.splits)

lemma next_event_shrinks: "next_event buf = (buf', Inr (Some ev)) \<Longrightarrow> length buf' < length buf"
  by (auto simp: next_event_def split: sum.splits frame_error.splits dest!: decode_block_used)

lemma drive_turn_shrinks:
  assumes "drive_turn sha hmac files d = Some (d', out, None)"
  shows "length (inbuf d') < length (inbuf d)"
proof -
  from assms obtain buf ev where "next_event (inbuf d) = (buf, Inr (Some ev))" "inbuf d' = buf"
    by (auto simp: drive_turn_def Let_def split: if_splits prod.splits sum.splits option.splits)
  then show ?thesis using next_event_shrinks by simp
qed

text \<open>
  The whole loop of \<open>drive_session\<close>. \<open>reads\<close> is what the socket yields; an empty read, or the end of
  the list, is the peer closing the connection. The result is the error or the files received.
\<close>

function drive_loop :: "(bytes \<Rightarrow> bytes) \<Rightarrow> (bytes \<Rightarrow> bytes \<Rightarrow> bytes) \<Rightarrow> (str \<rightharpoonup> bytes) \<Rightarrow> driver \<Rightarrow> bytes list \<Rightarrow>
    driver \<times> bytes \<times> (ftn_error + str list)" where
  "drive_loop sha hmac files d reads =
     (if finished d then (d, [], Inr (received (inbox d)))
      else case drive_turn sha hmac files d of
        Some (d', out, Some e) \<Rightarrow> (d', out, Inl e)
      | Some (d', out, None) \<Rightarrow>
          let (d'', rest, r) = drive_loop sha hmac files d' reads in (d'', out @ rest, r)
      | None \<Rightarrow>
          (case reads of
             [] \<Rightarrow> (d, [], Inr (received (inbox d)))
           | x # more_reads \<Rightarrow>
               if x = [] then (d, [], Inr (received (inbox d)))
               else drive_loop sha hmac files (d\<lparr>inbuf := inbuf d @ x\<rparr>) more_reads))"
  by pat_completeness auto
termination
  by (relation "measures [\<lambda>(_, _, _, _, reads). length reads, \<lambda>(_, _, _, d, _). length (inbuf d)]")
    (auto dest: drive_turn_shrinks)

declare drive_loop.simps [simp del]

definition drive_session :: "(bytes \<Rightarrow> bytes) \<Rightarrow> (bytes \<Rightarrow> bytes \<Rightarrow> bytes) \<Rightarrow> (str \<rightharpoonup> bytes) \<Rightarrow> session \<Rightarrow> inbound \<Rightarrow>
    bytes list \<Rightarrow> driver \<times> bytes \<times> (ftn_error + str list)" where
  "drive_session sha hmac files s i reads =
     (case open_driver files s i of
        (d, out, Some e) \<Rightarrow> (d, out, Inl e)
      | (d, out, None) \<Rightarrow> let (d', rest, r) = drive_loop sha hmac files d reads in (d', out @ rest, r))"

section \<open>Polling the uplink\<close>

definition run_originating :: "(bytes \<Rightarrow> bytes) \<Rightarrow> (bytes \<Rightarrow> bytes \<Rightarrow> bytes) \<Rightarrow> address list \<Rightarrow> str \<Rightarrow>
    (mail_file \<times> bytes) list \<Rightarrow> inbound \<Rightarrow> bytes list \<Rightarrow> driver \<times> bytes \<times> (ftn_error + str list)" where
  "run_originating sha hmac addrs pw files i reads =
     drive_session sha hmac (map_of (rev (map (\<lambda>(f, b). (mf_name f, b)) files)))
       (new_session sha hmac Originating
          \<lparr>cfg_addresses = addrs, cfg_system_info = [lit ''SYS RabbitHole''], cfg_password = pw, cfg_challenge = None,
           cfg_outgoing = map fst files\<rparr>) i reads"

text \<open>
  \<open>poll_uplink\<close>, from the outbound directory as \<open>collect_outbound\<close> lists it to what is left of it and
  the files to toss; \<open>reads\<close> is what the uplink sends before it closes.
\<close>

datatype poll_error = NoNode | NoUplink | PollFailed ftn_error

definition poll_uplink :: "(bytes \<Rightarrow> bytes) \<Rightarrow> (bytes \<Rightarrow> bytes \<Rightarrow> bytes) \<Rightarrow> address option \<Rightarrow> str \<Rightarrow> str \<Rightarrow>
    (mail_file \<times> bytes) list \<Rightarrow> inbound \<Rightarrow> bytes list \<Rightarrow>
    (mail_file \<times> bytes) list \<times> inbound \<times> (poll_error + str list)" where
  "poll_uplink sha hmac node_addr host pw outbound i reads =
     (case node_addr of
        None \<Rightarrow> (outbound, i, Inl NoNode)
      | Some n \<Rightarrow>
          if host = [] then (outbound, i, Inl NoUplink)
          else if outbound = [] then (outbound, i, Inr [])
          else
            (case run_originating sha hmac [n] pw outbound i reads of
               (d, _, Inl e) \<Rightarrow> (outbound, inbox d, Inl (PollFailed e))
             | (d, _, Inr paths) \<Rightarrow>
                 (filter (\<lambda>(f, _). mf_name f \<notin> (\<lambda>(g, _). mf_name g) ` set outbound) outbound, inbox d, Inr paths)))"

end
