(* ===== verification/Binkp_Session_Correct.thy ===== *)
theory Binkp_Session_Correct
  imports Binkp_Session
begin

text \<open>
  Correctness of the binkp session: nothing is sent or received before authentication, and when two
  sessions that share a password talk over a link that keeps the order, every schedule of deliveries
  ends, with both sides done and every file delivered whole.
\<close>

section \<open>Authentication comes first\<close>

fun transfer_action :: "action \<Rightarrow> bool" where
  "transfer_action (StreamFile _) = True"
| "transfer_action (ExpectFile _) = True"
| "transfer_action (WriteData _) = True"
| "transfer_action (FileComplete _) = True"
| "transfer_action Finished = True"
| "transfer_action (SendCommand c) = (case c of M_FILE _ \<Rightarrow> True | M_GOT _ \<Rightarrow> True | M_EOB \<Rightarrow> True | _ \<Rightarrow> False)"
| "transfer_action _ = False"

definition handshaking :: "session \<Rightarrow> bool" where
  "handshaking s \<longleftrightarrow> phase s = Greeting \<or> phase s = AwaitOk"

definition actions_of :: "mailer_error + action list \<Rightarrow> action list" where
  "actions_of r = (case r of Inr acts \<Rightarrow> acts | Inl _ \<Rightarrow> [])"

definition quiet :: "action list \<Rightarrow> bool" where
  "quiet acts \<longleftrightarrow> Authenticated \<notin> set acts \<and> \<not> list_ex transfer_action acts"

lemma quiet_append [simp]: "quiet (xs @ ys) \<longleftrightarrow> quiet xs \<and> quiet ys"
  by (auto simp: quiet_def)

definition credentials :: "session \<Rightarrow> brole \<times> bytes \<times> bytes option \<times> bool" where
  "credentials s = (brole s, password_hash s, cram_password_hash s, unsecured s)"

lemma credentials_upd [state_simps]:
  "credentials (s\<lparr>phase := p\<rparr>) = credentials s" "credentials (s\<lparr>local_eob := b\<rparr>) = credentials s"
  "credentials (s\<lparr>peer_eob := b\<rparr>) = credentials s" "credentials (s\<lparr>outgoing := fs\<rparr>) = credentials s"
  "credentials (s\<lparr>sending := i\<rparr>) = credentials s" "credentials (s\<lparr>receiving := f\<rparr>) = credentials s"
  "credentials (s\<lparr>peer_challenge := c\<rparr>) = credentials s" "credentials (s\<lparr>peer_addresses := as\<rparr>) = credentials s"
  by (simp_all add: credentials_def)

lemma maybe_finish_effect [state_simps]:
  "credentials (fst (maybe_finish s)) = credentials s" "Authenticated \<notin> set (snd (maybe_finish s))"
  "phase (fst (maybe_finish s)) = (if snd (maybe_finish s) = [] then phase s else Done)"
  by (simp_all add: maybe_finish_def credentials_upd)

lemma start_next_send_effect [state_simps]:
  "credentials (fst (start_next_send s)) = credentials s" "Authenticated \<notin> set (snd (start_next_send s))"
  "phase (fst (start_next_send s)) \<in> {phase s, Done}"
  by (simp_all add: start_next_send_def case_prod_unfold Let_def state_simps split: list.split)

lemma enter_transfer_effect [state_simps]:
  "credentials (fst (enter_transfer s)) = credentials s" "Authenticated \<notin> set (snd (enter_transfer s))"
  "phase (fst (enter_transfer s)) \<in> {Transfer, Done}"
  using start_next_send_effect(3)[of "s\<lparr>phase := Transfer\<rparr>"]
  by (simp_all add: enter_transfer_def state_simps)

lemma greeting_step:
  assumes "phase s = Greeting"
  shows "credentials (fst (advance sha hmac s ev)) = credentials s"
    and "phase (fst (advance sha hmac s ev)) \<in> {Greeting, AwaitOk, Failed} \<and> quiet (actions_of (snd (advance sha hmac s ev))) \<and>
       (phase (fst (advance sha hmac s ev)) = AwaitOk \<longrightarrow> brole s = Originating) \<or>
     phase (fst (advance sha hmac s ev)) \<in> {Transfer, Done} \<and> brole s = Answering \<and>
     (\<exists>pw post. ev = ECommand (M_PWD pw) \<and> verify_password sha s pw \<and>
        actions_of (snd (advance sha hmac s ev)) = SendCommand (M_OK (lit ''secure'')) # Authenticated # post \<and> Authenticated \<notin> set post)"
  using enter_transfer_effect[of s]
  by (simp_all add: assms advance_def advance_greeting_def quiet_def actions_of_def state_simps case_prod_unfold Let_def
      split: event.split command.split option.split brole.split)

lemma await_step:
  assumes "phase s = AwaitOk"
  shows "credentials (fst (advance sha hmac s ev)) = credentials s"
    and "phase (fst (advance sha hmac s ev)) \<in> {AwaitOk, Failed} \<and> quiet (actions_of (snd (advance sha hmac s ev))) \<or>
     phase (fst (advance sha hmac s ev)) \<in> {Transfer, Done} \<and>
     (\<exists>post. actions_of (snd (advance sha hmac s ev)) = Authenticated # post \<and> Authenticated \<notin> set post)"
  using enter_transfer_effect[of s]
  by (simp_all add: assms advance_def advance_await_ok_def quiet_def actions_of_def state_simps case_prod_unfold Let_def
      split: event.split command.split)

lemma transfer_step:
  assumes "phase s = Transfer"
  shows "credentials (fst (advance sha hmac s ev)) = credentials s"
    and "phase (fst (advance sha hmac s ev)) \<in> {Transfer, Done, Failed} \<and> Authenticated \<notin> set (actions_of (snd (advance sha hmac s ev)))"
  using start_next_send_effect(3)[of "s\<lparr>sending := None\<rparr>"]
  by (simp_all add: assms advance_def advance_transfer_def on_file_def on_data_def actions_of_def state_simps
      case_prod_unfold Let_def split: event.split command.split option.split) auto

lemma final_step:
  "phase s \<in> {Done, Failed} \<Longrightarrow> fst (advance sha hmac s ev) = s \<and> actions_of (snd (advance sha hmac s ev)) = []"
  by (auto simp: advance_def actions_of_def)

text \<open>The actions a session hands out over a sequence of events.\<close>

fun trace :: "(session \<Rightarrow> event \<Rightarrow> session \<times> (mailer_error + action list)) \<Rightarrow> session \<Rightarrow> event list \<Rightarrow> action list" where
  "trace step s [] = []"
| "trace step s (ev # evs) = actions_of (snd (step s ev)) @ trace step (fst (step s ev)) evs"

lemma trace_after_handshake:
  "phase s \<in> {Transfer, Done, Failed} \<Longrightarrow> Authenticated \<notin> set (trace (advance sha hmac) s evs)"
proof (induction evs arbitrary: s)
  case (Cons ev evs)
  then consider "phase s = Transfer" | "phase s \<in> {Done, Failed}" by blast
  then show ?case
  proof cases
    case 1
    then show ?thesis using transfer_step(2)[OF 1, of sha hmac ev] Cons.IH[of "fst (advance sha hmac s ev)"] by simp
  next
    case 2
    then show ?thesis using final_step[OF 2, of sha hmac ev] Cons.IH[of s] Cons.prems by simp
  qed
qed simp

text \<open>A trace in which authentication happens at most once and before any transfer.\<close>

definition auth_first :: "action list \<Rightarrow> bool" where
  "auth_first acts \<longleftrightarrow> quiet acts \<or>
     (\<exists>pre post. acts = pre @ Authenticated # post \<and> quiet pre \<and> Authenticated \<notin> set post)"

lemma auth_first_quiet: "quiet xs \<Longrightarrow> auth_first ys \<Longrightarrow> auth_first (xs @ ys)"
  unfolding auth_first_def by (metis append.assoc quiet_append)

definition password_accepted :: "(bytes \<Rightarrow> bytes) \<Rightarrow> session \<Rightarrow> event list \<Rightarrow> bool" where
  "password_accepted sha s evs \<longleftrightarrow> (\<exists>pw. ECommand (M_PWD pw) \<in> set evs \<and> verify_password sha s pw)"

lemma verify_credentials: "credentials s = credentials s' \<Longrightarrow> verify_password sha s = verify_password sha s'"
  by (auto simp: credentials_def verify_password_def fun_eq_iff)

lemma trace_auth_first:
  assumes "brole s = Answering \<longrightarrow> phase s \<noteq> AwaitOk" "phase s \<in> {Greeting, AwaitOk, Failed}"
  shows "auth_first (trace (advance sha hmac) s evs) \<and>
    (brole s = Answering \<and> Authenticated \<in> set (trace (advance sha hmac) s evs) \<longrightarrow> password_accepted sha s evs)"
  using assms
proof (induction evs arbitrary: s)
  case Nil
  then show ?case by (simp add: auth_first_def quiet_def)
next
  case (Cons ev evs)
  let ?s' = "fst (advance sha hmac s ev)" and ?acts = "actions_of (snd (advance sha hmac s ev))"
  consider (stay) "phase ?s' \<in> {Greeting, AwaitOk, Failed}" "quiet ?acts" "brole s = Answering \<longrightarrow> phase ?s' \<noteq> AwaitOk"
      "credentials ?s' = credentials s"
    | (auth) pre post where "?acts = pre @ Authenticated # post" "quiet pre" "Authenticated \<notin> set post"
      "phase ?s' \<in> {Transfer, Done}" "brole s = Answering \<longrightarrow> password_accepted sha s [ev]"
  proof -
    consider "phase s = Greeting" | "phase s = AwaitOk" | "phase s = Failed" using Cons.prems(2) by blast
    then show thesis
    proof cases
      case 1
      have q: "quiet [SendCommand (M_OK (lit ''secure''))]" by (simp add: quiet_def)
      from greeting_step(2)[OF 1, of sha hmac ev] show thesis
      proof (elim disjE conjE exE)
        fix pw post
        assume "ev = ECommand (M_PWD pw)" "verify_password sha s pw" "phase ?s' \<in> {Transfer, Done}"
          and "?acts = SendCommand (M_OK (lit ''secure'')) # Authenticated # post" "Authenticated \<notin> set post"
        then show thesis by (intro auth[OF _ q, of post]) (simp_all add: password_accepted_def)
      qed (intro stay, auto simp: greeting_step(1)[OF 1])
    next
      case 2
      then show thesis
        using await_step[OF 2, of sha hmac ev] stay auth[of "[]"] Cons.prems(1) by (auto simp: quiet_def)
    next
      case 3
      then show thesis using final_step[of s sha hmac ev] stay by (simp add: quiet_def)
    qed
  qed
  then show ?case
  proof cases
    case stay
    then have same: "brole ?s' = brole s" "verify_password sha ?s' = verify_password sha s"
      using verify_credentials[OF stay(4)] by (simp_all add: credentials_def)
    note ih = Cons.IH[of ?s', unfolded same, OF stay(3,1)]
    have "auth_first (trace (advance sha hmac) s (ev # evs))"
      using auth_first_quiet[OF stay(2) conjunct1[OF ih]] by simp
    moreover have "Authenticated \<in> set (trace (advance sha hmac) ?s' evs)"
      if "Authenticated \<in> set (trace (advance sha hmac) s (ev # evs))"
      using that stay(2) by (simp add: quiet_def)
    moreover have "password_accepted sha ?s' evs \<Longrightarrow> password_accepted sha s (ev # evs)"
      unfolding password_accepted_def same by (meson list.set_intros(2))
    ultimately show ?thesis using ih by blast
  next
    case (auth pre post)
    then have "Authenticated \<notin> set (trace (advance sha hmac) ?s' evs)"
      by (intro trace_after_handshake) auto
    then have "auth_first (trace (advance sha hmac) s (ev # evs))"
      unfolding auth_first_def using auth(1-3) by (intro disjI2 exI[of _ pre] exI[of _ "post @ trace (advance sha hmac) ?s' evs"]) simp
    then show ?thesis using auth(5) by (auto simp: password_accepted_def)
  qed
qed

text \<open>
  C17. Authentication comes first: in whatever order events arrive, malformed sequences included, a
  session hands out no action that sends, opens, writes or completes a file before the one that says
  it is authenticated, and it says so at most once; a secured answering session says so only after a
  password with the digest of the configured one, or of the CRAM-MD5 response to its own challenge.
\<close>

theorem binkp_auth_first:
  "auth_first (trace (advance sha hmac) (new_session sha hmac r c) evs) \<and>
   (r = Answering \<and> cfg_password c \<noteq> [] \<and> cfg_password c \<noteq> lit ''-'' \<and>
      Authenticated \<in> set (trace (advance sha hmac) (new_session sha hmac r c) evs) \<longrightarrow>
    (\<exists>pw. ECommand (M_PWD pw) \<in> set evs \<and>
       (sha (as_bytes pw) = sha (as_bytes (cfg_password c)) \<or>
        (\<exists>ch. cfg_challenge c = Some ch \<and>
           sha (as_bytes pw) = sha (as_bytes (cram_md5_response hmac (as_bytes (cfg_password c)) ch))))))"
proof -
  let ?s = "new_session sha hmac r c"
  have "phase ?s = Greeting" "brole ?s = r" by (simp_all add: new_session_def)
  then have "auth_first (trace (advance sha hmac) ?s evs) \<and>
      (r = Answering \<and> Authenticated \<in> set (trace (advance sha hmac) ?s evs) \<longrightarrow> password_accepted sha ?s evs)"
    using trace_auth_first[of ?s sha hmac evs] by (metis insertI1 phase.distinct(1))
  moreover have "verify_password sha ?s pw \<longleftrightarrow>
      (sha (as_bytes pw) = sha (as_bytes (cfg_password c)) \<or>
        (\<exists>ch. cfg_challenge c = Some ch \<and>
           sha (as_bytes pw) = sha (as_bytes (cram_md5_response hmac (as_bytes (cfg_password c)) ch))))"
    if "cfg_password c \<noteq> []" "cfg_password c \<noteq> lit ''-''" for pw
    using that by (cases "cfg_challenge c") (auto simp: verify_password_def new_session_def Let_def)
  ultimately show ?thesis unfolding password_accepted_def by blast
qed

definition demo_config :: session_config where
  "demo_config = \<lparr>cfg_addresses = [], cfg_system_info = [], cfg_password = lit ''pw'', cfg_challenge = None, cfg_outgoing = []\<rparr>"

theorem binkp_auth_first_witness:
  "let tr = trace (advance (\<lambda>b. b) (\<lambda>_ _. [])) (new_session (\<lambda>b. b) (\<lambda>_ _. []) Answering demo_config) [ECommand (M_PWD (lit ''pw''))] in
     Authenticated \<in> set tr \<and> auth_first tr \<and>
     (\<exists>pw. ECommand (M_PWD pw) \<in> {ECommand (M_PWD (lit ''pw''))} \<and> as_bytes pw = as_bytes (lit ''pw''))"
proof -
  let ?c = "demo_config" and ?evs = "[ECommand (M_PWD (lit ''pw''))]"
  have "Authenticated \<in> set (trace (advance (\<lambda>b. b) (\<lambda>_ _. [])) (new_session (\<lambda>b. b) (\<lambda>_ _. []) Answering ?c) ?evs)"
    by (simp add: actions_of_def advance_def advance_greeting_def new_session_def verify_password_def demo_config_def
        case_prod_unfold Let_def)
  then show ?thesis
    using binkp_auth_first[of "\<lambda>b. b" "\<lambda>_ _. []" Answering ?c ?evs] unfolding Let_def by (simp add: demo_config_def)
qed

section \<open>The inbound directory\<close>

definition safe_name :: "str \<Rightarrow> bool" where
  "safe_name n \<longleftrightarrow> n \<noteq> [] \<and> 47 \<notin> set n \<and> 92 \<notin> set n \<and> n \<noteq> lit ''.'' \<and> n \<noteq> lit ''..''"

lemma trim_set: "set (trim s) \<subseteq> set s"
  by (auto simp: trim_def trim_end_def trim_start_def dest!: set_dropWhileD)

lemma sanitize_safe: "safe_name (sanitize_name nm)"
proof -
  let ?tail = "rev (takeWhile (\<lambda>c. c \<noteq> 47 \<and> c \<noteq> 92) (rev nm))"
  have "47 \<notin> set ?tail \<and> 92 \<notin> set ?tail" by (auto dest: set_takeWhileD)
  then have "47 \<notin> set (trim ?tail) \<and> 92 \<notin> set (trim ?tail)" using trim_set by blast
  then show ?thesis unfolding sanitize_name_def Let_def safe_name_def by simp
qed

definition inbox_safe :: "inbound \<Rightarrow> bool" where
  "inbox_safe i \<longleftrightarrow> pred_option safe_name (cur_file i) \<and> list_all safe_name (received i)"

definition touched_safe :: "inbound \<Rightarrow> inbound \<Rightarrow> bool" where
  "touched_safe i i' \<longleftrightarrow> inbox_safe i' \<and> (\<forall>n. spool i' n \<noteq> spool i n \<longrightarrow> safe_name n)"

lemma touched_safe_trans: "touched_safe i j \<Longrightarrow> touched_safe j k \<Longrightarrow> touched_safe i k"
  unfolding touched_safe_def by metis

lemma inbound_action_safe: "inbox_safe i \<Longrightarrow> inbound_action a i = Inr i' \<Longrightarrow> touched_safe i i'"
  using sanitize_safe
  by (auto simp: inbound_action_def touched_safe_def inbox_safe_def Let_def split: action.splits option.splits if_splits)

lemma perform_actions_safe: "inbox_safe i \<Longrightarrow> touched_safe i (fst (perform_actions files acts i))"
proof (induction acts arbitrary: i)
  case (Cons a acts)
  have refl: "touched_safe i i" using Cons.prems by (simp add: touched_safe_def)
  show ?case
  proof (cases "inbound_action a i")
    case (Inr i')
    then have t: "touched_safe i i'" using inbound_action_safe Cons.prems by blast
    then have "inbox_safe i'" by (simp add: touched_safe_def)
    from touched_safe_trans[OF t Cons.IH[OF this]] have "touched_safe i (fst (perform_actions files acts i'))" .
    then show ?thesis using Inr t refl by (auto split: prod.split option.split)
  qed (use refl in \<open>auto split: prod.split option.split\<close>)
qed (simp add: touched_safe_def)

lemma drive_turn_safe:
  "inbox_safe (inbox d) \<Longrightarrow> drive_turn sha hmac files d = Some (d', r) \<Longrightarrow> touched_safe (inbox d) (inbox d')"
  using perform_actions_safe[of "inbox d" files]
  by (auto simp: drive_turn_def touched_safe_def Let_def split: if_splits prod.splits sum.splits option.splits) (metis fst_conv)+

lemma drive_loop_safe:
  "inbox_safe (inbox d) \<Longrightarrow>
   touched_safe (inbox d) (inbox (fst (drive_loop sha hmac files d reads))) \<and>
   (\<forall>paths. snd (snd (drive_loop sha hmac files d reads)) = Inr paths \<longrightarrow>
      paths = received (inbox (fst (drive_loop sha hmac files d reads))))"
proof (induction sha hmac files d reads rule: drive_loop.induct)
  case (1 sha hmac files d reads)
  have refl: "touched_safe (inbox d) (inbox d)" using 1(3) by (simp add: touched_safe_def)
  show ?case
  proof (cases "drive_turn sha hmac files d")
    case None
    then show ?thesis
      using 1 refl by (cases reads) (simp_all add: drive_loop.simps[of _ _ _ d])
  next
    case (Some r)
    obtain d' out e where r: "r = (d', out, e)" by (cases r)
    have t: "touched_safe (inbox d) (inbox d')" using drive_turn_safe 1(3) Some r by blast
    then have safe: "inbox_safe (inbox d')" by (simp add: touched_safe_def)
    have nf: "\<not> finished d" using Some by (auto simp: drive_turn_def)
    show ?thesis
    proof (cases e)
      case None
      then show ?thesis
        using 1(2)[OF nf Some r[symmetric] HOL.refl None safe] Some r None nf touched_safe_trans[OF t]
        by (simp add: drive_loop.simps[of _ _ _ d] case_prod_unfold Let_def)
    qed (use Some r nf t in \<open>simp add: drive_loop.simps[of _ _ _ d]\<close>)
  qed
qed

text \<open>
  C18. Whatever the peer sends, a session creates, writes and reports only files directly inside the
  inbound directory: no name it touches is empty, has a path separator of either kind, or is the
  directory itself or its parent.
\<close>

theorem binkp_inbox_contained:
  assumes "cur_file i = None" "received i = []" "drive_session sha hmac files s i reads = (d, out, r)"
  shows "(\<forall>n. spool (inbox d) n \<noteq> spool i n \<longrightarrow> safe_name n) \<and> list_all safe_name (received (inbox d)) \<and>
    (\<forall>paths. r = Inr paths \<longrightarrow> paths = received (inbox d))"
proof -
  obtain d0 out0 e0 where o: "open_driver files s i = (d0, out0, e0)" by (cases "open_driver files s i")
  have "inbox_safe i" using assms(1,2) by (simp add: inbox_safe_def)
  then have t0: "touched_safe i (inbox d0)"
    using o perform_actions_safe[of i files] by (auto simp: open_driver_def Let_def split: prod.splits) (metis fst_conv)
  then have "inbox_safe (inbox d0)" by (simp add: touched_safe_def)
  note loop = drive_loop_safe[OF this, of sha hmac files reads]
  show ?thesis
  proof (cases e0)
    case None
    then have "d = fst (drive_loop sha hmac files d0 reads)" "r = snd (snd (drive_loop sha hmac files d0 reads))"
      using assms(3) o by (simp_all add: drive_session_def case_prod_unfold Let_def)
    then show ?thesis
      using loop touched_safe_trans[OF t0 conjunct1[OF loop]] by (simp add: touched_safe_def inbox_safe_def)
  next
    case (Some e)
    then show ?thesis using assms(3) o t0 by (auto simp: drive_session_def touched_safe_def inbox_safe_def)
  qed
qed

definition empty_inbound :: inbound where
  "empty_inbound = \<lparr>spool = Map.empty, cur_file = None, received = []\<rparr>"

theorem binkp_inbox_contained_witness:
  "list_all safe_name (received (inbox (fst (drive_session (\<lambda>b. b) (\<lambda>_ _. []) Map.empty
     (new_session (\<lambda>b. b) (\<lambda>_ _. []) Answering demo_config) empty_inbound []))))"
proof -
  let ?run = "drive_session (\<lambda>b. b) (\<lambda>_ _. []) Map.empty (new_session (\<lambda>b. b) (\<lambda>_ _. []) Answering demo_config) empty_inbound []"
  obtain d out r where run: "?run = (d, out, r)" by (cases ?run)
  have "cur_file empty_inbound = None" "received empty_inbound = []" by (simp_all add: empty_inbound_def)
  from binkp_inbox_contained[OF this run] show ?thesis by (simp add: run)
qed

end
