(* ===== verification/Binkp_Link.thy ===== *)
theory Binkp_Link
  imports Binkp_Session_Correct
begin

text \<open>
  Two binkp drivers on a link: the actions of a session as events, a bound on the work a session can
  still cause, the transfer of one batch in one direction, and the conversation of both sides.
\<close>

section \<open>Actions as events\<close>

fun emit :: "(str \<rightharpoonup> bytes) \<Rightarrow> action \<Rightarrow> event list" where
  "emit files (SendCommand c) = [ECommand c]"
| "emit files (StreamFile f) =
     (case files (mf_name f) of Some b \<Rightarrow> map EData (chunks BLOCK_MAX b) | None \<Rightarrow> [])"
| "emit files _ = []"

fun perform_events :: "(str \<rightharpoonup> bytes) \<Rightarrow> action list \<Rightarrow> inbound \<Rightarrow> (inbound \<times> event list \<times> bool) option" where
  "perform_events files [] i = Some (i, [], False)"
| "perform_events files (a # acts) i =
     (case inbound_action a i of
        Inl e \<Rightarrow> None
      | Inr i' \<Rightarrow>
          if a = Finished then Some (i', emit files a, True)
          else map_option (\<lambda>(i'', evs, fin). (i'', emit files a @ evs, fin)) (perform_events files acts i'))"

definition deliver :: "(bytes \<Rightarrow> bytes) \<Rightarrow> (bytes \<Rightarrow> bytes \<Rightarrow> bytes) \<Rightarrow> (str \<rightharpoonup> bytes) \<Rightarrow> session \<times> inbound \<Rightarrow> event \<Rightarrow>
    ((session \<times> inbound) \<times> event list \<times> bool) option" where
  "deliver sha hmac files e ev =
     (case advance sha hmac (fst e) ev of
        (s', Inl _) \<Rightarrow> None
      | (s', Inr acts) \<Rightarrow> map_option (\<lambda>(i', evs, fin). ((s', i'), evs, fin)) (perform_events files acts (snd e)))"

lemma outbound_blocks_emit: "outbound_blocks files a = map event_block (emit files a)"
  by (cases a) (simp_all add: outbound_blocks_def event_block_def comp_def split: option.split)

lemma write_blocks_ok:
  "list_all event_ok evs \<Longrightarrow> write_blocks (map event_block evs) = (concat (map event_bytes evs), None)"
  by (induction evs) (simp_all add: event_ok_def encode_block_fits event_bytes_def)

text \<open>The driver writes the bytes of the events, when they fit their blocks.\<close>

lemma perform_refines:
  "perform_events files acts i = Some (i', evs, fin) \<Longrightarrow> list_all event_ok evs \<Longrightarrow>
   perform_actions files acts i = (i', concat (map event_bytes evs), Inr fin)"
proof (induction acts arbitrary: i evs)
  case (Cons a acts)
  then obtain i1 where i1: "inbound_action a i = Inr i1" by (auto split: sum.splits)
  show ?case
  proof (cases "a = Finished")
    case True
    then show ?thesis using Cons.prems i1 by (simp add: outbound_blocks_emit)
  next
    case False
    with Cons.prems i1 obtain rest where r: "perform_events files acts i1 = Some (i', rest, fin)" "evs = emit files a @ rest"
      by auto
    then show ?thesis
      using Cons.IH[OF r(1)] Cons.prems(2) i1 False by (simp add: outbound_blocks_emit write_blocks_ok)
  qed
qed simp

section \<open>Work\<close>

text \<open>
  What a session can still make the link carry. Every event it accepts takes more than it gives,
  whatever the event and the session, so two sessions always fall silent.
\<close>

definition file_work :: "(str \<rightharpoonup> bytes) \<Rightarrow> mail_file \<Rightarrow> nat" where
  "file_work files f = 2 + length (emit files (StreamFile f))"

fun event_work :: "event \<Rightarrow> nat" where
  "event_work (ECommand (M_FILE _)) = 2"
| "event_work _ = 1"

definition session_work :: "(str \<rightharpoonup> bytes) \<Rightarrow> session \<Rightarrow> nat" where
  "session_work files s =
     sum_list (map (file_work files) (outgoing s)) + of_bool (\<not> local_eob s) + of_bool (receiving s \<noteq> None) +
     of_bool (phase s = Greeting)"

abbreviation queue_work :: "event list \<Rightarrow> nat" where
  "queue_work evs \<equiv> sum_list (map event_work evs)"

definition emitted :: "(str \<rightharpoonup> bytes) \<Rightarrow> action list \<Rightarrow> event list" where
  "emitted files acts = concat (map (emit files) acts)"

lemma emitted_simps [simp]:
  "emitted files [] = []" "emitted files (a # acts) = emit files a @ emitted files acts"
  "emitted files (xs @ ys) = emitted files xs @ emitted files ys"
  by (simp_all add: emitted_def)

lemma stream_work: "queue_work (emit files (StreamFile f)) = length (emit files (StreamFile f))"
  by (auto simp: comp_def sum_list_triv split: option.split)

lemma maybe_finish_work:
  "session_work files (fst (maybe_finish s)) = session_work files s" "emitted files (snd (maybe_finish s)) = []"
  by (simp_all add: maybe_finish_def session_work_def)

lemma start_next_send_work:
  "phase s \<noteq> Greeting \<Longrightarrow>
   session_work files (fst (start_next_send s)) + queue_work (emitted files (snd (start_next_send s))) = session_work files s"
proof (cases "outgoing s")
  case (Cons f fs)
  then show ?thesis
    using stream_work[of files f] by (simp add: start_next_send_def session_work_def file_work_def del: emit.simps(2))
next
  case Nil
  then show ?thesis
    using maybe_finish_work[of files "s\<lparr>local_eob := True\<rparr>"] maybe_finish_work[of files s]
    by (simp add: start_next_send_def case_prod_unfold Let_def) (simp add: session_work_def)
qed

lemma session_work_upd:
  "session_work files (s\<lparr>phase := p\<rparr>) + of_bool (phase s = Greeting) = session_work files s + of_bool (p = Greeting)"
  "session_work files (s\<lparr>sending := x\<rparr>) = session_work files s"
  "session_work files (s\<lparr>peer_eob := b\<rparr>) = session_work files s"
  "session_work files (s\<lparr>peer_challenge := c\<rparr>) = session_work files s"
  "session_work files (s\<lparr>peer_addresses := as\<rparr>) = session_work files s"
  "session_work files (s\<lparr>receiving := r\<rparr>) + of_bool (receiving s \<noteq> None) = session_work files s + of_bool (r \<noteq> None)"
  "session_work files (s\<lparr>receiving := Some y\<rparr>) = session_work files s + of_bool (receiving s = None)"
  by (simp_all add: session_work_def)

lemma greeting_work:
  assumes "phase s = Greeting" "snd (advance_greeting sha hmac s ev) = Inr acts"
  shows "session_work files (fst (advance_greeting sha hmac s ev)) + queue_work (emitted files acts) < session_work files s + event_work ev"
proof -
  have up: "session_work files (s\<lparr>phase := p\<rparr>) + 1 = session_work files s" if "p \<noteq> Greeting" for p
    using session_work_upd(1)[of files p s] assms(1) that by simp
  have adr: "session_work files (s\<lparr>peer_addresses := as, phase := AwaitOk\<rparr>) < session_work files s" for as
    using assms(1) by (simp add: session_work_def)
  have "session_work files (fst (enter_transfer s)) + queue_work (emitted files (snd (enter_transfer s))) + 1 = session_work files s"
    using start_next_send_work[of "s\<lparr>phase := Transfer\<rparr>" files] up[of Transfer] by (simp add: enter_transfer_def)
  then show ?thesis
    using assms(2) up[of Failed]
    by (cases ev; auto simp: advance_greeting_def Let_def case_prod_unfold session_work_upd(4,5) adr
          split: command.splits option.splits if_splits brole.splits)
qed

lemma await_work:
  assumes "phase s = AwaitOk" "snd (advance_await_ok s ev) = Inr acts"
  shows "session_work files (fst (advance_await_ok s ev)) + queue_work (emitted files acts) < session_work files s + event_work ev"
proof -
  have "session_work files (fst (enter_transfer s)) + queue_work (emitted files (snd (enter_transfer s))) = session_work files s"
    using start_next_send_work[of "s\<lparr>phase := Transfer\<rparr>" files] session_work_upd(1)[of files Transfer s] assms(1)
    by (simp add: enter_transfer_def)
  then show ?thesis
    using assms(2) session_work_upd(1)[of files Failed s] assms(1)
    by (cases ev; auto simp: advance_await_ok_def Let_def case_prod_unfold split: command.splits)
qed

lemma receive_work:
  "snd (on_file s info) = Inr acts \<Longrightarrow>
     session_work files (fst (on_file s info)) + queue_work (emitted files acts) < session_work files s + 2"
  "snd (on_data s bs) = Inr acts \<Longrightarrow>
     session_work files (fst (on_data s bs)) + queue_work (emitted files acts) < session_work files s + 1"
  using session_work_upd(6)[of files None s]
  by (auto simp: on_file_def on_data_def Let_def case_prod_unfold maybe_finish_work session_work_upd(7) split: if_splits option.splits)

lemma transfer_work:
  assumes "phase s = Transfer" "snd (advance_transfer s ev) = Inr acts"
  shows "session_work files (fst (advance_transfer s ev)) + queue_work (emitted files acts) < session_work files s + event_work ev"
  using assms(2) start_next_send_work[of "s\<lparr>sending := None\<rparr>" files] session_work_upd(1)[of files Failed s] assms(1)
    receive_work[of s _ acts files]
  by (cases ev; auto simp: advance_transfer_def Let_def case_prod_unfold maybe_finish_work session_work_upd(2,3)
        split: command.splits if_splits)

lemma advance_work:
  "snd (advance sha hmac s ev) = Inr acts \<Longrightarrow>
   session_work files (fst (advance sha hmac s ev)) + queue_work (emitted files acts) < session_work files s + event_work ev"
  by (auto simp: advance_def greeting_work await_work transfer_work split: phase.splits)

section \<open>One direction of the transfer\<close>

definition body_of :: "(str \<rightharpoonup> bytes) \<Rightarrow> mail_file \<Rightarrow> bytes" where
  "body_of files f = (case files (mf_name f) of Some b \<Rightarrow> b | None \<Rightarrow> [])"

text \<open>Files the outbound directory really has, announced with their size.\<close>

definition batch_ready :: "(str \<rightharpoonup> bytes) \<Rightarrow> mail_file list \<Rightarrow> bool" where
  "batch_ready files fs \<longleftrightarrow> list_all (\<lambda>f. mf_name f \<in> dom files \<and> length (body_of files f) < 2 ^ 64 \<and>
     mf_size f = of_nat (length (body_of files f))) fs"

definition put :: "(str \<rightharpoonup> bytes) \<Rightarrow> mail_file \<Rightarrow> inbound \<Rightarrow> inbound" where
  "put files f i = i\<lparr>spool := (spool i)(sanitize_name (mf_name f) \<mapsto> body_of files f),
     received := received i @ [sanitize_name (mf_name f)]\<rparr>"

definition stored :: "(str \<rightharpoonup> bytes) \<Rightarrow> mail_file list \<Rightarrow> inbound \<Rightarrow> inbound" where
  "stored files fs i = fold (put files) fs i"

lemma stored_snoc [simp]: "stored files (fs @ [f]) i = put files f (stored files fs i)"
  by (simp add: stored_def)

definition half_written :: "mail_file \<Rightarrow> bytes \<Rightarrow> inbound \<Rightarrow> inbound" where
  "half_written f w i = i\<lparr>spool := (spool i)(sanitize_name (mf_name f) \<mapsto> w), cur_file := Some (sanitize_name (mf_name f))\<rparr>"

text \<open>
  \<open>flow files i0 fs out snt leob rcv peob i fwd acks\<close>: of the batch \<open>fs\<close> the sender still has \<open>out\<close> to
  announce and \<open>snt\<close> unacknowledged; \<open>fwd\<close> is what it has in flight, \<open>acks\<close> what comes back; the
  receiver is in the middle of \<open>rcv\<close> and its inbound directory is \<open>i\<close>, \<open>i0\<close> at the start.
\<close>

inductive flow :: "(str \<rightharpoonup> bytes) \<Rightarrow> inbound \<Rightarrow> mail_file list \<Rightarrow> mail_file list \<Rightarrow> file_id option \<Rightarrow> bool \<Rightarrow>
    (mail_file \<times> u64) option \<Rightarrow> bool \<Rightarrow> inbound \<Rightarrow> event list \<Rightarrow> event list \<Rightarrow> bool"
  for files i0 fs where
  announced: "fs = past @ f # out \<Longrightarrow>
    flow files i0 fs out (Some (file_id_of f)) False None False (stored files past i0)
      (ECommand (M_FILE f) # map EData (chunks BLOCK_MAX (body_of files f))) []"
| arriving: "fs = past @ f # out \<Longrightarrow> w @ concat cs = body_of files f \<Longrightarrow> cs \<noteq> [] \<Longrightarrow> [] \<notin> set cs \<Longrightarrow>
    list_all (\<lambda>c. length c \<le> BLOCK_MAX) cs \<Longrightarrow>
    flow files i0 fs out (Some (file_id_of f)) False (Some (f, of_nat (length w))) False
      (half_written f w (stored files past i0)) (map EData cs) []"
| acknowledged: "fs = past @ f # out \<Longrightarrow>
    flow files i0 fs out (Some (file_id_of f)) False None False (stored files (past @ [f]) i0)
      [] [ECommand (M_GOT (file_id_of f))]"
| closing: "flow files i0 fs [] None True None False (stored files fs i0) [ECommand M_EOB] []"
| closed: "flow files i0 fs [] None True None True (stored files fs i0) [] []"

inductive_simps flow_closed: "flow files i0 fs out snt leob rcv peob i [] []"
inductive_cases flow_ack: "flow files i0 fs out snt leob rcv peob i fwd (e # acks)"
inductive_cases flow_forward: "flow files i0 fs out snt leob rcv peob i (e # fwd) acks"

text \<open>What sending the next file, or the end of the batch, puts on the link.\<close>

fun next_sent :: "(str \<rightharpoonup> bytes) \<Rightarrow> mail_file list \<Rightarrow> event list" where
  "next_sent files [] = [ECommand M_EOB]"
| "next_sent files (f # fs) = ECommand (M_FILE f) # map EData (chunks BLOCK_MAX (body_of files f))"

lemma flow_next:
  assumes "fs = past @ out"
  shows "flow files i0 fs (tl out) (case out of [] \<Rightarrow> None | f # _ \<Rightarrow> Some (file_id_of f)) (out = []) None False
    (stored files past i0) (next_sent files out) []"
  using assms by (cases out) (auto intro: flow.intros)

definition settled :: "session \<Rightarrow> bool" where
  "settled s \<longleftrightarrow> local_eob s \<and> peer_eob s \<and> sending s = None \<and> receiving s = None"

definition in_batch :: "session \<Rightarrow> bool" where
  "in_batch s \<longleftrightarrow> phase s = (if settled s then Done else Transfer)"

lemma maybe_finish_settled:
  "phase s = Transfer \<Longrightarrow>
   maybe_finish s = (s\<lparr>phase := if settled s then Done else Transfer\<rparr>, if settled s then [Finished] else [])"
  by (cases s) (simp add: maybe_finish_def settled_def)

lemma settled_phase [simp]: "settled (s\<lparr>phase := p\<rparr>) = settled s"
  by (simp add: settled_def)

lemma batch_readyD:
  assumes "batch_ready files (past @ f # out)"
  shows "files (mf_name f) = Some (body_of files f)" "length (body_of files f) < 2 ^ 64"
    "mf_size f = of_nat (length (body_of files f))" "unat (mf_size f) = length (body_of files f)"
  using assms by (auto simp: batch_ready_def body_of_def unat_of_nat take_bit_nat_eq_self)

lemma start_next_send_events:
  assumes "phase s = Transfer" "\<not> local_eob s" "sending s = None" "batch_ready files (past @ outgoing s)"
  obtains s' acts where "start_next_send s = (s', acts)" "in_batch s'" "outgoing s' = tl (outgoing s)"
    "sending s' = (case outgoing s of [] \<Rightarrow> None | f # _ \<Rightarrow> Some (file_id_of f))" "local_eob s' = (outgoing s = [])"
    "receiving s' = receiving s" "peer_eob s' = peer_eob s"
    "perform_events files acts i = Some (i, next_sent files (outgoing s), phase s' = Done)"
proof (cases "outgoing s")
  case (Cons f fs)
  then have "files (mf_name f) = Some (body_of files f)" using assms(4) batch_readyD(1) by metis
  then show ?thesis
    using assms Cons by (intro that[OF surjective_pairing]) (simp_all add: start_next_send_def in_batch_def settled_def inbound_action_def)
next
  case Nil
  then show ?thesis
    using assms by (intro that[OF surjective_pairing])
      (simp_all add: start_next_send_def maybe_finish_settled in_batch_def inbound_action_def case_prod_unfold Let_def)
qed

fun is_forward :: "event \<Rightarrow> bool" where
  "is_forward (EData _) = True"
| "is_forward (ECommand c) = (case c of M_FILE _ \<Rightarrow> True | M_EOB \<Rightarrow> True | _ \<Rightarrow> False)"

fun is_ack :: "event \<Rightarrow> bool" where
  "is_ack (ECommand (M_GOT _)) = True"
| "is_ack _ = False"

lemma inbound_steps:
  "inbound_action (ExpectFile f) i = Inr (half_written f [] i)"
  "inbound_action (WriteData b) (half_written f w i) = Inr (half_written f (w @ b) i)"
  "cur_file i = None \<Longrightarrow> inbound_action (FileComplete d) (half_written f (body_of files f) i) = Inr (put files f i)"
  "inbound_action (SendCommand c) i = Inr i" "inbound_action Finished i = Inr i"
  by (cases i, simp add: inbound_action_def half_written_def put_def Let_def)+

lemma cur_file_stored [simp]: "cur_file (stored files fs i) = cur_file i"
  unfolding stored_def by (induction fs arbitrary: i) (simp_all add: put_def)

lemma whole_chunks:
  "concat (chunks BLOCK_MAX b) = b" "[] \<notin> set (chunks BLOCK_MAX b)" "list_all (\<lambda>c. length c \<le> BLOCK_MAX) (chunks BLOCK_MAX b)"
  "chunks BLOCK_MAX b = [] \<longleftrightarrow> b = []"
  using concat_chunks[of BLOCK_MAX b] chunk_bounds[of BLOCK_MAX _ b]
  by (auto simp: BLOCK_MAX_def list_all_iff)

text \<open>The receiver takes whatever the sender has in flight and stays in step with it.\<close>

lemma maybe_finish_open: "\<not> peer_eob s \<Longrightarrow> maybe_finish s = (s, [])"
  by (simp add: maybe_finish_def)

lemma receive_announced:
  assumes "batch_ready files fs" "fs = past @ f # out" "phase r = Transfer" "receiving r = None" "\<not> peer_eob r" "cur_file i0 = None"
  obtains r' acts i' evs where "advance sha hmac r (ECommand (M_FILE f)) = (r', Inr acts)" "in_batch r'"
    "outgoing r' = outgoing r" "sending r' = sending r" "local_eob r' = local_eob r"
    "perform_events files' acts (stored files past i0) = Some (i', evs, phase r' = Done)" "list_all is_ack evs"
    "flow files i0 fs out (Some (file_id_of f)) False (receiving r') (peer_eob r') i' (map EData (chunks BLOCK_MAX (body_of files f))) evs"
proof (cases "body_of files f = []")
  case True
  let ?i = "stored files past i0"
  from True have "mf_size f = 0" using batch_readyD(3) assms(1,2) by fastforce
  then have "advance sha hmac r (ECommand (M_FILE f)) =
      (r, Inr [ExpectFile f, SendCommand (M_GOT (file_id_of f)), FileComplete (file_id_of f)])"
    using assms by (simp add: advance_def advance_transfer_def on_file_def maybe_finish_open)
  moreover have "perform_events files' [ExpectFile f, SendCommand (M_GOT (file_id_of f)), FileComplete (file_id_of f)] ?i =
      Some (put files f ?i, [ECommand (M_GOT (file_id_of f))], False)"
    using inbound_steps(3)[of ?i _ f files] assms(6) True by (simp add: inbound_steps(1,2,4))
  ultimately show ?thesis
    using assms True flow.acknowledged[OF assms(2), of files i0]
    by (intro that[of r "[ExpectFile f, SendCommand (M_GOT (file_id_of f)), FileComplete (file_id_of f)]" "put files f ?i" "[ECommand (M_GOT (file_id_of f))]"])
      (simp_all add: in_batch_def settled_def del: perform_events.simps)
next
  case False
  let ?r = "r\<lparr>receiving := Some (f, 0)\<rparr>" and ?i = "stored files past i0"
  from False have "mf_size f \<noteq> 0" using batch_readyD(4) assms(1,2) by fastforce
  then have "advance sha hmac r (ECommand (M_FILE f)) = (?r, Inr [ExpectFile f])"
    using assms by (simp add: advance_def advance_transfer_def on_file_def)
  moreover have "perform_events files' [ExpectFile f] ?i = Some (half_written f [] ?i, [], False)"
    by (simp add: inbound_steps)
  ultimately show ?thesis
    using assms False flow.arriving[OF assms(2), of "[]" "chunks BLOCK_MAX (body_of files f)" files i0]
    by (intro that[of ?r "[ExpectFile f]" "half_written f [] ?i" "[]"])
      (simp_all add: in_batch_def settled_def whole_chunks del: perform_events.simps)
qed

lemma receive_chunk:
  assumes "batch_ready files fs" "fs = past @ f # out" "phase r = Transfer" "cur_file i0 = None"
    and "receiving r = Some (f, of_nat (length w))" "\<not> peer_eob r"
    and "w @ c @ concat cs = body_of files f" "[] \<notin> set cs" "list_all (\<lambda>c. length c \<le> BLOCK_MAX) cs"
  obtains r' acts i' evs where "advance sha hmac r (EData c) = (r', Inr acts)" "in_batch r'"
    "outgoing r' = outgoing r" "sending r' = sending r" "local_eob r' = local_eob r"
    "perform_events files' acts (half_written f w (stored files past i0)) = Some (i', evs, phase r' = Done)" "list_all is_ack evs"
    "flow files i0 fs out (Some (file_id_of f)) False (receiving r') (peer_eob r') i' (map EData cs) evs"
proof -
  let ?i = "stored files past i0"
  have len: "length w + length c + length (concat cs) = length (body_of files f)" using assms(7)[symmetric] by simp
  have "length (body_of files f) < 2 ^ 64" using batch_readyD(2) assms(1,2) by metis
  with len have "unat (of_nat (length w) + of_nat (length c) :: u64) = length w + length c"
    by (simp add: unat_of_nat take_bit_nat_eq_self flip: of_nat_add)
  moreover have left: "length (concat cs) = 0 \<longleftrightarrow> cs = []" using assms(8) by (cases cs) auto
  ultimately have full: "mf_size f \<le> of_nat (length w) + of_nat (length c) \<longleftrightarrow> cs = []"
    using batch_readyD(4)[of files past f out] assms(1,2) len
    unfolding word_le_nat_alt left[symmetric] by (simp del: length_0_conv length_concat; linarith)
  show ?thesis
  proof (cases "cs = []")
    case True
    let ?acts = "[WriteData c, SendCommand (M_GOT (file_id_of f)), FileComplete (file_id_of f)]"
    have "advance sha hmac r (EData c) = (r\<lparr>receiving := None\<rparr>, Inr ?acts)"
      using assms full True by (simp add: advance_def advance_transfer_def on_data_def maybe_finish_open)
    moreover have "perform_events files' ?acts (half_written f w ?i) = Some (put files f ?i, [ECommand (M_GOT (file_id_of f))], False)"
      using inbound_steps(3)[of ?i _ f files] assms(4,7) True by (simp add: inbound_steps(1,2,4))
    ultimately show ?thesis
      using assms(2,3,6) True flow.acknowledged[OF assms(2), of files i0]
      by (intro that[of "r\<lparr>receiving := None\<rparr>" ?acts "put files f ?i" "[ECommand (M_GOT (file_id_of f))]"])
        (simp_all add: in_batch_def settled_def del: perform_events.simps)
  next
    case False
    have "advance sha hmac r (EData c) = (r\<lparr>receiving := Some (f, of_nat (length (w @ c)))\<rparr>, Inr [WriteData c])"
      using assms full False by (simp add: advance_def advance_transfer_def on_data_def)
    moreover have "perform_events files' [WriteData c] (half_written f w ?i) = Some (half_written f (w @ c) ?i, [], False)"
      by (simp add: inbound_steps)
    ultimately show ?thesis
      using assms False flow.arriving[OF assms(2), of "w @ c" cs files i0]
      by (intro that[of "r\<lparr>receiving := Some (f, of_nat (length (w @ c)))\<rparr>" "[WriteData c]" "half_written f (w @ c) ?i" "[]"])
        (simp_all add: in_batch_def settled_def del: perform_events.simps)
  qed
qed

lemma receive_forward:
  assumes "batch_ready files fs" "phase r = Transfer" "cur_file i0 = None"
    and "flow files i0 fs out snt leob (receiving r) (peer_eob r) i (ev # fwd) acks"
  obtains r' acts i' evs where "advance sha hmac r ev = (r', Inr acts)" "in_batch r'"
    "outgoing r' = outgoing r" "sending r' = sending r" "local_eob r' = local_eob r"
    "perform_events files' acts i = Some (i', evs, phase r' = Done)" "list_all is_ack evs"
    "flow files i0 fs out snt leob (receiving r') (peer_eob r') i' fwd (acks @ evs)"
  using assms(4)
proof (cases rule: flow_forward[consumes 1, case_names 1 2 3])
  case (1 past f)
  from receive_announced[OF assms(1) 1(7) assms(2) _ _ assms(3), of sha hmac files'] 1 that show ?thesis by auto
next
  case (2 past f w cs)
  then obtain c cs' where cs: "cs = c # cs'" "ev = EData c" "fwd = map EData cs'" by auto
  with 2 have "w @ c @ concat cs' = body_of files f" by simp
  from receive_chunk[OF assms(1) 2(8) assms(2,3) _ _ this, of sha hmac files'] 2 cs that show ?thesis by auto
next
  case 3
  let ?r = "r\<lparr>peer_eob := True\<rparr>"
  have "advance sha hmac r ev = (?r\<lparr>phase := if settled ?r then Done else Transfer\<rparr>, Inr (if settled ?r then [Finished] else []))"
    using 3 assms(2) by (simp add: advance_def advance_transfer_def maybe_finish_settled)
  then show ?thesis
    using 3 flow.closed[of files i0 fs]
    by (intro that[of "?r\<lparr>phase := if settled ?r then Done else Transfer\<rparr>" "if settled ?r then [Finished] else []" i "[]"])
      (auto simp: in_batch_def inbound_steps settled_def[of ?r])
qed

text \<open>An acknowledged sender sends the next file, or the end of its batch.\<close>

lemma receive_ack:
  assumes "batch_ready files fs" "phase s = Transfer"
    and "flow files i0 fs (outgoing s) (sending s) (local_eob s) rcv peob i fwd (ev # acks)"
  obtains s' acts evs where "advance sha hmac s ev = (s', Inr acts)" "in_batch s'"
    "receiving s' = receiving s" "peer_eob s' = peer_eob s"
    "perform_events files acts j = Some (j, evs, phase s' = Done)" "list_all is_forward evs" "fwd = []" "acks = []"
    "flow files i0 fs (outgoing s') (sending s') (local_eob s') rcv peob i evs []"
  using assms(3)
proof (cases rule: flow_ack[consumes 1, case_names 1])
  case (1 past f)
  let ?s = "s\<lparr>sending := None\<rparr>"
  have fs: "fs = (past @ [f]) @ outgoing ?s" using 1(7) by simp
  have "batch_ready files ((past @ [f]) @ outgoing ?s)" using assms(1) fs by simp
  then obtain s' acts where s': "start_next_send ?s = (s', acts)" "in_batch s'" "outgoing s' = tl (outgoing s)"
    "sending s' = (case outgoing s of [] \<Rightarrow> None | f # _ \<Rightarrow> Some (file_id_of f))" "local_eob s' = (outgoing s = [])"
    "receiving s' = receiving s" "peer_eob s' = peer_eob s"
    "perform_events files acts j = Some (j, next_sent files (outgoing s), phase s' = Done)"
    using assms(2) 1 start_next_send_events[of ?s files "past @ [f]" j] by auto
  have "advance sha hmac s ev = (s', Inr acts)"
    using 1 assms(2) s'(1) by (simp add: advance_def advance_transfer_def Let_def)
  moreover have "list_all is_forward (next_sent files (outgoing s))"
    by (cases "outgoing s") (simp_all add: list_all_iff)
  moreover have "flow files i0 fs (outgoing s') (sending s') (local_eob s') rcv peob i (next_sent files (outgoing s)) []"
    using flow_next[OF fs, of files i0] s' 1 by simp
  ultimately show ?thesis using that s' 1 by blast
qed

section \<open>Both directions\<close>

text \<open>What a side brings to a session: the bodies of its batch and its inbound directory.\<close>

record party =
  bodies :: "str \<rightharpoonup> bytes"
  batch :: "mail_file list"
  box :: inbound

definition party_ok :: "party \<Rightarrow> bool" where
  "party_ok p \<longleftrightarrow> batch_ready (bodies p) (batch p) \<and> cur_file (box p) = None"

definition one_way :: "party \<Rightarrow> party \<Rightarrow> session \<times> inbound \<Rightarrow> session \<times> inbound \<Rightarrow> event list \<Rightarrow> event list \<Rightarrow> bool" where
  "one_way p q es er sr rs \<longleftrightarrow>
     flow (bodies p) (box q) (batch p) (outgoing (fst es)) (sending (fst es)) (local_eob (fst es))
       (receiving (fst er)) (peer_eob (fst er)) (snd er) (filter is_forward sr) (filter is_ack rs)"

definition talk :: "party \<Rightarrow> party \<Rightarrow> session \<times> inbound \<Rightarrow> session \<times> inbound \<Rightarrow> event list \<Rightarrow> event list \<Rightarrow> bool" where
  "talk p q ep eq pq qp \<longleftrightarrow>
     list_all (\<lambda>e. is_forward e \<or> is_ack e) pq \<and> list_all (\<lambda>e. is_forward e \<or> is_ack e) qp \<and>
     in_batch (fst ep) \<and> in_batch (fst eq) \<and> one_way p q ep eq pq qp \<and> one_way q p eq ep qp pq"

lemma talk_swap: "talk p q ep eq pq qp \<Longrightarrow> talk q p eq ep qp pq"
  by (simp add: talk_def)

lemma forward_not_ack: "is_forward e \<Longrightarrow> \<not> is_ack e"
  by (cases e rule: is_ack.cases) simp_all

lemma filter_kinds:
  "list_all is_ack evs \<Longrightarrow> filter is_forward evs = []" "list_all is_ack evs \<Longrightarrow> filter is_ack evs = evs"
  "list_all is_forward evs \<Longrightarrow> filter is_ack evs = []" "list_all is_forward evs \<Longrightarrow> filter is_forward evs = evs"
  using forward_not_ack by (auto simp: list_all_iff filter_empty_conv filter_id_conv)

lemma flow_settled:
  "flow files i0 fs out snt leob rcv True i fwd acks \<Longrightarrow> fwd = []"
  "flow files i0 fs out None leob rcv peob i fwd acks \<Longrightarrow> acks = []"
  by (auto elim: flow.cases)

lemma talk_listening:
  assumes "talk p q ep eq (ev # pq) qp"
  shows "phase (fst eq) = Transfer"
proof -
  have "\<not> settled (fst eq)"
  proof
    assume s: "settled (fst eq)"
    then have "filter is_forward (ev # pq) = []" "filter is_ack (ev # pq) = []"
      using assms flow_settled by (auto simp: talk_def one_way_def settled_def simp del: filter.simps)
    then show False using assms by (auto simp: talk_def split: if_splits)
  qed
  then show ?thesis using assms by (simp add: talk_def in_batch_def)
qed

lemma deliver_Some:
  "advance sha hmac s ev = (s', Inr acts) \<Longrightarrow> perform_events files acts i = Some (i', evs, fin) \<Longrightarrow>
   deliver sha hmac files (s, i) ev = Some ((s', i'), evs, fin)"
  by (simp add: deliver_def)

lemma list_all_weaken: "list_all P xs \<Longrightarrow> (\<And>x. P x \<Longrightarrow> Q x) \<Longrightarrow> list_all Q xs"
  by (simp add: list_all_iff)

text \<open>Whatever side an event reaches, it is accepted and the conversation goes on.\<close>

lemma talk_step:
  assumes "party_ok p" "party_ok q" "talk p q ep eq (ev # pq) qp"
  obtains eq' evs where "deliver sha hmac (bodies q) eq ev = Some (eq', evs, phase (fst eq') = Done)"
    "talk p q ep eq' pq (qp @ evs)"
proof -
  obtain s i where eq: "eq = (s, i)" by fastforce
  have tr: "phase s = Transfer" using talk_listening[OF assms(3)] eq by simp
  from assms(3) consider (forward) "is_forward ev" "\<not> is_ack ev" | (ack) "is_ack ev" "\<not> is_forward ev"
    using forward_not_ack by (auto simp: talk_def)
  then show ?thesis
  proof cases
    case forward
    have fl: "flow (bodies p) (box q) (batch p) (outgoing (fst ep)) (sending (fst ep)) (local_eob (fst ep))
        (receiving s) (peer_eob s) i (ev # filter is_forward pq) (filter is_ack qp)"
      using assms(3) forward eq by (simp add: talk_def one_way_def)
    have ready: "batch_ready (bodies p) (batch p)" "cur_file (box q) = None"
      using assms(1,2) by (simp_all add: party_ok_def)
    obtain s' acts i' evs where s': "advance sha hmac s ev = (s', Inr acts)" "in_batch s'"
      "outgoing s' = outgoing s" "sending s' = sending s" "local_eob s' = local_eob s"
      "perform_events (bodies q) acts i = Some (i', evs, phase s' = Done)" "list_all is_ack evs"
      "flow (bodies p) (box q) (batch p) (outgoing (fst ep)) (sending (fst ep)) (local_eob (fst ep))
        (receiving s') (peer_eob s') i' (filter is_forward pq) (filter is_ack qp @ evs)"
      by (rule receive_forward[OF ready(1) tr ready(2) fl, of sha hmac "bodies q"])
    have "talk p q ep (s', i') pq (qp @ evs)"
      using assms(3) s' forward eq list_all_weaken[OF s'(7), of "\<lambda>e. is_forward e \<or> is_ack e"]
      by (simp add: talk_def one_way_def filter_kinds)
    then show ?thesis using that[of "(s', i')" evs] deliver_Some[OF s'(1,6)] eq by simp
  next
    case ack
    have fl: "flow (bodies q) (box p) (batch q) (outgoing s) (sending s) (local_eob s) (receiving (fst ep))
        (peer_eob (fst ep)) (snd ep) (filter is_forward qp) (ev # filter is_ack pq)"
      using assms(3) ack eq by (simp add: talk_def one_way_def)
    have ready: "batch_ready (bodies q) (batch q)" using assms(2) by (simp add: party_ok_def)
    obtain s' acts evs where s': "advance sha hmac s ev = (s', Inr acts)" "in_batch s'"
      "receiving s' = receiving s" "peer_eob s' = peer_eob s"
      "perform_events (bodies q) acts i = Some (i, evs, phase s' = Done)" "list_all is_forward evs"
      "filter is_forward qp = []" "filter is_ack pq = []"
      "flow (bodies q) (box p) (batch q) (outgoing s') (sending s') (local_eob s') (receiving (fst ep))
        (peer_eob (fst ep)) (snd ep) evs []"
      by (rule receive_ack[OF ready tr fl, of sha hmac i])
    have "talk p q ep (s', i) pq (qp @ evs)"
      using assms(3) s' ack eq list_all_weaken[OF s'(6), of "\<lambda>e. is_forward e \<or> is_ack e"]
      by (simp add: talk_def one_way_def filter_kinds)
    then show ?thesis using that[of "(s', i)" evs] deliver_Some[OF s'(1,5)] eq by simp
  qed
qed

lemma talk_silent:
  assumes "talk p q ep eq [] []"
  shows "phase (fst ep) = Done \<and> phase (fst eq) = Done \<and>
    snd eq = stored (bodies p) (batch p) (box q) \<and> snd ep = stored (bodies q) (batch q) (box p)"
  using assms by (auto simp: talk_def one_way_def in_batch_def settled_def flow_closed)

end
