(* ===== verification/Binkp_Delivery.thy ===== *)
theory Binkp_Delivery
  imports Binkp_Link
begin

text \<open>
  Two binkp drivers that share a password, from the first greeting to the end of both batches: every
  schedule of reads and turns ends, with every file delivered whole in both directions.
\<close>

section \<open>The handshake\<close>

definition greeted :: "(bytes \<Rightarrow> bytes) \<Rightarrow> (bytes \<Rightarrow> bytes \<Rightarrow> bytes) \<Rightarrow> brole \<Rightarrow> session_config \<Rightarrow> phase \<Rightarrow>
    bytes option \<Rightarrow> address list \<Rightarrow> session" where
  "greeted sha hmac r c ph ch as =
     (new_session sha hmac r c)\<lparr>started := True, phase := ph, peer_challenge := ch, peer_addresses := as\<rparr>"

lemma greeted_fields [simp]:
  "brole (greeted sha hmac r c ph ch as) = r" "phase (greeted sha hmac r c ph ch as) = ph"
  "peer_challenge (greeted sha hmac r c ph ch as) = ch" "outgoing (greeted sha hmac r c ph ch as) = cfg_outgoing c"
  "sending (greeted sha hmac r c ph ch as) = None" "receiving (greeted sha hmac r c ph ch as) = None"
  "local_eob (greeted sha hmac r c ph ch as) = False" "peer_eob (greeted sha hmac r c ph ch as) = False"
  "(greeted sha hmac r c ph ch as)\<lparr>phase := ph'\<rparr> = greeted sha hmac r c ph' ch as"
  "(greeted sha hmac r c ph ch as)\<lparr>peer_challenge := ch'\<rparr> = greeted sha hmac r c ph ch' as"
  "(greeted sha hmac r c ph ch as)\<lparr>peer_addresses := as'\<rparr> = greeted sha hmac r c ph ch as'"
  by (simp_all add: greeted_def new_session_def)

fun is_greeting :: "event \<Rightarrow> bool" where
  "is_greeting (ECommand (M_NUL _)) = True"
| "is_greeting (ECommand (M_ADR _)) = True"
| "is_greeting _ = False"

text \<open>What the answering side's greeting still holds, while the caller knows the challenge \<open>ch\<close>.\<close>

definition offer :: "session_config \<Rightarrow> bytes option \<Rightarrow> event list \<Rightarrow> bool" where
  "offer c ch q \<longleftrightarrow>
     (ch = None \<and> (\<exists>ls. list_all (\<lambda>l. parse_challenge l = None) ls \<and>
        q = map (\<lambda>l. ECommand (M_NUL l)) ls @
          (case cfg_challenge c of Some x \<Rightarrow> [ECommand (M_NUL (lit ''OPT '' @ cram_md5_option x))] | None \<Rightarrow> []) @
          [ECommand (M_ADR (cfg_addresses c))])) \<or>
     (ch \<noteq> None \<and> ch = cfg_challenge c \<and> q = [ECommand (M_ADR (cfg_addresses c))])"

text \<open>The caller's password is one the answering side accepts, with and without a challenge.\<close>

lemma password_agreed:
  assumes "cfg_password ca = cfg_password cb" "ch = cfg_challenge cb"
  shows "verify_password sha (greeted sha hmac Answering cb ph' ch' as')
    (password_value hmac (greeted sha hmac Originating ca ph ch as))"
  using assms by (auto simp: verify_password_def password_value_def greeted_def new_session_def Let_def split: option.split)

lemma greeting_listens:
  assumes "is_greeting ev"
  shows "\<exists>ch' as'. deliver sha hmac files (greeted sha hmac Answering c Greeting ch as, i) ev =
    Some ((greeted sha hmac Answering c Greeting ch' as', i), [], False)"
  using assms
  by (cases ev rule: is_greeting.cases)
    (auto simp: deliver_def advance_def advance_greeting_def Let_def split: option.split)

lemma caller_greeting:
  "deliver sha hmac files (greeted sha hmac Originating ca Greeting ch as, i) (ECommand (M_NUL l)) =
     Some ((greeted sha hmac Originating ca Greeting (if ch = None then parse_challenge l else ch) as, i), [], False)"
  "deliver sha hmac files (greeted sha hmac Originating ca Greeting ch as, i) (ECommand (M_ADR as')) =
     Some ((greeted sha hmac Originating ca AwaitOk ch as', i),
       [ECommand (M_PWD (password_value hmac (greeted sha hmac Originating ca Greeting ch as')))], False)"
  by (auto simp: deliver_def advance_def advance_greeting_def Let_def inbound_steps split: option.split)

lemma offer_step:
  assumes "offer c ch (ev # q)"
  shows "(\<exists>l ch'. ev = ECommand (M_NUL l) \<and> ch' = (if ch = None then parse_challenge l else ch) \<and> offer c ch' q) \<or>
    (q = [] \<and> ch = cfg_challenge c \<and> (\<exists>as'. ev = ECommand (M_ADR as')))"
proof (cases "ch = None")
  case True
  then obtain ls where ls: "list_all (\<lambda>l. parse_challenge l = None) ls"
    "ev # q = map (\<lambda>l. ECommand (M_NUL l)) ls @
       (case cfg_challenge c of Some x \<Rightarrow> [ECommand (M_NUL (lit ''OPT '' @ cram_md5_option x))] | None \<Rightarrow> []) @
       [ECommand (M_ADR (cfg_addresses c))]"
    using assms by (auto simp: offer_def)
  show ?thesis
  proof (cases ls)
    case Nil
    then show ?thesis
      using ls True parse_challenge_option by (cases "cfg_challenge c") (auto simp: offer_def)
  next
    case (Cons l ls')
    then show ?thesis using ls True by (auto simp: offer_def)
  qed
qed (use assms in \<open>auto simp: offer_def\<close>)

section \<open>The conversation\<close>

text \<open>
  The states of a session between the caller \<open>a\<close> and the answering side \<open>b\<close>: greetings, the password,
  the go-ahead, and the exchange of the batches.
\<close>

inductive conversing :: "(bytes \<Rightarrow> bytes) \<Rightarrow> (bytes \<Rightarrow> bytes \<Rightarrow> bytes) \<Rightarrow> session_config \<Rightarrow> session_config \<Rightarrow>
    party \<Rightarrow> party \<Rightarrow> session \<times> inbound \<Rightarrow> session \<times> inbound \<Rightarrow> event list \<Rightarrow> event list \<Rightarrow> bool"
  for sha hmac ca cb a b where
  greeting: "list_all is_greeting ab \<Longrightarrow> list_all event_ok ab \<Longrightarrow> offer cb ch ba \<Longrightarrow> list_all event_ok ba \<Longrightarrow>
    conversing sha hmac ca cb a b (greeted sha hmac Originating ca Greeting ch as, box a)
      (greeted sha hmac Answering cb Greeting ch' as', box b) ab ba"
| password: "list_all is_greeting gs \<Longrightarrow> list_all event_ok gs \<Longrightarrow> ch = cfg_challenge cb \<Longrightarrow>
    conversing sha hmac ca cb a b (greeted sha hmac Originating ca AwaitOk ch as, box a)
      (greeted sha hmac Answering cb Greeting ch' as', box b)
      (gs @ [ECommand (M_PWD (password_value hmac (greeted sha hmac Originating ca Greeting ch as)))]) []"
| go_ahead: "in_batch s \<Longrightarrow> outgoing s = tl (batch b) \<Longrightarrow>
    sending s = (case batch b of [] \<Rightarrow> None | f # _ \<Rightarrow> Some (file_id_of f)) \<Longrightarrow> local_eob s = (batch b = []) \<Longrightarrow>
    receiving s = None \<Longrightarrow> \<not> peer_eob s \<Longrightarrow>
    conversing sha hmac ca cb a b (greeted sha hmac Originating ca AwaitOk ch as, box a) (s, box b)
      [] (ECommand (M_OK (lit ''secure'')) # next_sent (bodies b) (batch b))"
| talking: "talk a b ea eb ab ba \<Longrightarrow> conversing sha hmac ca cb a b ea eb ab ba"

text \<open>A side that enters the batch phase with nothing received starts on its own batch.\<close>

lemma enter_events:
  assumes "phase s \<in> {Greeting, AwaitOk}" "\<not> local_eob s" "sending s = None" "receiving s = None" "\<not> peer_eob s"
    and "batch_ready files (outgoing s)"
  obtains s' acts where "enter_transfer s = (s', acts)" "in_batch s'" "outgoing s' = tl (outgoing s)"
    "sending s' = (case outgoing s of [] \<Rightarrow> None | f # _ \<Rightarrow> Some (file_id_of f))" "local_eob s' = (outgoing s = [])"
    "receiving s' = None" "\<not> peer_eob s'" "phase s' = Transfer"
    "perform_events files acts i = Some (i, next_sent files (outgoing s), False)"
proof -
  let ?s = "s\<lparr>phase := Transfer\<rparr>"
  obtain s' acts where s': "start_next_send ?s = (s', acts)" "in_batch s'" "outgoing s' = tl (outgoing s)"
    "sending s' = (case outgoing s of [] \<Rightarrow> None | f # _ \<Rightarrow> Some (file_id_of f))" "local_eob s' = (outgoing s = [])"
    "receiving s' = receiving s" "peer_eob s' = peer_eob s"
    "perform_events files acts i = Some (i, next_sent files (outgoing s), phase s' = Done)"
    using assms(2,3,6) by (rule start_next_send_events[of ?s files "[]" i, simplified])
  have "phase s' = Transfer" using s'(2,7) assms(5) by (simp add: in_batch_def settled_def)
  then show ?thesis using that s' assms(4,5) by (simp add: enter_transfer_def)
qed

lemma answer_password:
  assumes "verify_password sha s pw" "brole s = Answering" "phase s = Greeting" "enter_transfer s = (s', acts)"
    and "perform_events files acts i = Some (i', evs, fin)"
  shows "deliver sha hmac files (s, i) (ECommand (M_PWD pw)) =
    Some ((s', i'), ECommand (M_OK (lit ''secure'')) # evs, fin)"
  using assms by (simp add: deliver_def advance_def advance_greeting_def inbound_action_def)

lemma take_go_ahead:
  assumes "phase s = AwaitOk" "enter_transfer s = (s', acts)" "perform_events files acts i = Some (i', evs, fin)"
  shows "deliver sha hmac files (s, i) (ECommand (M_OK t)) = Some ((s', i'), evs, fin)"
  using assms by (simp add: deliver_def advance_def advance_await_ok_def inbound_action_def)

lemma opening_flow:
  assumes "outgoing s = tl (batch p)" "sending s = (case batch p of [] \<Rightarrow> None | f # _ \<Rightarrow> Some (file_id_of f))"
    and "local_eob s = (batch p = [])" "receiving r = None" "\<not> peer_eob r"
  shows "one_way p q (s, i) (r, box q) (next_sent (bodies p) (batch p)) []"
proof -
  have "list_all is_forward (next_sent (bodies p) (batch p))" by (cases "batch p") (simp_all add: list_all_iff)
  then show ?thesis
    using flow_next[of "batch p" "[]" "batch p" "bodies p" "box q"] assms
    by (simp add: one_way_def filter_kinds stored_def)
qed

text \<open>Two configurations that belong together: one password, and batches the sides really have.\<close>

definition paired :: "session_config \<Rightarrow> session_config \<Rightarrow> party \<Rightarrow> party \<Rightarrow> bool" where
  "paired ca cb a b \<longleftrightarrow> cfg_password ca = cfg_password cb \<and> party_ok a \<and> party_ok b \<and>
     batch a = cfg_outgoing ca \<and> batch b = cfg_outgoing cb"

lemma pairedD:
  assumes "paired ca cb a b"
  shows "cfg_password ca = cfg_password cb" "party_ok a" "party_ok b" "cfg_outgoing ca = batch a" "cfg_outgoing cb = batch b"
    "batch_ready (bodies a) (batch a)" "batch_ready (bodies b) (batch b)"
  using assms by (auto simp: paired_def party_ok_def)

lemma conversing_to_answer:
  assumes "paired ca cb a b" "conversing sha hmac ca cb a b ea eb (ev # ab) ba"
  shows "\<exists>eb' evs. deliver sha hmac (bodies b) eb ev = Some (eb', evs, phase (fst eb') = Done) \<and>
    conversing sha hmac ca cb a b ea eb' ab (ba @ evs)"
  using assms(2)
proof (cases rule: conversing.cases)
  case (greeting ch as ch' as')
  then show ?thesis using greeting_listens[of ev sha hmac "bodies b" cb ch' as' "box b"] conversing.greeting by fastforce
next
  case (password gs ch as ch' as')
  let ?b = "greeted sha hmac Answering cb Greeting ch' as'"
  show ?thesis
  proof (cases gs)
    case Nil
    note ok = pairedD[OF assms(1)]
    obtain s' acts where s': "enter_transfer ?b = (s', acts)" "in_batch s'" "outgoing s' = tl (outgoing ?b)"
      "sending s' = (case outgoing ?b of [] \<Rightarrow> None | f # _ \<Rightarrow> Some (file_id_of f))" "local_eob s' = (outgoing ?b = [])"
      "receiving s' = None" "\<not> peer_eob s'" "phase s' = Transfer"
      "perform_events (bodies b) acts (box b) = Some (box b, next_sent (bodies b) (outgoing ?b), False)"
      by (rule enter_events[of ?b "bodies b" "box b"]) (assumption | simp add: ok)+
    have "deliver sha hmac (bodies b) eb ev = Some ((s', box b), ECommand (M_OK (lit ''secure'')) # next_sent (bodies b) (batch b), False)"
      using Nil password ok answer_password[OF password_agreed[OF ok(1)] _ _ s'(1,9)] by simp
    moreover have "conversing sha hmac ca cb a b ea (s', box b) ab (ba @ ECommand (M_OK (lit ''secure'')) # next_sent (bodies b) (batch b))"
      using Nil password ok s' conversing.go_ahead[of s' b] by simp
    ultimately show ?thesis using s'(8) by auto
  next
    case (Cons g gs')
    then show ?thesis
      using password greeting_listens[of g sha hmac "bodies b" cb ch' as' "box b"] conversing.password by fastforce
  qed
next
  case talking
  then show ?thesis using talk_step[OF pairedD(2,3)[OF assms(1)]] conversing.talking by metis
qed

lemma conversing_to_caller:
  assumes "paired ca cb a b" "conversing sha hmac ca cb a b ea eb ab (ev # ba)"
  shows "\<exists>ea' evs. deliver sha hmac (bodies a) ea ev = Some (ea', evs, phase (fst ea') = Done) \<and>
    conversing sha hmac ca cb a b ea' eb (ab @ evs) ba"
  using assms(2)
proof (cases rule: conversing.cases)
  case (greeting ch as ch' as')
  from offer_step[OF greeting(5)] show ?thesis
  proof (elim disjE exE conjE)
    fix l c'
    assume "ev = ECommand (M_NUL l)" "c' = (if ch = None then parse_challenge l else ch)" "offer cb c' ba"
    then show ?thesis
      using greeting conversing.greeting[of ab cb c' ba] caller_greeting(1)[of sha hmac "bodies a" ca ch as "box a" l] by simp
  next
    fix as'
    assume "ba = []" "ch = cfg_challenge cb" "ev = ECommand (M_ADR as')"
    then show ?thesis
      using greeting conversing.password[of ab ch cb] caller_greeting(2)[of sha hmac "bodies a" ca ch as "box a" as'] by simp
  qed
next
  case (go_ahead s ch as)
  let ?a = "greeted sha hmac Originating ca AwaitOk ch as"
  note ok = pairedD[OF assms(1)]
  obtain s' acts where s': "enter_transfer ?a = (s', acts)" "in_batch s'" "outgoing s' = tl (outgoing ?a)"
    "sending s' = (case outgoing ?a of [] \<Rightarrow> None | f # _ \<Rightarrow> Some (file_id_of f))" "local_eob s' = (outgoing ?a = [])"
    "receiving s' = None" "\<not> peer_eob s'" "phase s' = Transfer"
    "perform_events (bodies a) acts (box a) = Some (box a, next_sent (bodies a) (outgoing ?a), False)"
    by (rule enter_events[of ?a "bodies a" "box a"]) (assumption | simp add: ok)+
  have fwd: "list_all is_forward (next_sent files fs)" for files fs by (cases fs) (simp_all add: list_all_iff)
  have "talk a b (s', box a) (s, box b) (next_sent (bodies a) (batch a)) (next_sent (bodies b) (batch b))"
    using go_ahead s' ok fwd opening_flow[of s' a s b "box a"] opening_flow[of s b s' a "box b"]
      list_all_weaken[OF fwd, of "\<lambda>e. is_forward e \<or> is_ack e"]
    by (simp add: talk_def one_way_def filter_kinds)
  then show ?thesis
    using go_ahead s' ok conversing.talking[of a b "(s', box a)"] take_go_ahead[OF _ s'(1,9), of sha hmac "lit ''secure''"] by simp
next
  case talking
  then obtain ea' evs where "deliver sha hmac (bodies a) ea ev = Some (ea', evs, phase (fst ea') = Done)"
    "talk b a eb ea' ba (ab @ evs)" using talk_step[OF pairedD(3,2)[OF assms(1)] talk_swap[OF talking]] by metis
  then show ?thesis using conversing.talking talk_swap by blast
qed

lemma conversing_silent:
  assumes "conversing sha hmac ca cb a b ea eb [] []"
  shows "phase (fst ea) = Done \<and> phase (fst eb) = Done \<and>
    snd eb = stored (bodies a) (batch a) (box b) \<and> snd ea = stored (bodies b) (batch b) (box a)"
  using assms by (cases rule: conversing.cases) (auto simp: offer_def dest: talk_silent)

section \<open>Events that fit the wire\<close>

definition file_speakable :: "mail_file \<Rightarrow> bool" where
  "file_speakable f \<longleftrightarrow> event_ok (ECommand (M_FILE f)) \<and> event_ok (ECommand (M_GOT (file_id_of f)))"

definition speakable :: "session_config \<Rightarrow> bool" where
  "speakable c \<longleftrightarrow> list_all (\<lambda>l. event_ok (ECommand (M_NUL l)) \<and> parse_challenge l = None) (cfg_system_info c) \<and>
     event_ok (ECommand (M_ADR (cfg_addresses c))) \<and> event_ok (ECommand (M_PWD (cfg_password c))) \<and>
     (\<forall>ch. cfg_challenge c = Some ch \<longrightarrow> length ch \<le> 64) \<and> list_all file_speakable (cfg_outgoing c)"

lemma data_ok: "length c \<le> BLOCK_MAX \<Longrightarrow> event_ok (EData c)"
  by (simp add: event_ok_def event_block_def block_fits_def)

lemma eob_ok: "event_ok (ECommand M_EOB)"
  by (simp add: event_ok_def event_block_def block_fits_def to_block_def cmd_args_def as_bytes_def BLOCK_MAX_def)

lemma chunk_ok: "list_all event_ok (map EData (chunks BLOCK_MAX b))"
  using whole_chunks(3)[of b] data_ok by (auto simp: list_all_iff)

text \<open>Short ASCII text always fits, so the challenge, the response and the go-ahead do.\<close>

definition short_ascii :: "str \<Rightarrow> bool" where
  "short_ascii s \<longleftrightarrow> (\<forall>c \<in> set s. c < 0x80) \<and> length s < BLOCK_MAX"

lemma short_ascii_ok: "short_ascii s \<Longrightarrow> cmd_text c = s \<Longrightarrow> cmd_ok c \<Longrightarrow> event_ok (ECommand c)"
  by (auto simp: short_ascii_def event_ok_def event_block_def to_block_def block_fits_def cmd_args_def
      as_bytes_ascii list_all_iff scalar_def)

lemma length_to_hex: "length (to_hex bs) = 2 * length bs"
  by (induction bs) (simp_all add: to_hex_def)

lemma cram_short_ascii: "length bs \<le> 64 \<Longrightarrow> short_ascii (lit ''OPT '' @ cram_md5_option bs)"
  "length bs \<le> 64 \<Longrightarrow> short_ascii (cram_md5_option bs)"
  using to_hex_ascii[of _ bs]
  by (auto simp: short_ascii_def cram_md5_option_def CRAM_MD5_PREFIX_def length_to_hex BLOCK_MAX_def)

lemma go_ahead_ok: "event_ok (ECommand (M_OK (lit ''secure'')))"
  by (rule short_ascii_ok[OF _ refl]) (simp_all add: short_ascii_def BLOCK_MAX_def)

lemma password_ok:
  assumes "speakable ca" "speakable cb" "\<forall>k m. length (hmac k m) = 16"
  shows "event_ok (ECommand (M_PWD (password_value hmac (greeted sha hmac Originating ca ph (cfg_challenge cb) as))))"
proof -
  let ?pw = "password_value hmac (greeted sha hmac Originating ca ph (cfg_challenge cb) as)"
  have "event_ok (ECommand (M_PWD (lit ''-'')))"
    by (rule short_ascii_ok[OF _ refl]) (simp_all add: short_ascii_def BLOCK_MAX_def)
  moreover have "event_ok (ECommand (M_PWD (cram_md5_response hmac k ch)))" for k ch
    using cram_short_ascii(2)[of "hmac k ch"] assms(3)
    by (intro short_ascii_ok[OF _ refl]) (simp_all add: cram_md5_response_def cram_md5_option_def)
  ultimately show ?thesis
    using assms(1) by (auto simp: password_value_def greeted_def new_session_def speakable_def split: option.split)
qed

lemma flow_ok:
  assumes "flow files i0 fs out snt leob rcv peob i fwd acks" "list_all file_speakable fs"
  shows "list_all event_ok fwd \<and> list_all event_ok acks"
  using assms
proof (cases rule: flow.cases)
  case (arriving past f w cs)
  then show ?thesis using data_ok by (auto simp: list_all_iff)
qed (use assms(2) in \<open>auto simp: file_speakable_def chunk_ok eob_ok\<close>)

lemma next_sent_ok: "list_all file_speakable fs \<Longrightarrow> list_all event_ok (next_sent files fs)"
  by (cases fs) (simp_all add: file_speakable_def chunk_ok eob_ok)

lemma conversing_ok:
  assumes "conversing sha hmac ca cb a b ea eb ab ba" "paired ca cb a b" "speakable ca" "speakable cb"
    and "\<forall>k m. length (hmac k m) = 16"
  shows "list_all event_ok ab \<and> list_all event_ok ba"
  using assms(1)
proof (cases rule: conversing.cases)
  case talking
  have "list_all file_speakable (batch a)" "list_all file_speakable (batch b)"
    using assms(2-4) pairedD(4,5)[OF assms(2)] by (simp_all add: speakable_def)
  then have "list_all event_ok (filter is_forward ab) \<and> list_all event_ok (filter is_ack ba)"
    "list_all event_ok (filter is_forward ba) \<and> list_all event_ok (filter is_ack ab)"
    using talking flow_ok unfolding talk_def one_way_def by blast+
  then show ?thesis using talking by (auto simp: talk_def list_all_iff)
next
  case (password gs ch as)
  then show ?thesis using password_ok[OF assms(3-5)] by simp
next
  case (go_ahead s)
  then show ?thesis
    using go_ahead_ok next_sent_ok[of "batch b" "bodies b"] pairedD(5)[OF assms(2)] assms(4) by (simp add: speakable_def)
qed simp_all

section \<open>Two drivers on a link\<close>

record link =
  caller :: driver
  answerer :: driver
  to_answerer :: bytes
  to_caller :: bytes

text \<open>
  A step: one of the drivers takes a turn, or, when its buffer holds no whole block, reads up to 8192
  of the bytes that are under way to it. A turn that fails is no step.
\<close>

inductive link_step :: "(bytes \<Rightarrow> bytes) \<Rightarrow> (bytes \<Rightarrow> bytes \<Rightarrow> bytes) \<Rightarrow> party \<Rightarrow> party \<Rightarrow> link \<Rightarrow> link \<Rightarrow> bool"
  for sha hmac a b where
  turn_caller: "drive_turn sha hmac (bodies a) (caller l) = Some (d, out, None) \<Longrightarrow>
    link_step sha hmac a b l (l\<lparr>caller := d, to_answerer := to_answerer l @ out\<rparr>)"
| read_caller: "\<not> finished (caller l) \<Longrightarrow> drive_turn sha hmac (bodies a) (caller l) = None \<Longrightarrow>
    to_caller l = xs @ rest \<Longrightarrow> xs \<noteq> [] \<Longrightarrow> length xs \<le> 8192 \<Longrightarrow>
    link_step sha hmac a b l (l\<lparr>caller := (caller l)\<lparr>inbuf := inbuf (caller l) @ xs\<rparr>, to_caller := rest\<rparr>)"
| turn_answerer: "drive_turn sha hmac (bodies b) (answerer l) = Some (d, out, None) \<Longrightarrow>
    link_step sha hmac a b l (l\<lparr>answerer := d, to_caller := to_caller l @ out\<rparr>)"
| read_answerer: "\<not> finished (answerer l) \<Longrightarrow> drive_turn sha hmac (bodies b) (answerer l) = None \<Longrightarrow>
    to_answerer l = xs @ rest \<Longrightarrow> xs \<noteq> [] \<Longrightarrow> length xs \<le> 8192 \<Longrightarrow>
    link_step sha hmac a b l (l\<lparr>answerer := (answerer l)\<lparr>inbuf := inbuf (answerer l) @ xs\<rparr>, to_answerer := rest\<rparr>)"

definition opened :: "(bytes \<Rightarrow> bytes) \<Rightarrow> (bytes \<Rightarrow> bytes \<Rightarrow> bytes) \<Rightarrow> session_config \<Rightarrow> session_config \<Rightarrow> party \<Rightarrow> party \<Rightarrow> link" where
  "opened sha hmac ca cb a b =
     (let (da, out_a, _) = open_driver (bodies a) (new_session sha hmac Originating ca) (box a);
          (db, out_b, _) = open_driver (bodies b) (new_session sha hmac Answering cb) (box b)
      in \<lparr>caller = da, answerer = db, to_answerer = out_a, to_caller = out_b\<rparr>)"

text \<open>
  How a driver stands to the events under way to it: its buffer and the wire hold exactly their bytes.
\<close>

definition awaits :: "driver \<Rightarrow> bytes \<Rightarrow> event list \<Rightarrow> bool" where
  "awaits d wire q \<longleftrightarrow> finished d = (phase (sess d) = Done) \<and> inbuf d @ wire = concat (map event_bytes q)"

abbreviation side :: "driver \<Rightarrow> session \<times> inbound" where
  "side d \<equiv> (sess d, inbox d)"

lemma deliver_listening: "deliver sha hmac files e ev = Some r \<Longrightarrow> phase (fst e) \<noteq> Done"
  by (auto simp: deliver_def advance_def split: phase.splits)

text \<open>A driver with a whole block takes the turn its session takes on the event.\<close>

lemma drive_turn_deliver:
  assumes "awaits d wire (ev # q)" "inbuf d = event_bytes ev @ rest" "event_ok ev"
    and "deliver sha hmac files (side d) ev = Some (e', evs, phase (fst e') = Done)" "list_all event_ok evs"
  obtains d' where "drive_turn sha hmac files d = Some (d', concat (map event_bytes evs), None)"
    "side d' = e'" "awaits d' wire q"
proof -
  from assms(4) obtain acts where acts: "advance sha hmac (sess d) ev = (fst e', Inr acts)"
    "perform_events files acts (inbox d) = Some (snd e', evs, phase (fst e') = Done)"
    by (auto simp: deliver_def split: prod.splits sum.splits)
  have "\<not> finished d" using assms(1) deliver_listening[OF assms(4)] by (simp add: awaits_def)
  moreover have "next_event (inbuf d) = (rest, Inr (Some ev))" using assms(2,3) binkp.step_whole by simp
  moreover have "rest @ wire = concat (map event_bytes q)" using assms(1,2) by (simp add: awaits_def)
  ultimately show ?thesis
    using perform_refines[OF acts(2) assms(5)] acts(1)
    by (intro that[of "\<lparr>sess = fst e', inbuf = rest, inbox = snd e', finished = (phase (fst e') = Done)\<rparr>"])
      (simp_all add: drive_turn_def awaits_def)
qed

lemma perform_work: "perform_events files acts i = Some (i', evs, fin) \<Longrightarrow> queue_work evs \<le> queue_work (emitted files acts)"
  by (induction acts arbitrary: i evs) (fastforce split: sum.splits if_splits)+

lemma deliver_work:
  assumes "deliver sha hmac files e ev = Some (e', evs, fin)"
  shows "session_work files (fst e') + queue_work evs < session_work files (fst e) + event_work ev"
proof -
  from assms obtain acts where acts: "advance sha hmac (fst e) ev = (fst e', Inr acts)"
    "perform_events files acts (snd e) = Some (snd e', evs, fin)"
    by (auto simp: deliver_def split: prod.splits sum.splits)
  then show ?thesis
    using advance_work[of sha hmac "fst e" ev acts files] perform_work[OF acts(2)] by simp
qed

section \<open>Every schedule ends\<close>

text \<open>
  A bound on the steps left. What a session may still send is worth a full block for each event;
  what is under way is worth one turn and its bytes, and a file announcement also its acknowledgement.
\<close>

abbreviation queue_extra :: "event list \<Rightarrow> nat" where
  "queue_extra evs \<equiv> sum_list (map (\<lambda>e. event_work e - 1) evs)"

definition potential :: "nat \<Rightarrow> event list \<Rightarrow> nat" where
  "potential work evs = 32770 * (work + queue_extra evs) + length evs"

lemma queue_work_split: "queue_work evs = queue_extra evs + length evs"
proof (induction evs)
  case (Cons e evs)
  have "1 \<le> event_work e" by (cases e rule: event_work.cases) simp_all
  with Cons show ?case by simp
qed simp

lemma event_bytes_bound: "event_ok e \<Longrightarrow> length (event_bytes e) \<le> 32769"
  by (simp add: event_bytes_ok) (simp add: event_ok_def block_fits_def BLOCK_MAX_def)

lemma events_bytes_bound: "list_all event_ok evs \<Longrightarrow> length (concat (map event_bytes evs)) \<le> 32769 * length evs"
  using event_bytes_bound by (induction evs) (fastforce simp: algebra_simps)+

lemma turn_potential:
  assumes "deliver sha hmac files e ev = Some (e', evs, fin)" "list_all event_ok evs"
  shows "potential (session_work files (fst e') + w) (q @ p @ evs) + length (concat (map event_bytes evs)) <
    potential (session_work files (fst e) + w) (ev # q @ p)"
proof -
  let ?n = "session_work files (fst e') + queue_extra evs" and ?m = "session_work files (fst e) + (event_work ev - 1)"
  have "?n + length evs \<le> ?m"
    using deliver_work[OF assms(1)] by (cases ev rule: event_work.cases) (simp_all add: queue_work_split)
  then have "32770 * ?n + 32770 * length evs \<le> 32770 * ?m" by simp
  then show ?thesis using events_bytes_bound[OF assms(2)] by (simp add: potential_def algebra_simps)
qed

text \<open>What the two sides agree on before the call.\<close>

definition agreed :: "(bytes \<Rightarrow> bytes \<Rightarrow> bytes) \<Rightarrow> session_config \<Rightarrow> session_config \<Rightarrow> party \<Rightarrow> party \<Rightarrow> bool" where
  "agreed hmac ca cb a b \<longleftrightarrow> paired ca cb a b \<and> speakable ca \<and> speakable cb \<and> (\<forall>k m. length (hmac k m) = 16)"

lemma turn_step:
  assumes "awaits d wire q" "list_all event_ok q" "drive_turn sha hmac files d = Some (d', out, None)"
    and next_deliver: "\<And>ev q'. q = ev # q' \<Longrightarrow>
      \<exists>e' evs. deliver sha hmac files (side d) ev = Some (e', evs, phase (fst e') = Done) \<and> list_all event_ok evs \<and> P e' q' evs"
  obtains ev q' evs where "q = ev # q'" "deliver sha hmac files (side d) ev = Some (side d', evs, phase (sess d') = Done)"
    "out = concat (map event_bytes evs)" "awaits d' wire q'" "list_all event_ok evs" "P (side d') q' evs"
proof -
  have "\<not> finished d" using assms(3) by (auto simp: drive_turn_def)
  have q: "\<forall>m \<in> set q. event_ok m" "inbuf d @ wire = concat (map event_bytes q)"
    using assms(1,2) by (simp_all add: awaits_def list_all_iff)
  from q show ?thesis
  proof (cases rule: binkp.step_buffered)
    case waiting
    then show ?thesis using assms(3) \<open>\<not> finished d\<close> by (simp add: drive_turn_def)
  next
    case (whole ev q' rest)
    from next_deliver[OF whole(1)] obtain e' evs where
      e': "deliver sha hmac files (side d) ev = Some (e', evs, phase (fst e') = Done)" "list_all event_ok evs" "P e' q' evs"
      by blast
    have "event_ok ev" using q(1) whole(1) by simp
    from drive_turn_deliver[OF assms(1)[unfolded whole(1)] whole(2) this e'(1,2)] assms(3) have
      "side d' = e'" "awaits d' wire q'" "out = concat (map event_bytes evs)" by auto
    then show ?thesis using that[of ev q' evs] whole(1) e' by auto
  qed
qed

definition steps_left :: "party \<Rightarrow> party \<Rightarrow> link \<Rightarrow> event list \<Rightarrow> event list \<Rightarrow> nat" where
  "steps_left a b l qa qb =
     potential (session_work (bodies a) (sess (caller l)) + session_work (bodies b) (sess (answerer l))) (qa @ qb) +
     length (to_caller l) + length (to_answerer l)"

definition linked :: "(bytes \<Rightarrow> bytes) \<Rightarrow> (bytes \<Rightarrow> bytes \<Rightarrow> bytes) \<Rightarrow> session_config \<Rightarrow> session_config \<Rightarrow> party \<Rightarrow> party \<Rightarrow>
    link \<Rightarrow> event list \<Rightarrow> event list \<Rightarrow> bool" where
  "linked sha hmac ca cb a b l qa qb \<longleftrightarrow>
     conversing sha hmac ca cb a b (side (caller l)) (side (answerer l)) qb qa \<and>
     awaits (caller l) (to_caller l) qa \<and> awaits (answerer l) (to_answerer l) qb"

lemma agreedD:
  assumes "agreed hmac ca cb a b"
  shows "paired ca cb a b" "speakable ca" "speakable cb" "\<forall>k m. length (hmac k m) = 16"
  using assms by (simp_all add: agreed_def)

lemma agreed_ok:
  assumes "agreed hmac ca cb a b" "conversing sha hmac ca cb a b ea eb ab ba"
  shows "list_all event_ok ab \<and> list_all event_ok ba"
  using conversing_ok[OF assms(2) agreedD[OF assms(1)]] .

lemma linked_ok:
  assumes "agreed hmac ca cb a b" "linked sha hmac ca cb a b l qa qb"
  shows "list_all event_ok qb \<and> list_all event_ok qa"
  using agreed_ok[OF assms(1)] assms(2) unfolding linked_def by blast

lemma deliver_to_caller:
  assumes "agreed hmac ca cb a b" "linked sha hmac ca cb a b l (ev # q) qb"
  shows "\<exists>e' evs. deliver sha hmac (bodies a) (side (caller l)) ev = Some (e', evs, phase (fst e') = Done) \<and>
    list_all event_ok evs \<and> conversing sha hmac ca cb a b e' (side (answerer l)) (qb @ evs) q"
proof -
  have "conversing sha hmac ca cb a b (side (caller l)) (side (answerer l)) qb (ev # q)"
    using assms(2) by (simp add: linked_def)
  from conversing_to_caller[OF agreedD(1)[OF assms(1)] this] obtain e' evs where
    e': "deliver sha hmac (bodies a) (side (caller l)) ev = Some (e', evs, phase (fst e') = Done)"
    "conversing sha hmac ca cb a b e' (side (answerer l)) (qb @ evs) q" by blast
  with agreed_ok[OF assms(1) e'(2)] show ?thesis by auto
qed

lemma deliver_to_answerer:
  assumes "agreed hmac ca cb a b" "linked sha hmac ca cb a b l qa (ev # q)"
  shows "\<exists>e' evs. deliver sha hmac (bodies b) (side (answerer l)) ev = Some (e', evs, phase (fst e') = Done) \<and>
    list_all event_ok evs \<and> conversing sha hmac ca cb a b (side (caller l)) e' q (qa @ evs)"
proof -
  have "conversing sha hmac ca cb a b (side (caller l)) (side (answerer l)) (ev # q) qa"
    using assms(2) by (simp add: linked_def)
  from conversing_to_answer[OF agreedD(1)[OF assms(1)] this] obtain e' evs where
    e': "deliver sha hmac (bodies b) (side (answerer l)) ev = Some (e', evs, phase (fst e') = Done)"
    "conversing sha hmac ca cb a b (side (caller l)) e' q (qa @ evs)" by blast
  with agreed_ok[OF assms(1) e'(2)] show ?thesis by auto
qed

lemma linked_turn_caller:
  assumes "agreed hmac ca cb a b" "linked sha hmac ca cb a b l qa qb"
    and "drive_turn sha hmac (bodies a) (caller l) = Some (d, out, None)"
  shows "\<exists>qa' qb'. let l' = l\<lparr>caller := d, to_answerer := to_answerer l @ out\<rparr> in
    linked sha hmac ca cb a b l' qa' qb' \<and> steps_left a b l' qa' qb' < steps_left a b l qa qb"
proof -
  have aw: "awaits (caller l) (to_caller l) qa" "awaits (answerer l) (to_answerer l) qb"
    using assms(2) by (simp_all add: linked_def)
  obtain ev q' evs where
    t: "qa = ev # q'" "deliver sha hmac (bodies a) (side (caller l)) ev = Some (side d, evs, phase (sess d) = Done)"
    "out = concat (map event_bytes evs)" "awaits d (to_caller l) q'" "list_all event_ok evs"
    "conversing sha hmac ca cb a b (side d) (side (answerer l)) (qb @ evs) q'"
    by (rule turn_step[OF aw(1) conjunct2[OF linked_ok[OF assms(1,2)]] assms(3),
          of "\<lambda>e' q' evs. conversing sha hmac ca cb a b e' (side (answerer l)) (qb @ evs) q'"])
      (use deliver_to_caller[OF assms(1)] assms(2) in blast)+
  have "awaits (answerer l) (to_answerer l @ out) (qb @ evs)" using aw(2) t(3) by (simp add: awaits_def)
  then have "linked sha hmac ca cb a b (l\<lparr>caller := d, to_answerer := to_answerer l @ out\<rparr>) q' (qb @ evs)"
    using t by (simp add: linked_def)
  moreover have "steps_left a b (l\<lparr>caller := d, to_answerer := to_answerer l @ out\<rparr>) q' (qb @ evs) < steps_left a b l qa qb"
    using turn_potential[OF t(2,5), of "session_work (bodies b) (sess (answerer l))" q' qb] t(1,3) by (simp add: steps_left_def)
  ultimately show ?thesis unfolding Let_def by blast
qed

lemma linked_turn_answerer:
  assumes "agreed hmac ca cb a b" "linked sha hmac ca cb a b l qa qb"
    and "drive_turn sha hmac (bodies b) (answerer l) = Some (d, out, None)"
  shows "\<exists>qa' qb'. let l' = l\<lparr>answerer := d, to_caller := to_caller l @ out\<rparr> in
    linked sha hmac ca cb a b l' qa' qb' \<and> steps_left a b l' qa' qb' < steps_left a b l qa qb"
proof -
  have aw: "awaits (caller l) (to_caller l) qa" "awaits (answerer l) (to_answerer l) qb"
    using assms(2) by (simp_all add: linked_def)
  obtain ev q' evs where
    t: "qb = ev # q'" "deliver sha hmac (bodies b) (side (answerer l)) ev = Some (side d, evs, phase (sess d) = Done)"
    "out = concat (map event_bytes evs)" "awaits d (to_answerer l) q'" "list_all event_ok evs"
    "conversing sha hmac ca cb a b (side (caller l)) (side d) q' (qa @ evs)"
    by (rule turn_step[OF aw(2) conjunct1[OF linked_ok[OF assms(1,2)]] assms(3),
          of "\<lambda>e' q' evs. conversing sha hmac ca cb a b (side (caller l)) e' q' (qa @ evs)"])
      (use deliver_to_answerer[OF assms(1)] assms(2) in blast)+
  have "awaits (caller l) (to_caller l @ out) (qa @ evs)" using aw(1) t(3) by (simp add: awaits_def)
  then have "linked sha hmac ca cb a b (l\<lparr>answerer := d, to_caller := to_caller l @ out\<rparr>) (qa @ evs) q'"
    using t by (simp add: linked_def)
  moreover have "steps_left a b (l\<lparr>answerer := d, to_caller := to_caller l @ out\<rparr>) (qa @ evs) q' < steps_left a b l qa qb"
    using turn_potential[OF t(2,5), of "session_work (bodies a) (sess (caller l))" q' qa] t(1,3)
    by (simp add: steps_left_def potential_def)
  ultimately show ?thesis unfolding Let_def by blast
qed

lemma linked_step:
  assumes "agreed hmac ca cb a b" "linked sha hmac ca cb a b l qa qb" "link_step sha hmac a b l l'"
  shows "\<exists>qa' qb'. linked sha hmac ca cb a b l' qa' qb' \<and> steps_left a b l' qa' qb' < steps_left a b l qa qb"
  using assms(3)
proof cases
  case (turn_caller d out)
  then show ?thesis using linked_turn_caller[OF assms(1,2)] unfolding Let_def by blast
next
  case (turn_answerer d out)
  then show ?thesis using linked_turn_answerer[OF assms(1,2)] unfolding Let_def by blast
next
  case (read_caller xs rest)
  then show ?thesis using assms(2) by (intro exI[of _ qa] exI[of _ qb]) (auto simp: linked_def awaits_def steps_left_def)
next
  case (read_answerer xs rest)
  then show ?thesis using assms(2) by (intro exI[of _ qa] exI[of _ qb]) (auto simp: linked_def awaits_def steps_left_def)
qed

text \<open>While an event is under way somewhere, some driver can move.\<close>

lemma driver_moves:
  assumes "awaits d wire (ev # q)" "list_all event_ok (ev # q)"
    and "deliver sha hmac files (side d) ev = Some (e', evs, phase (fst e') = Done)" "list_all event_ok evs"
  shows "(\<exists>d' out. drive_turn sha hmac files d = Some (d', out, None)) \<or>
    (\<not> finished d \<and> drive_turn sha hmac files d = None \<and> (\<exists>x rest. wire = [x] @ rest))"
proof -
  have nf: "\<not> finished d" using assms(1) deliver_listening[OF assms(3)] by (simp add: awaits_def)
  have q: "\<forall>m \<in> set (ev # q). event_ok m" "inbuf d @ wire = concat (map event_bytes (ev # q))"
    using assms(1,2) by (simp_all add: awaits_def list_all_iff)
  from q show ?thesis
  proof (cases rule: binkp.step_buffered)
    case waiting
    then show ?thesis using nf by (cases wire) (simp_all add: drive_turn_def)
  next
    case (whole m ms rest)
    then show ?thesis using drive_turn_deliver[OF assms(1) _ _ assms(3,4), of rest] q(1) by (metis list.inject list.set_intros(1))
  qed
qed

lemma linked_stuck:
  assumes "agreed hmac ca cb a b" "linked sha hmac ca cb a b l qa qb" "\<And>l'. \<not> link_step sha hmac a b l l'"
  shows "qa = [] \<and> qb = []"
proof (intro conjI)
  note ok = linked_ok[OF assms(1,2)]
  have aw: "awaits (caller l) (to_caller l) qa" "awaits (answerer l) (to_answerer l) qb"
    using assms(2) by (simp_all add: linked_def)
  show "qa = []"
  proof (cases qa)
    case (Cons ev q)
    with assms(2) obtain e' evs where "deliver sha hmac (bodies a) (side (caller l)) ev = Some (e', evs, phase (fst e') = Done)"
      "list_all event_ok evs" using deliver_to_caller[OF assms(1), of sha l ev q qb] by blast
    from driver_moves[OF aw(1)[unfolded Cons] conjunct2[OF ok, unfolded Cons] this] show ?thesis
      using assms(3) link_step.turn_caller link_step.read_caller[of l sha hmac a "[_]"] by fastforce
  qed
  show "qb = []"
  proof (cases qb)
    case (Cons ev q)
    with assms(2) obtain e' evs where "deliver sha hmac (bodies b) (side (answerer l)) ev = Some (e', evs, phase (fst e') = Done)"
      "list_all event_ok evs" using deliver_to_answerer[OF assms(1), of sha l qa ev q] by blast
    from driver_moves[OF aw(2)[unfolded Cons] conjunct1[OF ok, unfolded Cons] this] show ?thesis
      using assms(3) link_step.turn_answerer link_step.read_answerer[of l sha hmac b "[_]"] by fastforce
  qed
qed

section \<open>Delivery\<close>

definition greeting_events :: "brole \<Rightarrow> session_config \<Rightarrow> event list" where
  "greeting_events r c =
     map (\<lambda>l. ECommand (M_NUL l)) (cfg_system_info c) @
     (case cfg_challenge c of
        Some x \<Rightarrow> if r = Answering then [ECommand (M_NUL (lit ''OPT '' @ cram_md5_option x))] else []
      | None \<Rightarrow> []) @
     [ECommand (M_ADR (cfg_addresses c))]"

lemma greeting_events_ok: "speakable c \<Longrightarrow> list_all event_ok (greeting_events r c)"
  using short_ascii_ok[OF cram_short_ascii(1), of _ "M_NUL _"]
  by (auto simp: greeting_events_def speakable_def list_all_iff split: option.split)

lemma greeting_events_greet: "list_all is_greeting (greeting_events r c)"
  by (auto simp: greeting_events_def list_all_iff split: option.split)

lemma greeting_events_offer: "speakable c \<Longrightarrow> offer c None (greeting_events Answering c)"
  unfolding offer_def greeting_events_def
  by (intro disjI1 conjI exI[of _ "cfg_system_info c"]) (auto simp: speakable_def list_all_iff split: option.split)

lemma perform_sends: "perform_events files (map SendCommand cs) i = Some (i, map ECommand cs, False)"
  by (induction cs) (simp_all add: inbound_steps)

lemma start_events:
  "\<exists>cs. start_session (new_session sha hmac r c) = (greeted sha hmac r c Greeting None [], map SendCommand cs) \<and>
    map ECommand cs = greeting_events r c"
  by (cases "cfg_challenge c"; cases r; rule exI[of _ "map M_NUL (cfg_system_info c) @
        (case cfg_challenge c of Some x \<Rightarrow> if r = Answering then [M_NUL (lit ''OPT '' @ cram_md5_option x)] else [] | None \<Rightarrow> []) @
        [M_ADR (cfg_addresses c)]"])
    (simp_all add: start_session_def new_session_def greeted_def greeting_events_def comp_def)

lemma open_driver_greeting:
  assumes "speakable c"
  shows "open_driver files (new_session sha hmac r c) i =
    (\<lparr>sess = greeted sha hmac r c Greeting None [], inbuf = [], inbox = i, finished = False\<rparr>,
     concat (map event_bytes (greeting_events r c)), None)"
proof -
  obtain cs where cs: "start_session (new_session sha hmac r c) = (greeted sha hmac r c Greeting None [], map SendCommand cs)"
    "map ECommand cs = greeting_events r c" using start_events by blast
  then show ?thesis
    using perform_refines[OF perform_sends, of cs files i] greeting_events_ok[OF assms, of r] by (simp add: open_driver_def)
qed

lemma linked_opened:
  assumes "agreed hmac ca cb a b"
  shows "linked sha hmac ca cb a b (opened sha hmac ca cb a b) (greeting_events Answering cb) (greeting_events Originating ca)"
proof -
  have sp: "speakable ca" "speakable cb" using agreedD[OF assms] by simp_all
  have "conversing sha hmac ca cb a b (greeted sha hmac Originating ca Greeting None [], box a)
      (greeted sha hmac Answering cb Greeting None [], box b) (greeting_events Originating ca) (greeting_events Answering cb)"
    using sp by (intro conversing.greeting greeting_events_greet greeting_events_ok greeting_events_offer)
  then show ?thesis
    by (simp add: linked_def opened_def open_driver_greeting sp awaits_def)
qed

lemma linked_run:
  assumes "agreed hmac ca cb a b" "(link_step sha hmac a b ^^ n) l l'" "linked sha hmac ca cb a b l qa qb"
  shows "\<exists>qa' qb'. linked sha hmac ca cb a b l' qa' qb' \<and> n + steps_left a b l' qa' qb' \<le> steps_left a b l qa qb"
  using assms(2)
proof (induction n arbitrary: l')
  case 0
  then show ?case using assms(3) by auto
next
  case (Suc n)
  then obtain m where m: "(link_step sha hmac a b ^^ n) l m" "link_step sha hmac a b m l'" by auto
  from Suc.IH[OF m(1)] obtain qa1 qb1 where q1: "linked sha hmac ca cb a b m qa1 qb1"
    "n + steps_left a b m qa1 qb1 \<le> steps_left a b l qa qb" by blast
  from linked_step[OF assms(1) q1(1) m(2)] obtain qa2 qb2 where
    "linked sha hmac ca cb a b l' qa2 qb2" "steps_left a b l' qa2 qb2 < steps_left a b m qa1 qb1" by blast
  with q1(2) show ?case by (intro exI[of _ qa2] exI[of _ qb2]) simp
qed

text \<open>A batch is in an inbound directory: every file is listed, and those with names of their own are whole.\<close>

definition batch_in :: "party \<Rightarrow> inbound \<Rightarrow> inbound \<Rightarrow> bool" where
  "batch_in p before i \<longleftrightarrow>
     received i = received before @ map (\<lambda>f. sanitize_name (mf_name f)) (batch p) \<and> cur_file i = None \<and>
     (distinct (map (\<lambda>f. sanitize_name (mf_name f)) (batch p)) \<longrightarrow>
        (\<forall>f \<in> set (batch p). spool i (sanitize_name (mf_name f)) = bodies p (mf_name f)))"

lemma stored_received: "received (stored files fs i) = received i @ map (\<lambda>f. sanitize_name (mf_name f)) fs"
  unfolding stored_def by (induction fs arbitrary: i) (simp_all add: put_def)

lemma stored_other:
  "n \<notin> (\<lambda>f. sanitize_name (mf_name f)) ` set fs \<Longrightarrow> spool (stored files fs i) n = spool i n"
  unfolding stored_def by (induction fs arbitrary: i) (simp_all add: put_def)

lemma stored_whole:
  assumes "distinct (map (\<lambda>f. sanitize_name (mf_name f)) fs)" "f \<in> set fs"
  shows "spool (stored files fs i) (sanitize_name (mf_name f)) = Some (body_of files f)"
  using assms
proof (induction fs arbitrary: i)
  case (Cons g fs)
  show ?case
  proof (cases "f \<in> set fs")
    case True
    then show ?thesis using Cons by (simp add: stored_def)
  next
    case False
    then have "f = g" using Cons.prems(2) by simp
    then show ?thesis
      using Cons.prems(1) stored_other[of "sanitize_name (mf_name g)" fs files "put files g i"] by (simp add: stored_def put_def)
  qed
qed simp

lemma batch_in_stored:
  assumes "party_ok p" "cur_file i = None"
  shows "batch_in p i (stored (bodies p) (batch p) i)"
proof -
  have "body_of (bodies p) f = the (bodies p (mf_name f))" "bodies p (mf_name f) \<noteq> None" if "f \<in> set (batch p)" for f
    using assms(1) that by (auto simp: party_ok_def batch_ready_def list_all_iff body_of_def split: option.split)
  then show ?thesis using assms(2) by (auto simp: batch_in_def stored_received stored_whole)
qed

text \<open>
  C16. A mail session always ends with everything delivered: two drivers that share a password, with
  or without a CRAM-MD5 challenge, have only finitely long runs, however turns and reads of any size
  are interleaved, and a run that cannot go on has both sessions finished, nothing left in the buffers
  or on the wire, and both batches in the other side's inbound directory.
\<close>

theorem binkp_batch_delivers:
  assumes "agreed hmac ca cb a b"
  shows "\<exists>bound. \<forall>n l. (link_step sha hmac a b ^^ n) (opened sha hmac ca cb a b) l \<longrightarrow>
    n \<le> bound \<and>
    ((\<forall>l'. \<not> link_step sha hmac a b l l') \<longrightarrow>
       finished (caller l) \<and> finished (answerer l) \<and>
       inbuf (caller l) @ to_caller l = [] \<and> inbuf (answerer l) @ to_answerer l = [] \<and>
       batch_in a (box b) (inbox (answerer l)) \<and> batch_in b (box a) (inbox (caller l)))"
proof (intro exI allI impI conjI)
  fix n l
  let ?qa = "greeting_events Answering cb" and ?qb = "greeting_events Originating ca"
  assume "(link_step sha hmac a b ^^ n) (opened sha hmac ca cb a b) l"
  from linked_run[OF assms this linked_opened[OF assms]] obtain qa qb where q: "linked sha hmac ca cb a b l qa qb"
    "n + steps_left a b l qa qb \<le> steps_left a b (opened sha hmac ca cb a b) ?qa ?qb" by blast
  then show "n \<le> steps_left a b (opened sha hmac ca cb a b) ?qa ?qb" by simp
  assume "\<forall>l'. \<not> link_step sha hmac a b l l'"
  then have l: "linked sha hmac ca cb a b l [] []" using linked_stuck[OF assms q(1)] q(1) by simp
  note ok = pairedD(2,3)[OF agreedD(1)[OF assms]]
  have fin: "phase (sess (caller l)) = Done" "phase (sess (answerer l)) = Done"
    "inbox (answerer l) = stored (bodies a) (batch a) (box b)" "inbox (caller l) = stored (bodies b) (batch b) (box a)"
    using l conversing_silent[of sha hmac ca cb a b "side (caller l)" "side (answerer l)"] by (simp_all add: linked_def)
  show "finished (caller l)" "finished (answerer l)" "inbuf (caller l) @ to_caller l = []" "inbuf (answerer l) @ to_answerer l = []"
    using l fin(1,2) by (simp_all add: linked_def awaits_def)
  show "batch_in a (box b) (inbox (answerer l))" "batch_in b (box a) (inbox (caller l))"
    using fin(3,4) batch_in_stored[OF ok(1)] batch_in_stored[OF ok(2)] ok by (simp_all add: party_ok_def)
qed

definition demo_file :: mail_file where
  "demo_file = new_mail_file (lit ''a.pkt'') 2 7"

definition demo_caller :: session_config where
  "demo_caller = \<lparr>cfg_addresses = [], cfg_system_info = [lit ''SYS'' ], cfg_password = lit ''pw'', cfg_challenge = None,
     cfg_outgoing = [demo_file]\<rparr>"

definition demo_answerer :: session_config where
  "demo_answerer = demo_caller\<lparr>cfg_challenge := Some [1], cfg_outgoing := []\<rparr>"

definition demo_party :: "session_config \<Rightarrow> party" where
  "demo_party c = \<lparr>bodies = [lit ''a.pkt'' \<mapsto> [1, 2]], batch = cfg_outgoing c,
     box = \<lparr>spool = Map.empty, cur_file = None, received = []\<rparr>\<rparr>"

lemma demo_speakable: "speakable demo_caller" "speakable demo_answerer"
proof -
  have "short_ascii (format_mail_file demo_file)" "short_ascii (format_file_id (file_id_of demo_file))"
    by (simp_all add: short_ascii_def format_mail_file_def format_file_id_def file_id_of_def demo_file_def new_mail_file_def
        decimal.simps BLOCK_MAX_def)
  then have "file_speakable demo_file"
    by (auto simp: file_speakable_def word_text_def is_whitespace_def demo_file_def new_mail_file_def file_id_of_def
        intro!: short_ascii_ok[OF _ refl])
  moreover have "event_ok (ECommand (M_NUL (lit ''SYS'')))" "event_ok (ECommand (M_ADR []))" "event_ok (ECommand (M_PWD (lit ''pw'')))"
    by (rule short_ascii_ok[OF _ refl], simp_all add: short_ascii_def BLOCK_MAX_def format_address_list_def)+
  moreover have "parse_challenge (lit ''SYS'') = None"
    using split_join_blank[of "[lit ''SYS'']"]
    by (simp add: parse_challenge_def word_text_def is_whitespace_def strip_prefix_def CRAM_MD5_PREFIX_def)
  ultimately show "speakable demo_caller" "speakable demo_answerer"
    by (simp_all add: speakable_def demo_caller_def demo_answerer_def)
qed

lemma demo_agreed: "agreed (\<lambda>_ _. replicate 16 0) demo_caller demo_answerer (demo_party demo_caller) (demo_party demo_answerer)"
  using demo_speakable
  by (simp add: agreed_def paired_def party_ok_def batch_ready_def body_of_def demo_party_def demo_answerer_def
      demo_caller_def demo_file_def new_mail_file_def)

theorem binkp_batch_delivers_witness:
  "\<exists>bound. {n. \<exists>l. (link_step (\<lambda>b. b) (\<lambda>_ _. replicate 16 0) (demo_party demo_caller) (demo_party demo_answerer) ^^ n)
      (opened (\<lambda>b. b) (\<lambda>_ _. replicate 16 0) demo_caller demo_answerer (demo_party demo_caller) (demo_party demo_answerer)) l}
    \<subseteq> {..bound}"
  using binkp_batch_delivers[OF demo_agreed, of "\<lambda>b. b"] by blast

definition poll_config :: "address \<Rightarrow> str \<Rightarrow> (mail_file \<times> bytes) list \<Rightarrow> session_config" where
  "poll_config n pw outbound = \<lparr>cfg_addresses = [n], cfg_system_info = [lit ''SYS RabbitHole''], cfg_password = pw,
     cfg_challenge = None, cfg_outgoing = map fst outbound\<rparr>"

text \<open>
  C44. A connection that closes early is reported like one that finished: an uplink that hangs up
  before its first byte makes \<open>poll_uplink\<close> succeed with every staged file removed, although only
  the greeting was written and no file was announced, let alone acknowledged.
\<close>

theorem poll_uplink_early_close:
  assumes "speakable (poll_config n pw outbound)" "host \<noteq> []" "outbound \<noteq> []"
  shows "poll_uplink sha hmac (Some n) host pw outbound i [] = ([], i, Inr (received i)) \<and>
    fst (snd (run_originating sha hmac [n] pw outbound i [])) =
      concat (map event_bytes (greeting_events Originating (poll_config n pw outbound)))"
proof -
  have turn: "drive_turn sha hmac files \<lparr>sess = s, inbuf = [], inbox = i, finished = False\<rparr> = None" for files s
    by (simp add: drive_turn_def binkp.step_empty)
  have run: "run_originating sha hmac [n] pw outbound i [] =
      (\<lparr>sess = greeted sha hmac Originating (poll_config n pw outbound) Greeting None [], inbuf = [], inbox = i, finished = False\<rparr>,
       concat (map event_bytes (greeting_events Originating (poll_config n pw outbound))), Inr (received i))"
    unfolding run_originating_def drive_session_def poll_config_def[symmetric] open_driver_greeting[OF assms(1)]
    by (simp add: drive_loop.simps turn)
  moreover have "poll_uplink sha hmac (Some n) host pw outbound i [] = ([], i, Inr (received i))"
    using assms(2,3) by (auto simp: poll_uplink_def run filter_empty_conv)
  ultimately show ?thesis by simp
qed

definition demo_node :: address where
  "demo_node = \<lparr>zone = 2, net = 5, node = 7, point = 0, domain = None\<rparr>"

theorem poll_uplink_early_close_witness:
  "fst (poll_uplink (\<lambda>b. b) (\<lambda>_ _. []) (Some demo_node) (lit ''hub'') (lit ''pw'') [(demo_file, [1, 2])]
     \<lparr>spool = Map.empty, cur_file = None, received = []\<rparr> []) = []"
proof -
  let ?c = "poll_config demo_node (lit ''pw'') [(demo_file, [1, 2])]"
  have "event_ok (ECommand (M_NUL (lit ''SYS RabbitHole'')))" "event_ok (ECommand (M_ADR [demo_node]))"
    by (rule short_ascii_ok[OF _ refl],
        simp_all add: short_ascii_def BLOCK_MAX_def format_address_list_def format_address_def demo_node_def address_ok_def decimal.simps)+
  moreover have "parse_challenge (lit ''SYS RabbitHole'') = None"
    using split_join_blank[of "[lit ''SYS'', lit ''RabbitHole'']"]
    by (simp add: parse_challenge_def word_text_def is_whitespace_def strip_prefix_def CRAM_MD5_PREFIX_def)
  ultimately have "speakable ?c"
    using demo_speakable by (simp add: speakable_def poll_config_def demo_caller_def)
  from poll_uplink_early_close[OF this] show ?thesis by simp
qed

end
