(* ===== verification/Chat.thy ===== *)
theory Chat
  imports Prelude
begin

text \<open>
  The chat service (\<open>crates/server-core/src/chat.rs\<close>) and the part of the event bus it publishes
  on (\<open>bus.rs\<close>). Rooms live in one map keyed by the lower-cased trimmed name; every operation
  runs under the room lock, so it is one function from service state to service state, with the
  error or result beside the state (a refused call may still have dropped an expired mute).
  The bus is the list of published events, oldest first. Unicode lower-casing is a table of the
  standard library and the argument \<open>lc\<close> of the operations; session ids, millisecond clocks and
  intervals are naturals with Rust's saturation written out; the wall clock that stamps a line is
  an argument.
\<close>

section \<open>Data\<close>

record room_audience =
  aud_public :: bool
  aud_sessions :: "nat fset"
  aud_accounts :: "int fset"

definition no_audience :: room_audience where
  "no_audience = \<lparr>aud_public = False, aud_sessions = {||}, aud_accounts = {||}\<rparr>"

definition audience_allows :: "room_audience \<Rightarrow> nat \<Rightarrow> int \<Rightarrow> bool" where
  "audience_allows a session account \<longleftrightarrow>
     session \<noteq> 0 \<and> (aud_public a \<or> session |\<in>| aud_sessions a \<or> account |\<in>| aud_accounts a)"

text \<open>The events the chat service publishes.\<close>

datatype server_event =
    RoomsChanged room_audience
  | ChatSaid (ev_room: str) (ev_from: str) (ev_text: str) (ev_at: int)
  | RoomMuted (ev_account: int) (ev_name: str) (ev_mute_room: str) (ev_muted: bool) (ev_secs: "nat option")

record chat_line =
  cl_room :: str
  cl_from :: str
  cl_text :: str
  at_unix_ms :: int

record room_summary =
  sum_name :: str
  sum_category :: str
  sum_topic :: str
  sum_private :: bool
  member_count :: nat
  sum_created_by :: str

record room =
  rname :: str
  category :: str
  rtopic :: str
  is_private :: bool
  persistent :: bool
  created_by_account :: int
  created_by_name :: str
  rmembers :: "(nat, str) fmap"
  invited :: "int fset"
  banned :: "int fset"
  muted :: "(int, nat option) fmap"
  muted_as :: "(int, str) fmap"
  slow_secs :: nat
  last_sent_ms :: "(int, nat) fmap"
  rhistory :: "chat_line list"

record room_keeping =
  keep_slow :: nat
  may_moderate :: bool
  keep_members :: "(nat \<times> str) list"
  keep_muted :: "(int \<times> str \<times> nat option) list"

record sender =
  session_id :: nat
  sender_account :: int
  is_moderator :: bool
  screen_name :: str

datatype chat_error =
    NoSuchRoom str
  | TooLong nat nat
  | EmptyMessage
  | AlreadyExists
  | NotMember
  | Forbidden
  | BadName
  | Muted
  | SlowMode nat

record chat_service =
  guest_sessions :: "(nat, int) fmap"
  rooms :: "(str, room) fmap"
  max_len :: nat
  bus :: "server_event list"

type_synonym 'a chat_result = "chat_service \<times> (chat_error + 'a)"

definition LOBBY :: str where
  "LOBBY = lit ''lobby''"

definition SCROLLBACK :: nat where
  "SCROLLBACK = 500"

definition MAX_SLOW_MODE_SECS :: nat where
  "MAX_SLOW_MODE_SECS = 3600"

definition room_key :: "(str \<Rightarrow> str) \<Rightarrow> str \<Rightarrow> str" where
  "room_key lc name = lc (trim name)"

section \<open>Rooms\<close>

definition include_audience :: "room \<Rightarrow> room_audience \<Rightarrow> room_audience" where
  "include_audience r a =
     \<lparr>aud_public = aud_public a \<or> \<not> is_private r,
      aud_sessions = aud_sessions a |\<union>| fmdom (rmembers r),
      aud_accounts = aud_accounts a |\<union>| invited r\<rparr>"

abbreviation audience_of :: "room \<Rightarrow> room_audience" where
  "audience_of r \<equiv> include_audience r no_audience"

text \<open>A timed mute that has run out is dropped the first time it is consulted.\<close>

definition muted_now :: "room \<Rightarrow> int \<Rightarrow> nat \<Rightarrow> room \<times> bool" where
  "muted_now r account now =
     (case fmlookup (muted r) account of
        None \<Rightarrow> (r, False)
      | Some None \<Rightarrow> (r, True)
      | Some (Some until) \<Rightarrow>
          if until > now then (r, True)
          else (r\<lparr>muted := fmdrop account (muted r), muted_as := fmdrop account (muted_as r)\<rparr>, False))"

definition can_moderate :: "room \<Rightarrow> int \<Rightarrow> bool \<Rightarrow> bool" where
  "can_moderate r account is_mod \<longleftrightarrow> is_mod \<or> created_by_account r = account"

definition summary :: "room \<Rightarrow> room_summary" where
  "summary r =
     \<lparr>sum_name = rname r, sum_category = category r, sum_topic = rtopic r, sum_private = is_private r,
      member_count = fcard (fmdom (rmembers r)) mod 2 ^ 32, sum_created_by = created_by_name r\<rparr>"

definition next_chat_timestamp :: "int option \<Rightarrow> int \<Rightarrow> int" where
  "next_chat_timestamp previous wall =
     (case previous of None \<Rightarrow> wall | Some prev \<Rightarrow> max wall (min (prev + 1) I64_MAX))"

section \<open>The service\<close>

definition publish :: "server_event \<Rightarrow> chat_service \<Rightarrow> chat_service" where
  "publish e s = s\<lparr>bus := bus s @ [e]\<rparr>"

definition put_room :: "str \<Rightarrow> room \<Rightarrow> chat_service \<Rightarrow> chat_service" where
  "put_room k r s = s\<lparr>rooms := fmupd k r (rooms s)\<rparr>"

definition drop_room :: "str \<Rightarrow> chat_service \<Rightarrow> chat_service" where
  "drop_room k s = s\<lparr>rooms := fmdrop k (rooms s)\<rparr>"

definition lobby_room :: room where
  "lobby_room =
     \<lparr>rname = LOBBY, category = lit ''General'', rtopic = [], is_private = False, persistent = True,
      created_by_account = 0, created_by_name = lit ''server'', rmembers = fmempty,
      invited = {||}, banned = {||}, muted = fmempty, muted_as = fmempty, slow_secs = 0,
      last_sent_ms = fmempty, rhistory = []\<rparr>"

definition chat_new :: "(str \<Rightarrow> str) \<Rightarrow> nat \<Rightarrow> chat_service" where
  "chat_new lc max_length =
     \<lparr>guest_sessions = fmempty, rooms = fmupd (room_key lc LOBBY) lobby_room fmempty,
      max_len = max_length, bus = []\<rparr>"

definition join_lobby :: "(str \<Rightarrow> str) \<Rightarrow> chat_service \<Rightarrow> nat \<Rightarrow> int \<Rightarrow> str \<Rightarrow> chat_service" where
  "join_lobby lc s sid account name =
     (let s = (if account < 0 then s\<lparr>guest_sessions := fmupd sid account (guest_sessions s)\<rparr> else s)
      in case fmlookup (rooms s) (room_key lc LOBBY) of
           None \<Rightarrow> s
         | Some r \<Rightarrow>
             if fmlookup (rmembers r) sid \<noteq> Some name
             then let r = r\<lparr>rmembers := fmupd sid name (rmembers r)\<rparr>
                  in publish (RoomsChanged (audience_of r)) (put_room (room_key lc LOBBY) r s)
             else s)"

text \<open>
  One turn of the \<open>retain\<close> loop of \<open>session_closed\<close> on the room under a key. The accumulator
  holds the room map, the lifted mutes, the audience and whether any membership changed.
\<close>

type_synonym close_acc = "(str, room) fmap \<times> (str \<times> str) list \<times> room_audience \<times> bool"

definition close_room :: "nat \<Rightarrow> int \<Rightarrow> bool \<Rightarrow> str \<Rightarrow> close_acc \<Rightarrow> close_acc" where
  "close_room sid account final_guest k acc =
     (case acc of (rs, lifted, audience, changed) \<Rightarrow>
      case fmlookup rs k of
        None \<Rightarrow> acc
      | Some r \<Rightarrow>
          (let here = (fmlookup (rmembers r) sid \<noteq> None);
               audience = (if here then include_audience r audience else audience);
               r = (if here then r\<lparr>rmembers := fmdrop sid (rmembers r)\<rparr> else r);
               changed = (changed \<or> here);
               survives = (persistent r \<or> rmembers r \<noteq> fmempty);
               was_muted = (fmlookup (muted r) account \<noteq> None);
               name = (case fmlookup (muted_as r) account of Some n \<Rightarrow> n | None \<Rightarrow> []);
               r = (if final_guest
                    then r\<lparr>muted := fmdrop account (muted r), muted_as := fmdrop account (muted_as r)\<rparr>
                    else r);
               lifted = (if final_guest \<and> survives \<and> was_muted then lifted @ [(rname r, name)] else lifted);
               rs = (if survives then fmupd k r rs else fmdrop k rs)
           in (rs, lifted, audience, changed)))"

text \<open>\<open>ks\<close> is the order in which the hash map is visited.\<close>

definition session_closed :: "str list \<Rightarrow> chat_service \<Rightarrow> nat \<Rightarrow> int \<Rightarrow> chat_service" where
  "session_closed ks s sid account =
     (let guests = fmdrop sid (guest_sessions s);
          final_guest = (account < 0 \<and> account |\<notin>| fmran guests);
          (rs, lifted, audience, changed) =
            fold (close_room sid account final_guest) ks (rooms s, [], no_audience, False);
          s = s\<lparr>guest_sessions := guests, rooms := rs\<rparr>;
          s = (if changed then publish (RoomsChanged audience) s else s)
      in fold (\<lambda>(room, name). publish (RoomMuted account name room False None)) lifted s)"

definition is_member :: "(str \<Rightarrow> str) \<Rightarrow> chat_service \<Rightarrow> str \<Rightarrow> nat \<Rightarrow> bool" where
  "is_member lc s name sid =
     (case fmlookup (rooms s) (room_key lc name) of
        None \<Rightarrow> False | Some r \<Rightarrow> fmlookup (rmembers r) sid \<noteq> None)"

definition list_counted :: "chat_service \<Rightarrow> nat \<Rightarrow> int \<Rightarrow> (nat \<Rightarrow> bool) \<Rightarrow> room_summary list" where
  "list_counted s viewer_session viewer_account visible =
     sort_key (\<lambda>x. (sum_name x \<noteq> LOBBY, sum_name x))
       (map (\<lambda>r. (summary r)\<lparr>member_count := fcard (ffilter visible (fmdom (rmembers r))) mod 2 ^ 32\<rparr>)
         (filter (\<lambda>r. \<not> is_private r \<or> fmlookup (rmembers r) viewer_session \<noteq> None \<or>
                      viewer_account |\<in>| invited r)
           (map snd (sorted_pairs (rooms s)))))"

definition list_rooms :: "chat_service \<Rightarrow> nat \<Rightarrow> int \<Rightarrow> room_summary list" where
  "list_rooms s viewer_session viewer_account = list_counted s viewer_session viewer_account (\<lambda>_. True)"

definition list_visible :: "chat_service \<Rightarrow> nat \<Rightarrow> int \<Rightarrow> nat fset \<Rightarrow> room_summary list" where
  "list_visible s viewer_session viewer_account visible =
     list_counted s viewer_session viewer_account (\<lambda>i. i |\<in>| visible)"

definition new_room :: "str \<Rightarrow> str \<Rightarrow> str \<Rightarrow> bool \<Rightarrow> int \<Rightarrow> str \<Rightarrow> nat \<Rightarrow> room" where
  "new_room display cat subj priv account name sid =
     \<lparr>rname = display, category = trim cat, rtopic = trim subj, is_private = priv, persistent = False,
      created_by_account = account, created_by_name = name, rmembers = fmupd sid name fmempty,
      invited = {|account|}, banned = {||}, muted = fmempty, muted_as = fmempty, slow_secs = 0,
      last_sent_ms = fmempty, rhistory = []\<rparr>"

definition create :: "(str \<Rightarrow> str) \<Rightarrow> chat_service \<Rightarrow> str \<Rightarrow> str \<Rightarrow> str \<Rightarrow> bool \<Rightarrow> int \<Rightarrow> str \<Rightarrow> nat \<Rightarrow>
    room_summary chat_result" where
  "create lc s name cat subj priv account creator sid =
     (let display = trim name in
      if display = [] \<or> str_len display > 32 \<or> 47 \<in> set display \<or> 10 \<in> set display
      then (s, Inl BadName)
      else let k = room_key lc display in
        if fmlookup (rooms s) k \<noteq> None then (s, Inl AlreadyExists)
        else let r = new_room display cat subj priv account creator sid
          in (publish (RoomsChanged (audience_of r)) (put_room k r s), Inr (summary r)))"

definition join :: "(str \<Rightarrow> str) \<Rightarrow> chat_service \<Rightarrow> str \<Rightarrow> nat \<Rightarrow> int \<Rightarrow> str \<Rightarrow> room_summary chat_result" where
  "join lc s name sid account nick =
     (case fmlookup (rooms s) (room_key lc name) of
        None \<Rightarrow> (s, Inl (NoSuchRoom name))
      | Some r \<Rightarrow>
          if account |\<in>| banned r then (s, Inl Forbidden)
          else if is_private r \<and> account |\<notin>| invited r \<and> created_by_account r \<noteq> account
          then (s, Inl Forbidden)
          else if fmlookup (rmembers r) sid \<noteq> Some nick
          then let r = r\<lparr>rmembers := fmupd sid nick (rmembers r)\<rparr>
               in (publish (RoomsChanged (audience_of r)) (put_room (room_key lc name) r s), Inr (summary r))
          else (s, Inr (summary r)))"

definition leave :: "(str \<Rightarrow> str) \<Rightarrow> chat_service \<Rightarrow> str \<Rightarrow> nat \<Rightarrow> unit chat_result" where
  "leave lc s name sid =
     (if room_key lc name = room_key lc LOBBY then (s, Inl Forbidden)
      else let k = room_key lc name in
        case fmlookup (rooms s) k of
          None \<Rightarrow> (s, Inl (NoSuchRoom name))
        | Some r \<Rightarrow>
            if fmlookup (rmembers r) sid = None then (s, Inr ())
            else let audience = audience_of r;
                     r = r\<lparr>rmembers := fmdrop sid (rmembers r)\<rparr>;
                     s = (if \<not> persistent r \<and> rmembers r = fmempty then drop_room k s else put_room k r s)
                 in (publish (RoomsChanged audience) s, Inr ()))"

definition invite :: "(str \<Rightarrow> str) \<Rightarrow> chat_service \<Rightarrow> str \<Rightarrow> nat \<Rightarrow> int \<Rightarrow> unit chat_result" where
  "invite lc s name inviter target =
     (let k = room_key lc name in
      case fmlookup (rooms s) k of
        None \<Rightarrow> (s, Inl (NoSuchRoom name))
      | Some r \<Rightarrow>
          if fmlookup (rmembers r) inviter = None then (s, Inl NotMember)
          else let changed = (target |\<notin>| invited r);
                   r = r\<lparr>invited := finsert target (invited r), banned := banned r |-| {|target|}\<rparr>;
                   s = put_room k r s
               in (if changed then publish (RoomsChanged (audience_of r)) s else s, Inr ()))"

definition set_topic :: "(str \<Rightarrow> str) \<Rightarrow> chat_service \<Rightarrow> str \<Rightarrow> str \<Rightarrow> int \<Rightarrow> bool \<Rightarrow> unit chat_result" where
  "set_topic lc s name subj account is_mod =
     (let k = room_key lc name in
      case fmlookup (rooms s) k of
        None \<Rightarrow> (s, Inl (NoSuchRoom name))
      | Some r \<Rightarrow>
          if \<not> can_moderate r account is_mod then (s, Inl Forbidden)
          else let subj = take 200 (trim subj) in
            if rtopic r \<noteq> subj
            then let r = r\<lparr>rtopic := subj\<rparr>
                 in (publish (RoomsChanged (audience_of r)) (put_room k r s), Inr ())
            else (s, Inr ()))"

text \<open>The loop over the target's sessions: the remaining members and the sessions removed.\<close>

fun kick_sessions :: "nat list \<Rightarrow> (nat, str) fmap \<Rightarrow> (nat, str) fmap \<times> nat list" where
  "kick_sessions [] m = (m, [])"
| "kick_sessions (x # xs) m =
     (if fmlookup m x \<noteq> None
      then let (m', kicked) = kick_sessions xs (fmdrop x m) in (m', x # kicked)
      else kick_sessions xs m)"

definition kicked_room :: "room \<Rightarrow> (nat, str) fmap \<Rightarrow> int \<Rightarrow> bool \<Rightarrow> room" where
  "kicked_room r ms target ban =
     (let r = r\<lparr>rmembers := ms\<rparr> in
      if ban then r\<lparr>banned := finsert target (banned r), invited := invited r |-| {|target|}\<rparr> else r)"

definition kick :: "(str \<Rightarrow> str) \<Rightarrow> chat_service \<Rightarrow> str \<Rightarrow> int \<Rightarrow> bool \<Rightarrow> int \<Rightarrow> nat list \<Rightarrow> bool \<Rightarrow>
    (nat list) chat_result" where
  "kick lc s name by_account by_mod target sessions ban =
     (let k = room_key lc name in
      case fmlookup (rooms s) k of
        None \<Rightarrow> (s, Inl (NoSuchRoom name))
      | Some r \<Rightarrow>
          if \<not> can_moderate r by_account by_mod then (s, Inl Forbidden)
          else if created_by_account r = target then (s, Inl Forbidden)
          else let audience = audience_of r;
                   (ms, kicked) = kick_sessions sessions (rmembers r);
                   removed_invite = (ban \<and> target |\<in>| invited r);
                   r = kicked_room r ms target ban;
                   s = put_room k r s
               in if kicked \<noteq> [] \<or> removed_invite
                  then let s = (if \<not> persistent r \<and> rmembers r = fmempty then drop_room k s else s)
                       in (publish (RoomsChanged audience) s, Inr kicked)
                  else (s, Inr kicked))"

text \<open>\<open>duration\<close> is \<open>Duration::as_millis\<close> of the requested duration.\<close>

definition mute :: "(str \<Rightarrow> str) \<Rightarrow> chat_service \<Rightarrow> str \<Rightarrow> int \<Rightarrow> bool \<Rightarrow> int \<Rightarrow> str \<Rightarrow> nat option \<Rightarrow> nat \<Rightarrow>
    unit chat_result" where
  "mute lc s name by_account by_mod target target_name duration now =
     (if target < 0 \<and> target |\<notin>| fmran (guest_sessions s) then (s, Inl Forbidden)
      else let k = room_key lc name in
        case fmlookup (rooms s) k of
          None \<Rightarrow> (s, Inl (NoSuchRoom name))
        | Some r \<Rightarrow>
            if \<not> can_moderate r by_account by_mod then (s, Inl Forbidden)
            else if created_by_account r = target then (s, Inl Forbidden)
            else let until = map_option (\<lambda>d. sat_add64 now (min d U64_MAX)) duration;
                     r = r\<lparr>muted := fmupd target until (muted r),
                           muted_as := fmupd target target_name (muted_as r)\<rparr>
                 in (publish (RoomMuted target target_name name True
                        (map_option (\<lambda>d. min (div_ceil d 1000) U32_MAX) duration)) (put_room k r s),
                     Inr ()))"

definition unmute :: "(str \<Rightarrow> str) \<Rightarrow> chat_service \<Rightarrow> str \<Rightarrow> int \<Rightarrow> bool \<Rightarrow> int \<Rightarrow> str \<Rightarrow> nat \<Rightarrow>
    bool chat_result" where
  "unmute lc s name by_account by_mod target target_name now =
     (let k = room_key lc name in
      case fmlookup (rooms s) k of
        None \<Rightarrow> (s, Inl (NoSuchRoom name))
      | Some r \<Rightarrow>
          if \<not> can_moderate r by_account by_mod then (s, Inl Forbidden)
          else let (r, was_muted) = muted_now r target now;
                   r = r\<lparr>muted := fmdrop target (muted r), muted_as := fmdrop target (muted_as r)\<rparr>;
                   s = put_room k r s
               in (if was_muted then publish (RoomMuted target target_name name False None) s else s,
                   Inr was_muted))"

definition is_muted :: "(str \<Rightarrow> str) \<Rightarrow> chat_service \<Rightarrow> str \<Rightarrow> int \<Rightarrow> nat \<Rightarrow> chat_service \<times> bool" where
  "is_muted lc s name account now =
     (let k = room_key lc name in
      case fmlookup (rooms s) k of
        None \<Rightarrow> (s, False)
      | Some r \<Rightarrow> let (r, m) = muted_now r account now in (put_room k r s, m))"

definition set_slow_mode :: "(str \<Rightarrow> str) \<Rightarrow> chat_service \<Rightarrow> str \<Rightarrow> nat \<Rightarrow> int \<Rightarrow> bool \<Rightarrow> nat chat_result" where
  "set_slow_mode lc s name seconds by_account by_mod =
     (let k = room_key lc name in
      case fmlookup (rooms s) k of
        None \<Rightarrow> (s, Inl (NoSuchRoom name))
      | Some r \<Rightarrow>
          if \<not> can_moderate r by_account by_mod then (s, Inl Forbidden)
          else let applied = min seconds MAX_SLOW_MODE_SECS;
                   r = r\<lparr>slow_secs := applied\<rparr>;
                   r = (if applied = 0 then r\<lparr>last_sent_ms := fmempty\<rparr> else r)
               in (put_room k r s, Inr applied))"

definition slow_mode_secs :: "(str \<Rightarrow> str) \<Rightarrow> chat_service \<Rightarrow> str \<Rightarrow> nat" where
  "slow_mode_secs lc s name =
     (case fmlookup (rooms s) (room_key lc name) of None \<Rightarrow> 0 | Some r \<Rightarrow> slow_secs r)"

definition member_sessions :: "(str \<Rightarrow> str) \<Rightarrow> chat_service \<Rightarrow> str \<Rightarrow> (nat \<times> str) list" where
  "member_sessions lc s name =
     (case fmlookup (rooms s) (room_key lc name) of None \<Rightarrow> [] | Some r \<Rightarrow> sorted_pairs (rmembers r))"

definition audience_for_session :: "chat_service \<Rightarrow> nat \<Rightarrow> room_audience" where
  "audience_for_session s sid =
     fold include_audience
       (filter (\<lambda>r. fmlookup (rmembers r) sid \<noteq> None) (map snd (sorted_pairs (rooms s)))) no_audience"

text \<open>The expiry pass of \<open>keeping\<close>: live mutes stay, and the names of the rest go.\<close>

definition prune_mutes :: "nat \<Rightarrow> room \<Rightarrow> room" where
  "prune_mutes now r =
     (let live = fmfilter (\<lambda>a. case fmlookup (muted r) a of Some (Some until) \<Rightarrow> until > now | _ \<Rightarrow> True) (muted r)
      in r\<lparr>muted := live, muted_as := fmfilter (\<lambda>a. a |\<in>| fmdom live) (muted_as r)\<rparr>)"

definition keeping :: "(str \<Rightarrow> str) \<Rightarrow> chat_service \<Rightarrow> str \<Rightarrow> nat \<Rightarrow> int \<Rightarrow> bool \<Rightarrow> nat \<Rightarrow>
    room_keeping chat_result" where
  "keeping lc s name viewer_session viewer_account viewer_mod now =
     (let k = room_key lc name in
      case fmlookup (rooms s) k of
        None \<Rightarrow> (s, Inl (NoSuchRoom name))
      | Some r \<Rightarrow>
          if is_private r \<and> fmlookup (rmembers r) viewer_session = None then (s, Inl NotMember)
          else let r = prune_mutes now r;
                   may = can_moderate r viewer_account viewer_mod
               in (put_room k r s,
                   Inr \<lparr>keep_slow = slow_secs r, may_moderate = may,
                        keep_members = (if may then sorted_pairs (rmembers r) else []),
                        keep_muted =
                          map (\<lambda>(a, until).
                                (a, (case fmlookup (muted_as r) a of Some n \<Rightarrow> n | None \<Rightarrow> []),
                                 map_option (\<lambda>u. u - now) until))
                            (filter (\<lambda>(a, until). may \<or> a = viewer_account) (sorted_pairs (muted r)))\<rparr>))"

definition members :: "(str \<Rightarrow> str) \<Rightarrow> chat_service \<Rightarrow> str \<Rightarrow> nat \<Rightarrow> chat_error + str list" where
  "members lc s name viewer_session =
     (case fmlookup (rooms s) (room_key lc name) of
        None \<Rightarrow> Inl (NoSuchRoom name)
      | Some r \<Rightarrow>
          if is_private r \<and> fmlookup (rmembers r) viewer_session = None then Inl NotMember
          else Inr (sort (map snd (sorted_pairs (rmembers r)))))"

text \<open>The slow-mode gate: the seconds left to wait, if the sender must wait.\<close>

definition slow_wait :: "room \<Rightarrow> sender \<Rightarrow> nat \<Rightarrow> nat option" where
  "slow_wait r who now =
     (if can_moderate r (sender_account who) (is_moderator who) then None
      else case fmlookup (last_sent_ms r) (sender_account who) of
        None \<Rightarrow> None
      | Some prev \<Rightarrow>
          let wait_ms = sat_mul64 (slow_secs r) 1000; elapsed = now - prev in
          if elapsed < wait_ms then Some (min (div_ceil (wait_ms - elapsed) 1000) U32_MAX) else None)"

text \<open>Append a line, dropping the oldest when the scrollback is full.\<close>

definition append_line :: "chat_line \<Rightarrow> room \<Rightarrow> room" where
  "append_line l r =
     r\<lparr>rhistory := (if length (rhistory r) = SCROLLBACK then tl (rhistory r) else rhistory r) @ [l]\<rparr>"

definition last_stamp :: "room \<Rightarrow> int option" where
  "last_stamp r = (if rhistory r = [] then None else Some (at_unix_ms (last (rhistory r))))"

definition send :: "(str \<Rightarrow> str) \<Rightarrow> chat_service \<Rightarrow> str \<Rightarrow> sender \<Rightarrow> str \<Rightarrow> nat \<Rightarrow> int \<Rightarrow>
    chat_line chat_result" where
  "send lc s name who text now wall =
     (let text = trim_end text in
      if trim text = [] then (s, Inl EmptyMessage)
      else if str_len text > max_len s then (s, Inl (TooLong (str_len text) (max_len s)))
      else let k = room_key lc name in
        case fmlookup (rooms s) k of
          None \<Rightarrow> (s, Inl (NoSuchRoom name))
        | Some r \<Rightarrow>
            if fmlookup (rmembers r) (session_id who) = None then (s, Inl NotMember)
            else let (r, m) = muted_now r (sender_account who) now in
              if m then (put_room k r s, Inl Muted)
              else case (if slow_secs r > 0 then slow_wait r who now else None) of
                Some secs \<Rightarrow> (put_room k r s, Inl (SlowMode secs))
              | None \<Rightarrow>
                  let r = (if slow_secs r > 0
                           then r\<lparr>last_sent_ms := fmupd (sender_account who) now (last_sent_ms r)\<rparr> else r);
                      line = \<lparr>cl_room = rname r, cl_from = screen_name who, cl_text = text,
                              at_unix_ms = next_chat_timestamp (last_stamp r) wall\<rparr>;
                      r = append_line line r
                  in (publish (ChatSaid (cl_room line) (cl_from line) (cl_text line) (at_unix_ms line))
                        (put_room k r s), Inr line))"

definition history :: "(str \<Rightarrow> str) \<Rightarrow> chat_service \<Rightarrow> str \<Rightarrow> nat \<Rightarrow> nat \<Rightarrow> chat_error + chat_line list" where
  "history lc s name viewer_session limit =
     (case fmlookup (rooms s) (room_key lc name) of
        None \<Rightarrow> Inl (NoSuchRoom name)
      | Some r \<Rightarrow>
          if is_private r \<and> fmlookup (rmembers r) viewer_session = None then Inl NotMember
          else Inr (drop (length (rhistory r) - limit) (rhistory r)))"

end
