(* ===== verification/Chat_Correct.thy ===== *)
theory Chat_Correct
  imports Chat
begin

text \<open>
  What the chat service guarantees. The invariant \<open>chat_inv\<close> ties the room map, the mute tables,
  the scrollback and the guest table together; every operation keeps it, so it holds in every
  state reachable from start-up under any sequence of calls. On top of it: what an accepted line
  does, when it is refused, how mutes and slow mode run against the clock, who may look into a
  private room, and what closing a session leaves behind.
\<close>

section \<open>The bus\<close>

lemma publish_simps [simp]:
  "guest_sessions (publish e s) = guest_sessions s" "rooms (publish e s) = rooms s"
  "max_len (publish e s) = max_len s" "bus (publish e s) = bus s @ [e]"
  by (simp_all add: publish_def)

lemma put_room_simps [simp]:
  "guest_sessions (put_room k r s) = guest_sessions s" "max_len (put_room k r s) = max_len s"
  "bus (put_room k r s) = bus s" "rooms (put_room k r s) = fmupd k r (rooms s)"
  by (simp_all add: put_room_def)

lemma drop_room_simps [simp]:
  "guest_sessions (drop_room k s) = guest_sessions s" "max_len (drop_room k s) = max_len s"
  "bus (drop_room k s) = bus s" "rooms (drop_room k s) = fmdrop k (rooms s)"
  by (simp_all add: drop_room_def)

interpretation chat_bus: event_log publish bus "\<lambda>s. (guest_sessions s, rooms s, max_len s)"
  by unfold_locales simp_all

section \<open>The invariant\<close>

definition room_ok :: "(str \<Rightarrow> str) \<Rightarrow> str \<Rightarrow> room \<Rightarrow> bool" where
  "room_ok lc k r \<longleftrightarrow>
     k = room_key lc (rname r) \<and> (persistent r \<or> rmembers r \<noteq> fmempty) \<and>
     (k = room_key lc LOBBY \<longrightarrow> persistent r) \<and>
     slow_secs r \<le> MAX_SLOW_MODE_SECS \<and> (slow_secs r = 0 \<longrightarrow> last_sent_ms r = fmempty) \<and>
     created_by_account r |\<notin>| banned r"

text \<open>Stamps increase strictly until the clock type saturates.\<close>

definition stamp_before :: "chat_line \<Rightarrow> chat_line \<Rightarrow> bool" where
  "stamp_before a b \<longleftrightarrow> at_unix_ms a < at_unix_ms b \<or> at_unix_ms a = I64_MAX \<and> at_unix_ms b = I64_MAX"

definition history_ok :: "room \<Rightarrow> bool" where
  "history_ok r \<longleftrightarrow>
     length (rhistory r) \<le> SCROLLBACK \<and> sorted_wrt stamp_before (rhistory r) \<and>
     (\<forall>l \<in> set (rhistory r). cl_room l = rname r \<and> at_unix_ms l \<le> I64_MAX)"

definition mute_ok :: "(nat, int) fmap \<Rightarrow> room \<Rightarrow> bool" where
  "mute_ok guests r \<longleftrightarrow>
     fmdom (muted_as r) = fmdom (muted r) \<and> created_by_account r |\<notin>| fmdom (muted r) \<and>
     (\<forall>a. a |\<in>| fmdom (muted r) \<and> a < 0 \<longrightarrow> a |\<in>| fmran guests)"

definition room_good :: "(str \<Rightarrow> str) \<Rightarrow> (nat, int) fmap \<Rightarrow> str \<Rightarrow> room \<Rightarrow> bool" where
  "room_good lc guests k r \<longleftrightarrow> room_ok lc k r \<and> history_ok r \<and> mute_ok guests r"

definition chat_inv :: "(str \<Rightarrow> str) \<Rightarrow> chat_service \<Rightarrow> bool" where
  "chat_inv lc s \<longleftrightarrow>
     fmlookup (rooms s) (room_key lc LOBBY) \<noteq> None \<and>
     (\<forall>k r. fmlookup (rooms s) k = Some r \<longrightarrow> room_good lc (guest_sessions s) k r) \<and>
     (\<forall>sid a. fmlookup (guest_sessions s) sid = Some a \<longrightarrow> a < 0)"

lemmas good_defs = room_good_def room_ok_def history_ok_def mute_ok_def

lemma chat_inv_good: "chat_inv lc s \<Longrightarrow> fmlookup (rooms s) k = Some r \<Longrightarrow> room_good lc (guest_sessions s) k r"
  by (simp add: chat_inv_def)

lemma chat_inv_publish [simp]: "chat_inv lc (publish e s) = chat_inv lc s"
  by (simp add: chat_inv_def)

lemma chat_inv_put:
  "chat_inv lc s \<Longrightarrow> room_good lc (guest_sessions s) k r \<Longrightarrow> chat_inv lc (put_room k r s)"
  by (auto simp: chat_inv_def)

lemma chat_inv_drop:
  "chat_inv lc s \<Longrightarrow> k \<noteq> room_key lc LOBBY \<Longrightarrow> chat_inv lc (drop_room k s)"
  by (auto simp: chat_inv_def)

lemma chat_inv_new: "chat_inv lc (chat_new lc n)"
  by (simp add: chat_inv_def chat_new_def lobby_room_def good_defs MAX_SLOW_MODE_SECS_def SCROLLBACK_def)

lemma fmdrop_empty_members: "fmlookup m x \<noteq> None \<Longrightarrow> m \<noteq> fmempty"
  by auto

section \<open>Every operation keeps the invariant\<close>

lemma muted_now_good: "room_good lc g k r \<Longrightarrow> room_good lc g k (fst (muted_now r a now))"
  by (auto simp: muted_now_def good_defs split: option.splits)

lemma good_members:
  "room_good lc g k r \<Longrightarrow> persistent r \<or> m \<noteq> fmempty \<Longrightarrow> room_good lc g k (r\<lparr>rmembers := m\<rparr>)"
  by (auto simp: good_defs)

lemma join_lobby_inv:
  assumes "chat_inv lc s" "fmlookup (guest_sessions s) sid \<in> {None, Some account}"
  shows "chat_inv lc (join_lobby lc s sid account name)"
proof -
  let ?s = "if account < 0 then s\<lparr>guest_sessions := fmupd sid account (guest_sessions s)\<rparr> else s"
  have ran: "a |\<in>| fmran (guest_sessions ?s)" if "a |\<in>| fmran (guest_sessions s)" for a
  proof -
    from that obtain x where "fmlookup (guest_sessions s) x = Some a" by (auto simp: fmlookup_ran_iff)
    with assms(2) show ?thesis by (cases "x = sid") (auto simp: fmran_upd_iff fmlookup_ran_iff)
  qed
  have "chat_inv lc ?s"
    using assms(1) ran by (fastforce simp: chat_inv_def good_defs)
  then show ?thesis
    using chat_inv_good[of lc ?s]
    by (auto simp: join_lobby_def Let_def intro!: chat_inv_put good_members split: option.splits)
qed

text \<open>Closing a session, room by room: what one visited room becomes.\<close>

definition closed_room :: "nat \<Rightarrow> int \<Rightarrow> bool \<Rightarrow> room \<Rightarrow> room option" where
  "closed_room sid account final_guest r =
     (let r = r\<lparr>rmembers := fmdrop sid (rmembers r)\<rparr>;
          r' = (if final_guest
                then r\<lparr>muted := fmdrop account (muted r), muted_as := fmdrop account (muted_as r)\<rparr> else r)
      in if persistent r \<or> rmembers r \<noteq> fmempty then Some r' else None)"

lemma close_room_lookup:
  "fmlookup (fst (close_room sid account fg k acc)) k' =
    (if k' = k then Option.bind (fmlookup (fst acc) k) (closed_room sid account fg)
     else fmlookup (fst acc) k')"
proof -
  obtain rs lifted au ch where acc: "acc = (rs, lifted, au, ch)" by (cases acc) auto
  have idle: "r\<lparr>rmembers := fmdrop sid (rmembers r)\<rparr> = r" if "fmlookup (rmembers r) sid = None" for r :: room
    using that by (simp add: fmdrop_absent)
  show ?thesis
    by (auto simp: close_room_def acc closed_room_def Let_def idle fmdrop_absent split: option.splits)
qed

lemma fold_close_room_lookup:
  "distinct ks \<Longrightarrow>
   fmlookup (fst (fold (close_room sid account fg) ks acc)) k =
     (if k \<in> set ks then Option.bind (fmlookup (fst acc) k) (closed_room sid account fg)
      else fmlookup (fst acc) k)"
  by (induction ks arbitrary: acc) (auto simp: close_room_lookup)

definition final_guest_of :: "chat_service \<Rightarrow> nat \<Rightarrow> int \<Rightarrow> bool" where
  "final_guest_of s sid account \<longleftrightarrow> account < 0 \<and> account |\<notin>| fmran (fmdrop sid (guest_sessions s))"

lemma session_closed_state:
  "guest_sessions (session_closed ks s sid account) = fmdrop sid (guest_sessions s)"
  "max_len (session_closed ks s sid account) = max_len s"
  "rooms (session_closed ks s sid account) =
     fst (fold (close_room sid account (final_guest_of s sid account)) ks (rooms s, [], no_audience, False))"
proof -
  obtain rs lifted au ch where f:
    "fold (close_room sid account (final_guest_of s sid account)) ks (rooms s, [], no_audience, False) =
       (rs, lifted, au, ch)" by (metis prod_cases4)
  let ?s1 = "s\<lparr>guest_sessions := fmdrop sid (guest_sessions s), rooms := rs\<rparr>"
  let ?s2 = "if ch then publish (RoomsChanged au) ?s1 else ?s1"
  have "session_closed ks s sid account =
      fold (\<lambda>x. publish (RoomMuted account (snd x) (fst x) False None)) lifted ?s2"
    using f by (simp add: session_closed_def final_guest_of_def Let_def case_prod_unfold)
  then have "(guest_sessions (session_closed ks s sid account), rooms (session_closed ks s sid account),
      max_len (session_closed ks s sid account)) = (fmdrop sid (guest_sessions s), rs, max_len s)"
    by (simp only: chat_bus.rest_fold) simp
  then show "guest_sessions (session_closed ks s sid account) = fmdrop sid (guest_sessions s)"
    "max_len (session_closed ks s sid account) = max_len s"
    "rooms (session_closed ks s sid account) =
       fst (fold (close_room sid account (final_guest_of s sid account)) ks (rooms s, [], no_audience, False))"
    by (simp_all add: f)
qed

lemma session_closed_lookup:
  assumes "distinct ks" "set ks = fset (fmdom (rooms s))"
  shows "fmlookup (rooms (session_closed ks s sid account)) k =
    Option.bind (fmlookup (rooms s) k) (closed_room sid account (final_guest_of s sid account))"
  using assms by (auto simp: session_closed_state fold_close_room_lookup fmdom_notD)

lemma closed_room_good:
  assumes good: "room_good lc g k r" and closed: "closed_room sid account fg r = Some r'"
    and fg: "fg \<longleftrightarrow> account < 0 \<and> account |\<notin>| fmran (fmdrop sid g)"
    and own: "fmlookup g sid \<in> {None, Some account}"
  shows "room_good lc (fmdrop sid g) k r'"
proof -
  have other: "a |\<in>| fmran (fmdrop sid g)" if "a |\<in>| fmran g" "a \<noteq> account" for a
    using that own unfolding fmran_drop_iff fmlookup_ran_iff by fastforce
  then have ran: "a |\<in>| fmran (fmdrop sid g)" if "a |\<in>| fmran g" "a < 0" "a \<noteq> account \<or> \<not> fg" for a
    using that fg by (cases "a = account") auto
  have mute: "mute_ok (fmdrop sid g) r'"
    using good closed ran
    by (auto simp: room_good_def mute_ok_def closed_room_def Let_def split: if_splits)
  with good closed show ?thesis
    by (auto simp: room_good_def room_ok_def history_ok_def closed_room_def Let_def split: if_splits)
qed

lemma session_closed_inv:
  assumes "chat_inv lc s" "distinct ks" "set ks = fset (fmdom (rooms s))"
    and own: "fmlookup (guest_sessions s) sid \<in> {None, Some account}"
  shows "chat_inv lc (session_closed ks s sid account)"
proof -
  note lk = session_closed_lookup[OF assms(2,3), of sid account]
  obtain l where l: "fmlookup (rooms s) (room_key lc LOBBY) = Some l"
    using assms(1) by (auto simp: chat_inv_def)
  then have "persistent l" using chat_inv_good[OF assms(1)] by (auto simp: good_defs)
  then have "fmlookup (rooms (session_closed ks s sid account)) (room_key lc LOBBY) \<noteq> None"
    by (simp add: lk l closed_room_def Let_def)
  moreover have "room_good lc (fmdrop sid (guest_sessions s)) k r'"
    if r': "fmlookup (rooms (session_closed ks s sid account)) k = Some r'" for k r'
  proof -
    from r' lk obtain r where r: "fmlookup (rooms s) k = Some r"
      and c: "closed_room sid account (final_guest_of s sid account) r = Some r'"
      by (auto simp: bind_eq_Some_conv)
    show ?thesis
      by (rule closed_room_good[OF chat_inv_good[OF assms(1) r] c final_guest_of_def own])
  qed
  moreover have "\<forall>i a. fmlookup (fmdrop sid (guest_sessions s)) i = Some a \<longrightarrow> a < 0"
    using assms(1) by (auto simp: chat_inv_def)
  ultimately show ?thesis by (simp add: chat_inv_def session_closed_state)
qed

lemma fmupd_not_empty [simp]: "fmupd k v m \<noteq> fmempty"
  by (metis fmempty_lookup fmupd_lookup option.distinct(1))

lemma create_inv:
  assumes "chat_inv lc s"
  shows "chat_inv lc (fst (create lc s name cat subj priv account creator sid))"
  using assms chat_inv_good[OF assms]
  by (auto simp: create_def Let_def new_room_def good_defs MAX_SLOW_MODE_SECS_def SCROLLBACK_def
      intro!: chat_inv_put) (auto simp: chat_inv_def)

lemma join_inv:
  assumes "chat_inv lc s"
  shows "chat_inv lc (fst (join lc s name sid account nick))"
  using assms chat_inv_good[OF assms]
  by (auto simp: join_def Let_def intro!: chat_inv_put good_members split: option.splits)

lemma leave_inv:
  assumes "chat_inv lc s"
  shows "chat_inv lc (fst (leave lc s name sid))"
  using assms chat_inv_good[OF assms]
  by (auto simp: leave_def Let_def intro!: chat_inv_put chat_inv_drop good_members 
      split: option.splits)

lemma invite_good:
  "room_good lc g k r \<Longrightarrow> room_good lc g k (r\<lparr>invited := i, banned := banned r |-| b\<rparr>)"
  by (auto simp: good_defs)

lemma invite_inv:
  assumes "chat_inv lc s"
  shows "chat_inv lc (fst (invite lc s name inviter target))"
  using assms chat_inv_good[OF assms]
  by (auto simp: invite_def Let_def intro!: chat_inv_put invite_good split: option.splits)

lemma set_topic_inv:
  assumes "chat_inv lc s"
  shows "chat_inv lc (fst (set_topic lc s name subj account is_mod))"
  using assms chat_inv_good[OF assms]
  by (auto simp: set_topic_def Let_def good_defs intro!: chat_inv_put
      split: option.splits)

lemma drop_put_room [simp]: "drop_room k (put_room k r s) = drop_room k s"
  by (simp add: drop_room_def put_room_def)

lemma kick_sessions_none: "kick_sessions xs m = (m', []) \<Longrightarrow> m' = m"
  by (induction xs m rule: kick_sessions.induct) (auto split: if_splits prod.splits)

lemma kicked_room_simps [simp]:
  "persistent (kicked_room r ms target ban) = persistent r" "rmembers (kicked_room r ms target ban) = ms"
  by (simp_all add: kicked_room_def Let_def)

lemma kicked_room_good:
  "room_good lc g k r \<Longrightarrow> created_by_account r \<noteq> target \<Longrightarrow> persistent r \<or> ms \<noteq> fmempty \<Longrightarrow>
   room_good lc g k (kicked_room r ms target ban)"
  by (auto simp: kicked_room_def Let_def good_defs)

lemma kick_inv:
  assumes inv: "chat_inv lc s"
  shows "chat_inv lc (fst (kick lc s name by_account by_mod target sessions ban))"
proof (cases "fmlookup (rooms s) (room_key lc name)")
  case None
  with inv show ?thesis by (simp add: kick_def Let_def)
next
  case (Some r)
  let ?k = "room_key lc name"
  note good = chat_inv_good[OF inv Some]
  obtain ms kicked where ks: "kick_sessions sessions (rmembers r) = (ms, kicked)" by fastforce
  have alive: "persistent r \<or> ms \<noteq> fmempty" if "kicked = []"
    using ks that good kick_sessions_none by (fastforce simp: good_defs)
  have lobby: "\<not> persistent r \<Longrightarrow> ?k \<noteq> room_key lc LOBBY"
    using good by (auto simp: good_defs)
  show ?thesis
    using inv Some ks chat_inv_put[OF inv kicked_room_good[OF good, of target ms ban]] alive
      chat_inv_drop[OF inv lobby]
    by (auto simp: kick_def Let_def)
qed

lemma mute_inv:
  assumes "chat_inv lc s"
  shows "chat_inv lc (fst (mute lc s name by_account by_mod target tname dur now))"
  using assms chat_inv_good[OF assms]
  by (auto simp: mute_def Let_def good_defs intro!: chat_inv_put split: option.splits)

lemma unmute_good:
  "room_good lc g k r \<Longrightarrow> room_good lc g k (r\<lparr>muted := fmdrop a (muted r), muted_as := fmdrop a (muted_as r)\<rparr>)"
  by (auto simp: good_defs)

lemma unmute_inv:
  assumes "chat_inv lc s"
  shows "chat_inv lc (fst (unmute lc s name by_account by_mod target tname now))"
  using assms chat_inv_good[OF assms]
  by (auto simp: unmute_def Let_def case_prod_unfold
      intro!: chat_inv_put unmute_good muted_now_good split: option.splits)

lemma is_muted_inv:
  assumes "chat_inv lc s"
  shows "chat_inv lc (fst (is_muted lc s name account now))"
  using assms chat_inv_good[OF assms]
  by (auto simp: is_muted_def Let_def case_prod_unfold
      intro!: chat_inv_put muted_now_good split: option.splits)

lemma set_slow_mode_inv:
  assumes "chat_inv lc s"
  shows "chat_inv lc (fst (set_slow_mode lc s name secs by_account by_mod))"
  using assms chat_inv_good[OF assms]
  by (auto simp: set_slow_mode_def Let_def good_defs intro!: chat_inv_put
      split: option.splits)

lemma prune_good: "room_good lc g k r \<Longrightarrow> room_good lc g k (prune_mutes now r)"
  by (auto simp: prune_mutes_def Let_def good_defs)

lemma keeping_inv:
  assumes "chat_inv lc s"
  shows "chat_inv lc (fst (keeping lc s name vs va vm now))"
  using assms chat_inv_good[OF assms]
  by (auto simp: keeping_def Let_def intro!: chat_inv_put prune_good split: option.splits)

text \<open>A stamped line goes after every line of the scrollback.\<close>

lemma stamp_after:
  assumes h: "history_ok r" and l: "l \<in> set (rhistory r)" and w: "wall \<le> I64_MAX"
    and t: "at_unix_ms m = next_chat_timestamp (last_stamp r) wall"
  shows "stamp_before l m" "at_unix_ms m \<le> I64_MAX"
proof -
  from l have ne: "rhistory r \<noteq> []" by auto
  then obtain hs z where hz: "rhistory r = hs @ [z]" by (metis rev_exhaust)
  from h hz l have lz: "l = z \<or> stamp_before l z" and zb: "at_unix_ms z \<le> I64_MAX"
    by (auto simp: history_ok_def sorted_wrt_append)
  have m: "at_unix_ms m = max wall (min (at_unix_ms z + 1) I64_MAX)"
    using t ne hz by (simp add: last_stamp_def next_chat_timestamp_def)
  from m w show "at_unix_ms m \<le> I64_MAX" by simp
  from m w zb have "stamp_before z m" by (auto simp: stamp_before_def)
  with lz show "stamp_before l m" by (auto simp: stamp_before_def)
qed

lemma append_line_ok:
  assumes h: "history_ok r" and w: "wall \<le> I64_MAX" and n: "cl_room m = rname r"
    and t: "at_unix_ms m = next_chat_timestamp (last_stamp r) wall"
  shows "history_ok (append_line m r)"
proof -
  let ?old = "if length (rhistory r) = SCROLLBACK then tl (rhistory r) else rhistory r"
  have sub: "set ?old \<subseteq> set (rhistory r)" by (cases "rhistory r") auto
  have bound: "at_unix_ms m \<le> I64_MAX"
  proof (cases "rhistory r = []")
    case True
    with t w show ?thesis by (simp add: last_stamp_def next_chat_timestamp_def)
  next
    case False
    then show ?thesis using stamp_after(2)[OF h _ w t] last_in_set by blast
  qed
  have "sorted_wrt stamp_before ?old"
    using h by (cases "rhistory r") (auto simp: history_ok_def)
  moreover have "\<forall>l \<in> set ?old. stamp_before l m"
    using stamp_after(1)[OF h _ w t] sub by blast
  moreover have "length ?old < SCROLLBACK"
    using h by (auto simp: history_ok_def SCROLLBACK_def)
  ultimately show ?thesis
    using h sub bound n by (auto simp: history_ok_def append_line_def sorted_wrt_append)
qed

lemma send_good:
  assumes "room_good lc g k r" "wall \<le> I64_MAX"
  shows "room_good lc g k (append_line \<lparr>cl_room = rname r, cl_from = f, cl_text = t,
    at_unix_ms = next_chat_timestamp (last_stamp r) wall\<rparr> r)"
  using assms append_line_ok[of r wall]
  by (auto simp: room_good_def room_ok_def mute_ok_def append_line_def)

lemma sent_clock_good:
  "room_good lc g k r \<Longrightarrow> 0 < slow_secs r \<Longrightarrow> room_good lc g k (r\<lparr>last_sent_ms := m\<rparr>)"
  by (auto simp: good_defs)

lemma last_stamp_sent [simp]: "last_stamp (r\<lparr>last_sent_ms := m\<rparr>) = last_stamp r"
  by (simp add: last_stamp_def)

lemma send_inv:
  assumes inv: "chat_inv lc s" and w: "wall \<le> I64_MAX"
  shows "chat_inv lc (fst (send lc s name who txt now wall))"
proof (cases "fmlookup (rooms s) (room_key lc name)")
  case None
  with inv show ?thesis by (simp add: send_def Let_def)
next
  case (Some r)
  let ?k = "room_key lc name" and ?a = "sender_account who"
  define r1 where "r1 = fst (muted_now r ?a now)"
  have good: "room_good lc (guest_sessions s) ?k r1"
    unfolding r1_def by (rule muted_now_good[OF chat_inv_good[OF inv Some]])
  have clocked: "room_good lc (guest_sessions s) ?k (r1\<lparr>last_sent_ms := fmupd ?a now (last_sent_ms r1)\<rparr>)"
    if "0 < slow_secs r1"
    using good that by (rule sent_clock_good)
  show ?thesis
    using inv Some chat_inv_put[OF inv good] chat_inv_put[OF inv send_good[OF good w]]
      chat_inv_put[OF inv send_good[OF clocked w]]
    by (auto simp: send_def Let_def case_prod_unfold r1_def[symmetric] split: option.splits)
qed

section \<open>Reachable states\<close>

text \<open>
  One rule per operation that changes state. The session layer's side of the contract is in the
  premises: a session id is opened and closed under one account, the wall clock is an \<open>i64\<close>, and
  the hash map is visited in some order without repetition.
\<close>

inductive chat_step :: "(str \<Rightarrow> str) \<Rightarrow> chat_service \<Rightarrow> chat_service \<Rightarrow> bool" for lc where
  open_session: "fmlookup (guest_sessions s) sid \<in> {None, Some account} \<Longrightarrow>
    chat_step lc s (join_lobby lc s sid account nick)"
| close_session: "fmlookup (guest_sessions s) sid \<in> {None, Some account} \<Longrightarrow> distinct ks \<Longrightarrow>
    set ks = fset (fmdom (rooms s)) \<Longrightarrow> chat_step lc s (session_closed ks s sid account)"
| create: "chat_step lc s (fst (create lc s name cat subj priv account creator sid))"
| join: "chat_step lc s (fst (join lc s name sid account nick))"
| leave: "chat_step lc s (fst (leave lc s name sid))"
| invite: "chat_step lc s (fst (invite lc s name sid target))"
| set_topic: "chat_step lc s (fst (set_topic lc s name subj account is_mod))"
| kick: "chat_step lc s (fst (kick lc s name by_account by_mod target sessions ban))"
| mute: "chat_step lc s (fst (mute lc s name by_account by_mod target tname dur now))"
| unmute: "chat_step lc s (fst (unmute lc s name by_account by_mod target tname now))"
| is_muted: "chat_step lc s (fst (is_muted lc s name account now))"
| set_slow: "chat_step lc s (fst (set_slow_mode lc s name secs by_account by_mod))"
| keeping: "chat_step lc s (fst (keeping lc s name vs va vm now))"
| send: "wall \<le> I64_MAX \<Longrightarrow> chat_step lc s (fst (send lc s name who txt now wall))"

inductive chat_reachable :: "(str \<Rightarrow> str) \<Rightarrow> chat_service \<Rightarrow> bool" for lc where
  start: "chat_reachable lc (chat_new lc n)"
| step: "chat_reachable lc s \<Longrightarrow> chat_step lc s s' \<Longrightarrow> chat_reachable lc s'"

lemma chat_step_inv: "chat_step lc s s' \<Longrightarrow> chat_inv lc s \<Longrightarrow> chat_inv lc s'"
  by (induction rule: chat_step.induct)
    (simp_all only: join_lobby_inv session_closed_inv create_inv join_inv leave_inv invite_inv
      set_topic_inv kick_inv mute_inv unmute_inv is_muted_inv set_slow_mode_inv keeping_inv send_inv)

lemma chat_reachable_chat_inv: "chat_reachable lc s \<Longrightarrow> chat_inv lc s"
  by (induction rule: chat_reachable.induct) (auto intro: chat_inv_new chat_step_inv)

section \<open>What the service guarantees\<close>

text \<open>
  C2. Every state reachable from start-up satisfies the invariant: the lobby exists and is
  persistent; an ad-hoc room has at least one member; a room's key is the key of its name; the
  scrollback holds at most 500 lines, all of that room, with strictly increasing stamps; a
  creator is neither banned nor muted; every mute has the name it was made under; a guest's mute
  exists only while a session of that guest does; slow-mode clocks exist only while slow mode is
  on, and the interval is at most an hour.
\<close>

theorem chat_reachable_inv: "chat_reachable lc s \<Longrightarrow> chat_inv lc s"
  by (rule chat_reachable_chat_inv)

text \<open>A mute as the clock sees it.\<close>

definition muted_at :: "room \<Rightarrow> int \<Rightarrow> nat \<Rightarrow> bool" where
  "muted_at r a now \<longleftrightarrow>
     (case fmlookup (muted r) a of None \<Rightarrow> False | Some None \<Rightarrow> True | Some (Some until) \<Rightarrow> now < until)"

lemma snd_muted_now [simp]: "snd (muted_now r a now) = muted_at r a now"
  by (auto simp: muted_now_def muted_at_def split: option.splits)

lemma fst_muted_now [simp]:
  "rname (fst (muted_now r a now)) = rname r" "rmembers (fst (muted_now r a now)) = rmembers r"
  "rhistory (fst (muted_now r a now)) = rhistory r" "slow_secs (fst (muted_now r a now)) = slow_secs r"
  "last_sent_ms (fst (muted_now r a now)) = last_sent_ms r"
  "is_private (fst (muted_now r a now)) = is_private r"
  "created_by_account (fst (muted_now r a now)) = created_by_account r"
  by (auto simp: muted_now_def split: option.splits)

lemma muted_now_cleared: "\<not> muted_at r a now \<Longrightarrow> fmlookup (muted (fst (muted_now r a now))) a = None"
  by (auto simp: muted_now_def muted_at_def split: option.splits)

lemma last_stamp_muted_now [simp]: "last_stamp (fst (muted_now r a now)) = last_stamp r"
  by (simp add: last_stamp_def)

lemma append_line_simps [simp]:
  "rmembers (append_line l r) = rmembers r" "muted (append_line l r) = muted r"
  "slow_secs (append_line l r) = slow_secs r" "last_sent_ms (append_line l r) = last_sent_ms r"
  "created_by_account (append_line l r) = created_by_account r"
  "is_private (append_line l r) = is_private r"
  by (simp_all add: append_line_def)

text \<open>The accepted case of \<open>send\<close>, taken apart once.\<close>

lemma send_accepted:
  assumes "send lc s name who txt now wall = (s', Inr line)"
  obtains r r1 r2 where "fmlookup (rooms s) (room_key lc name) = Some r"
    "fmlookup (rmembers r) (session_id who) \<noteq> None" "\<not> muted_at r (sender_account who) now"
    "r1 = fst (muted_now r (sender_account who) now)"
    "r2 = (if slow_secs r > 0 then r1\<lparr>last_sent_ms := fmupd (sender_account who) now (last_sent_ms r)\<rparr> else r1)"
    "slow_secs r > 0 \<Longrightarrow> slow_wait r1 who now = None"
    "line = \<lparr>cl_room = rname r, cl_from = screen_name who, cl_text = trim_end txt,
       at_unix_ms = next_chat_timestamp (last_stamp r) wall\<rparr>"
    "s' = publish (ChatSaid (rname r) (screen_name who) (trim_end txt) (at_unix_ms line))
       (put_room (room_key lc name) (append_line line r2) s)"
    "trim (trim_end txt) \<noteq> []" "str_len (trim_end txt) \<le> max_len s"
  using assms
  by (auto simp: send_def Let_def case_prod_unfold split: if_splits option.splits)

text \<open>
  C3. An accepted line was sent by a member who is not muted and is not blank or too long. It is
  appended to the room's scrollback (the oldest line makes way when 500 are held), stamped after
  every line already there, published once as the last event, and no other room changes.
\<close>

theorem send_delivers:
  assumes "chat_reachable lc s" "wall \<le> I64_MAX" "send lc s name who txt now wall = (s', Inr line)"
  shows "\<exists>r r'. fmlookup (rooms s) (room_key lc name) = Some r \<and>
      fmlookup (rooms s') (room_key lc name) = Some r' \<and>
      fmlookup (rmembers r) (session_id who) \<noteq> None \<and> \<not> muted_at r (sender_account who) now \<and>
      cl_text line = trim_end txt \<and> trim (cl_text line) \<noteq> [] \<and> str_len (cl_text line) \<le> max_len s \<and>
      rhistory r' = (if length (rhistory r) = SCROLLBACK then tl (rhistory r) else rhistory r) @ [line] \<and>
      (\<forall>l \<in> set (rhistory r). stamp_before l line) \<and>
      bus s' = bus s @ [ChatSaid (rname r) (screen_name who) (cl_text line) (at_unix_ms line)] \<and>
      (\<forall>k. k \<noteq> room_key lc name \<longrightarrow> fmlookup (rooms s') k = fmlookup (rooms s) k)"
proof -
  from assms(3) obtain r r1 r2 where r: "fmlookup (rooms s) (room_key lc name) = Some r"
    "fmlookup (rmembers r) (session_id who) \<noteq> None" "\<not> muted_at r (sender_account who) now"
    "r1 = fst (muted_now r (sender_account who) now)"
    "r2 = (if slow_secs r > 0 then r1\<lparr>last_sent_ms := fmupd (sender_account who) now (last_sent_ms r)\<rparr> else r1)"
    and line: "line = \<lparr>cl_room = rname r, cl_from = screen_name who, cl_text = trim_end txt,
       at_unix_ms = next_chat_timestamp (last_stamp r) wall\<rparr>"
    and s': "s' = publish (ChatSaid (rname r) (screen_name who) (trim_end txt) (at_unix_ms line))
       (put_room (room_key lc name) (append_line line r2) s)"
    and t: "trim (trim_end txt) \<noteq> []" "str_len (trim_end txt) \<le> max_len s"
    by (rule send_accepted)
  have "history_ok r"
    using chat_inv_good[OF chat_reachable_chat_inv[OF assms(1)] r(1)] by (simp add: room_good_def)
  then have "\<forall>l \<in> set (rhistory r). stamp_before l line"
    using stamp_after(1)[of r _ wall line] assms(2) line by simp
  moreover have "rhistory r2 = rhistory r" by (simp add: r(4,5))
  ultimately show ?thesis
    using r(1-3) t by (auto simp: line s' append_line_def)
qed

text \<open>
  A refused line leaves no trace: nothing is published, and every room keeps its members, its
  scrollback and its slow-mode clocks.
\<close>

lemma send_refused_silent:
  assumes "send lc s name who txt now wall = (s', Inl e)"
  shows "bus s' = bus s \<and>
    (\<forall>k. map_option (\<lambda>r. (rmembers r, rhistory r, last_sent_ms r)) (fmlookup (rooms s') k) =
         map_option (\<lambda>r. (rmembers r, rhistory r, last_sent_ms r)) (fmlookup (rooms s) k))"
  using assms
  by (auto simp: send_def Let_def case_prod_unfold split: if_splits option.splits)

lemma slow_wait_after:
  assumes "fmlookup (last_sent_ms r) (sender_account who) = Some t" "t \<le> now" "now < t + slow_secs r * 1000"
    "slow_secs r \<le> MAX_SLOW_MODE_SECS" "\<not> can_moderate r (sender_account who) (is_moderator who)"
  shows "slow_wait r who now = Some (div_ceil (t + slow_secs r * 1000 - now) 1000)"
proof -
  have sat: "sat_mul64 (slow_secs r) 1000 = slow_secs r * 1000"
    using assms(4) by (simp add: sat_mul64_def U64_MAX_def MAX_SLOW_MODE_SECS_def)
  have "t + slow_secs r * 1000 - now \<le> 3600000"
    using assms(2,4) by (simp add: MAX_SLOW_MODE_SECS_def)
  then have "(t + slow_secs r * 1000 - now) div 1000 \<le> 3600000 div 1000" by (rule div_le_mono)
  then have "div_ceil (t + slow_secs r * 1000 - now) 1000 \<le> U32_MAX"
    by (simp add: div_ceil_def U32_MAX_def)
  moreover have "slow_secs r * 1000 - (now - t) = t + slow_secs r * 1000 - now" using assms(2) by simp
  ultimately show ?thesis
    using assms by (auto simp: slow_wait_def Let_def sat min_def)
qed

text \<open>
  While slow mode is on, a sender who neither created the room nor moderates cannot get a
  second line in before the interval has passed since the accepted one: the attempt is refused
  with the whole seconds still to wait.
\<close>

lemma slow_mode_spacing:
  assumes "chat_reachable lc s" "wall \<le> I64_MAX" "send lc s name who txt now wall = (s', Inr line)"
    and "fmlookup (rooms s') (room_key lc name) = Some r"
    and "\<not> can_moderate r (sender_account who) (is_moderator who)"
    and "now \<le> now'" "now' < now + slow_secs r * 1000"
    and "trim (trim_end txt') \<noteq> []" "str_len (trim_end txt') \<le> max_len s"
  shows "snd (send lc s' name who txt' now' wall') = Inl (SlowMode (div_ceil (now + slow_secs r * 1000 - now') 1000))"
proof -
  from assms(3) obtain r0 r1 r2 where r0: "fmlookup (rooms s) (room_key lc name) = Some r0"
    "fmlookup (rmembers r0) (session_id who) \<noteq> None" "\<not> muted_at r0 (sender_account who) now"
    and r1: "r1 = fst (muted_now r0 (sender_account who) now)"
    and r2: "r2 = (if slow_secs r0 > 0
       then r1\<lparr>last_sent_ms := fmupd (sender_account who) now (last_sent_ms r0)\<rparr> else r1)"
    and s': "s' = publish (ChatSaid (rname r0) (screen_name who) (trim_end txt) (at_unix_ms line))
       (put_room (room_key lc name) (append_line line r2) s)"
    by (rule send_accepted)
  from assms(4) s' have r: "r = append_line line r2" by simp
  have slow: "slow_secs r = slow_secs r0" "slow_secs r > 0" using assms(6,7) by (auto simp: r r2 r1)
  have "slow_secs r \<le> MAX_SLOW_MODE_SECS"
    using chat_inv_good[OF chat_reachable_chat_inv[OF assms(1)] r0(1)] by (simp add: slow good_defs)
  moreover have nm: "fmlookup (muted r) (sender_account who) = None"
    using muted_now_cleared[OF r0(3)] by (simp add: r r2 r1)
  moreover have "fmlookup (last_sent_ms r) (sender_account who) = Some now"
    using slow by (simp add: r r2 r1)
  moreover have "fmlookup (rmembers r) (session_id who) \<noteq> None"
    using r0(2) by (simp add: r r2 r1)
  ultimately show ?thesis
    using assms(4-9) slow slow_wait_after[of r who now now'] s'
    by (auto simp: send_def Let_def case_prod_unfold muted_now_def muted_at_def)
qed

lemma mute_is_muted:
  assumes "mute lc s name by_account by_mod target tname dur now = (s1, Inr ())" "now \<le> U64_MAX"
  shows "snd (is_muted lc s1 name target now') \<longleftrightarrow>
      (case dur of None \<Rightarrow> True | Some d \<Rightarrow> now' < min (now + d) U64_MAX)"
  using assms
  by (auto simp: mute_def is_muted_def Let_def case_prod_unfold muted_at_def sat_add64_def min_def
      split: if_splits option.splits)

lemma muted_send_refused:
  "snd (is_muted lc s name (sender_account who) now) \<Longrightarrow> \<exists>e. snd (send lc s name who txt now wall) = Inl e"
  by (auto simp: is_muted_def send_def Let_def case_prod_unfold split: if_splits option.splits)

lemma unmute_ends:
  "unmute lc s name by_account by_mod target tname now = (s', Inr b) \<Longrightarrow> \<not> snd (is_muted lc s' name target now')"
  by (auto simp: unmute_def is_muted_def Let_def case_prod_unfold muted_at_def split: if_splits option.splits)

text \<open>
  A mute takes effect at once and lasts exactly as long as asked: the account counts as muted
  at a later time if and only if the mute is permanent or that time is before its end, and while it
  does every line it sends to the room is refused. Lifting the mute ends it.
\<close>

lemma mute_lasts:
  assumes "mute lc s name by_account by_mod target tname dur now = (s1, Inr ())" "now \<le> U64_MAX"
    and "sender_account who = target"
  shows "(snd (is_muted lc s1 name target now') \<longleftrightarrow>
        (case dur of None \<Rightarrow> True | Some d \<Rightarrow> now' < min (now + d) U64_MAX)) \<and>
      (snd (is_muted lc s1 name target now') \<longrightarrow> (\<exists>e. snd (send lc s1 name who txt now' wall) = Inl e)) \<and>
      (unmute lc s1 name by_account' by_mod' target tname' now2 = (s2, Inr b) \<longrightarrow>
        \<not> snd (is_muted lc s2 name target now'))"
  using mute_is_muted[OF assms(1,2)] muted_send_refused[of lc s1 name who] unmute_ends assms(3) by blast

lemma listed_room:
  assumes "x \<in> set (list_counted s vs va visible)"
  obtains k r where "fmlookup (rooms s) k = Some r" "sum_name x = rname r"
    "\<not> is_private r \<or> fmlookup (rmembers r) vs \<noteq> None \<or> va |\<in>| invited r"
  using assms by (auto simp: list_counted_def set_sorted_pairs summary_def)

text \<open>
  C4. A private room is closed to outsiders: a session that is not a member gets neither the
  scrollback nor the member list nor the keeping view and cannot speak, and unless its account is
  invited no listing it asks for names the room.
\<close>

theorem private_room_closed:
  assumes "chat_reachable lc s" "fmlookup (rooms s) (room_key lc name) = Some r" "is_private r"
    and "fmlookup (rmembers r) sid = None"
  shows "history lc s name sid limit = Inl NotMember \<and> members lc s name sid = Inl NotMember \<and>
    snd (keeping lc s name sid account is_mod now) = Inl NotMember \<and>
    (\<forall>who txt. session_id who = sid \<longrightarrow> (\<exists>e. snd (send lc s name who txt now wall) = Inl e)) \<and>
    (account |\<notin>| invited r \<longrightarrow> rname r \<notin> sum_name ` set (list_counted s sid account visible))"
proof -
  note inv = chat_reachable_chat_inv[OF assms(1)]
  have "rname r \<noteq> sum_name x" if x: "x \<in> set (list_counted s sid account visible)"
    and "account |\<notin>| invited r" for x
  proof
    assume eq: "rname r = sum_name x"
    from x obtain k r' where r': "fmlookup (rooms s) k = Some r'" "sum_name x = rname r'"
      "\<not> is_private r' \<or> fmlookup (rmembers r') sid \<noteq> None \<or> account |\<in>| invited r'"
      by (rule listed_room)
    have "k = room_key lc name"
      using chat_inv_good[OF inv r'(1)] chat_inv_good[OF inv assms(2)] eq r'(2) by (simp add: good_defs)
    with r' assms that show False by auto
  qed
  then show ?thesis
    using assms(2-4) by (auto simp: history_def members_def keeping_def send_def Let_def)
qed

lemma kick_sessions_gone: "kick_sessions xs m = (m', kicked) \<Longrightarrow> x \<in> set xs \<Longrightarrow> fmlookup m' x = None"
proof (induction xs m arbitrary: m' kicked rule: kick_sessions.induct)
  case (2 y ys m)
  have drop: "fmlookup m'' z = None" if "kick_sessions zs n = (m'', ks)" "fmlookup n z = None" for zs n m'' ks z
    using that by (induction zs n arbitrary: m'' ks rule: kick_sessions.induct)
      (auto split: if_splits prod.splits)
  from 2 drop show ?case by (auto split: if_splits prod.splits)
qed simp

lemma join_banned:
  "fmlookup (rooms s) (room_key lc name) = Some r \<Longrightarrow> a |\<in>| banned r \<Longrightarrow> snd (join lc s name sid a nick) = Inl Forbidden"
  by (simp add: join_def)

lemma join_invited:
  "fmlookup (rooms s) (room_key lc name) = Some r \<Longrightarrow> a |\<notin>| banned r \<Longrightarrow> a |\<in>| invited r \<Longrightarrow>
   \<exists>x. snd (join lc s name sid a nick) = Inr x"
  by (simp add: join_def Let_def)

lemma invite_admits:
  assumes "invite lc s name inviter a = (s', Inr ())"
  shows "\<exists>r. fmlookup (rooms s') (room_key lc name) = Some r \<and> a |\<notin>| banned r \<and> a |\<in>| invited r"
  using assms by (auto simp: invite_def Let_def split: if_splits option.splits)

text \<open>
  After a kick with a ban the room, if it is still there, holds none of the named sessions
  and refuses the account under any session and name, until a member invites the account again,
  which lets it back in.
\<close>

lemma ban_until_invited:
  assumes "kick lc s name by_account by_mod target sessions True = (s1, Inr kicked)"
    and "fmlookup (rooms s1) (room_key lc name) = Some r"
  shows "(\<forall>x \<in> set sessions. fmlookup (rmembers r) x = None) \<and>
    snd (join lc s1 name sid target nick) = Inl Forbidden \<and>
    (invite lc s1 name inviter target = (s2, Inr ()) \<longrightarrow> (\<exists>x. snd (join lc s2 name sid target nick) = Inr x))"
proof -
  obtain r0 where r: "r = kicked_room r0 (fst (kick_sessions sessions (rmembers r0))) target True"
    using assms by (auto simp: kick_def Let_def case_prod_unfold split: if_splits option.splits)
  have "\<forall>x \<in> set sessions. fmlookup (rmembers r) x = None"
    using kick_sessions_gone[OF surjective_pairing] by (simp add: r)
  moreover have "target |\<in>| banned r" by (simp add: r kicked_room_def)
  ultimately show ?thesis
    using assms(2) join_banned join_invited invite_admits by meson
qed

text \<open>
  Closing a session removes it from every room. A room survives exactly if it is persistent or
  still has a member; when the last session of a guest goes, no surviving room keeps that guest
  muted; and the rooms left do not depend on the order in which the table is visited.
\<close>

lemma session_closed_effect:
  assumes "distinct ks" "set ks = fset (fmdom (rooms s))" "distinct ks'" "set ks' = fset (fmdom (rooms s))"
  shows "rooms (session_closed ks s sid account) = rooms (session_closed ks' s sid account) \<and>
    (\<forall>k r'. fmlookup (rooms (session_closed ks s sid account)) k = Some r' \<longrightarrow> fmlookup (rmembers r') sid = None \<and>
       (account < 0 \<and> account |\<notin>| fmran (fmdrop sid (guest_sessions s)) \<longrightarrow> fmlookup (muted r') account = None)) \<and>
    (\<forall>k r. fmlookup (rooms s) k = Some r \<longrightarrow>
       (fmlookup (rooms (session_closed ks s sid account)) k \<noteq> None \<longleftrightarrow>
          persistent r \<or> (\<exists>x. x \<noteq> sid \<and> fmlookup (rmembers r) x \<noteq> None)))"
proof -
  have empty: "fmdrop sid m = fmempty \<longleftrightarrow> (\<forall>x. x \<noteq> sid \<longrightarrow> fmlookup m x = None)" for m :: "(nat, str) fmap"
    by (auto simp: fmlookup_inject[symmetric] fun_eq_iff)
  have "rooms (session_closed ks s sid account) = rooms (session_closed ks' s sid account)"
    by (rule fmap_ext) (simp add: session_closed_lookup assms)
  moreover have "fmlookup (rmembers r') sid = None \<and>
      (account < 0 \<and> account |\<notin>| fmran (fmdrop sid (guest_sessions s)) \<longrightarrow> fmlookup (muted r') account = None)"
    if "fmlookup (rooms (session_closed ks s sid account)) k = Some r'" for k r'
    using that by (auto simp: session_closed_lookup assms closed_room_def Let_def bind_eq_Some_conv
        final_guest_of_def split: if_splits)
  moreover have "fmlookup (rooms (session_closed ks s sid account)) k \<noteq> None \<longleftrightarrow>
      persistent r \<or> (\<exists>x. x \<noteq> sid \<and> fmlookup (rmembers r) x \<noteq> None)"
    if "fmlookup (rooms s) k = Some r" for k r
    using that by (simp add: session_closed_lookup assms closed_room_def Let_def empty)
  ultimately show ?thesis by blast
qed

section \<open>The guarantees at work\<close>

text \<open>
  One session in the lobby, lower-casing taken to be the identity (the names used are lower case).
\<close>

definition demo_chat :: chat_service where
  "demo_chat = join_lobby id (chat_new id 100) 1 5 (lit ''al'')"

definition demo_who :: sender where
  "demo_who = \<lparr>session_id = 1, sender_account = 5, is_moderator = False, screen_name = lit ''al''\<rparr>"

lemma key_lobby [simp]: "room_key id LOBBY = LOBBY"
  by (simp add: room_key_def LOBBY_def trim_def trim_start_def trim_end_def is_whitespace_def)

lemma demo_chat_reachable: "chat_reachable id demo_chat"
  unfolding demo_chat_def
  by (rule chat_reachable.step[OF chat_reachable.start chat_step.open_session]) (simp add: chat_new_def)

lemma demo_chat_state [simp]:
  "fmlookup (rooms demo_chat) k =
     (if k = LOBBY then Some (lobby_room\<lparr>rmembers := fmupd 1 (lit ''al'') fmempty\<rparr>) else None)"
  "guest_sessions demo_chat = fmempty" "max_len demo_chat = 100"
  by (simp_all add: demo_chat_def join_lobby_def chat_new_def lobby_room_def Let_def)

lemmas text_eval = trim_def trim_start_def trim_end_def is_whitespace_def str_len_def utf8_width_def
lemmas send_eval = send_def Let_def muted_now_def slow_wait_def last_stamp_def can_moderate_def
  next_chat_timestamp_def append_line_def lobby_room_def demo_who_def text_eval

theorem chat_reachable_inv_witness: "chat_reachable id demo_chat \<and> chat_inv id demo_chat"
  using chat_reachable_inv[OF demo_chat_reachable] demo_chat_reachable by simp

lemma demo_send:
  "snd (send id demo_chat LOBBY demo_who (lit ''hi '') 0 1000) =
     Inr \<lparr>cl_room = LOBBY, cl_from = lit ''al'', cl_text = lit ''hi'', at_unix_ms = 1000\<rparr>"
  by (simp add: send_eval)

theorem send_delivers_witness:
  "bus (fst (send id demo_chat LOBBY demo_who (lit ''hi '') 0 1000)) =
     bus demo_chat @ [ChatSaid LOBBY (lit ''al'') (lit ''hi'') 1000]"
  using send_delivers[OF demo_chat_reachable _ pair_of_snd[OF demo_send]]
  by (auto simp: I64_MAX_def demo_who_def lobby_room_def demo_send)

definition demo_slow :: chat_service where
  "demo_slow = fst (set_slow_mode id demo_chat LOBBY 10 9 True)"

lemma demo_slow_reachable: "chat_reachable id demo_slow"
  unfolding demo_slow_def by (rule chat_reachable.step[OF demo_chat_reachable chat_step.set_slow])

lemma demo_slow_state [simp]:
  "fmlookup (rooms demo_slow) k =
     (if k = LOBBY then Some (lobby_room\<lparr>rmembers := fmupd 1 (lit ''al'') fmempty, slow_secs := 10\<rparr>) else None)"
  "max_len demo_slow = 100"
  by (simp_all add: demo_slow_def set_slow_mode_def can_moderate_def MAX_SLOW_MODE_SECS_def Let_def)

definition demo_private :: chat_service where
  "demo_private = fst (create id demo_chat (lit ''den'') [] [] True 6 (lit ''bo'') 2)"

lemma demo_private_reachable: "chat_reachable id demo_private"
  unfolding demo_private_def by (rule chat_reachable.step[OF demo_chat_reachable chat_step.create])

lemma demo_private_room: "fmlookup (rooms demo_private) (room_key id (lit ''den'')) =
    Some (new_room (lit ''den'') [] [] True 6 (lit ''bo'') 2)"
  by (simp add: demo_private_def create_def room_key_def LOBBY_def text_eval Let_def)

theorem private_room_closed_witness:
  "history id demo_private (lit ''den'') 1 50 = Inl NotMember \<and>
   lit ''den'' \<notin> sum_name ` set (list_rooms demo_private 1 5)"
  using private_room_closed[OF demo_private_reachable demo_private_room, of 1 50 5 False 0 0 "\<lambda>_. True"]
  by (simp add: new_room_def list_rooms_def)

end
