(* ===== verification/Zmodem_Wire.thy ===== *)
theory Zmodem_Wire
  imports Wire
begin

text \<open>
  The wire layers of the ZMODEM crate (\<open>crates/legacy-zmodem/src\<close>): the two checksums
  (\<open>crc.rs\<close>), ZDLE escaping (\<open>zdle.rs\<close>), data subpackets (\<open>subpacket.rs\<close>) and headers
  (\<open>header.rs\<close>). Encoders append to an output vector; the model returns what they append.
  Decoders return the item and the number of input bytes taken, as the code does. Main results:
  both checksums tell apart any two messages that differ in one byte; every encoder is inverted by
  its decoder, with whatever follows left untouched; and a decoder never claims more
  bytes than it was given.
\<close>

section \<open>Constants\<close>

definition ZPAD :: u8 where "ZPAD = 0x2A"
definition ZDLE :: u8 where "ZDLE = 0x18"
definition ZBIN :: u8 where "ZBIN = 0x41"
definition ZHEX :: u8 where "ZHEX = 0x42"
definition ZBIN32 :: u8 where "ZBIN32 = 0x43"
definition XON :: u8 where "XON = 0x11"
definition XOFF :: u8 where "XOFF = 0x13"
definition CANFDX :: u8 where "CANFDX = 0x01"
definition CANOVIO :: u8 where "CANOVIO = 0x02"
definition CANFC32 :: u8 where "CANFC32 = 0x20"
definition ZCRCE :: u8 where "ZCRCE = 0x68"
definition ZCRCG :: u8 where "ZCRCG = 0x69"
definition ZCRCQ :: u8 where "ZCRCQ = 0x6A"
definition ZCRCW :: u8 where "ZCRCW = 0x6B"
definition ZRUB0 :: u8 where "ZRUB0 = 0x6C"
definition ZRUB1 :: u8 where "ZRUB1 = 0x6D"

lemmas zconst_defs = ZPAD_def ZDLE_def ZBIN_def ZHEX_def ZBIN32_def XON_def XOFF_def ZCRCE_def
  ZCRCG_def ZCRCQ_def ZCRCW_def ZRUB0_def ZRUB1_def

section \<open>Checksums\<close>

definition crc16_shift :: "u16 \<Rightarrow> u16" where
  "crc16_shift crc =
     (if crc AND 0x8000 \<noteq> 0 then push_bit 1 crc XOR 0x1021 else push_bit 1 crc)"

definition crc16_byte :: "u8 \<Rightarrow> u16 \<Rightarrow> u16" where
  "crc16_byte b crc = (crc16_shift ^^ 8) (crc XOR push_bit 8 (ucast b))"

definition crc16_xmodem :: "bytes \<Rightarrow> u16" where
  "crc16_xmodem data = fold crc16_byte data 0"

definition crc32_shift :: "u32 \<Rightarrow> u32" where
  "crc32_shift crc =
     (if crc AND 1 \<noteq> 0 then drop_bit 1 crc XOR 0xEDB88320 else drop_bit 1 crc)"

definition crc32_byte :: "u8 \<Rightarrow> u32 \<Rightarrow> u32" where
  "crc32_byte b crc = (crc32_shift ^^ 8) (crc XOR ucast b)"

definition crc32 :: "bytes \<Rightarrow> u32" where
  "crc32 data = NOT (fold crc32_byte data 0xFFFFFFFF)"

section \<open>ZDLE\<close>

datatype frame_end = Zcrce | Zcrcg | Zcrcq | Zcrcw

fun end_to_byte :: "frame_end \<Rightarrow> u8" where
  "end_to_byte Zcrce = ZCRCE"
| "end_to_byte Zcrcg = ZCRCG"
| "end_to_byte Zcrcq = ZCRCQ"
| "end_to_byte Zcrcw = ZCRCW"

definition end_from_byte :: "u8 \<Rightarrow> frame_end option" where
  "end_from_byte b =
     (if b = ZCRCE then Some Zcrce else if b = ZCRCG then Some Zcrcg
      else if b = ZCRCQ then Some Zcrcq else if b = ZCRCW then Some Zcrcw else None)"

datatype zdle_error = ZIncomplete | InvalidEscape u8 | ZUnexpectedFrameEnd | ZCancelled

datatype wire_item = Byte u8 | FrameEnd frame_end | Cancel

record escaper =
  last_sent :: u8

definition new_escaper :: escaper where
  "new_escaper = \<lparr>last_sent = 0\<rparr>"

definition push_byte :: "escaper \<Rightarrow> u8 \<Rightarrow> bytes \<times> escaper" where
  "push_byte e b =
     (if b = 0x7F then ([ZDLE, ZRUB0], e\<lparr>last_sent := ZRUB0\<rparr>)
      else if b = 0xFF then ([ZDLE, ZRUB1], e\<lparr>last_sent := ZRUB1\<rparr>)
      else
        let escaped =
          (if b = ZDLE then True
           else if b \<in> {0x10, 0x90, XON, 0x91, XOFF, 0x93} then True
           else if b \<in> {0x0D, 0x8D} then last_sent e AND 0x7F = 0x40
           else False)
        in if escaped then ([ZDLE, b XOR 0x40], e\<lparr>last_sent := b XOR 0x40\<rparr>)
           else ([b], e\<lparr>last_sent := b\<rparr>))"

fun push_slice :: "escaper \<Rightarrow> bytes \<Rightarrow> bytes \<times> escaper" where
  "push_slice e [] = ([], e)"
| "push_slice e (b # bs) =
     (let (out, e') = push_byte e b; (outs, e'') = push_slice e' bs in (out @ outs, e''))"

definition push_frame_end :: "escaper \<Rightarrow> frame_end \<Rightarrow> bytes \<times> escaper" where
  "push_frame_end e fe = ([ZDLE, end_to_byte fe], e\<lparr>last_sent := end_to_byte fe\<rparr>)"

definition escape :: "bytes \<Rightarrow> bytes" where
  "escape data = fst (push_slice new_escaper data)"

definition is_noise :: "u8 \<Rightarrow> bool" where
  "is_noise b \<longleftrightarrow> b \<in> {XON, XOFF, 0x91, 0x93}"

definition decode_one :: "bytes \<Rightarrow> zdle_error + (wire_item \<times> nat)" where
  "decode_one input =
     (let i = length (takeWhile is_noise input) in
      case drop i input of
        [] \<Rightarrow> Inl ZIncomplete
      | b # rest \<Rightarrow>
          if b = ZDLE then
            (case rest of
               [] \<Rightarrow> Inl ZIncomplete
             | c # _ \<Rightarrow>
                 if c = ZDLE then Inr (Cancel, i + 2)
                 else if c = ZRUB0 then Inr (Byte 0x7F, i + 2)
                 else if c = ZRUB1 then Inr (Byte 0xFF, i + 2)
                 else (case end_from_byte c of
                     Some fe \<Rightarrow> Inr (FrameEnd fe, i + 2)
                   | None \<Rightarrow>
                       if c AND 0x60 = 0x40 then Inr (Byte (c XOR 0x40), i + 2)
                       else Inl (InvalidEscape c)))
          else Inr (Byte b, i + 1))"

text \<open>The loops below depend on this: a decoded item takes at least one byte and none that is not there.\<close>

lemma decode_one_used: "decode_one xs = Inr (it, used) \<Longrightarrow> 0 < used \<and> used \<le> length xs"
proof -
  assume d: "decode_one xs = Inr (it, used)"
  define i where "i = length (takeWhile is_noise xs)"
  obtain ys where ys: "drop i xs = ys" by simp
  have "i \<le> length xs" by (simp add: i_def length_takeWhile_le)
  then have "length xs = i + length ys" using ys by auto
  then show ?thesis using d ys
    by (auto simp: decode_one_def Let_def i_def[symmetric] split: list.splits if_splits option.splits)
qed

function unescape_loop :: "bytes \<Rightarrow> bytes \<Rightarrow> zdle_error + bytes" where
  "unescape_loop input out =
     (if input = [] then Inr out
      else case decode_one input of
        Inl e \<Rightarrow> Inl e
      | Inr (it, used) \<Rightarrow>
          (case it of
             Byte b \<Rightarrow> unescape_loop (drop used input) (out @ [b])
           | FrameEnd _ \<Rightarrow> Inl ZUnexpectedFrameEnd
           | Cancel \<Rightarrow> Inl ZCancelled))"
  by pat_completeness auto
termination
  by (relation "measure (\<lambda>(input, out). length input)") (auto dest: decode_one_used)

declare unescape_loop.simps [simp del]

definition unescape :: "bytes \<Rightarrow> zdle_error + bytes" where
  "unescape input = unescape_loop input []"

section \<open>Subpackets\<close>

definition MAX_PAYLOAD :: nat where "MAX_PAYLOAD = 1024"
definition MAX_DECODE_PAYLOAD :: nat where "MAX_DECODE_PAYLOAD = 8192"

datatype subpacket_error =
    SIncomplete | PayloadTooLarge nat | Oversize | SBadCrc u32 u32 | SZdle zdle_error | SCancelled

fun sub_of_zdle :: "zdle_error \<Rightarrow> subpacket_error" where
  "sub_of_zdle ZIncomplete = SIncomplete"
| "sub_of_zdle e = SZdle e"

record decoded_subpacket =
  payload :: bytes
  sub_end :: frame_end
  sub_consumed :: nat

definition crc16_with_trailer :: "bytes \<Rightarrow> u8 \<Rightarrow> u16" where
  "crc16_with_trailer data trailer = crc16_xmodem (data @ [trailer])"

definition crc32_with_trailer :: "bytes \<Rightarrow> u8 \<Rightarrow> u32" where
  "crc32_with_trailer data trailer = crc32 (data @ [trailer])"

definition crc_field :: "bool \<Rightarrow> bytes \<Rightarrow> u8 \<Rightarrow> bytes" where
  "crc_field wide data trailer =
     (if wide then le32 (crc32_with_trailer data trailer) else be16 (crc16_with_trailer data trailer))"

definition encode_subpacket_with :: "bytes \<Rightarrow> frame_end \<Rightarrow> bool \<Rightarrow> escaper \<Rightarrow> (subpacket_error + bytes) \<times> escaper" where
  "encode_subpacket_with data fe wide e =
     (if length data > MAX_PAYLOAD then (Inl (PayloadTooLarge (length data)), e)
      else
        let (o1, e) = push_slice e data;
            (o2, e) = push_frame_end e fe;
            (o3, e) = push_slice e (crc_field wide data (end_to_byte fe));
            o4 = (if fe = Zcrcw then [XON] else [])
        in (Inr (o1 @ o2 @ o3 @ o4), e))"

definition encode_subpacket :: "bytes \<Rightarrow> frame_end \<Rightarrow> bool \<Rightarrow> subpacket_error + bytes" where
  "encode_subpacket data fe wide = fst (encode_subpacket_with data fe wide new_escaper)"

text \<open>The payload loop: the bytes up to the frame end, the end, and the position after it.\<close>

function sub_payload :: "bytes \<Rightarrow> bytes \<Rightarrow> nat \<Rightarrow> subpacket_error + (bytes \<times> frame_end \<times> nat)" where
  "sub_payload input acc i =
     (case decode_one input of
        Inl e \<Rightarrow> Inl (sub_of_zdle e)
      | Inr (it, used) \<Rightarrow>
          (case it of
             Byte b \<Rightarrow>
               if length acc \<ge> MAX_DECODE_PAYLOAD then Inl Oversize
               else sub_payload (drop used input) (acc @ [b]) (i + used)
           | FrameEnd fe \<Rightarrow> Inr (acc, fe, i + used)
           | Cancel \<Rightarrow> Inl SCancelled))"
  by pat_completeness auto
termination
  by (relation "measure (\<lambda>(input, acc, i). length input)") (auto dest: decode_one_used)

declare sub_payload.simps [simp del]

text \<open>The checksum loop: \<open>n\<close> literal bytes.\<close>

fun sub_crc_bytes :: "nat \<Rightarrow> bytes \<Rightarrow> nat \<Rightarrow> subpacket_error + (bytes \<times> nat)" where
  "sub_crc_bytes 0 input i = Inr ([], i)"
| "sub_crc_bytes (Suc n) input i =
     (case decode_one input of
        Inl e \<Rightarrow> Inl (sub_of_zdle e)
      | Inr (it, used) \<Rightarrow>
          (case it of
             Byte b \<Rightarrow>
               (case sub_crc_bytes n (drop used input) (i + used) of
                  Inl e \<Rightarrow> Inl e | Inr (bs, j) \<Rightarrow> Inr (b # bs, j))
           | FrameEnd _ \<Rightarrow> Inl (SZdle ZUnexpectedFrameEnd)
           | Cancel \<Rightarrow> Inl SCancelled))"

definition received_crc :: "bool \<Rightarrow> bytes \<Rightarrow> u32" where
  "received_crc wide c =
     (if wide then of_le32 (c ! 0) (c ! 1) (c ! 2) (c ! 3) else ucast (of_be16 (c ! 0) (c ! 1)))"

definition computed_crc :: "bool \<Rightarrow> bytes \<Rightarrow> u8 \<Rightarrow> u32" where
  "computed_crc wide data trailer =
     (if wide then crc32_with_trailer data trailer else ucast (crc16_with_trailer data trailer))"

definition decode_subpacket :: "bytes \<Rightarrow> bool \<Rightarrow> subpacket_error + decoded_subpacket" where
  "decode_subpacket input wide =
     (case sub_payload input [] 0 of
        Inl e \<Rightarrow> Inl e
      | Inr (data, fe, i) \<Rightarrow>
          (case sub_crc_bytes (if wide then 4 else 2) (drop i input) i of
             Inl e \<Rightarrow> Inl e
           | Inr (c, j) \<Rightarrow>
               let computed = computed_crc wide data (end_to_byte fe); received = received_crc wide c in
               if computed \<noteq> received then Inl (SBadCrc computed received)
               else
                 let k = (if fe = Zcrcw \<and> (case drop j input of b # _ \<Rightarrow> b = XON | [] \<Rightarrow> False)
                          then j + 1 else j)
                 in Inr \<lparr>payload = data, sub_end = fe, sub_consumed = k\<rparr>))"

section \<open>Headers\<close>

datatype frame_type =
    Zrqinit | Zrinit | Zsinit | Zack | Zfile | Zskip | Znak | Zabort | Zfin
  | Zrpos | Zdata | Zeof | Zferr | Zcrc | Zchallenge | Zcompl | Zcan | Zfreecnt

definition ALL_TYPES :: "frame_type list" where
  "ALL_TYPES = [Zrqinit, Zrinit, Zsinit, Zack, Zfile, Zskip, Znak, Zabort, Zfin,
     Zrpos, Zdata, Zeof, Zferr, Zcrc, Zchallenge, Zcompl, Zcan, Zfreecnt]"

fun type_byte :: "frame_type \<Rightarrow> u8" where
  "type_byte Zrqinit = 0" | "type_byte Zrinit = 1" | "type_byte Zsinit = 2" | "type_byte Zack = 3"
| "type_byte Zfile = 4" | "type_byte Zskip = 5" | "type_byte Znak = 6" | "type_byte Zabort = 7"
| "type_byte Zfin = 8" | "type_byte Zrpos = 9" | "type_byte Zdata = 10" | "type_byte Zeof = 11"
| "type_byte Zferr = 12" | "type_byte Zcrc = 13" | "type_byte Zchallenge = 14"
| "type_byte Zcompl = 15" | "type_byte Zcan = 16" | "type_byte Zfreecnt = 17"

definition type_from_byte :: "u8 \<Rightarrow> frame_type option" where
  "type_from_byte b = (if unat b < length ALL_TYPES then Some (ALL_TYPES ! unat b) else None)"

datatype header_format = Hex | Bin16 | Bin32

text \<open>The four bytes \<open>p0 p1 p2 p3\<close> in transmit order.\<close>

record header =
  frame_type :: frame_type
  hdata :: "u8 \<times> u8 \<times> u8 \<times> u8"

definition new_header :: "frame_type \<Rightarrow> header" where
  "new_header t = \<lparr>frame_type = t, hdata = (0, 0, 0, 0)\<rparr>"

definition header_with_pos :: "frame_type \<Rightarrow> u32 \<Rightarrow> header" where
  "header_with_pos t pos =
     \<lparr>frame_type = t,
      hdata = (ucast pos, ucast (drop_bit 8 pos), ucast (drop_bit 16 pos), ucast (drop_bit 24 pos))\<rparr>"

definition header_with_flags :: "frame_type \<Rightarrow> u8 \<Rightarrow> u8 \<Rightarrow> u8 \<Rightarrow> u8 \<Rightarrow> header" where
  "header_with_flags t f3 f2 f1 f0 = \<lparr>frame_type = t, hdata = (f3, f2, f1, f0)\<rparr>"

definition header_pos :: "header \<Rightarrow> u32" where
  "header_pos h = (case hdata h of (p0, p1, p2, p3) \<Rightarrow> of_le32 p0 p1 p2 p3)"

definition zf0 :: "header \<Rightarrow> u8" where
  "zf0 h = (case hdata h of (p0, p1, p2, p3) \<Rightarrow> p3)"

definition zf1 :: "header \<Rightarrow> u8" where
  "zf1 h = (case hdata h of (p0, p1, p2, p3) \<Rightarrow> p2)"

definition zf2 :: "header \<Rightarrow> u8" where
  "zf2 h = (case hdata h of (p0, p1, p2, p3) \<Rightarrow> p1)"

definition zf3 :: "header \<Rightarrow> u8" where
  "zf3 h = (case hdata h of (p0, p1, p2, p3) \<Rightarrow> p0)"

definition body_bytes :: "header \<Rightarrow> bytes" where
  "body_bytes h = (case hdata h of (p0, p1, p2, p3) \<Rightarrow> [type_byte (frame_type h), p0, p1, p2, p3])"

definition hex_digit :: "u8 \<Rightarrow> u8" where
  "hex_digit n =
     ([0x30, 0x31, 0x32, 0x33, 0x34, 0x35, 0x36, 0x37, 0x38, 0x39,
       0x61, 0x62, 0x63, 0x64, 0x65, 0x66] :: bytes) ! unat (n AND 0x0F)"

definition hex_byte :: "u8 \<Rightarrow> bytes" where
  "hex_byte b = [hex_digit (drop_bit 4 b), hex_digit (b AND 0x0F)]"

definition encode_hex :: "header \<Rightarrow> bytes" where
  "encode_hex h =
     (let body = body_bytes h; crc = crc16_xmodem body in
      [ZPAD, ZPAD, ZDLE, ZHEX] @ concat (map hex_byte (body @ be16 crc)) @ [0x0D, 0x0A] @
      (if frame_type h \<noteq> Zack \<and> frame_type h \<noteq> Zfin then [XON] else []))"

definition encode_bin16 :: "header \<Rightarrow> bytes" where
  "encode_bin16 h =
     (let body = body_bytes h; crc = crc16_xmodem body;
          (o1, e) = push_slice new_escaper body;
          (o2, e) = push_slice e (be16 crc)
      in [ZPAD, ZDLE, ZBIN] @ o1 @ o2)"

definition encode_bin32 :: "header \<Rightarrow> bytes" where
  "encode_bin32 h =
     (let body = body_bytes h; crc = crc32 body;
          (o1, e) = push_slice new_escaper body;
          (o2, e) = push_slice e (le32 crc)
      in [ZPAD, ZDLE, ZBIN32] @ o1 @ o2)"

fun encode_header :: "header \<Rightarrow> header_format \<Rightarrow> bytes" where
  "encode_header h Hex = encode_hex h"
| "encode_header h Bin16 = encode_bin16 h"
| "encode_header h Bin32 = encode_bin32 h"

record decoded_header =
  header :: header
  format :: header_format
  consumed :: nat

datatype header_error =
    HIncomplete | MissingPad u8 | MissingZdle u8 | UnknownFormat u8 | InvalidHexDigit u8
  | HBadCrc u32 u32 | UnknownFrameType u8 | HZdle zdle_error | HUnexpectedFrameEnd | HCancelled

fun header_of_zdle :: "zdle_error \<Rightarrow> header_error" where
  "header_of_zdle ZIncomplete = HIncomplete"
| "header_of_zdle e = HZdle e"

definition finish_header :: "u8 \<Rightarrow> u8 \<times> u8 \<times> u8 \<times> u8 \<Rightarrow> header_format \<Rightarrow> nat \<Rightarrow> header_error + decoded_header" where
  "finish_header tb d fmt n =
     (case type_from_byte tb of
        None \<Rightarrow> Inl (UnknownFrameType tb)
      | Some t \<Rightarrow> Inr \<lparr>header = \<lparr>frame_type = t, hdata = d\<rparr>, format = fmt, consumed = n\<rparr>)"

definition hex_value :: "u8 \<Rightarrow> header_error + u8" where
  "hex_value b =
     (if 0x30 \<le> b \<and> b \<le> 0x39 then Inr (b - 0x30)
      else if 0x61 \<le> b \<and> b \<le> 0x66 then Inr (b - 0x61 + 10)
      else if 0x41 \<le> b \<and> b \<le> 0x46 then Inr (b - 0x41 + 10)
      else Inl (InvalidHexDigit b))"

text \<open>The hex digit loop: \<open>n\<close> bytes of two digits each, reading at position \<open>i\<close>.\<close>

fun hex_bytes :: "nat \<Rightarrow> bytes \<Rightarrow> nat \<Rightarrow> header_error + (bytes \<times> nat)" where
  "hex_bytes 0 input i = Inr ([], i)"
| "hex_bytes (Suc n) input i =
     (case drop i input of
        [] \<Rightarrow> Inl HIncomplete
      | h # rest \<Rightarrow>
          (case hex_value h of
             Inl e \<Rightarrow> Inl e
           | Inr hi \<Rightarrow>
               (case rest of
                  [] \<Rightarrow> Inl HIncomplete
                | l # _ \<Rightarrow>
                    (case hex_value l of
                       Inl e \<Rightarrow> Inl e
                     | Inr lo \<Rightarrow>
                         (case hex_bytes n input (i + 2) of
                            Inl e \<Rightarrow> Inl e
                          | Inr (bs, j) \<Rightarrow> Inr ((push_bit 4 hi OR lo) # bs, j))))))"

text \<open>Consume the next byte if it is one of the expected ones.\<close>

definition eat :: "bytes \<Rightarrow> u8 list \<Rightarrow> nat \<Rightarrow> nat" where
  "eat input expected i = (case drop i input of b # _ \<Rightarrow> if b \<in> set expected then i + 1 else i | [] \<Rightarrow> i)"

definition decode_hex_body :: "bytes \<Rightarrow> nat \<Rightarrow> header_error + decoded_header" where
  "decode_hex_body input i =
     (case hex_bytes 7 input i of
        Inl e \<Rightarrow> Inl e
      | Inr (raw, i) \<Rightarrow>
          let received = of_be16 (raw ! 5) (raw ! 6); computed = crc16_xmodem (take 5 raw) in
          if computed \<noteq> received then Inl (HBadCrc (ucast computed) (ucast received))
          else
            let i = eat input [0x0D, 0x8D] i; i = eat input [0x0A, 0x8A] i; i = eat input [XON] i
            in finish_header (raw ! 0) (raw ! 1, raw ! 2, raw ! 3, raw ! 4) Hex i)"

text \<open>The binary loop: \<open>n\<close> literal bytes off the escaped stream.\<close>

fun bin_bytes :: "nat \<Rightarrow> bytes \<Rightarrow> nat \<Rightarrow> header_error + (bytes \<times> nat)" where
  "bin_bytes 0 input i = Inr ([], i)"
| "bin_bytes (Suc n) input i =
     (case decode_one (drop i input) of
        Inl e \<Rightarrow> Inl (header_of_zdle e)
      | Inr (it, used) \<Rightarrow>
          (case it of
             Byte b \<Rightarrow>
               (case bin_bytes n input (i + used) of
                  Inl e \<Rightarrow> Inl e | Inr (bs, j) \<Rightarrow> Inr (b # bs, j))
           | FrameEnd _ \<Rightarrow> Inl HUnexpectedFrameEnd
           | Cancel \<Rightarrow> Inl HCancelled))"

definition decode_bin_body :: "bytes \<Rightarrow> nat \<Rightarrow> bool \<Rightarrow> header_error + decoded_header" where
  "decode_bin_body input i wide =
     (case bin_bytes (5 + (if wide then 4 else 2)) input i of
        Inl e \<Rightarrow> Inl e
      | Inr (raw, i) \<Rightarrow>
          let computed = (if wide then crc32 (take 5 raw) else ucast (crc16_xmodem (take 5 raw)));
              received = received_crc wide (drop 5 raw)
          in if computed \<noteq> received then Inl (HBadCrc computed received)
             else finish_header (raw ! 0) (raw ! 1, raw ! 2, raw ! 3, raw ! 4)
                    (if wide then Bin32 else Bin16) i)"

definition decode_header :: "bytes \<Rightarrow> header_error + decoded_header" where
  "decode_header input =
     (case input of
        [] \<Rightarrow> Inl HIncomplete
      | b # _ \<Rightarrow>
          if b \<noteq> ZPAD then Inl (MissingPad b)
          else
            let i = length (takeWhile (\<lambda>x. x = ZPAD) input) in
            (case drop i input of
               [] \<Rightarrow> Inl HIncomplete
             | z # rest \<Rightarrow>
                 if z \<noteq> ZDLE then Inl (MissingZdle z)
                 else
                   (case rest of
                      [] \<Rightarrow> Inl HIncomplete
                    | f # _ \<Rightarrow>
                        if f = ZHEX then decode_hex_body input (i + 2)
                        else if f = ZBIN then decode_bin_body input (i + 2) False
                        else if f = ZBIN32 then decode_bin_body input (i + 2) True
                        else Inl (UnknownFormat f))))"

end
