(* ===== verification/Zmodem_Correct.thy ===== *)
theory Zmodem_Correct
  imports Zmodem_Wire
begin

text \<open>
  Correctness of the ZMODEM wire layers: what the checksums detect, that every encoder is inverted
  by its decoder wherever the item stands in the stream, and how many bytes a decoder may take.
\<close>

section \<open>Checksums\<close>

lemma top_bit16: "(c :: u16) AND 0x8000 \<noteq> 0 \<longleftrightarrow> bit c 15"
  using and_exp_eq_0_iff_not_bit[of c 15] by simp

lemma low_bit32: "(c :: u32) AND 1 \<noteq> 0 \<longleftrightarrow> bit c 0"
  by (simp add: and_one_eq bit_0 odd_iff_mod_2_eq_one)

lemma xor_cancel [simp]:
  "(a :: 'a :: len word) XOR b = a XOR c \<longleftrightarrow> b = c" "b XOR (a :: 'a :: len word) = c XOR a \<longleftrightarrow> b = c"
  by (metis xor.left_commute xor_self_eq xor.right_neutral,
      metis xor.commute xor.left_commute xor_self_eq xor.right_neutral)

lemma crc16_shift_low: "bit (crc16_shift c) 0 \<longleftrightarrow> bit c 15"
  by (simp add: crc16_shift_def top_bit16 bit_xor_iff, simp add: bit_0)

lemma crc16_shift_inj: "crc16_shift a = crc16_shift b \<Longrightarrow> a = b"
proof -
  assume e: "crc16_shift a = crc16_shift b"
  then have m: "bit a 15 = bit b 15" using crc16_shift_low by metis
  from e m have p: "push_bit 1 a = push_bit 1 b"
    by (auto simp: crc16_shift_def top_bit16)
  show "a = b"
  proof (rule bit_word_eqI)
    fix n :: nat
    assume n: "n < LENGTH(16)"
    show "bit a n = bit b n"
    proof (cases "n = 15")
      case False
      have "bit (push_bit 1 a) (Suc n) = bit (push_bit 1 b) (Suc n)" using p by simp
      then show ?thesis using n False unfolding bit_push_bit_iff by simp
    qed (use m in simp)
  qed
qed

lemma crc32_shift_high: "bit (crc32_shift c) 31 \<longleftrightarrow> bit c 0"
  by (auto simp: crc32_shift_def low_bit32 bit_xor_iff bit_drop_bit_eq dest: bit_imp_le_length)

lemma crc32_shift_inj: "crc32_shift a = crc32_shift b \<Longrightarrow> a = b"
proof -
  assume e: "crc32_shift a = crc32_shift b"
  then have m: "bit a 0 = bit b 0" using crc32_shift_high by metis
  from e m have p: "drop_bit 1 a = drop_bit 1 b" by (auto simp: crc32_shift_def low_bit32)
  show "a = b"
  proof (rule bit_word_eqI)
    fix n :: nat
    have "bit (drop_bit 1 a) (n - 1) = bit (drop_bit 1 b) (n - 1)" using p by simp
    then show "bit a n = bit b n" using m by (cases n) (simp_all add: bit_drop_bit_eq)
  qed
qed

lemma funpow_inj:
  fixes f :: "'a \<Rightarrow> 'a"
  shows "(\<And>x y. f x = f y \<Longrightarrow> x = y) \<Longrightarrow> (f ^^ n) a = (f ^^ n) b \<Longrightarrow> a = b"
proof (induction n)
  case (Suc n)
  from Suc.prems(2) have "f ((f ^^ n) a) = f ((f ^^ n) b)" by simp
  with Suc show ?case by blast
qed simp

lemma byte_readback:
  assumes "\<And>x n. n < 8 \<Longrightarrow> bit (g x) (n + k) \<longleftrightarrow> bit (x :: u8) n" "g a = g b"
  shows "a = b"
proof (rule bit_word_eqI)
  fix n :: nat
  assume "n < LENGTH(8)"
  then have "n < 8" by simp
  then show "bit a n = bit b n" using assms by metis
qed

lemma push_byte16_inj: "push_bit 8 (ucast (a :: u8)) = (push_bit 8 (ucast b) :: u16) \<Longrightarrow> a = b"
  by (rule byte_readback[where g = "\<lambda>x. push_bit 8 (ucast x)" and k = 8])
    (simp_all add: bit_push_bit_iff bit_ucast_iff)

lemma ucast_byte_inj: "(ucast (a :: u8) :: u32) = ucast b \<Longrightarrow> a = b"
  by (rule byte_readback[where g = ucast and k = 0]) (simp_all add: bit_ucast_iff)

text \<open>A register step is injective in the register, and in the byte.\<close>

lemma crc16_byte_inj: "crc16_byte b c = crc16_byte b c' \<longleftrightarrow> c = c'"
  unfolding crc16_byte_def
  by (metis crc16_shift_inj funpow_inj xor.commute xor_cancel)

lemma crc16_byte_distinct: "crc16_byte a c = crc16_byte b c \<longleftrightarrow> a = b"
  unfolding crc16_byte_def
  by (metis crc16_shift_inj funpow_inj xor_cancel push_byte16_inj)

lemma crc32_byte_inj: "crc32_byte b c = crc32_byte b c' \<longleftrightarrow> c = c'"
  unfolding crc32_byte_def
  by (metis crc32_shift_inj funpow_inj xor.commute xor_cancel)

lemma crc32_byte_distinct: "crc32_byte a c = crc32_byte b c \<longleftrightarrow> a = b"
  unfolding crc32_byte_def
  by (metis crc32_shift_inj funpow_inj xor_cancel ucast_byte_inj)

lemma fold_inj: "(\<And>x s t. f x s = f x t \<longleftrightarrow> s = t) \<Longrightarrow> fold f xs s = fold f xs t \<longleftrightarrow> s = t"
  by (induction xs arbitrary: s t) auto

text \<open>
  Both checksums detect every error confined to one byte: two messages that agree except in
  one position, at any length and position, have different CRC-16 and different CRC-32 values.
\<close>

lemma crc_detects_byte_error:
  "(crc16_xmodem (xs @ a # ys) = crc16_xmodem (xs @ b # ys) \<longleftrightarrow> a = b) \<and>
   (crc32 (xs @ a # ys) = crc32 (xs @ b # ys) \<longleftrightarrow> a = b)"
  by (simp add: crc16_xmodem_def crc32_def fold_inj[of crc16_byte] fold_inj[of crc32_byte]
      crc16_byte_inj crc16_byte_distinct crc32_byte_inj crc32_byte_distinct)

section \<open>ZDLE escaping\<close>

lemma decode_one_plain:
  "\<not> is_noise b \<Longrightarrow> b \<noteq> ZDLE \<Longrightarrow> decode_one (b # rest) = Inr (Byte b, 1)"
  by (simp add: decode_one_def)

lemma decode_one_escape:
  "decode_one (ZDLE # c # rest) =
     (if c = ZDLE then Inr (Cancel, 2)
      else if c = ZRUB0 then Inr (Byte 0x7F, 2)
      else if c = ZRUB1 then Inr (Byte 0xFF, 2)
      else case end_from_byte c of
          Some fe \<Rightarrow> Inr (FrameEnd fe, 2)
        | None \<Rightarrow> if c AND 0x60 = 0x40 then Inr (Byte (c XOR 0x40), 2) else Inl (InvalidEscape c))"
  by (simp add: decode_one_def is_noise_def ZDLE_def XON_def XOFF_def split: option.splits)

lemma decode_one_frame_end:
  "decode_one (ZDLE # end_to_byte fe # rest) = Inr (FrameEnd fe, 2)"
  unfolding decode_one_escape by (cases fe) (simp_all add: end_from_byte_def zconst_defs)

lemma decode_one_push:
  "decode_one (fst (push_byte e b) @ rest) = Inr (Byte b, length (fst (push_byte e b)))"
proof -
  have rub: "decode_one (ZDLE # ZRUB0 # rest) = Inr (Byte 0x7F, 2)"
    "decode_one (ZDLE # ZRUB1 # rest) = Inr (Byte 0xFF, 2)"
    unfolding decode_one_escape by (simp_all add: zconst_defs)
  have esc: "decode_one (ZDLE # (b XOR 0x40) # rest) = Inr (Byte b, 2)"
    if "b \<in> {ZDLE, 0x10, 0x90, XON, 0x91, XOFF, 0x93, 0x0D, 0x8D}"
    using that unfolding decode_one_escape by (auto simp: end_from_byte_def zconst_defs)
  have plain: "decode_one (b # rest) = Inr (Byte b, 1)"
    if "b \<noteq> ZDLE" "b \<notin> {0x10, 0x90, XON, 0x91, XOFF, 0x93}"
    using that by (intro decode_one_plain) (auto simp: is_noise_def)
  show ?thesis
    using rub esc plain by (auto simp: push_byte_def Let_def)
qed

lemma push_byte_shape:
  "(\<exists>w. fst (push_byte e b) = [w]) \<or> (\<exists>w. fst (push_byte e b) = [ZDLE, w])"
  by (simp add: push_byte_def Let_def)

lemma decode_one_cut: "strict_prefix p (fst (push_byte e b)) \<Longrightarrow> decode_one p = Inl ZIncomplete"
  using push_byte_shape[of e b]
  by (auto simp: strict_prefix_def prefix_Cons decode_one_def is_noise_def zconst_defs)

interpretation zdle: byte_stuffing push_byte push_slice decode_one Byte ZIncomplete
proof (unfold_locales, goal_cases)
  case (4 st b)
  then show ?case using push_byte_shape[of st b] by auto
qed (simp_all add: decode_one_push decode_one_cut)

lemma unescape_loop_slice: "unescape_loop (fst (push_slice e data)) out = Inr (out @ data)"
proof (induction data arbitrary: e out)
  case Nil
  then show ?case by (simp add: unescape_loop.simps)
next
  case (Cons b bs)
  have "fst (push_slice e (b # bs)) \<noteq> []" using zdle.push_nonempty by (simp only: zdle.fst_push_all_Cons) simp
  then show ?case
    using zdle.decode_slice[of e b bs "[]"] zdle.drop_slice[of e b bs "[]"] Cons
    by (simp add: unescape_loop.simps[of "fst (push_slice e (b # bs))"] del: push_slice.simps)
qed

text \<open>What never appears on an escaped stream: flow control, and a carriage return after \<open>@\<close>.\<close>

definition at_cr :: "u8 \<Rightarrow> u8 \<Rightarrow> bool" where
  "at_cr x y \<longleftrightarrow> x AND 0x7F = 0x40 \<and> y \<in> {0x0D, 0x8D}"

definition stripped :: "u8 set" where
  "stripped = {0x10, 0x90, XON, 0x91, XOFF, 0x93, 0x7F, 0xFF}"

lemma push_byte_safe:
  "set (fst (push_byte e b)) \<inter> stripped = {} \<and>
   successively (\<lambda>x y. \<not> at_cr x y) (last_sent e # fst (push_byte e b)) \<and>
   last_sent (snd (push_byte e b)) = last (fst (push_byte e b))"
  by (auto simp: push_byte_def Let_def at_cr_def stripped_def zconst_defs)

lemma push_slice_safe:
  "set (fst (push_slice e data)) \<inter> stripped = {} \<and>
   successively (\<lambda>x y. \<not> at_cr x y) (last_sent e # fst (push_slice e data))"
proof (induction data arbitrary: e)
  case (Cons b bs)
  let ?e = "snd (push_byte e b)" and ?w = "fst (push_byte e b)"
  have w: "?w \<noteq> []" by (rule zdle.push_nonempty)
  have "successively (\<lambda>x y. \<not> at_cr x y) ((last_sent e # ?w) @ fst (push_slice ?e bs))"
    using push_byte_safe[of e b] Cons.IH[of ?e] w
    by (subst successively_append_iff) (auto simp: successively_Cons)
  moreover have "set (fst (push_slice e (b # bs))) \<inter> stripped = {}"
    using push_byte_safe[of e b] Cons.IH[of ?e] by (auto simp: zdle.fst_push_all_Cons simp del: push_slice.simps)
  ultimately show ?case by (simp add: zdle.fst_push_all_Cons del: push_slice.simps)
qed simp

text \<open>
  Escaping is lossless and does its job: unescaping an escaped message gives the message back,
  and on the wire no byte is one of the control characters links swallow (DLE, XON, XOFF, their
  parity twins, DEL and \<open>0xFF\<close>), nor does a carriage return follow an \<open>@\<close>.
\<close>

lemma escape_lossless_and_safe:
  "unescape (escape data) = Inr data \<and> set (escape data) \<inter> stripped = {} \<and>
   successively (\<lambda>x y. \<not> at_cr x y) (escape data)"
  using push_slice_safe[of new_escaper data] unescape_loop_slice[of new_escaper data "[]"]
  by (cases "fst (push_slice new_escaper data) = []") (simp_all add: unescape_def escape_def successively_Cons)

section \<open>Subpackets\<close>

lemma sub_payload_slice:
  assumes "length acc + length data \<le> MAX_DECODE_PAYLOAD"
  shows "sub_payload (fst (push_slice e data) @ rest) acc i =
    sub_payload rest (acc @ data) (i + length (fst (push_slice e data)))"
  using assms
proof (induction data arbitrary: e acc i)
  case (Cons b bs)
  then show ?case
    unfolding zdle.fst_push_all_Cons append_assoc
    by (subst sub_payload.simps) (simp add: zdle.decode_push add.assoc)
qed simp

lemma sub_payload_end:
  "sub_payload (ZDLE # end_to_byte fe # rest) acc i = Inr (acc, fe, i + 2)"
  by (simp add: sub_payload.simps decode_one_frame_end)

lemma sub_crc_slice:
  "sub_crc_bytes (length c) (fst (push_slice e c) @ rest) i = Inr (c, i + length (fst (push_slice e c)))"
proof (induction c arbitrary: e i)
  case (Cons b bs)
  then show ?case
    using zdle.decode_slice[of e b bs rest] zdle.drop_slice[of e b bs rest]
    by (simp add: zdle.fst_push_all_Cons del: push_slice.simps)
qed simp

lemma received_crc_field:
  "received_crc wide (crc_field wide data t) = computed_crc wide data t"
  by (simp add: received_crc_def crc_field_def computed_crc_def le32_def be16_def of_le32_le32 of_be16_be16)

lemma length_crc_field [simp]: "length (crc_field wide data t) = (if wide then 4 else 2)"
  by (simp add: crc_field_def)

lemma encode_subpacket_parts:
  assumes "encode_subpacket_with data fe wide e = (Inr out, e')"
  obtains e2 where "length data \<le> MAX_PAYLOAD"
    "out = fst (push_slice e data) @ [ZDLE, end_to_byte fe] @
       fst (push_slice e2 (crc_field wide data (end_to_byte fe))) @ (if fe = Zcrcw then [XON] else [])"
  using assms by (auto simp: encode_subpacket_with_def Let_def case_prod_unfold push_frame_end_def
      split: if_splits)

lemma decode_encode_subpacket:
  assumes "encode_subpacket_with data fe wide e = (Inr out, e')"
  shows "decode_subpacket (out @ rest) wide =
    Inr \<lparr>payload = data, sub_end = fe, sub_consumed = length out\<rparr>"
proof -
  obtain e2 where len: "length data \<le> MAX_PAYLOAD"
    and out: "out = fst (push_slice e data) @ [ZDLE, end_to_byte fe] @
       fst (push_slice e2 (crc_field wide data (end_to_byte fe))) @ (if fe = Zcrcw then [XON] else [])"
    by (rule encode_subpacket_parts[OF assms])
  let ?c = "crc_field wide data (end_to_byte fe)"
  have "sub_crc_bytes (if wide then 4 else 2) (fst (push_slice e2 ?c) @ r) i =
      Inr (?c, i + length (fst (push_slice e2 ?c)))" for r i
    using sub_crc_slice[of ?c e2 r i] by (cases wide) simp_all
  moreover have "length data \<le> MAX_DECODE_PAYLOAD"
    using len by (simp add: MAX_PAYLOAD_def MAX_DECODE_PAYLOAD_def)
  ultimately show ?thesis
    by (auto simp: decode_subpacket_def out sub_payload_slice sub_payload_end received_crc_field Let_def)
qed

text \<open>
  A subpacket sent from any point of a stream is decoded from the front of whatever follows:
  the payload and frame end come back and exactly the bytes the encoder produced are consumed.
\<close>

lemma subpacket_roundtrip:
  assumes "encode_subpacket_with data fe wide e = (Inr out, e')"
  shows "decode_subpacket (out @ rest) wide =
    Inr \<lparr>payload = data, sub_end = fe, sub_consumed = length out\<rparr>"
  using assms by (rule decode_encode_subpacket)

lemma encode_short:
  "length data \<le> MAX_PAYLOAD \<Longrightarrow> \<exists>out e'. encode_subpacket_with data fe wide e = (Inr out, e')"
  by (simp add: encode_subpacket_with_def Let_def case_prod_unfold)

text \<open>Where a cut falls: in the payload, in the frame end, in the checksum, or before the XON.\<close>

lemma sub_payload_cut:
  assumes "length data \<le> MAX_DECODE_PAYLOAD" "strict_prefix p (fst (push_slice e data) @ [ZDLE, end_to_byte fe])"
  shows "sub_payload p [] 0 = Inl SIncomplete"
proof -
  have stop: "sub_payload (fst (push_slice e xs) @ q) [] 0 = Inl SIncomplete"
    if "length xs \<le> MAX_DECODE_PAYLOAD" "decode_one q = Inl ZIncomplete" for xs q
    using that by (simp add: sub_payload_slice sub_payload.simps[of q])
  from assms(2) consider "strict_prefix p (fst (push_slice e data))"
    | q where "p = fst (push_slice e data) @ q" "strict_prefix q [ZDLE, end_to_byte fe]"
    by (auto simp: strict_prefix_append_cases)
  then show ?thesis
  proof cases
    case 1
    from zdle.cut_slice[OF 1] obtain xs y ys q where
      "data = xs @ y # ys" "p = fst (push_slice e xs) @ q" "decode_one q = Inl ZIncomplete" by blast
    then show ?thesis using stop[of xs q] assms(1) by simp
  next
    case 2
    then have "q = [] \<or> q = [ZDLE]" by (auto simp: strict_prefix_def prefix_Cons)
    then have "decode_one q = Inl ZIncomplete" by (auto simp: decode_one_def is_noise_def zconst_defs)
    then show ?thesis using 2(1) stop[of data q] assms(1) by simp
  qed
qed

lemma sub_crc_cut:
  assumes "strict_prefix p (fst (push_slice e c))"
  shows "sub_crc_bytes (length c) p i = Inl SIncomplete"
proof -
  from zdle.cut_slice[OF assms] obtain xs y ys q where
    c: "c = xs @ y # ys" "p = fst (push_slice e xs) @ q" "decode_one q = Inl ZIncomplete" by blast
  have "length xs < n \<Longrightarrow> sub_crc_bytes n (fst (push_slice e xs) @ q) i = Inl SIncomplete" for n
    using c(3)
  proof (induction xs arbitrary: e i n)
    case Nil
    then show ?case by (cases n) simp_all
  next
    case (Cons b bs)
    then show ?case by (cases n)
      (simp_all add: zdle.fst_push_all_Cons zdle.decode_push del: push_slice.simps)
  qed
  then show ?thesis by (simp add: c del: sub_crc_bytes.simps)
qed

text \<open>
  A reader that waits for more bytes is right to do so: every proper prefix of an encoded
  subpacket is reported as incomplete, never as corrupt and never as some other packet. The one
  exception is harmless: a \<open>ZCRCW\<close> packet whose trailing XON is still missing is already complete.
\<close>

lemma subpacket_prefix_incomplete:
  assumes "encode_subpacket_with data fe wide e = (Inr out, e')" "strict_prefix p out"
  shows "decode_subpacket p wide = Inl SIncomplete \<or>
    (fe = Zcrcw \<and> out = p @ [XON] \<and>
     decode_subpacket p wide = Inr \<lparr>payload = data, sub_end = fe, sub_consumed = length p\<rparr>)"
proof -
  let ?c = "crc_field wide data (end_to_byte fe)"
  obtain e2 where "length data \<le> MAX_PAYLOAD"
    and out: "out = (fst (push_slice e data) @ [ZDLE, end_to_byte fe]) @
       fst (push_slice e2 ?c) @ (if fe = Zcrcw then [XON] else [])"
    by (rule encode_subpacket_parts[OF assms(1)]) simp
  then have len: "length data \<le> MAX_DECODE_PAYLOAD" by (simp add: MAX_PAYLOAD_def MAX_DECODE_PAYLOAD_def)
  from assms(2) consider "strict_prefix p (fst (push_slice e data) @ [ZDLE, end_to_byte fe])"
    | q where "p = (fst (push_slice e data) @ [ZDLE, end_to_byte fe]) @ q" "strict_prefix q (fst (push_slice e2 ?c))"
    | q where "p = (fst (push_slice e data) @ [ZDLE, end_to_byte fe]) @ fst (push_slice e2 ?c) @ q"
        "strict_prefix q (if fe = Zcrcw then [XON] else [])"
    unfolding out strict_prefix_append_cases by blast
  then show ?thesis
  proof cases
    case 1
    then show ?thesis using sub_payload_cut[OF len] by (simp add: decode_subpacket_def)
  next
    case 2
    have "sub_crc_bytes (if wide then 4 else 2) q i = Inl SIncomplete" for i
      using sub_crc_cut[OF 2(2), of i] by (simp only: length_crc_field)
    then show ?thesis using len by (simp add: decode_subpacket_def 2(1) sub_payload_slice sub_payload_end)
  next
    case 3
    then have q: "fe = Zcrcw" "q = []" by (auto simp: strict_prefix_def prefix_Cons split: if_splits)
    have "sub_crc_bytes (if wide then 4 else 2) (fst (push_slice e2 ?c)) i =
        Inr (?c, i + length (fst (push_slice e2 ?c)))" for i
      using sub_crc_slice[of ?c e2 "[]" i] by (simp only: length_crc_field append_Nil2)
    then show ?thesis
      using 3(1) q len
      by (simp add: decode_subpacket_def sub_payload_slice sub_payload_end received_crc_field out
          del: end_to_byte.simps)
  qed
qed

section \<open>Headers\<close>

lemma type_from_byte_inverse [simp]: "type_from_byte (type_byte t) = Some t"
  by (cases t) (simp_all add: type_from_byte_def ALL_TYPES_def)

lemma type_byte_inverse: "type_from_byte b = Some t \<Longrightarrow> type_byte t = b"
proof -
  assume t: "type_from_byte b = Some t"
  then have "unat b < 18" by (simp add: type_from_byte_def ALL_TYPES_def split: if_splits)
  moreover have "b = of_nat (unat b)" by simp
  ultimately obtain k where k: "k < 18" "b = of_nat k" by blast
  then have "k \<in> {0, 1, 2, 3, 4, 5, 6, 7, 8, 9, 10, 11, 12, 13, 14, 15, 16, 17}" by (simp; presburger)
  with t k show ?thesis by (elim insertE) (auto simp: type_from_byte_def ALL_TYPES_def)
qed

lemma header_pos_with_pos: "header_pos (header_with_pos t pos) = pos"
  by (simp add: header_pos_def header_with_pos_def of_le32_le32)

lemma hex_value_digit: "hex_value (hex_digit n) = Inr (n AND 0x0F)"
proof -
  define m where "m = n AND 0x0F"
  have "unat m < 16"
    using word_and_le1[of n "0x0F"] by (simp add: m_def word_le_nat_alt)
  moreover have "m = of_nat (unat m)" by simp
  ultimately obtain k where k: "k < 16" "m = of_nat k" by blast
  then have "k \<in> {0, 1, 2, 3, 4, 5, 6, 7, 8, 9, 10, 11, 12, 13, 14, 15}" by (simp; presburger)
  then have "hex_value (([0x30, 0x31, 0x32, 0x33, 0x34, 0x35, 0x36, 0x37, 0x38, 0x39,
       0x61, 0x62, 0x63, 0x64, 0x65, 0x66] :: bytes) ! unat m) = Inr m"
    unfolding k(2) by (elim insertE) (simp_all add: hex_value_def)
  then show ?thesis by (simp add: hex_digit_def m_def)
qed

lemma hex_byte_joins: "(push_bit 4 (drop_bit 4 b) AND 0xF0) OR (b AND 0x0F) = (b :: u8)"
proof -
  have m: "(0x0F :: u8) = mask 4" "(0xF0 :: u8) = push_bit 4 (mask 4)"
    by (simp_all add: mask_eq_exp_minus_1)
  show ?thesis unfolding m
    by (rule bit_word_eqI) (auto simp: bit_or_iff bit_and_iff bit_push_bit_iff bit_drop_bit_eq bit_mask_iff)
qed

lemma hex_bytes_encoded:
  assumes "drop i input = concat (map hex_byte bs) @ rest"
  shows "hex_bytes (length bs) input i = Inr (bs, i + 2 * length bs)"
  using assms
proof (induction bs arbitrary: i)
  case (Cons b bs)
  then have d: "drop i input = hex_digit (drop_bit 4 b) # hex_digit (b AND 0x0F) # concat (map hex_byte bs) @ rest"
    by (simp add: hex_byte_def[of b])
  then have "drop 2 (drop i input) = concat (map hex_byte bs) @ rest" by simp
  then have "drop (i + 2) input = concat (map hex_byte bs) @ rest" by (simp add: add.commute)
  then show ?case using Cons.IH d by (simp add: hex_value_digit hex_byte_joins and.assoc)
qed simp

lemma bin_bytes_slice:
  assumes "drop i input = fst (push_slice e bs) @ rest"
  shows "bin_bytes (length bs) input i = Inr (bs, i + length (fst (push_slice e bs)))"
  using assms
proof (induction bs arbitrary: i e)
  case (Cons b bs)
  let ?w = "fst (push_byte e b)"
  have "drop (i + length ?w) input = fst (push_slice (snd (push_byte e b)) bs) @ rest"
    using Cons.prems by (metis add.commute drop_drop zdle.drop_slice)
  then show ?case
    using Cons.prems Cons.IH[of "i + length ?w"] zdle.decode_slice[of e b bs rest]
    by (simp add: zdle.fst_push_all_Cons del: push_slice.simps)
qed simp

lemma length_body [simp]: "length (body_bytes h) = 5"
  by (simp add: body_bytes_def split: prod.splits)

lemma length_hex_digits [simp]: "length (concat (map hex_byte bs)) = 2 * length bs"
  by (induction bs) (simp_all add: hex_byte_def)

lemma finish_body:
  "finish_header (body_bytes h ! 0) (body_bytes h ! 1, body_bytes h ! 2, body_bytes h ! 3, body_bytes h ! 4) fmt n =
     Inr \<lparr>header = h, format = fmt, consumed = n\<rparr>"
  by (cases h) (auto simp: finish_header_def body_bytes_def)

lemma eat_at: "drop i input = b # rest \<Longrightarrow> b \<in> set xs \<Longrightarrow> eat input xs i = i + 1"
  "drop i input = ys \<Longrightarrow> (case ys of b # _ \<Rightarrow> b \<notin> set xs | [] \<Rightarrow> True) \<Longrightarrow> eat input xs i = i"
  by (auto simp: eat_def split: list.splits)

lemma drop_step: "drop i xs = y # ys \<Longrightarrow> drop (i + 1) xs = ys"
  by (metis Suc_eq_plus1 drop_Suc list.sel(3) tl_drop)

text \<open>What may not follow a hex header without an XON of its own, lest the decoder take it.\<close>

definition clear_of_xon :: "header \<Rightarrow> header_format \<Rightarrow> bytes \<Rightarrow> bool" where
  "clear_of_xon h fmt rest \<longleftrightarrow>
     fmt = Hex \<and> frame_type h \<in> {Zack, Zfin} \<longrightarrow> (case rest of b # _ \<Rightarrow> b \<noteq> XON | [] \<Rightarrow> True)"

lemma decode_hex_body_encoded:
  assumes "drop i input = concat (map hex_byte (body_bytes h @ be16 (crc16_xmodem (body_bytes h)))) @
      [0x0D, 0x0A] @ (if frame_type h \<noteq> Zack \<and> frame_type h \<noteq> Zfin then [XON] else []) @ rest"
    and "clear_of_xon h Hex rest"
  shows "decode_hex_body input i = Inr \<lparr>header = h, format = Hex,
      consumed = i + (if frame_type h \<noteq> Zack \<and> frame_type h \<noteq> Zfin then 17 else 16)\<rparr>"
proof -
  let ?b = "body_bytes h" and ?x = "if frame_type h \<noteq> Zack \<and> frame_type h \<noteq> Zfin then [XON] else []"
  let ?raw = "?b @ be16 (crc16_xmodem ?b)"
  have hb: "hex_bytes 7 input i = Inr (?raw, i + 14)"
    using hex_bytes_encoded[OF assms(1)] by simp
  have "drop 14 (drop i input) = [0x0D, 0x0A] @ ?x @ rest" by (simp only: assms(1)) simp
  then have d: "drop (i + 14) input = 0x0D # 0x0A # ?x @ rest" by (simp add: add.commute)
  then have d2: "drop (i + 15) input = 0x0A # ?x @ rest" "drop (i + 16) input = ?x @ rest"
    using drop_step[OF d] drop_step[OF drop_step[OF d]] by (simp_all add: add.commute)
  have "eat input [XON] (i + 16) = i + (if frame_type h \<noteq> Zack \<and> frame_type h \<noteq> Zfin then 17 else 16)"
    using assms(2) d2(2) by (auto simp: eat_def clear_of_xon_def split: list.splits)
  moreover have "eat input [0x0D, 0x8D] (i + 14) = i + 15" "eat input [0x0A, 0x8A] (i + 15) = i + 16"
    using eat_at(1)[OF d] eat_at(1)[OF d2(1)] by simp_all
  moreover have "?raw ! 0 = ?b ! 0" "?raw ! 1 = ?b ! 1" "?raw ! 2 = ?b ! 2" "?raw ! 3 = ?b ! 3" "?raw ! 4 = ?b ! 4"
    by (simp_all add: nth_append)
  moreover have "of_be16 (?raw ! 5) (?raw ! 6) = crc16_xmodem ?b"
    by (simp add: nth_append be16_def of_be16_be16)
  ultimately show ?thesis
    by (simp add: decode_hex_body_def hb finish_body del: One_nat_def)
qed

lemma decode_bin_body_encoded:
  assumes "drop i input = fst (push_slice e (body_bytes h @ c)) @ rest"
    and "c = (if wide then le32 (crc32 (body_bytes h)) else be16 (crc16_xmodem (body_bytes h)))"
  shows "decode_bin_body input i wide = Inr \<lparr>header = h, format = (if wide then Bin32 else Bin16),
      consumed = i + length (fst (push_slice e (body_bytes h @ c)))\<rparr>"
proof -
  let ?b = "body_bytes h"
  have n: "5 + (if wide then 4 else 2) = length (?b @ c)" using assms(2) by simp
  have bb: "bin_bytes (5 + (if wide then 4 else 2)) input i =
      Inr (?b @ c, i + length (fst (push_slice e (?b @ c))))"
    unfolding n by (rule bin_bytes_slice[OF assms(1)])
  have raw: "(?b @ c) ! 0 = ?b ! 0" "(?b @ c) ! 1 = ?b ! 1" "(?b @ c) ! 2 = ?b ! 2" "(?b @ c) ! 3 = ?b ! 3"
    "(?b @ c) ! 4 = ?b ! 4" by (simp_all add: nth_append)
  have "received_crc wide c = (if wide then crc32 ?b else ucast (crc16_xmodem ?b))"
    by (simp add: assms(2) received_crc_def le32_def be16_def of_le32_le32 of_be16_be16)
  then show ?thesis
    unfolding decode_bin_body_def bb by (simp add: raw finish_body del: One_nat_def)
qed

lemma encode_bin_parts:
  "encode_bin16 h = [ZPAD, ZDLE, ZBIN] @ fst (push_slice new_escaper (body_bytes h @ be16 (crc16_xmodem (body_bytes h))))"
  "encode_bin32 h = [ZPAD, ZDLE, ZBIN32] @ fst (push_slice new_escaper (body_bytes h @ le32 (crc32 (body_bytes h))))"
  by (simp_all add: encode_bin16_def encode_bin32_def Let_def case_prod_unfold zdle.push_all_append)

lemma decode_encode_header:
  assumes "clear_of_xon h fmt rest"
  shows "decode_header (encode_header h fmt @ rest) =
    Inr \<lparr>header = h, format = fmt, consumed = length (encode_header h fmt)\<rparr>"
proof (cases fmt)
  case Hex
  let ?in = "encode_hex h @ rest"
  have "drop 4 ?in = concat (map hex_byte (body_bytes h @ be16 (crc16_xmodem (body_bytes h)))) @
      [0x0D, 0x0A] @ (if frame_type h \<noteq> Zack \<and> frame_type h \<noteq> Zfin then [XON] else []) @ rest"
    by (simp add: encode_hex_def Let_def)
  from decode_hex_body_encoded[OF this] assms Hex
  have "decode_hex_body ?in 4 = Inr \<lparr>header = h, format = Hex, consumed = length (encode_hex h)\<rparr>"
    by (simp add: encode_hex_def Let_def hex_byte_def)
  moreover have "decode_header ?in = decode_hex_body ?in 4"
    by (simp add: decode_header_def encode_hex_def Let_def zconst_defs, simp add: eval_nat_numeral)
  ultimately show ?thesis by (simp add: Hex)
next
  case Bin16
  let ?in = "encode_bin16 h @ rest"
  from decode_bin_body_encoded[of 3 ?in new_escaper h _ rest False]
  have "decode_bin_body ?in 3 False = Inr \<lparr>header = h, format = Bin16, consumed = length (encode_bin16 h)\<rparr>"
    by (simp add: encode_bin_parts)
  moreover have "decode_header ?in = decode_bin_body ?in 3 False"
    by (simp add: decode_header_def encode_bin_parts Let_def zconst_defs, simp add: eval_nat_numeral)
  ultimately show ?thesis by (simp add: Bin16)
next
  case Bin32
  let ?in = "encode_bin32 h @ rest"
  from decode_bin_body_encoded[of 3 ?in new_escaper h _ rest True]
  have "decode_bin_body ?in 3 True = Inr \<lparr>header = h, format = Bin32, consumed = length (encode_bin32 h)\<rparr>"
    by (simp add: encode_bin_parts)
  moreover have "decode_header ?in = decode_bin_body ?in 3 True"
    by (simp add: decode_header_def encode_bin_parts Let_def zconst_defs, simp add: eval_nat_numeral)
  ultimately show ?thesis by (simp add: Bin32)
qed

text \<open>
  Headers survive the wire in all three encodings: decoding an encoded header, with anything
  after it, gives the same frame type and data bytes, names the encoding used, and consumes exactly
  the encoding. (After a hex ZACK or ZFIN, which carry no XON, the next byte must not be a stray XON.)
\<close>

lemma header_roundtrip:
  assumes "clear_of_xon h fmt rest"
  shows "decode_header (encode_header h fmt @ rest) =
    Inr \<lparr>header = h, format = fmt, consumed = length (encode_header h fmt)\<rparr>"
  using assms by (rule decode_encode_header)

section \<open>Decoders stay inside their input\<close>

lemma decode_one_drop:
  "decode_one (drop i input) = Inr (it, used) \<Longrightarrow> i < i + used \<and> i + used \<le> length input"
  using decode_one_used[of "drop i input" it used] by auto

lemma sub_payload_bounds:
  "sub_payload input acc i = Inr (data, fe, j) \<Longrightarrow> length acc \<le> MAX_DECODE_PAYLOAD \<Longrightarrow>
     i < j \<and> j \<le> i + length input \<and> length data \<le> MAX_DECODE_PAYLOAD"
proof (induction input acc i rule: sub_payload.induct)
  case (1 input acc i)
  show ?case
  proof (cases "decode_one input")
    case (Inr r)
    obtain it used where r: "r = (it, used)" by (cases r)
    note d = decode_one_used[OF Inr[unfolded r]]
    from 1(2) Inr r d show ?thesis
      using 1(1)[OF Inr, of it used] 1(3)
      by (subst (asm) sub_payload.simps) (auto split: wire_item.splits if_splits)
  qed (use 1(2) in \<open>simp add: sub_payload.simps\<close>)
qed

lemma sub_crc_bounds:
  "sub_crc_bytes n input i = Inr (bs, j) \<Longrightarrow> i \<le> j \<and> j \<le> i + length input"
proof (induction n input i arbitrary: bs j rule: sub_crc_bytes.induct)
  case (2 n input i)
  then show ?case
    by (auto split: sum.splits wire_item.splits prod.splits dest!: decode_one_used) fastforce+
qed simp

lemma hex_bytes_bounds:
  "hex_bytes n input i = Inr (bs, j) \<Longrightarrow> i \<le> length input \<Longrightarrow> i \<le> j \<and> j \<le> length input"
proof (induction n input i arbitrary: bs j rule: hex_bytes.induct)
  case (2 n input i)
  then obtain h l zs where d: "drop i input = h # l # zs" by (auto split: list.splits sum.splits)
  have "i + 2 \<le> length input" using arg_cong[OF d, of length] by simp
  with 2 d show ?case by (auto split: sum.splits) fastforce+
qed simp

lemma bin_bytes_bounds:
  "bin_bytes n input i = Inr (bs, j) \<Longrightarrow> i \<le> length input \<Longrightarrow> i \<le> j \<and> j \<le> length input"
proof (induction n input i arbitrary: bs j rule: bin_bytes.induct)
  case (2 n input i)
  then show ?case
    by (auto split: sum.splits wire_item.splits prod.splits dest!: decode_one_drop) fastforce+
qed simp

lemma eat_bounds: "i \<le> length input \<Longrightarrow> i \<le> eat input xs i \<and> eat input xs i \<le> length input"
  by (auto simp: eat_def split: list.splits dest!: arg_cong[of _ _ length])

lemma decode_hex_body_bounds:
  "decode_hex_body input i = Inr d \<Longrightarrow> i \<le> length input \<Longrightarrow> i \<le> consumed d \<and> consumed d \<le> length input"
  by (auto simp: decode_hex_body_def finish_header_def Let_def split: sum.splits if_splits option.splits
      dest!: hex_bytes_bounds) (meson eat_bounds order_trans)+

lemma decode_bin_body_bounds:
  "decode_bin_body input i wide = Inr d \<Longrightarrow> i \<le> length input \<Longrightarrow> i \<le> consumed d \<and> consumed d \<le> length input"
  by (auto simp: decode_bin_body_def finish_header_def Let_def split: sum.splits if_splits option.splits
      dest!: bin_bytes_bounds)

lemma decode_header_bounds: "decode_header xs = Inr d \<Longrightarrow> 0 < consumed d \<and> consumed d \<le> length xs"
proof -
  assume h: "decode_header xs = Inr d"
  define i where "i = length (takeWhile (\<lambda>x. x = ZPAD) xs)"
  from h obtain z f zs where d: "drop i xs = z # f # zs"
    and b: "decode_hex_body xs (i + 2) = Inr d \<or> (\<exists>w. decode_bin_body xs (i + 2) w = Inr d)"
    by (auto simp: decode_header_def i_def Let_def split: list.splits if_splits)
  have "i + 2 \<le> length xs" using arg_cong[OF d, of length] by simp
  then show ?thesis using b decode_hex_body_bounds decode_bin_body_bounds by fastforce
qed

text \<open>
  No input makes a decoder claim bytes it was not given: a decoded header or subpacket took at
  least one byte and at most the bytes present, and a payload is never longer than the 8 KiB cap.
\<close>

lemma decoders_in_bounds:
  "(\<forall>d. decode_header xs = Inr d \<longrightarrow> 0 < consumed d \<and> consumed d \<le> length xs) \<and>
   (\<forall>p. decode_subpacket xs wide = Inr p \<longrightarrow>
      0 < sub_consumed p \<and> sub_consumed p \<le> length xs \<and> length (payload p) \<le> MAX_DECODE_PAYLOAD)"
proof -
  have "0 < sub_consumed p \<and> sub_consumed p \<le> length xs \<and> length (payload p) \<le> MAX_DECODE_PAYLOAD"
    if p: "decode_subpacket xs wide = Inr p" for p
  proof -
    from p obtain data fe i c j where s: "sub_payload xs [] 0 = Inr (data, fe, i)"
      "sub_crc_bytes (if wide then 4 else 2) (drop i xs) i = Inr (c, j)"
      and p': "payload p = data" "sub_consumed p =
        (if fe = Zcrcw \<and> (case drop j xs of b # _ \<Rightarrow> b = XON | [] \<Rightarrow> False) then j + 1 else j)"
      by (auto simp: decode_subpacket_def Let_def split: sum.splits if_splits)
    have "0 < i" "i \<le> length xs" "length data \<le> MAX_DECODE_PAYLOAD" using sub_payload_bounds[OF s(1)] by auto
    moreover have "i \<le> j" "j \<le> length xs" using sub_crc_bounds[OF s(2)] calculation by auto
    moreover have "drop j xs = b # zs \<Longrightarrow> j + 1 \<le> length xs" for b zs
      by (auto dest: arg_cong[of _ _ length])
    ultimately show ?thesis by (auto simp: p' split: list.splits)
  qed
  then show ?thesis using decode_header_bounds by blast
qed

end
