(* ===== verification/Zmodem_Session.thy ===== *)
theory Zmodem_Session
  imports Zmodem_Correct Zmodem_File
begin

text \<open>
  The sans-IO session machines of \<open>crates/legacy-zmodem/src/session.rs\<close>: \<open>Receiver\<close> and \<open>Sender\<close>,
  each a record and one function per method, returning the new machine beside the actions or the
  error. The sending driver of \<open>apps/server/src/zmodem.rs\<close> (\<open>drive_send\<close>, \<open>stream_data\<close>) closes the
  loop. Main results: the receiver's writes are always contiguous, neither machine grants more than
  eight recoveries, and over a link that loses nothing the driver delivers the file.
\<close>

section \<open>Events, actions, errors\<close>

definition MAX_RECOVERY_ATTEMPTS :: u8 where "MAX_RECOVERY_ATTEMPTS = 8"

datatype session_error =
    RetriesExhausted | UnexpectedEvent str str | BadFileInfo file_info_error

definition recovery :: "u8 \<Rightarrow> session_error + u8" where
  "recovery attempts =
     (if attempts \<ge> MAX_RECOVERY_ATTEMPTS then Inl RetriesExhausted else Inr (attempts + 1))"

datatype recv_state =
    AwaitingInit | AwaitingFile | AwaitingFileInfo
  | AwaitingData (expected: u32) | ReceivingData (expected: u32) | RDone

fun recv_state_name :: "recv_state \<Rightarrow> str" where
  "recv_state_name AwaitingInit = lit ''AwaitingInit''"
| "recv_state_name AwaitingFile = lit ''AwaitingFile''"
| "recv_state_name AwaitingFileInfo = lit ''AwaitingFileInfo''"
| "recv_state_name (AwaitingData _) = lit ''AwaitingData''"
| "recv_state_name (ReceivingData _) = lit ''ReceivingData''"
| "recv_state_name RDone = lit ''Done''"

datatype recv_event = RHeader header | RData bytes frame_end

fun recv_event_name :: "recv_event \<Rightarrow> str" where
  "recv_event_name (RHeader _) = lit ''header''"
| "recv_event_name (RData _ _) = lit ''data subpacket''"

datatype recv_action =
    RSendHeader header header_format
  | OpenFile file_info
  | WriteData u32 bytes
  | CloseFile
  | RSendOverAndOut
  | RFinished

section \<open>The receiver\<close>

record receiver =
  rstate :: recv_state
  resume_offset :: u32
  rrecoveries :: u8
  last_reply :: "recv_action option"

type_synonym recv_result = "receiver \<times> (session_error + recv_action list)"

definition new_receiver :: receiver where
  "new_receiver = \<lparr>rstate = AwaitingInit, resume_offset = 0, rrecoveries = 0, last_reply = None\<rparr>"

definition set_resume_offset :: "receiver \<Rightarrow> u32 \<Rightarrow> receiver" where
  "set_resume_offset rx offset = rx\<lparr>resume_offset := offset\<rparr>"

definition decline_file :: "receiver \<Rightarrow> recv_result" where
  "decline_file rx =
     (if rstate rx \<noteq> AwaitingFileInfo
      then (rx, Inl (UnexpectedEvent (recv_state_name (rstate rx)) (lit ''file decline'')))
      else let reply = RSendHeader (new_header Zskip) Hex
           in (rx\<lparr>resume_offset := 0, rstate := AwaitingFile, last_reply := Some reply\<rparr>, Inr [reply]))"

definition recv_corrupt_header :: "receiver \<Rightarrow> recv_result" where
  "recv_corrupt_header rx =
     (case recovery (rrecoveries rx) of
        Inl e \<Rightarrow> (rx, Inl e)
      | Inr n \<Rightarrow> (rx\<lparr>rrecoveries := n\<rparr>, Inr [RSendHeader (new_header Znak) Hex]))"

definition zrinit :: recv_action where
  "zrinit = RSendHeader (header_with_flags Zrinit 0 0 0 (CANFDX OR CANOVIO OR CANFC32)) Hex"

definition zrpos :: "u32 \<Rightarrow> recv_action" where
  "zrpos offset = RSendHeader (header_with_pos Zrpos offset) Hex"

definition zack :: "u32 \<Rightarrow> recv_action" where
  "zack offset = RSendHeader (header_with_pos Zack offset) Hex"

text \<open>The data branch: the write, and where the frame end leads.\<close>

definition receive_data :: "receiver \<Rightarrow> u32 \<Rightarrow> bytes \<Rightarrow> frame_end \<Rightarrow> recv_result" where
  "receive_data rx offset data fe =
     (let new_offset = offset + of_nat (length data); write = WriteData offset data in
      case fe of
        Zcrcg \<Rightarrow> (rx\<lparr>rstate := ReceivingData new_offset\<rparr>, Inr [write])
      | Zcrce \<Rightarrow> (rx\<lparr>rstate := AwaitingData new_offset\<rparr>, Inr [write])
      | Zcrcq \<Rightarrow> (rx\<lparr>rstate := ReceivingData new_offset\<rparr>, Inr [write, zack new_offset])
      | Zcrcw \<Rightarrow> (rx\<lparr>rstate := AwaitingData new_offset\<rparr>, Inr [write, zack new_offset]))"

definition recv_advance_inner :: "receiver \<Rightarrow> recv_event \<Rightarrow> recv_result" where
  "recv_advance_inner rx ev =
     (let unexpected = (rx, Inl (UnexpectedEvent (recv_state_name (rstate rx)) (recv_event_name ev))) in
      case (rstate rx, ev) of
        (AwaitingInit, RHeader h) \<Rightarrow>
          if frame_type h = Zrqinit then (rx\<lparr>rstate := AwaitingFile\<rparr>, Inr [zrinit]) else unexpected
      | (AwaitingFile, RHeader h) \<Rightarrow>
          if frame_type h = Zrqinit then (rx, Inr [zrinit])
          else if frame_type h = Zfile then (rx\<lparr>rstate := AwaitingFileInfo\<rparr>, Inr [])
          else if frame_type h = Zfin
          then (rx\<lparr>rstate := RDone\<rparr>, Inr [RSendHeader (new_header Zfin) Hex, RSendOverAndOut, RFinished])
          else unexpected
      | (AwaitingFileInfo, RData data _) \<Rightarrow>
          (case decode_info data of
             Inl e \<Rightarrow> (rx, Inl (BadFileInfo e))
           | Inr info \<Rightarrow>
               let start = resume_offset rx
               in (rx\<lparr>resume_offset := 0, rstate := AwaitingData start\<rparr>, Inr [OpenFile info, zrpos start]))
      | (AwaitingData offset, RHeader h) \<Rightarrow>
          if frame_type h = Zdata then
            (if header_pos h = offset then (rx\<lparr>rstate := ReceivingData offset\<rparr>, Inr [])
             else (rx, Inr [zrpos offset]))
          else if frame_type h = Zeof then
            (if header_pos h = offset then (rx\<lparr>rstate := AwaitingFile\<rparr>, Inr [CloseFile, zrinit])
             else (rx, Inr [zrpos offset]))
          else unexpected
      | (ReceivingData offset, RData data fe) \<Rightarrow> receive_data rx offset data fe
      | _ \<Rightarrow> unexpected)"

definition is_rsend :: "recv_action \<Rightarrow> bool" where
  "is_rsend a = (case a of RSendHeader _ _ \<Rightarrow> True | _ \<Rightarrow> False)"

text \<open>A ZNAK, or a ZFIN after the end, replays the last reply.\<close>

definition is_replay_request :: "receiver \<Rightarrow> recv_event \<Rightarrow> bool" where
  "is_replay_request rx ev =
     (case ev of RHeader h \<Rightarrow> frame_type h = Znak \<or> (rstate rx = RDone \<and> frame_type h = Zfin) | _ \<Rightarrow> False)"

definition recv_advance :: "receiver \<Rightarrow> recv_event \<Rightarrow> recv_result" where
  "recv_advance rx ev =
     (if is_replay_request rx ev then
        (case recovery (rrecoveries rx) of
           Inl e \<Rightarrow> (rx, Inl e)
         | Inr n \<Rightarrow>
             (rx\<lparr>rrecoveries := n\<rparr>,
              case last_reply rx of
                Some reply \<Rightarrow> Inr [reply]
              | None \<Rightarrow> Inl (UnexpectedEvent (recv_state_name (rstate rx)) (lit ''ZNAK before any reply''))))
      else
        (case recv_advance_inner rx ev of
           (rx, Inl e) \<Rightarrow> (rx, Inl e)
         | (rx, Inr actions) \<Rightarrow>
             (case find is_rsend (rev actions) of
                Some reply \<Rightarrow> (rx\<lparr>last_reply := Some reply\<rparr>, Inr actions)
              | None \<Rightarrow> (rx, Inr actions))))"

section \<open>The sender\<close>

datatype send_state =
    SStart | AwaitingRinit | AwaitingFileAck | Streaming u32 | AwaitingEofAck | AwaitingFinAck | SDone

fun send_state_name :: "send_state \<Rightarrow> str" where
  "send_state_name SStart = lit ''Start''"
| "send_state_name AwaitingRinit = lit ''AwaitingRinit''"
| "send_state_name AwaitingFileAck = lit ''AwaitingFileAck''"
| "send_state_name (Streaming _) = lit ''Streaming''"
| "send_state_name AwaitingEofAck = lit ''AwaitingEofAck''"
| "send_state_name AwaitingFinAck = lit ''AwaitingFinAck''"
| "send_state_name SDone = lit ''Done''"

datatype send_event = SHeader header | DataExhausted u32

fun send_event_name :: "send_event \<Rightarrow> str" where
  "send_event_name (SHeader _) = lit ''header''"
| "send_event_name (DataExhausted _) = lit ''data exhausted''"

datatype send_action =
    SSendHeader header header_format
  | SendFileInfo file_info
  | StreamData u32
  | SSendOverAndOut
  | SFinished

record sender_machine =
  sstate :: send_state
  sinfo :: file_info
  peer_can_fc32 :: bool
  srecoveries :: u8
  last_exchange :: "send_action list"
  skipped :: bool

type_synonym send_result = "sender_machine \<times> (session_error + send_action list)"

definition new_sender :: "file_info \<Rightarrow> sender_machine" where
  "new_sender info =
     \<lparr>sstate = SStart, sinfo = info, peer_can_fc32 = False, srecoveries = 0, last_exchange = [], skipped = False\<rparr>"

definition send_corrupt_header :: "sender_machine \<Rightarrow> send_result" where
  "send_corrupt_header tx =
     (case recovery (srecoveries tx) of
        Inl e \<Rightarrow> (tx, Inl e)
      | Inr n \<Rightarrow> (tx\<lparr>srecoveries := n\<rparr>, Inr [SSendHeader (new_header Znak) Hex]))"

definition retry_exchange :: "sender_machine \<Rightarrow> send_result" where
  "retry_exchange tx =
     (if last_exchange tx = [] \<or> sstate tx = SDone
      then (tx, Inl (UnexpectedEvent (send_state_name (sstate tx)) (lit ''ZNAK without a pending exchange'')))
      else case recovery (srecoveries tx) of
        Inl e \<Rightarrow> (tx, Inl e)
      | Inr n \<Rightarrow> (tx\<lparr>srecoveries := n\<rparr>, Inr (last_exchange tx)))"

definition binary_format :: "sender_machine \<Rightarrow> header_format" where
  "binary_format tx = (if peer_can_fc32 tx then Bin32 else Bin16)"

definition start_sender :: "sender_machine \<Rightarrow> send_result" where
  "start_sender tx =
     (if sstate tx \<noteq> SStart
      then (tx, Inl (UnexpectedEvent (send_state_name (sstate tx)) (lit ''start'')))
      else let acts = [SSendHeader (new_header Zrqinit) Hex]
           in (tx\<lparr>sstate := AwaitingRinit, last_exchange := acts\<rparr>, Inr acts))"

text \<open>Re-anchoring on a \<open>ZRPOS\<close>, the same in each of the three states that honour one.\<close>

definition stream_from :: "sender_machine \<Rightarrow> u32 \<Rightarrow> send_result" where
  "stream_from tx from =
     (tx\<lparr>sstate := Streaming from\<rparr>,
      Inr [SSendHeader (header_with_pos Zdata from) (binary_format tx), StreamData from])"

definition send_advance_inner :: "sender_machine \<Rightarrow> send_event \<Rightarrow> send_result" where
  "send_advance_inner tx ev =
     (let unexpected = (tx, Inl (UnexpectedEvent (send_state_name (sstate tx)) (send_event_name ev))) in
      case (sstate tx, ev) of
        (AwaitingRinit, SHeader h) \<Rightarrow>
          if frame_type h = Zrinit
          then let tx = tx\<lparr>peer_can_fc32 := (zf0 h AND CANFC32 \<noteq> 0), sstate := AwaitingFileAck\<rparr>
               in (tx, Inr [SSendHeader (new_header Zfile) (binary_format tx), SendFileInfo (sinfo tx)])
          else unexpected
      | (AwaitingFileAck, SHeader h) \<Rightarrow>
          if frame_type h = Zrpos then stream_from tx (header_pos h) else unexpected
      | (Streaming _, SHeader h) \<Rightarrow>
          if frame_type h = Zrpos then stream_from tx (header_pos h)
          else if frame_type h = Zack then (tx, Inr [])
          else unexpected
      | (Streaming _, DataExhausted offset) \<Rightarrow>
          (tx\<lparr>sstate := AwaitingEofAck\<rparr>, Inr [SSendHeader (header_with_pos Zeof offset) Hex])
      | (AwaitingEofAck, SHeader h) \<Rightarrow>
          if frame_type h = Zrpos then stream_from tx (header_pos h)
          else if frame_type h = Zrinit
          then (tx\<lparr>sstate := AwaitingFinAck\<rparr>, Inr [SSendHeader (new_header Zfin) Hex])
          else unexpected
      | (AwaitingFinAck, SHeader h) \<Rightarrow>
          if frame_type h = Zfin then (tx\<lparr>sstate := SDone\<rparr>, Inr [SSendOverAndOut, SFinished])
          else unexpected
      | _ \<Rightarrow> unexpected)"

definition is_ssend :: "send_action \<Rightarrow> bool" where
  "is_ssend a = (case a of SSendHeader _ _ \<Rightarrow> True | _ \<Rightarrow> False)"

definition advance_and_remember :: "sender_machine \<Rightarrow> send_event \<Rightarrow> send_result" where
  "advance_and_remember tx ev =
     (case send_advance_inner tx ev of
        (tx, Inl e) \<Rightarrow> (tx, Inl e)
      | (tx, Inr actions) \<Rightarrow>
          (if list_ex is_ssend actions then tx\<lparr>last_exchange := actions\<rparr> else tx, Inr actions))"

definition is_type :: "frame_type \<Rightarrow> send_event \<Rightarrow> bool" where
  "is_type t ev = (case ev of SHeader h \<Rightarrow> frame_type h = t | _ \<Rightarrow> False)"

definition skip_to_fin :: "sender_machine \<Rightarrow> send_result" where
  "skip_to_fin tx =
     (let acts = [SSendHeader (new_header Zfin) Hex]
      in (tx\<lparr>skipped := True, sstate := AwaitingFinAck, last_exchange := acts\<rparr>, Inr acts))"

definition send_advance :: "sender_machine \<Rightarrow> send_event \<Rightarrow> send_result" where
  "send_advance tx ev =
     (if is_type Znak ev then retry_exchange tx
      else if is_type Zskip ev then
        (case sstate tx of
           AwaitingFileAck \<Rightarrow> skip_to_fin tx
         | Streaming _ \<Rightarrow> skip_to_fin tx
         | AwaitingEofAck \<Rightarrow> skip_to_fin tx
         | AwaitingFinAck \<Rightarrow> if skipped tx then retry_exchange tx else advance_and_remember tx ev
         | _ \<Rightarrow> advance_and_remember tx ev)
      else advance_and_remember tx ev)"

section \<open>The sending driver\<close>

text \<open>The frame ends of \<open>stream_data\<close>: a \<open>ZCRCG\<close> run, \<open>ZCRCE\<close> on the last.\<close>

fun with_ends :: "bytes list \<Rightarrow> (bytes \<times> frame_end) list" where
  "with_ends [] = []"
| "with_ends [c] = [(c, Zcrce)]"
| "with_ends (c # cs) = (c, Zcrcg) # with_ends cs"

definition stream_data :: "bytes \<Rightarrow> u32 \<Rightarrow> (bytes \<times> frame_end) list" where
  "stream_data file from =
     (let rest = drop (min (unat from) (length file)) file
      in if rest = [] then [([], Zcrce)] else with_ends (chunks MAX_PAYLOAD rest))"

text \<open>
  One turn of the loop of \<open>drive_send\<close>: the pending actions in order, each giving the frames put on
  the wire. Streaming the file feeds \<open>DataExhausted\<close> back and appends what the machine answers.
  The fuel bounds the number of actions of a turn; the result says whether \<open>Finished\<close> was reached.
\<close>

datatype wire_frame = FHeader header header_format | FPacket bytes frame_end bool | FOverAndOut

fun perform :: "nat \<Rightarrow> bytes \<Rightarrow> sender_machine \<Rightarrow> send_action list \<Rightarrow>
    (sender_machine \<times> wire_frame list \<times> bool) option" where
  "perform 0 file tx pending = None"
| "perform (Suc n) file tx [] = Some (tx, [], False)"
| "perform (Suc n) file tx (a # pending) =
     (case a of
        SSendHeader h f \<Rightarrow>
          map_option (\<lambda>(tx, out, fin). (tx, FHeader h f # out, fin)) (perform n file tx pending)
      | SendFileInfo info \<Rightarrow>
          (case encode_info info of
             Inl _ \<Rightarrow> None
           | Inr blk \<Rightarrow>
               map_option (\<lambda>(tx', out, fin). (tx', FPacket blk Zcrcw (peer_can_fc32 tx) # out, fin))
                 (perform n file tx pending))
      | StreamData from \<Rightarrow>
          (case send_advance tx (DataExhausted (of_nat (length file))) of
             (_, Inl _) \<Rightarrow> None
           | (tx', Inr more_actions) \<Rightarrow>
               map_option (\<lambda>(tx'', out, fin).
                   (tx'', map (\<lambda>(c, e). FPacket c e (peer_can_fc32 tx)) (stream_data file from) @ out, fin))
                 (perform n file tx' (pending @ more_actions)))
      | SSendOverAndOut \<Rightarrow>
          map_option (\<lambda>(tx, out, fin). (tx, FOverAndOut # out, fin)) (perform n file tx pending)
      | SFinished \<Rightarrow> Some (tx, [], True))"

end
