(* ===== verification/Zmodem_Session_Correct.thy ===== *)
theory Zmodem_Session_Correct
  imports Zmodem_Session
begin

text \<open>
  Correctness of the ZMODEM session machines: the retry budget of both sides, the contiguity of the
  receiver's writes under any sequence of calls, and end-to-end delivery by the sending driver over
  a link that neither loses nor changes bytes.
\<close>

section \<open>Everything a driver can call\<close>

datatype recv_call = RAdvance recv_event | Decline | RCorrupt | Resume u32

fun on_recv :: "receiver \<Rightarrow> recv_call \<Rightarrow> recv_result" where
  "on_recv rx (RAdvance ev) = recv_advance rx ev"
| "on_recv rx Decline = decline_file rx"
| "on_recv rx RCorrupt = recv_corrupt_header rx"
| "on_recv rx (Resume offset) = (set_resume_offset rx offset, Inr [])"

datatype send_call = Start | SAdvance send_event | SCorrupt

fun on_send :: "sender_machine \<Rightarrow> send_call \<Rightarrow> send_result" where
  "on_send tx Start = start_sender tx"
| "on_send tx (SAdvance ev) = send_advance tx ev"
| "on_send tx SCorrupt = send_corrupt_header tx"

section \<open>The retry budget\<close>

text \<open>A call that asks for a retransmission, or asks the peer for one, and gets it.\<close>

definition recv_granted :: "receiver \<Rightarrow> recv_call \<Rightarrow> bool" where
  "recv_granted rx c \<longleftrightarrow>
     (c = RCorrupt \<or> (\<exists>ev. c = RAdvance ev \<and> is_replay_request rx ev)) \<and> (\<exists>as. snd (on_recv rx c) = Inr as)"

definition send_granted :: "sender_machine \<Rightarrow> send_call \<Rightarrow> bool" where
  "send_granted tx c \<longleftrightarrow>
     (c = SCorrupt \<or> (\<exists>ev. c = SAdvance ev \<and>
        (is_type Znak ev \<or> is_type Zskip ev \<and> sstate tx = AwaitingFinAck \<and> skipped tx))) \<and>
      (\<exists>as. snd (on_send tx c) = Inr as)"

lemma recovery_Inr: "recovery n = Inr m \<longleftrightarrow> unat n < 8 \<and> m = n + 1"
  "recovery n = Inl e \<longleftrightarrow> 8 \<le> unat n \<and> e = RetriesExhausted"
  by (auto simp: recovery_def MAX_RECOVERY_ATTEMPTS_def word_less_nat_alt word_le_nat_alt)

lemma unat_add_one: "unat (n :: u8) < 8 \<Longrightarrow> unat (n + 1) = Suc (unat n)"
  by (subst unat_word_ariths(1)) simp

lemmas recv_inner_defs = recv_advance_inner_def receive_data_def Let_def

lemma recv_inner_recoveries: "rrecoveries (fst (recv_advance_inner rx ev)) = rrecoveries rx"
  by (auto simp: recv_inner_defs split: recv_state.splits recv_event.splits sum.splits frame_end.splits)

lemma recv_advance_recoveries:
  "rrecoveries (fst (recv_advance rx ev)) =
     (case recovery (rrecoveries rx) of Inr n \<Rightarrow> if is_replay_request rx ev then n else rrecoveries rx
      | Inl _ \<Rightarrow> rrecoveries rx)"
  using recv_inner_recoveries[of rx ev]
  by (auto simp: recv_advance_def split: sum.splits prod.splits option.splits)

lemma send_inner_recoveries: "srecoveries (fst (send_advance_inner tx ev)) = srecoveries tx"
  by (auto simp: send_advance_inner_def stream_from_def Let_def split: send_state.splits send_event.splits)

lemma advance_and_remember_recoveries: "srecoveries (fst (advance_and_remember tx ev)) = srecoveries tx"
  using send_inner_recoveries[of tx ev]
  by (auto simp: advance_and_remember_def split: sum.splits prod.splits)

interpretation recv_budget: retry_budget on_recv recv_granted "\<lambda>rx. unat (rrecoveries rx)" 8
proof (unfold_locales, goal_cases)
  case (1 rx c)
  then show ?case
    by (cases c) (auto simp: recv_granted_def recv_advance_recoveries recv_advance_def recv_corrupt_header_def
        recovery_Inr unat_add_one split: sum.splits option.splits)
next
  case (2 rx c)
  then show ?case
    by (cases c) (auto simp: recv_advance_recoveries decline_file_def set_resume_offset_def
        recv_corrupt_header_def recovery_Inr unat_add_one Let_def split: sum.splits)
next
  case (3 rx c)
  then show ?case
    by (cases c) (auto simp: recv_advance_recoveries decline_file_def set_resume_offset_def
        recv_corrupt_header_def recovery_Inr unat_add_one Let_def split: sum.splits)
qed

lemma send_advance_cases:
  "send_advance tx ev =
     (if is_type Znak ev \<or> is_type Zskip ev \<and> sstate tx = AwaitingFinAck \<and> skipped tx then retry_exchange tx
      else if is_type Zskip ev \<and> (sstate tx = AwaitingFileAck \<or> sstate tx = AwaitingEofAck \<or> (\<exists>x. sstate tx = Streaming x))
      then skip_to_fin tx else advance_and_remember tx ev)"
  by (auto simp: send_advance_def split: send_state.splits)

lemma skip_to_fin_recoveries: "srecoveries (fst (skip_to_fin tx)) = srecoveries tx"
  by (simp add: skip_to_fin_def Let_def)

lemma retry_exchange_recoveries:
  "unat (srecoveries (fst (retry_exchange tx))) =
     unat (srecoveries tx) + (if (\<exists>as. snd (retry_exchange tx) = Inr as) then 1 else 0) \<and>
   ((\<exists>as. snd (retry_exchange tx) = Inr as) \<longrightarrow> unat (srecoveries tx) < 8)"
  by (auto simp: retry_exchange_def recovery_Inr unat_add_one split: sum.splits)

lemma send_corrupt_recoveries:
  "unat (srecoveries (fst (send_corrupt_header tx))) =
     unat (srecoveries tx) + (if (\<exists>as. snd (send_corrupt_header tx) = Inr as) then 1 else 0) \<and>
   ((\<exists>as. snd (send_corrupt_header tx) = Inr as) \<longrightarrow> unat (srecoveries tx) < 8)"
  by (auto simp: send_corrupt_header_def recovery_Inr unat_add_one split: sum.splits)

lemma start_recoveries: "srecoveries (fst (start_sender tx)) = srecoveries tx"
  by (simp add: start_sender_def Let_def)

lemma on_send_recoveries:
  "unat (srecoveries (fst (on_send tx c))) = unat (srecoveries tx) + (if send_granted tx c then 1 else 0) \<and>
   (send_granted tx c \<longrightarrow> unat (srecoveries tx) < 8)"
  using retry_exchange_recoveries[of tx] send_corrupt_recoveries[of tx]
  by (cases c) (auto simp: send_granted_def send_advance_cases start_recoveries skip_to_fin_recoveries
      advance_and_remember_recoveries)

interpretation send_budget: retry_budget on_send send_granted "\<lambda>tx. unat (srecoveries tx)" 8
proof (unfold_locales, goal_cases)
  case (1 tx c)
  then show ?case using on_send_recoveries[of tx c] by simp
next
  case (2 tx c)
  then show ?case using on_send_recoveries[of tx c] by simp
next
  case (3 tx c)
  then show ?case using on_send_recoveries[of tx c] by (simp split: if_splits)
qed

text \<open>
  C8. No sequence of peer headers and driver calls, however long, makes either side of a session
  grant more than eight recoveries (replayed replies and requests to repeat a corrupt header).
\<close>

theorem recoveries_bounded:
  "grants on_recv recv_granted new_receiver cs \<le> 8 \<and> grants on_send send_granted (new_sender info) ds \<le> 8"
  using recv_budget.grants_within[of new_receiver cs] send_budget.grants_within[of "new_sender info" ds]
  by (simp add: new_receiver_def new_sender_def)

section \<open>The receiver's file\<close>

lemma header_types [simp]:
  "frame_type (header_with_pos t p) = t" "frame_type (new_header t) = t" "frame_type (header_with_flags t a b c d) = t"
  by (simp_all add: header_with_pos_def new_header_def header_with_flags_def)


text \<open>
  What a driver that obeys the actions does to its file: nothing open, just opened, or open with a
  number of bytes in it. The file's length is a natural number and never wraps, the offset of a write
  is the \<open>u32\<close> the machine hands out: as the receive loop of \<open>apps/server/src/zmodem.rs\<close> compares
  \<open>offset as usize\<close> with \<open>cur.data.len()\<close>, a write at any other place is refused as non-contiguous.
  The other violations are a write or a close with nothing open and an open with a file still open.
\<close>

datatype disk = NoFile | Opened | At nat

datatype violation = NonContiguous nat u32 | OutOfTurn disk recv_action

fun obey :: "disk \<Rightarrow> recv_action \<Rightarrow> violation + disk" where
  "obey NoFile (OpenFile _) = Inr Opened"
| "obey Opened (RSendHeader h f) =
     (if frame_type h = Zrpos then Inr (At (unat (header_pos h))) else Inl (OutOfTurn Opened (RSendHeader h f)))"
| "obey (At n) (WriteData off data) =
     (if unat off = n then Inr (At (n + length data)) else Inl (NonContiguous n off))"
| "obey (At _) CloseFile = Inr NoFile"
| "obey (At n) (RSendHeader _ _) = Inr (At n)"
| "obey NoFile (RSendHeader _ _) = Inr NoFile"
| "obey NoFile RSendOverAndOut = Inr NoFile"
| "obey NoFile RFinished = Inr NoFile"
| "obey d a = Inl (OutOfTurn d a)"

fun obey_all :: "disk \<Rightarrow> recv_action list \<Rightarrow> violation + disk" where
  "obey_all d [] = Inr d"
| "obey_all d (a # as) = (case obey d a of Inl e \<Rightarrow> Inl e | Inr d' \<Rightarrow> obey_all d' as)"

text \<open>
  The machine tracks the file: no file between transfers, and during one the file's length modulo
  \<open>2^32\<close> is the offset it expects, which is that length itself for a file short of \<open>2^32\<close> bytes.
\<close>

fun tracks :: "disk \<Rightarrow> recv_state \<Rightarrow> bool" where
  "tracks d (AwaitingData off) \<longleftrightarrow> (\<exists>n. d = At n \<and> off = of_nat n)"
| "tracks d (ReceivingData off) \<longleftrightarrow> (\<exists>n. d = At n \<and> off = of_nat n)"
| "tracks d _ \<longleftrightarrow> d = NoFile"

text \<open>The only refusal there can be: the file is already longer than any \<open>u32\<close> offset reaches.\<close>

fun past_offsets :: "violation \<Rightarrow> bool" where
  "past_offsets (NonContiguous n off) \<longleftrightarrow> 2 ^ 32 \<le> n \<and> off = of_nat n"
| "past_offsets (OutOfTurn _ _) \<longleftrightarrow> False"

definition obeyed :: "disk \<Rightarrow> recv_action list \<Rightarrow> recv_state \<Rightarrow> bool" where
  "obeyed d as st \<longleftrightarrow> (case obey_all d as of Inr d' \<Rightarrow> tracks d' st | Inl e \<Rightarrow> past_offsets e)"

definition granted_actions :: "(session_error + recv_action list) list \<Rightarrow> recv_action list" where
  "granted_actions rs = concat (map (\<lambda>r. case r of Inl _ \<Rightarrow> [] | Inr as \<Rightarrow> as) rs)"

lemma obey_all_append:
  "obey_all d (xs @ ys) = (case obey_all d xs of Inl e \<Rightarrow> Inl e | Inr d' \<Rightarrow> obey_all d' ys)"
  by (induction xs arbitrary: d) (auto split: sum.splits)

lemma obey_header: "tracks d st \<Longrightarrow> obey d (RSendHeader h f) = Inr d"
  by (cases st) auto

lemma unat_offset: "unat (of_nat n :: u32) = n \<longleftrightarrow> n < 2 ^ 32"
  by (auto simp: unat_of_nat)

lemma obeyed_append:
  assumes "obeyed d xs st" "\<And>d'. tracks d' st \<Longrightarrow> obeyed d' ys st'"
  shows "obeyed d (xs @ ys) st'"
  using assms(1) assms(2)[unfolded obeyed_def]
  by (cases "obey_all d xs") (auto simp: obeyed_def obey_all_append)

lemma recv_inner_obeyed:
  "recv_advance_inner rx ev = (rx', r) \<Longrightarrow> tracks d (rstate rx) \<Longrightarrow>
     obeyed d (case r of Inl _ \<Rightarrow> [] | Inr as \<Rightarrow> as) (rstate rx')"
  by (auto simp: recv_inner_defs zrinit_def zrpos_def zack_def header_pos_with_pos obeyed_def unat_offset
      split: recv_state.splits recv_event.splits sum.splits frame_end.splits if_splits)

text \<open>Only headers are ever remembered for replay.\<close>

definition reply_ok :: "receiver \<Rightarrow> bool" where
  "reply_ok rx \<longleftrightarrow> (case last_reply rx of None \<Rightarrow> True | Some a \<Rightarrow> is_rsend a)"

lemma recv_inner_reply: "last_reply (fst (recv_advance_inner rx ev)) = last_reply rx"
  by (auto simp: recv_inner_defs split: recv_state.splits recv_event.splits sum.splits frame_end.splits)

lemma on_recv_obeyed:
  assumes "on_recv rx c = (rx', r)" "reply_ok rx" "tracks d (rstate rx)"
  shows "obeyed d (case r of Inl _ \<Rightarrow> [] | Inr as \<Rightarrow> as) (rstate rx') \<and> reply_ok rx'"
proof (cases c)
  case (RAdvance ev)
  show ?thesis
  proof (cases "is_replay_request rx ev")
    case True
    then show ?thesis using assms RAdvance
      by (auto simp: recv_advance_def reply_ok_def is_rsend_def obey_header obeyed_def
          split: sum.splits option.splits recv_action.splits)
  next
    case False
    obtain rx1 r1 where inner: "recv_advance_inner rx ev = (rx1, r1)" by (cases "recv_advance_inner rx ev")
    have "is_rsend a" if "find is_rsend xs = Some a" for a xs using that by (auto simp: find_Some_iff)
    then show ?thesis
      using assms RAdvance False inner recv_inner_obeyed[OF inner assms(3)] recv_inner_reply[of rx ev]
      by (auto simp: recv_advance_def reply_ok_def split: sum.splits option.splits)
  qed
qed (use assms in \<open>auto simp: decline_file_def recv_corrupt_header_def set_resume_offset_def Let_def reply_ok_def
    is_rsend_def obey_header obeyed_def split: sum.splits if_splits\<close>)

lemma run_obeyed:
  "reply_ok rx \<Longrightarrow> tracks d (rstate rx) \<Longrightarrow>
     obeyed d (granted_actions (snd (run_calls on_recv rx cs))) (rstate (fst (run_calls on_recv rx cs)))"
proof (induction cs arbitrary: rx d)
  case Nil
  then show ?case by (simp add: granted_actions_def obeyed_def)
next
  case (Cons c cs)
  obtain rx' r where c: "on_recv rx c = (rx', r)" by (cases "on_recv rx c")
  from on_recv_obeyed[OF c Cons.prems] have "obeyed d (case r of Inl _ \<Rightarrow> [] | Inr as \<Rightarrow> as) (rstate rx')" "reply_ok rx'"
    by auto
  from obeyed_append[OF this(1) Cons.IH[OF this(2)]] show ?case
    using c by (simp add: granted_actions_def case_prod_unfold Let_def)
qed

text \<open>
  C9. Whatever arrives and whatever the driver asks, the receiver never makes its driver write or
  close with no file open or open a second file, and never write with a gap or an overlap: performing
  the granted actions in order either succeeds throughout, and then the offset the machine expects
  next is the length of the file modulo \<open>2^32\<close> (the length itself for a file short of \<open>2^32\<close> bytes),
  or ends at a write the driver refuses, which happens only once the file holds \<open>2^32\<close> bytes or more,
  where the machine's \<open>u32\<close> offset has wrapped.
\<close>

theorem receiver_writes_contiguous:
  "case obey_all NoFile (granted_actions (snd (run_calls on_recv new_receiver cs))) of
     Inr d \<Rightarrow> tracks d (rstate (fst (run_calls on_recv new_receiver cs)))
   | Inl e \<Rightarrow> past_offsets e"
proof -
  have "reply_ok new_receiver" "tracks NoFile (rstate new_receiver)"
    by (simp_all add: reply_ok_def new_receiver_def)
  from run_obeyed[OF this] show ?thesis by (simp only: obeyed_def)
qed

section \<open>Delivery over a faithful link\<close>

text \<open>
  The link hands each frame to the other side's decoder exactly as encoded. The receiving side feeds
  its machine every event, keeps a log of the actions, and sends the headers it is told to send.
\<close>

fun carry :: "wire_frame \<Rightarrow> recv_event list" where
  "carry (FHeader h f) = (case decode_header (encode_header h f) of Inr d \<Rightarrow> [RHeader (header d)] | Inl _ \<Rightarrow> [])"
| "carry (FPacket data fe wide) =
     (case encode_subpacket data fe wide of
        Inl _ \<Rightarrow> []
      | Inr out \<Rightarrow> (case decode_subpacket out wide of Inr p \<Rightarrow> [RData (payload p) (sub_end p)] | Inl _ \<Rightarrow> []))"
| "carry FOverAndOut = []"

fun feed :: "receiver \<Rightarrow> recv_event list \<Rightarrow> (receiver \<times> recv_action list) option" where
  "feed rx [] = Some (rx, [])"
| "feed rx (ev # evs) =
     (case recv_advance rx ev of
        (_, Inl _) \<Rightarrow> None
      | (rx', Inr as) \<Rightarrow> map_option (\<lambda>(rx'', bs). (rx'', as @ bs)) (feed rx' evs))"

fun replies :: "recv_action list \<Rightarrow> header list" where
  "replies [] = []"
| "replies (RSendHeader h f # as) =
     (case decode_header (encode_header h f) of Inr d \<Rightarrow> header d # replies as | Inl _ \<Rightarrow> replies as)"
| "replies (_ # as) = replies as"

fun transfer :: "nat \<Rightarrow> bytes \<Rightarrow> sender_machine \<Rightarrow> receiver \<Rightarrow> send_action list \<Rightarrow> recv_action list \<Rightarrow> header list \<Rightarrow>
    (sender_machine \<times> receiver \<times> recv_action list) option" where
  "transfer 0 file tx rx pending log inbox = None"
| "transfer (Suc n) file tx rx pending log inbox =
     (case perform 4 file tx pending of
        None \<Rightarrow> None
      | Some (tx, frames, fin) \<Rightarrow>
          (case feed rx (concat (map carry frames)) of
             None \<Rightarrow> None
           | Some (rx, acts) \<Rightarrow>
               if fin then Some (tx, rx, log @ acts)
               else (case inbox @ replies acts of
                  [] \<Rightarrow> None
                | h # hs \<Rightarrow>
                    if frame_type h \<in> {Zabort, Zferr, Zcan} then None
                    else (case send_advance tx (SHeader h) of
                       (_, Inl _) \<Rightarrow> None
                     | (tx, Inr pending) \<Rightarrow> transfer n file tx rx pending (log @ acts) hs))))"

text \<open>
  The contents of the receiver's file after the actions, from those staged before: as in the receive
  loop, a write is appended only when its offset is exactly the length of the file.
\<close>

fun written :: "bytes \<Rightarrow> recv_action list \<Rightarrow> bytes option" where
  "written staged [] = Some staged"
| "written staged (WriteData off data # as) =
     (if unat off = length staged then written (staged @ data) as else None)"
| "written staged (_ # as) = written staged as"

lemma decode_header_exact: "decode_header (encode_header h f) = Inr \<lparr>header = h, format = f, consumed = length (encode_header h f)\<rparr>"
  using decode_encode_header[of h f "[]"] by (simp add: clear_of_xon_def)

lemma carry_header [simp]: "carry (FHeader h f) = [RHeader h]"
  by (simp add: decode_header_exact)

lemma carry_packet [simp]:
  "length data \<le> MAX_PAYLOAD \<Longrightarrow> carry (FPacket data fe wide) = [RData data fe]"
proof -
  assume "length data \<le> MAX_PAYLOAD"
  then obtain out e where e: "encode_subpacket_with data fe wide new_escaper = (Inr out, e)"
    using encode_short by blast
  from decode_encode_subpacket[OF e, of "[]"] show ?thesis by (simp add: encode_subpacket_def e)
qed

declare carry.simps(1,2) [simp del]

lemma replies_send [simp]: "replies (RSendHeader h f # as) = h # replies as"
  by (simp add: decode_header_exact)

declare replies.simps(2) [simp del]

lemma chunks_empty: "0 < n \<Longrightarrow> chunks n xs = [] \<longleftrightarrow> xs = []"
  by (simp add: chunks.simps[of n xs])

lemma receive_more:
  "rstate rx = ReceivingData off \<Longrightarrow> recv_advance rx (RData c Zcrcg) =
     (rx\<lparr>rstate := ReceivingData (off + of_nat (length c))\<rparr>, Inr [WriteData off c])"
  "rstate rx = ReceivingData off \<Longrightarrow> recv_advance rx (RData c Zcrce) =
     (rx\<lparr>rstate := AwaitingData (off + of_nat (length c))\<rparr>, Inr [WriteData off c])"
  by (simp_all add: recv_advance_def is_replay_request_def recv_inner_defs is_rsend_def)

lemma unat_advance: "unat off + n < 2 ^ 32 \<Longrightarrow> unat (off + of_nat n :: u32) = unat off + n"
proof -
  assume "unat off + n < 2 ^ 32"
  moreover have "off + of_nat n = of_nat (unat off + n)" by simp
  ultimately show ?thesis by (simp only: unat_offset)
qed

lemma feed_stream:
  "rstate rx = ReceivingData off \<Longrightarrow> cs \<noteq> [] \<Longrightarrow> unat off + length (concat cs) < 2 ^ 32 \<Longrightarrow>
   \<exists>acts. feed rx (map (\<lambda>(c, e). RData c e) (with_ends cs)) =
       Some (rx\<lparr>rstate := AwaitingData (off + of_nat (length (concat cs)))\<rparr>, acts) \<and>
     (\<forall>staged. length staged = unat off \<longrightarrow> written staged acts = Some (staged @ concat cs)) \<and> replies acts = [] \<and>
     obey_all (At (unat off)) acts = Inr (At (unat off + length (concat cs)))"
proof (induction cs arbitrary: rx off rule: with_ends.induct)
  case (3 c c' cs)
  let ?off = "off + of_nat (length c) :: u32"
  let ?rx = "rx\<lparr>rstate := ReceivingData ?off\<rparr>"
  have off: "unat ?off = unat off + length c" using 3(4) by (intro unat_advance) simp
  from 3(1)[of ?rx ?off] 3(4) obtain acts where
    "feed ?rx (map (\<lambda>(c, e). RData c e) (with_ends (c' # cs))) =
       Some (?rx\<lparr>rstate := AwaitingData (?off + of_nat (length (concat (c' # cs))))\<rparr>, acts)"
    "\<forall>staged. length staged = unat ?off \<longrightarrow> written staged acts = Some (staged @ concat (c' # cs))" "replies acts = []"
    "obey_all (At (unat ?off)) acts = Inr (At (unat ?off + length (concat (c' # cs))))"
    by (auto simp: off add.assoc)
  then show ?case using 3(2)
    by (intro exI[of _ "WriteData off c # acts"]) (simp add: receive_more off algebra_simps)
qed (simp_all add: receive_more)

lemma stream_data_fed:
  assumes "rstate rx = ReceivingData from" "unat from \<le> length file" "length file < 2 ^ 32"
  shows "\<exists>acts. feed rx (map (\<lambda>(c, e). RData c e) (stream_data file from)) =
      Some (rx\<lparr>rstate := AwaitingData (of_nat (length file))\<rparr>, acts) \<and>
    (\<forall>staged. length staged = unat from \<longrightarrow> written staged acts = Some (staged @ drop (unat from) file)) \<and>
    replies acts = [] \<and> obey_all (At (unat from)) acts = Inr (At (length file))"
proof -
  let ?cs = "if drop (unat from) file = [] then [[]] else chunks MAX_PAYLOAD (drop (unat from) file)"
  have cs: "stream_data file from = with_ends ?cs" "concat ?cs = drop (unat from) file" "?cs \<noteq> []"
    using assms(2) by (auto simp: stream_data_def Let_def concat_chunks chunks_empty MAX_PAYLOAD_def)
  have len: "from + of_nat (length file - unat from) = (of_nat (length file) :: u32)"
    using assms(2) by (simp add: of_nat_diff)
  have "unat from + length (concat ?cs) < 2 ^ 32" unfolding cs(2) using assms(2,3) by simp
  from feed_stream[OF assms(1) cs(3) this] show ?thesis
    unfolding cs(1,2) length_drop len using assms(2) by simp
qed

lemma stream_data_short: "(c, e) \<in> set (stream_data file from) \<Longrightarrow> length c \<le> MAX_PAYLOAD"
proof -
  have "(c, e) \<in> set (with_ends cs) \<Longrightarrow> c \<in> set cs" for cs
    by (induction cs rule: with_ends.induct) auto
  then show "(c, e) \<in> set (stream_data file from) \<Longrightarrow> ?thesis"
    using chunk_bounds[of MAX_PAYLOAD] by (auto simp: MAX_PAYLOAD_def stream_data_def Let_def split: if_splits)
qed

lemma carry_stream:
  "concat (map carry (map (\<lambda>(c, e). FPacket c e wide) (stream_data file from))) =
     map (\<lambda>(c, e). RData c e) (stream_data file from)"
proof -
  have "concat (map carry (map (\<lambda>(c, e). FPacket c e wide) ps)) = map (\<lambda>(c, e). RData c e) ps"
    if "\<forall>(c, e) \<in> set ps. length c \<le> MAX_PAYLOAD" for ps
    using that by (induction ps) auto
  then show ?thesis using stream_data_short by blast
qed

lemma feed_append:
  "feed rx (xs @ ys) = (case feed rx xs of None \<Rightarrow> None | Some (rx', as) \<Rightarrow>
     map_option (\<lambda>(rx'', bs). (rx'', as @ bs)) (feed rx' ys))"
  by (induction xs arbitrary: rx)
    (auto simp: option.map_comp comp_def case_prod_unfold option.map_ident option.map_id
      split: prod.splits sum.splits option.splits)

text \<open>The five turns of a session, one lemma each: what the sender puts out and the receiver makes of it.\<close>

lemma turn_init:
  "start_sender (new_sender info) =
     ((new_sender info)\<lparr>sstate := AwaitingRinit, last_exchange := [SSendHeader (new_header Zrqinit) Hex]\<rparr>,
      Inr [SSendHeader (new_header Zrqinit) Hex])"
  by (simp add: start_sender_def new_sender_def Let_def)

lemma recv_zrqinit:
  "rstate rx = AwaitingInit \<Longrightarrow>
     recv_advance rx (RHeader (new_header Zrqinit)) = (rx\<lparr>rstate := AwaitingFile, last_reply := Some zrinit\<rparr>, Inr [zrinit])"
  by (simp add: recv_advance_def is_replay_request_def recv_inner_defs is_rsend_def zrinit_def)

lemma recv_zfile:
  "rstate rx = AwaitingFile \<Longrightarrow> recv_advance rx (RHeader (new_header Zfile)) = (rx\<lparr>rstate := AwaitingFileInfo\<rparr>, Inr [])"
  by (simp add: recv_advance_def is_replay_request_def recv_inner_defs)

lemma recv_info:
  "rstate rx = AwaitingFileInfo \<Longrightarrow> decode_info blk = Inr info \<Longrightarrow> recv_advance rx (RData blk Zcrcw) =
     (rx\<lparr>rstate := AwaitingData (resume_offset rx), resume_offset := 0, last_reply := Some (zrpos (resume_offset rx))\<rparr>,
      Inr [OpenFile info, zrpos (resume_offset rx)])"
  by (simp add: recv_advance_def is_replay_request_def recv_inner_defs is_rsend_def zrpos_def)

lemma recv_zdata:
  "rstate rx = AwaitingData off \<Longrightarrow> recv_advance rx (RHeader (header_with_pos Zdata off)) =
     (rx\<lparr>rstate := ReceivingData off\<rparr>, Inr [])"
  by (simp add: recv_advance_def is_replay_request_def recv_inner_defs header_pos_with_pos)

lemma recv_zeof:
  "rstate rx = AwaitingData off \<Longrightarrow> recv_advance rx (RHeader (header_with_pos Zeof off)) =
     (rx\<lparr>rstate := AwaitingFile, last_reply := Some zrinit\<rparr>, Inr [CloseFile, zrinit])"
  by (simp add: recv_advance_def is_replay_request_def recv_inner_defs header_pos_with_pos is_rsend_def zrinit_def)

lemma recv_zfin:
  "rstate rx = AwaitingFile \<Longrightarrow> recv_advance rx (RHeader (new_header Zfin)) =
     (rx\<lparr>rstate := RDone, last_reply := Some (RSendHeader (new_header Zfin) Hex)\<rparr>,
      Inr [RSendHeader (new_header Zfin) Hex, RSendOverAndOut, RFinished])"
  by (simp add: recv_advance_def is_replay_request_def recv_inner_defs is_rsend_def)

lemmas recv_turns = recv_zrqinit recv_zfile recv_info recv_zdata recv_zeof recv_zfin

lemmas send_turn_defs = send_advance_def is_type_def advance_and_remember_def send_advance_inner_def
  stream_from_def is_ssend_def Let_def header_pos_with_pos

lemma zrinit_header: "replies (zrinit # as) = header_with_flags Zrinit 0 0 0 (CANFDX OR CANOVIO OR CANFC32) # replies as"
  by (simp add: zrinit_def)

lemma send_zrinit:
  "sstate tx = AwaitingRinit \<Longrightarrow>
     send_advance tx (SHeader (header_with_flags Zrinit 0 0 0 (CANFDX OR CANOVIO OR CANFC32))) =
       (tx\<lparr>peer_can_fc32 := True, sstate := AwaitingFileAck,
           last_exchange := [SSendHeader (new_header Zfile) Bin32, SendFileInfo (sinfo tx)]\<rparr>,
        Inr [SSendHeader (new_header Zfile) Bin32, SendFileInfo (sinfo tx)])"
  by (simp add: send_turn_defs binary_format_def zf0_def header_with_flags_def CANFDX_def CANOVIO_def CANFC32_def)

lemma send_zrpos:
  "sstate tx = AwaitingFileAck \<Longrightarrow> peer_can_fc32 tx \<Longrightarrow> send_advance tx (SHeader (header_with_pos Zrpos r)) =
     (tx\<lparr>sstate := Streaming r, last_exchange := [SSendHeader (header_with_pos Zdata r) Bin32, StreamData r]\<rparr>,
      Inr [SSendHeader (header_with_pos Zdata r) Bin32, StreamData r])"
  by (simp add: send_turn_defs binary_format_def)

lemma send_exhausted:
  "sstate tx = Streaming r \<Longrightarrow> send_advance tx (DataExhausted n) =
     (tx\<lparr>sstate := AwaitingEofAck, last_exchange := [SSendHeader (header_with_pos Zeof n) Hex]\<rparr>,
      Inr [SSendHeader (header_with_pos Zeof n) Hex])"
  by (simp add: send_turn_defs)

lemma send_eof_ack:
  "sstate tx = AwaitingEofAck \<Longrightarrow>
     send_advance tx (SHeader (header_with_flags Zrinit 0 0 0 x)) =
     (tx\<lparr>sstate := AwaitingFinAck, last_exchange := [SSendHeader (new_header Zfin) Hex]\<rparr>,
      Inr [SSendHeader (new_header Zfin) Hex])"
  by (simp add: send_turn_defs)

lemma send_fin_ack:
  "sstate tx = AwaitingFinAck \<Longrightarrow> send_advance tx (SHeader (new_header Zfin)) =
     (tx\<lparr>sstate := SDone\<rparr>, Inr [SSendOverAndOut, SFinished])"
  by (simp add: send_turn_defs)

lemmas send_turns = send_zrinit send_zrpos send_exhausted send_eof_ack send_fin_ack

lemma written_append: "written staged (xs @ ys) = Option.bind (written staged xs) (\<lambda>s. written s ys)"
  by (induction staged xs rule: written.induct) simp_all

lemma replies_append: "replies (xs @ ys) = replies xs @ replies ys"
  by (induction xs rule: replies.induct) (simp_all add: decode_header_exact)

lemma perform_step:
  "perform 4 file tx [] = Some (tx, [], False)"
  "perform 4 file tx [SSendHeader h f] = Some (tx, [FHeader h f], False)"
  "perform 4 file tx [SSendOverAndOut, SFinished] = Some (tx, [FOverAndOut], True)"
  "encode_info info = Inr blk \<Longrightarrow> perform 4 file tx [SSendHeader h f, SendFileInfo info] =
     Some (tx, [FHeader h f, FPacket blk Zcrcw (peer_can_fc32 tx)], False)"
  "sstate tx = Streaming r' \<Longrightarrow> perform 4 file tx [SSendHeader h f, StreamData r] =
     Some (tx\<lparr>sstate := AwaitingEofAck, last_exchange := [SSendHeader (header_with_pos Zeof (of_nat (length file))) Hex]\<rparr>,
       FHeader h f # map (\<lambda>(c, e). FPacket c e (peer_can_fc32 tx)) (stream_data file r) @
         [FHeader (header_with_pos Zeof (of_nat (length file))) Hex], False)"
  by (simp_all add: eval_nat_numeral send_exhausted case_prod_unfold)

definition send_file :: "nat \<Rightarrow> bytes \<Rightarrow> file_info \<Rightarrow> receiver \<Rightarrow> (sender_machine \<times> receiver \<times> recv_action list) option" where
  "send_file n file info rx =
     (case start_sender (new_sender info) of
        (_, Inl _) \<Rightarrow> None
      | (tx, Inr acts) \<Rightarrow> transfer n file tx rx acts [] [])"

lemma data_turn:
  assumes "rstate rx = AwaitingData r" "unat r \<le> length file" "length file < 2 ^ 32"
  shows "\<exists>acts. (\<forall>f. feed rx (concat (map carry (FHeader (header_with_pos Zdata r) f #
        map (\<lambda>(c, e). FPacket c e True) (stream_data file r) @ [FHeader (header_with_pos Zeof (of_nat (length file))) Hex]))) =
      Some (rx\<lparr>rstate := AwaitingFile, last_reply := Some zrinit\<rparr>, acts @ [CloseFile, zrinit])) \<and>
    (\<forall>staged. length staged = unat r \<longrightarrow> written staged acts = Some (staged @ drop (unat r) file)) \<and>
    replies acts = [] \<and> obey_all (At (unat r)) acts = Inr (At (length file))"
proof -
  obtain acts where acts: "feed (rx\<lparr>rstate := ReceivingData r\<rparr>) (map (\<lambda>(c, e). RData c e) (stream_data file r)) =
      Some (rx\<lparr>rstate := AwaitingData (of_nat (length file))\<rparr>, acts)"
    "\<forall>staged. length staged = unat r \<longrightarrow> written staged acts = Some (staged @ drop (unat r) file)"
    "replies acts = []" "obey_all (At (unat r)) acts = Inr (At (length file))"
    using stream_data_fed[of "rx\<lparr>rstate := ReceivingData r\<rparr>" r "file"] assms(2,3) by auto
  then show ?thesis
    using assms(1) by (intro exI[of _ acts]) (simp add: carry_stream[unfolded map_map] feed_append recv_turns)
qed

lemma transfer_turn:
  assumes "perform 4 file tx pending = Some (tx1, frames, False)"
    and "feed rx (concat (map carry frames)) = Some (rx1, acts)"
    and "replies acts = [h]" "frame_type h \<notin> {Zabort, Zferr, Zcan}"
    and "send_advance tx1 (SHeader h) = (tx2, Inr pending2)" "n = Suc m"
  shows "transfer n file tx rx pending log [] = transfer m file tx2 rx1 pending2 (log @ acts) []"
  using assms by simp

text \<open>
  C10. Over a faithful link the driver delivers: for every file of fewer than \<open>2^32\<close> bytes (a longer
  one is refused before the session starts), every describable file description and every resume
  position inside the file, the session ends after five turns with both machines done and the file
  opened under its description and closed; every write lands exactly at the end of what the receiver
  holds, and its file is what was staged before followed by the bytes from the resume position to the
  end.
\<close>

theorem transfer_delivers:
  assumes "encode_info info = Inr blk" "length blk \<le> MAX_PAYLOAD" "utf8_valid (fname info)"
    and "unat r \<le> length file" "length file < 2 ^ 32" "length staged = unat r"
  shows "\<exists>tx rx log. send_file 5 file info (set_resume_offset new_receiver r) = Some (tx, rx, log) \<and>
    sstate tx = SDone \<and> rstate rx = RDone \<and> \<not> skipped tx \<and>
    (\<exists>rest. log = zrinit # OpenFile (positional info) # zrpos r # rest \<and> CloseFile \<in> set rest) \<and>
    written staged log = Some (staged @ drop (unat r) file) \<and> obey_all NoFile log = Inr NoFile"
proof -
  let ?rx0 = "set_resume_offset new_receiver r"
  have info: "decode_info blk = Inr (positional info)" by (rule decode_encode_info[OF assms(1,3)])
  define rx2 where "rx2 = \<lparr>rstate = AwaitingData r, resume_offset = 0, rrecoveries = 0, last_reply = Some (zrpos r)\<rparr>"
  have "rstate rx2 = AwaitingData r" by (simp add: rx2_def)
  from data_turn[OF this assms(4,5)] obtain acts where
    stream: "\<And>f. feed rx2 (concat (map carry (FHeader (header_with_pos Zdata r) f #
        map (\<lambda>(c, e). FPacket c e True) (stream_data file r) @ [FHeader (header_with_pos Zeof (of_nat (length file))) Hex]))) =
      Some (rx2\<lparr>rstate := AwaitingFile, last_reply := Some zrinit\<rparr>, acts @ [CloseFile, zrinit])"
    and acts: "written staged acts = Some (staged @ drop (unat r) file)" "replies acts = []"
      "obey_all (At (unat r)) acts = Inr (At (length file))" using assms(6) by metis
  let ?tx = "\<lambda>st fc ex. \<lparr>sstate = st, sinfo = info, peer_can_fc32 = fc, srecoveries = 0, last_exchange = ex, skipped = False\<rparr>"
  let ?zf = "[SSendHeader (new_header Zfile) Bin32, SendFileInfo info]"
    and ?zd = "[SSendHeader (header_with_pos Zdata r) Bin32, StreamData r]"
    and ?fin = "[SSendHeader (new_header Zfin) Hex]"
  let ?log = "[zrinit] @ [OpenFile (positional info), zrpos r] @ (acts @ [CloseFile, zrinit]) @
      [RSendHeader (new_header Zfin) Hex, RSendOverAndOut, RFinished]"
  have "send_file 5 file info ?rx0 =
      transfer 5 file (?tx AwaitingRinit False [SSendHeader (new_header Zrqinit) Hex]) ?rx0
        [SSendHeader (new_header Zrqinit) Hex] [] []"
    unfolding send_file_def turn_init by (simp add: new_sender_def)
  also have "\<dots> = transfer 4 file (?tx AwaitingFileAck True ?zf)
      \<lparr>rstate = AwaitingFile, resume_offset = r, rrecoveries = 0, last_reply = Some zrinit\<rparr> ?zf ([] @ [zrinit]) []"
    by (rule transfer_turn[OF perform_step(2), where h = "header_with_flags Zrinit 0 0 0 (CANFDX OR CANOVIO OR CANFC32)"])
      (simp_all add: recv_turns send_turns set_resume_offset_def new_receiver_def zrinit_header)
  also have "\<dots> = transfer 3 file (?tx (Streaming r) True ?zd) rx2 ?zd
      (([] @ [zrinit]) @ [OpenFile (positional info), zrpos r]) []"
    by (rule transfer_turn[OF perform_step(4)[OF assms(1)], where h = "header_with_pos Zrpos r"])
      (simp_all add: recv_turns send_turns assms(2) info rx2_def zrpos_def)
  also have "\<dots> = transfer 2 file (?tx AwaitingFinAck True ?fin) (rx2\<lparr>rstate := AwaitingFile, last_reply := Some zrinit\<rparr>) ?fin
      ((([] @ [zrinit]) @ [OpenFile (positional info), zrpos r]) @ acts @ [CloseFile, zrinit]) []"
    using stream
    by (intro transfer_turn[OF perform_step(5), where h = "header_with_flags Zrinit 0 0 0 (CANFDX OR CANOVIO OR CANFC32)"])
      (simp_all add: send_turns acts(2) replies_append zrinit_header)
  also have "\<dots> = transfer 1 file (?tx SDone True ?fin)
      (rx2\<lparr>rstate := RDone, last_reply := Some (RSendHeader (new_header Zfin) Hex)\<rparr>) [SSendOverAndOut, SFinished]
      (((([] @ [zrinit]) @ [OpenFile (positional info), zrpos r]) @ acts @ [CloseFile, zrinit]) @
        [RSendHeader (new_header Zfin) Hex, RSendOverAndOut, RFinished]) []"
    by (rule transfer_turn[OF perform_step(2), where h = "new_header Zfin"]) (simp_all add: recv_turns send_turns)
  also have "\<dots> = Some (?tx SDone True ?fin,
      rx2\<lparr>rstate := RDone, last_reply := Some (RSendHeader (new_header Zfin) Hex)\<rparr>, ?log)"
    by (simp add: perform_step)
  finally have run: "send_file 5 file info ?rx0 = \<dots>" .
  have "obey_all NoFile ?log = Inr NoFile"
    using acts(3) by (simp add: obey_all_append zrinit_def zrpos_def header_pos_with_pos)
  moreover have "written staged ?log = Some (staged @ drop (unat r) file)"
    using acts(1) by (simp add: written_append zrinit_def zrpos_def)
  ultimately show ?thesis unfolding run by simp
qed

theorem transfer_delivers_witness:
  "\<exists>tx rx log. send_file 5 [1, 2, 3] (new_file_info [0x61]) (set_resume_offset new_receiver 1) = Some (tx, rx, log) \<and>
     sstate tx = SDone \<and> rstate rx = RDone \<and> written [1] log = Some [1, 2, 3] \<and> obey_all NoFile log = Inr NoFile"
proof -
  have "encode_info (new_file_info [0x61]) = Inr [0x61, 0, 0]"
    by (simp add: encode_info_def new_file_info_def info_fields_def)
  moreover have "utf8_valid (fname (new_file_info [0x61]))"
    by (simp add: new_file_info_def utf8_valid.simps utf8_step_ascii)
  ultimately show ?thesis
    using transfer_delivers[of "new_file_info [0x61]" "[0x61, 0, 0]" 1 "[1, 2, 3]" "[1]"]
    by (auto simp: MAX_PAYLOAD_def)
qed

end
