(* ===== verification/Proto_Frame.thy ===== *)
theory Proto_Frame
  imports Wire
begin

text \<open>
  The native protocol's frame (\<open>crates/proto/src/frame.rs\<close>), its version negotiation
  (\<open>version.rs\<close>) and the length-delimited stream codec (\<open>codec.rs\<close>). Serialisation is the
  third-party \<open>postcard\<close> crate: \<open>to_allocvec\<close> and \<open>from_bytes\<close> are arguments, for frames
  (\<open>ser\<close>, \<open>de\<close>) and for message bodies (\<open>mser\<close>, \<open>mde\<close>); what a property needs of them is that
  the bytes of a value read back as that value.
\<close>

section \<open>Versions, errors, frames\<close>

type_synonym protocol_version = u16

definition PROTOCOL_VERSION :: protocol_version where "PROTOCOL_VERSION = 1"
definition MIN_SUPPORTED_VERSION :: protocol_version where "MIN_SUPPORTED_VERSION = 1"

definition negotiate :: "protocol_version \<Rightarrow> protocol_version \<Rightarrow> protocol_version option" where
  "negotiate ours theirs =
     (let chosen = min ours theirs in if chosen \<ge> MIN_SUPPORTED_VERSION then Some chosen else None)"

datatype error_code =
    BadRequest | Unauthenticated | EForbidden | NotFound | EAlreadyExists | RateLimited | Internal
  | VersionMismatch | Unsupported | TooLarge | SessionExpired | Unavailable | TotpRequired | Kicked
  | EMuted | ESlowMode u32 | OtherCode u16

datatype 'p proto_error = FrameTooLarge nat nat | Truncated nat | Postcard 'p

type_synonym request_id = u64

definition PUSH :: request_id where "PUSH = 0"

datatype frame_kind = Request | Reply | Push

type_synonym family = u8

record frame =
  version :: protocol_version
  kind :: frame_kind
  family :: family
  message_type :: u16
  request_id :: request_id
  error :: "error_code option"
  fpayload :: bytes

text \<open>A message type: its family, its number and its body codec.\<close>

record ('m, 'p) message =
  FAMILY :: family
  MESSAGE_TYPE :: u16
  mser :: "'m \<Rightarrow> 'p + bytes"
  mde :: "bytes \<Rightarrow> 'p + 'm"

definition request :: "('m, 'p) message \<Rightarrow> request_id \<Rightarrow> 'm \<Rightarrow> 'p proto_error + frame" where
  "request M i msg =
     (case mser M msg of
        Inl e \<Rightarrow> Inl (Postcard e)
      | Inr b \<Rightarrow> Inr \<lparr>version = PROTOCOL_VERSION, kind = Request, family = FAMILY M,
                    message_type = MESSAGE_TYPE M, request_id = i, error = None, fpayload = b\<rparr>)"

definition reply_to :: "('m, 'p) message \<Rightarrow> frame \<Rightarrow> 'm \<Rightarrow> 'p proto_error + frame" where
  "reply_to M req msg =
     (case mser M msg of
        Inl e \<Rightarrow> Inl (Postcard e)
      | Inr b \<Rightarrow> Inr \<lparr>version = version req, kind = Reply, family = FAMILY M,
                    message_type = MESSAGE_TYPE M, request_id = request_id req, error = None, fpayload = b\<rparr>)"

definition error_reply :: "frame \<Rightarrow> error_code \<Rightarrow> frame" where
  "error_reply req code =
     \<lparr>version = version req, kind = Reply, family = family req, message_type = message_type req,
      request_id = request_id req, error = Some code, fpayload = []\<rparr>"

definition ack :: "frame \<Rightarrow> frame" where
  "ack req =
     \<lparr>version = version req, kind = Reply, family = family req, message_type = message_type req,
      request_id = request_id req, error = None, fpayload = []\<rparr>"

definition push :: "('m, 'p) message \<Rightarrow> 'm \<Rightarrow> 'p proto_error + frame" where
  "push M msg =
     (case mser M msg of
        Inl e \<Rightarrow> Inl (Postcard e)
      | Inr b \<Rightarrow> Inr \<lparr>version = PROTOCOL_VERSION, kind = Push, family = FAMILY M,
                    message_type = MESSAGE_TYPE M, request_id = PUSH, error = None, fpayload = b\<rparr>)"

definition decode_message :: "('m, 'p) message \<Rightarrow> frame \<Rightarrow> ('p proto_error + 'm) option" where
  "decode_message M f =
     (if family f = FAMILY M \<and> message_type f = MESSAGE_TYPE M
      then Some (case mde M (fpayload f) of Inl e \<Rightarrow> Inl (Postcard e) | Inr m \<Rightarrow> Inr m)
      else None)"

section \<open>The stream codec\<close>

definition MAX_FRAME_SIZE :: nat where "MAX_FRAME_SIZE = 1024 * 1024"
definition LEN_PREFIX :: nat where "LEN_PREFIX = 4"

definition encode_frame :: "('f \<Rightarrow> 'p + bytes) \<Rightarrow> 'f \<Rightarrow> 'p proto_error + bytes" where
  "encode_frame ser f =
     (case ser f of
        Inl e \<Rightarrow> Inl (Postcard e)
      | Inr b \<Rightarrow> if length b > MAX_FRAME_SIZE then Inl (FrameTooLarge (length b) MAX_FRAME_SIZE) else Inr b)"

definition decode_frame :: "(bytes \<Rightarrow> 'p + 'f) \<Rightarrow> bytes \<Rightarrow> 'p proto_error + 'f" where
  "decode_frame de b =
     (if length b > MAX_FRAME_SIZE then Inl (FrameTooLarge (length b) MAX_FRAME_SIZE)
      else case de b of Inl e \<Rightarrow> Inl (Postcard e) | Inr f \<Rightarrow> Inr f)"

text \<open>The codec's state is its buffer.\<close>

definition feed_codec :: "bytes \<Rightarrow> bytes \<Rightarrow> bytes" where
  "feed_codec buf new = buf @ new"

definition next_frame :: "(bytes \<Rightarrow> 'p + 'f) \<Rightarrow> bytes \<Rightarrow> bytes \<times> ('p proto_error + 'f option)" where
  "next_frame de buf =
     (if length buf < LEN_PREFIX then (buf, Inr None)
      else
        let len = unat (of_be32 (buf ! 0) (buf ! 1) (buf ! 2) (buf ! 3)) in
        if len > MAX_FRAME_SIZE then (buf, Inl (FrameTooLarge len MAX_FRAME_SIZE))
        else if length buf < LEN_PREFIX + len then (buf, Inr None)
        else let buf = drop LEN_PREFIX buf
             in (drop len buf,
                 case decode_frame de (take len buf) of Inl e \<Rightarrow> Inl e | Inr f \<Rightarrow> Inr (Some f)))"

definition encode_stream :: "('f \<Rightarrow> 'p + bytes) \<Rightarrow> 'f \<Rightarrow> 'p proto_error + bytes" where
  "encode_stream ser f =
     (case encode_frame ser f of
        Inl e \<Rightarrow> Inl e
      | Inr body \<Rightarrow> Inr (be32 (of_nat (length body)) @ body))"

section \<open>Reading back a stream\<close>

text \<open>A frame the encoder accepts, and whose serialised bytes read back as the frame.\<close>

definition sendable :: "('f \<Rightarrow> 'p + bytes) \<Rightarrow> (bytes \<Rightarrow> 'p + 'f) \<Rightarrow> 'f \<Rightarrow> bool" where
  "sendable ser de f \<longleftrightarrow> (\<exists>b. ser f = Inr b \<and> length b \<le> MAX_FRAME_SIZE \<and> de b = Inr f)"

definition wire_bytes :: "('f \<Rightarrow> 'p + bytes) \<Rightarrow> 'f \<Rightarrow> bytes" where
  "wire_bytes ser f = (case encode_stream ser f of Inr b \<Rightarrow> b | Inl _ \<Rightarrow> [])"

lemma of_be32_prefix:
  "of_be32 ((be32 w @ xs) ! 0) ((be32 w @ xs) ! 1) ((be32 w @ xs) ! 2) ((be32 w @ xs) ! 3) = w"
  by (simp add: be32_def of_be32_be32 numeral_2_eq_2 numeral_3_eq_3)

lemma unat_frame_length: "n \<le> MAX_FRAME_SIZE \<Longrightarrow> unat (of_nat n :: u32) = n"
  by (simp add: MAX_FRAME_SIZE_def unat_of_nat take_bit_nat_eq_self)

lemma wire_bytes_sendable:
  "ser f = Inr b \<Longrightarrow> length b \<le> MAX_FRAME_SIZE \<Longrightarrow> wire_bytes ser f = be32 (of_nat (length b)) @ b"
  by (simp add: wire_bytes_def encode_stream_def encode_frame_def)

lemma next_frame_whole:
  "length b \<le> MAX_FRAME_SIZE \<Longrightarrow>
     next_frame de (be32 (of_nat (length b)) @ b @ rest) =
       (rest, case de b of Inl e \<Rightarrow> Inl (Postcard e) | Inr f \<Rightarrow> Inr (Some f))"
  using of_be32_prefix[of "of_nat (length b)" "b @ rest"]
  by (simp add: next_frame_def LEN_PREFIX_def unat_frame_length decode_frame_def split: sum.splits)

lemma next_frame_cut:
  assumes "length b \<le> MAX_FRAME_SIZE" "strict_prefix p (be32 (of_nat (length b)) @ b)"
  shows "next_frame de p = (p, Inr None)"
proof (cases "length p < LEN_PREFIX")
  case False
  from assms(2) consider "strict_prefix p (be32 (of_nat (length b)))"
    | q where "p = be32 (of_nat (length b)) @ q" "strict_prefix q b"
    by (auto simp: strict_prefix_append_cases)
  then show ?thesis
  proof cases
    case 1
    then have "length p < length (be32 (of_nat (length b)))" by (rule prefix_length_less)
    then show ?thesis using False by (simp add: LEN_PREFIX_def)
  next
    case 2
    have "length q < length b" using 2(2) by (rule prefix_length_less)
    then show ?thesis
      using of_be32_prefix[of "of_nat (length b)" q] assms(1)
      by (simp add: next_frame_def LEN_PREFIX_def 2(1) unat_frame_length)
  qed
qed (simp add: next_frame_def)

interpretation rhp: stream_codec "wire_bytes ser" "next_frame de" "sendable ser de" for ser de
proof (unfold_locales, goal_cases)
  case (1 f)
  then show ?case by (auto simp: sendable_def wire_bytes_sendable be32_def)
next
  case (2 f rest)
  then show ?case by (auto simp: sendable_def wire_bytes_sendable next_frame_whole)
next
  case (3 f p)
  then obtain b where b: "ser f = Inr b" "length b \<le> MAX_FRAME_SIZE" by (auto simp: sendable_def)
  with 3(2) show ?case by (auto simp: wire_bytes_sendable intro: next_frame_cut)
next
  case 4
  then show ?case by (simp add: next_frame_def LEN_PREFIX_def)
qed

text \<open>
  C11. A stream of frames is read back exactly, in order, however the transport cuts it into
  fragments, and nothing is left in the buffer.
\<close>

theorem frames_survive_fragmentation:
  assumes "\<forall>f \<in> set fs. sendable ser de f" "concat fragments = concat (map (wire_bytes ser) fs)"
  shows "feed_all (next_frame de) [] fragments = Inr (fs, [])"
  using assms by (rule rhp.any_fragmentation)

definition demo_frame :: "bytes \<Rightarrow> frame" where
  "demo_frame b = \<lparr>version = 1, kind = Push, family = 2, message_type = 5, request_id = PUSH, error = None, fpayload = b\<rparr>"

definition demo_ser :: "frame \<Rightarrow> unit + bytes" where
  "demo_ser f = Inr (fpayload f)"

definition demo_de :: "bytes \<Rightarrow> unit + frame" where
  "demo_de b = Inr (demo_frame b)"

theorem frames_survive_fragmentation_witness:
  "feed_all (next_frame demo_de) [] [[0, 0], [0, 1, 7, 0, 0, 0], [2, 8, 9]] =
     Inr ([demo_frame [7], demo_frame [8, 9]], [])"
proof (rule frames_survive_fragmentation)
  show "\<forall>f \<in> set [demo_frame [7], demo_frame [8, 9]]. sendable demo_ser demo_de f"
    by (simp add: sendable_def demo_ser_def demo_de_def demo_frame_def MAX_FRAME_SIZE_def)
  show "concat [[0, 0], [0, 1, 7, 0, 0, 0], [2, 8, 9]] =
      concat (map (wire_bytes demo_ser) [demo_frame [7], demo_frame [8, 9]])"
    by (simp add: wire_bytes_def encode_stream_def encode_frame_def demo_ser_def demo_frame_def
        MAX_FRAME_SIZE_def be32_def)
qed

text \<open>
  The codec cannot be made to hoard or to stall: it only waits while the buffer is shorter than
  one maximal frame, waiting leaves the buffer as it is, and every frame it returns shortens it. An
  announced length above the limit is refused at once, before the body arrives.
\<close>

lemma next_frame_bounded:
  "(snd (next_frame de buf) = Inr None \<longrightarrow> fst (next_frame de buf) = buf \<and> length buf < LEN_PREFIX + MAX_FRAME_SIZE) \<and>
   (\<forall>f. snd (next_frame de buf) = Inr (Some f) \<longrightarrow> length (fst (next_frame de buf)) + LEN_PREFIX \<le> length buf) \<and>
   (unat (of_be32 a b c d) > MAX_FRAME_SIZE \<longrightarrow>
      snd (next_frame de ([a, b, c, d] @ rest)) = Inl (FrameTooLarge (unat (of_be32 a b c d)) MAX_FRAME_SIZE))"
  by (intro conjI impI allI) (simp_all add: next_frame_def LEN_PREFIX_def Let_def split: if_splits sum.splits)

lemma reply_echoes:
  "Inr r = reply_to M req msg \<or> r = ack req \<or> r = error_reply req code \<Longrightarrow>
     kind r = Reply \<and> request_id r = request_id req \<and> version r = version req"
  by (elim disjE) (simp_all add: reply_to_def ack_def error_reply_def split: sum.splits)

text \<open>
  Replies find their request and bodies find their type: a reply, acknowledgement or error
  reply carries the request's id and version and is marked a reply; the body put into a request, a
  reply or a push is what \<open>decode\<close> returns for that message type, and for any other family or type
  number \<open>decode\<close> says the frame is not for it instead of misreading the bytes.
\<close>

lemma frame_correlation:
  assumes "mser M msg = Inr b" "mde M b = Inr msg"
    and "f \<in> {request M i msg, reply_to M req msg, push M msg}"
  shows "\<exists>fr. f = Inr fr \<and> decode_message M fr = Some (Inr msg) \<and>
      ((FAMILY M', MESSAGE_TYPE M') \<noteq> (FAMILY M, MESSAGE_TYPE M) \<longrightarrow> decode_message M' fr = None) \<and>
      (\<forall>r. Inr r = reply_to M req msg \<or> r = ack req \<or> r = error_reply req code \<longrightarrow>
         kind r = Reply \<and> request_id r = request_id req \<and> version r = version req)"
proof -
  have "\<exists>fr. f = Inr fr \<and> family fr = FAMILY M \<and> message_type fr = MESSAGE_TYPE M \<and> fpayload fr = b"
    using assms(3) by (elim insertE emptyE) (simp_all add: request_def reply_to_def push_def assms(1))
  then obtain fr where fr: "f = Inr fr" "family fr = FAMILY M" "message_type fr = MESSAGE_TYPE M" "fpayload fr = b"
    by blast
  moreover have "decode_message M fr = Some (Inr msg)" using fr assms(2) by (simp add: decode_message_def)
  moreover have "(FAMILY M', MESSAGE_TYPE M') \<noteq> (FAMILY M, MESSAGE_TYPE M) \<longrightarrow> decode_message M' fr = None"
    using fr by (auto simp: decode_message_def)
  moreover have "\<forall>r. Inr r = reply_to M req msg \<or> r = ack req \<or> r = error_reply req code \<longrightarrow>
      kind r = Reply \<and> request_id r = request_id req \<and> version r = version req"
    by (intro allI impI) (rule reply_echoes)
  ultimately show ?thesis by (intro exI[of _ fr] conjI)
qed

end
