(* ===== verification/Federation_Ingest.thy ===== *)
theory Federation_Ingest
  imports Wire
begin

text \<open>
  The gates of the federation ingest path: the Bloom filter of seen event ids
  (\<open>crates/federation/src/bloom.rs\<close>) and the static peer policy (\<open>policy.rs\<close>). The blake3 digest is
  a third-party function and an argument, \<open>digest\<close>; the floating point formula that sizes the
  filter is the argument \<open>sizing\<close>, whose results the code clamps to at least one.
\<close>

section \<open>The Bloom filter\<close>

record bloom_filter =
  filter_words :: "u64 list"
  num_bits :: nat
  num_hashes :: nat
  salt :: u64

text \<open>\<open>sizing\<close> gives the optimal bit and hash counts for the requested capacity and rate.\<close>

definition with_capacity_salted :: "(nat \<Rightarrow> 'f \<Rightarrow> nat \<times> nat) \<Rightarrow> nat \<Rightarrow> 'f \<Rightarrow> u64 \<Rightarrow> bloom_filter" where
  "with_capacity_salted sizing expected_items fp_rate s =
     (let (m, k) = sizing (max expected_items 1) fp_rate;
          bits = max m 1;
          hashes = max k 1
      in \<lparr>filter_words = replicate (div_ceil bits 64) 0, num_bits = bits, num_hashes = hashes, salt = s\<rparr>)"

definition with_capacity :: "(nat \<Rightarrow> 'f \<Rightarrow> nat \<times> nat) \<Rightarrow> nat \<Rightarrow> 'f \<Rightarrow> bloom_filter" where
  "with_capacity sizing expected_items fp_rate = with_capacity_salted sizing expected_items fp_rate 0"

definition of_le64 :: "bytes \<Rightarrow> u64" where
  "of_le64 bs = foldr (\<lambda>b acc. push_bit 8 acc OR ucast b) bs 0"

definition base_hashes :: "(bytes \<Rightarrow> bytes) \<Rightarrow> bloom_filter \<Rightarrow> bytes \<Rightarrow> u64 \<times> u64" where
  "base_hashes digest f i =
     (let d = digest (le64 (salt f) @ i) in (of_le64 (take 8 d), of_le64 (take 8 (drop 8 d)) OR 1))"

definition bit_index :: "bloom_filter \<Rightarrow> u64 \<Rightarrow> u64 \<Rightarrow> nat \<Rightarrow> nat" where
  "bit_index f h1 h2 i = unat ((h1 + of_nat i * h2) mod of_nat (num_bits f))"

definition set_bit_at :: "nat \<Rightarrow> u64 list \<Rightarrow> u64 list" where
  "set_bit_at b ws = ws[b div 64 := ws ! (b div 64) OR push_bit (b mod 64) 1]"

definition test_bit_at :: "u64 list \<Rightarrow> nat \<Rightarrow> bool" where
  "test_bit_at ws b \<longleftrightarrow> ws ! (b div 64) AND push_bit (b mod 64) 1 \<noteq> 0"

definition positions :: "(bytes \<Rightarrow> bytes) \<Rightarrow> bloom_filter \<Rightarrow> bytes \<Rightarrow> nat list" where
  "positions digest f i =
     (let (h1, h2) = base_hashes digest f i in map (bit_index f h1 h2) [0..<num_hashes f])"

definition bloom_insert :: "(bytes \<Rightarrow> bytes) \<Rightarrow> bloom_filter \<Rightarrow> bytes \<Rightarrow> bloom_filter" where
  "bloom_insert digest f i = f\<lparr>filter_words := fold set_bit_at (positions digest f i) (filter_words f)\<rparr>"

definition bloom_contains :: "(bytes \<Rightarrow> bytes) \<Rightarrow> bloom_filter \<Rightarrow> bytes \<Rightarrow> bool" where
  "bloom_contains digest f i = list_all (test_bit_at (filter_words f)) (positions digest f i)"

section \<open>The peer policy\<close>

datatype policy_mode = AllowList | DenyList

record peer_policy =
  pmode :: policy_mode
  pentries :: "bytes set"

definition policy_allow :: "bytes list \<Rightarrow> peer_policy" where
  "policy_allow peers = \<lparr>pmode = AllowList, pentries = set peers\<rparr>"

definition policy_deny :: "bytes list \<Rightarrow> peer_policy" where
  "policy_deny peers = \<lparr>pmode = DenyList, pentries = set peers\<rparr>"

definition permits :: "peer_policy \<Rightarrow> bytes \<Rightarrow> bool" where
  "permits p peer =
     (case pmode p of AllowList \<Rightarrow> peer \<in> pentries p | DenyList \<Rightarrow> peer \<notin> pentries p)"

section \<open>No false negatives\<close>

text \<open>The bit vector holds every position, and positions fall inside it.\<close>

definition bloom_wf :: "bloom_filter \<Rightarrow> bool" where
  "bloom_wf f \<longleftrightarrow> 0 < num_bits f \<and> num_bits f < 2 ^ 64 \<and> length (filter_words f) = div_ceil (num_bits f) 64 \<and> 0 < num_hashes f"

lemma bit_index_in_range: "bloom_wf f \<Longrightarrow> bit_index f h1 h2 i < num_bits f"
proof -
  assume w: "bloom_wf f"
  then have "unat (of_nat (num_bits f) :: u64) = num_bits f"
    by (simp add: bloom_wf_def unat_of_nat take_bit_nat_eq_self)
  then show ?thesis using w by (simp add: bit_index_def unat_mod_distrib bloom_wf_def)
qed

lemma word_index_in_range: "bloom_wf f \<Longrightarrow> b < num_bits f \<Longrightarrow> b div 64 < length (filter_words f)"
  by (auto simp: bloom_wf_def div_ceil_def)

lemma test_bit_at_bit: "test_bit_at ws b \<longleftrightarrow> bit (ws ! (b div 64)) (b mod 64)"
  by (simp add: test_bit_at_def and_exp_eq_0_iff_not_bit)

lemma test_set_same: "b div 64 < length ws \<Longrightarrow> test_bit_at (set_bit_at b ws) b"
  by (simp add: test_bit_at_bit set_bit_at_def bit_or_iff bit_exp_iff)

lemma test_set_keeps: "test_bit_at ws b \<Longrightarrow> test_bit_at (set_bit_at c ws) b"
  by (cases "c div 64 < length ws"; cases "b div 64 = c div 64") (simp_all add: test_bit_at_bit set_bit_at_def bit_or_iff list_update_beyond)

lemma length_set_bit [simp]: "length (set_bit_at b ws) = length ws"
  by (simp add: set_bit_at_def)

lemma length_set_bits [simp]: "length (fold set_bit_at bs ws) = length ws"
  by (induction bs arbitrary: ws) simp_all

lemma fold_set_keeps: "test_bit_at ws b \<Longrightarrow> test_bit_at (fold set_bit_at bs ws) b"
  by (induction bs arbitrary: ws) (simp_all add: test_set_keeps)

lemma fold_set_sets: "b \<in> set bs \<Longrightarrow> b div 64 < length ws \<Longrightarrow> test_bit_at (fold set_bit_at bs ws) b"
proof (induction bs arbitrary: ws)
  case (Cons c bs)
  then show ?case
    using test_set_same[of b ws] fold_set_keeps by auto
qed simp

lemma positions_in_range: "bloom_wf f \<Longrightarrow> b \<in> set (positions digest f i) \<Longrightarrow> b < num_bits f"
  by (auto simp: positions_def case_prod_unfold Let_def bit_index_in_range)

lemma bloom_insert_wf: "bloom_wf f \<Longrightarrow> bloom_wf (bloom_insert digest f i)"
  by (simp add: bloom_wf_def bloom_insert_def)

lemma positions_insert [simp]: "positions digest (bloom_insert digest f j) i = positions digest f i"
  by (simp add: positions_def bloom_insert_def base_hashes_def bit_index_def case_prod_unfold Let_def)

lemma insert_contains: "bloom_wf f \<Longrightarrow> bloom_contains digest (bloom_insert digest f i) i"
  using fold_set_sets[of _ "positions digest f i" "filter_words f"] word_index_in_range positions_in_range
  by (auto simp: bloom_contains_def list_all_iff) (auto simp: bloom_insert_def)

lemma insert_keeps: "bloom_contains digest f i \<Longrightarrow> bloom_contains digest (bloom_insert digest f j) i"
  by (auto simp: bloom_contains_def list_all_iff) (auto simp: bloom_insert_def fold_set_keeps)

lemma inserts_keep:
  "bloom_wf f \<Longrightarrow> i \<in> set js \<or> bloom_contains digest f i \<Longrightarrow>
     bloom_contains digest (fold (\<lambda>j f. bloom_insert digest f j) js f) i"
  by (induction js arbitrary: f) (auto simp: bloom_insert_wf insert_contains insert_keeps)

lemma with_capacity_wf:
  "fst (sizing (max n 1) p) < 2 ^ 64 \<Longrightarrow> bloom_wf (with_capacity_salted sizing n p s)"
  by (auto simp: with_capacity_salted_def bloom_wf_def case_prod_unfold Let_def)

text \<open>
  The seen-set has no false negatives, and no insertion can fail: for a filter of any requested
  capacity and rate, after any sequence of insertions every inserted id is reported as seen, and
  every bit position computed on the way lies inside the bit vector.
\<close>

lemma bloom_no_false_negatives:
  assumes "fst (sizing (max n 1) p) < 2 ^ 64" "i \<in> set ids"
  shows "bloom_contains digest (fold (\<lambda>j f. bloom_insert digest f j) ids (with_capacity_salted sizing n p s)) i \<and>
    list_all (\<lambda>b. b div 64 < length (filter_words (with_capacity_salted sizing n p s)))
      (positions digest (with_capacity_salted sizing n p s) i)"
proof -
  let ?f = "with_capacity_salted sizing n p s"
  have wf: "bloom_wf ?f" by (rule with_capacity_wf[of sizing n p s]) (rule assms(1))
  then have "bloom_contains digest (fold (\<lambda>j f. bloom_insert digest f j) ids ?f) i"
    using assms(2) by (intro inserts_keep) auto
  moreover have "b div 64 < length (filter_words ?f)" if "b \<in> set (positions digest ?f i)" for b
    using word_index_in_range[OF wf positions_in_range[OF wf that]] .
  ultimately show ?thesis by (simp add: list_all_iff)
qed

end
