(* ===== verification/Federation_Search.thy ===== *)
theory Federation_Search
  imports Prelude "HOL-Library.Multiset" "HOL-Library.Sublist"
begin

text \<open>
  Cross-server search of the federation crate (\<open>crates/federation/src\<close>): catalogs as data
  (\<open>catalog.rs\<close>), querying one catalog (\<open>search.rs\<close>), collapsing the results of many servers by
  content hash (\<open>dedupe.rs\<close>) and planning fetches over the sources (\<open>fanout.rs\<close>). Keys and hashes
  are byte lists ordered lexicographically, as \<open>[u8; 32]\<close> is; strings are code point lists, whose
  lexicographic order is that of their UTF-8 bytes. \<open>lc\<close> is Unicode lower-casing.
\<close>

section \<open>Catalogs and search\<close>

type_synonym key = bytes

record catalog_entry =
  name :: str
  esize :: u64
  hash :: key
  area :: str
  path :: str
  mime :: str
  timestamp :: int

record catalog =
  server_key :: key
  generation :: u64
  prev_id :: "key option"
  issued_at :: int
  entries :: "catalog_entry list"

record search_query =
  terms :: "str list"
  min_size :: "u64 option"
  max_size :: "u64 option"
  mime_prefix :: "str option"
  offset :: nat
  limit :: nat

definition contains :: "str \<Rightarrow> str \<Rightarrow> bool" where
  "contains text pat = sublist pat text"

definition query_matches :: "(str \<Rightarrow> str) \<Rightarrow> search_query \<Rightarrow> catalog_entry \<Rightarrow> bool" where
  "query_matches lc q e =
     ((case min_size q of Some m \<Rightarrow> \<not> esize e < m | None \<Rightarrow> True) \<and>
      (case max_size q of Some m \<Rightarrow> \<not> esize e > m | None \<Rightarrow> True) \<and>
      (case mime_prefix q of Some p \<Rightarrow> prefix (lc p) (lc (mime e)) | None \<Rightarrow> True) \<and>
      list_all (\<lambda>t. contains (lc (name e)) (lc t)) (terms q))"

definition search_catalog :: "(str \<Rightarrow> str) \<Rightarrow> catalog \<Rightarrow> search_query \<Rightarrow> catalog_entry list" where
  "search_catalog lc c q =
     (let hits = drop (offset q) (filter (query_matches lc q) (entries c))
      in if limit q = 0 then hits else take (limit q) hits)"

record search_result =
  res_key :: key
  res_generation :: u64
  res_matches :: "catalog_entry list"

definition from_catalog :: "(str \<Rightarrow> str) \<Rightarrow> catalog \<Rightarrow> search_query \<Rightarrow> search_result" where
  "from_catalog lc c q =
     \<lparr>res_key = server_key c, res_generation = generation c, res_matches = search_catalog lc c q\<rparr>"

section \<open>Dedupe\<close>

record server_ref =
  ref_key :: key
  ref_generation :: u64
  ref_area :: str
  ref_path :: str
  ref_name :: str

record deduped_match =
  dhash :: key
  dsize :: u64
  sources :: "server_ref list"

fun insert_source :: "server_ref list \<Rightarrow> server_ref \<Rightarrow> server_ref list" where
  "insert_source [] c = [c]"
| "insert_source (s # ss) c =
     (if ref_key s = ref_key c
      then (if (ref_path c, ref_name c) < (ref_path s, ref_name s) then c else s) # ss
      else s # insert_source ss c)"

definition candidate :: "search_result \<Rightarrow> catalog_entry \<Rightarrow> server_ref" where
  "candidate r e =
     \<lparr>ref_key = res_key r, ref_generation = res_generation r, ref_area = area e, ref_path = path e,
      ref_name = name e\<rparr>"

text \<open>One entry of one result, merged into the matches so far.\<close>

fun merge_entry :: "server_ref \<Rightarrow> catalog_entry \<Rightarrow> deduped_match list \<Rightarrow> deduped_match list" where
  "merge_entry c e [] = [\<lparr>dhash = hash e, dsize = esize e, sources = [c]\<rparr>]"
| "merge_entry c e (d # ds) =
     (if dhash d = hash e then d\<lparr>sources := insert_source (sources d) c\<rparr> # ds else d # merge_entry c e ds)"

definition merge_result :: "search_result \<Rightarrow> deduped_match list \<Rightarrow> deduped_match list" where
  "merge_result r = fold (\<lambda>e. merge_entry (candidate r e) e) (res_matches r)"

definition dedupe_by_hash :: "search_result list \<Rightarrow> deduped_match list" where
  "dedupe_by_hash results =
     sort_key dhash
       (map (\<lambda>d. d\<lparr>sources := sort_key (\<lambda>s. (ref_key s, ref_generation s)) (sources d)\<rparr>)
         (fold merge_result results []))"

section \<open>Fan-out\<close>

datatype fetch_strategy = FreshestFirst | StableByKey

record fetch_policy =
  strategy :: fetch_strategy
  max_sources :: nat

record fetch_plan =
  plan_hash :: key
  plan_size :: u64
  plan_sources :: "server_ref list"

fun order_sources :: "fetch_strategy \<Rightarrow> server_ref list \<Rightarrow> server_ref list" where
  "order_sources FreshestFirst ss = sort_key (\<lambda>s. (- uint (ref_generation s), ref_key s)) ss"
| "order_sources StableByKey ss = sort_key ref_key ss"

definition truncate :: "fetch_policy \<Rightarrow> server_ref list \<Rightarrow> server_ref list" where
  "truncate p ss = (if max_sources p \<noteq> 0 then take (max_sources p) ss else ss)"

definition plan_fetch :: "deduped_match \<Rightarrow> fetch_policy \<Rightarrow> fetch_plan" where
  "plan_fetch d p =
     \<lparr>plan_hash = dhash d, plan_size = dsize d, plan_sources = truncate p (order_sources (strategy p) (sources d))\<rparr>"

definition plan_nth :: "fetch_policy \<Rightarrow> nat \<times> deduped_match \<Rightarrow> fetch_plan" where
  "plan_nth p = (\<lambda>(i, d).
     let ss = order_sources (strategy p) (sources d); len = length ss;
         ss = (if len \<noteq> 0 then rotate (i mod len) ss else ss)
     in \<lparr>plan_hash = dhash d, plan_size = dsize d, plan_sources = truncate p ss\<rparr>)"

definition plan_fetch_batch :: "deduped_match list \<Rightarrow> fetch_policy \<Rightarrow> fetch_plan list" where
  "plan_fetch_batch ds p = map (plan_nth p) (enumerate 0 ds)"

section \<open>Search pages\<close>

text \<open>
  Paging is lossless: with no page limit the hits are exactly the matching entries in catalog
  order, and pages of any size laid end to end, as many as are needed, give that list back, with
  no hit lost or repeated at a page border.
\<close>

lemma search_pages_partition:
  assumes "0 < n" "length (filter (query_matches lc q) (entries c)) \<le> k * n"
  shows "search_catalog lc c (q\<lparr>offset := 0, limit := 0\<rparr>) = filter (query_matches lc q) (entries c) \<and>
    concat (map (\<lambda>i. search_catalog lc c (q\<lparr>offset := i * n, limit := n\<rparr>)) [0..<k]) =
      search_catalog lc c (q\<lparr>offset := 0, limit := 0\<rparr>)"
proof -
  have q: "query_matches lc (q\<lparr>offset := a, limit := b\<rparr>) = query_matches lc q" for a b
    by (simp add: query_matches_def fun_eq_iff)
  have "concat (map (\<lambda>i. take n (drop (i * n) xs)) [0..<m]) = take (m * n) xs" for m and xs :: "catalog_entry list"
    by (induction m) (simp_all add: take_add[symmetric] add.commute)
  then show ?thesis using assms by (simp add: search_catalog_def q Let_def)
qed

definition demo_entry :: "str \<Rightarrow> catalog_entry" where
  "demo_entry n = \<lparr>name = n, esize = 1, hash = [9], area = [], path = [], mime = [], timestamp = 0\<rparr>"

definition demo_query :: search_query where
  "demo_query = \<lparr>terms = [], min_size = None, max_size = None, mime_prefix = None, offset = 0, limit = 0\<rparr>"

definition demo_catalog :: catalog where
  "demo_catalog = \<lparr>server_key = [1], generation = 1, prev_id = None, issued_at = 0,
     entries = [demo_entry [1], demo_entry [2], demo_entry [3]]\<rparr>"

section \<open>What dedupe guarantees\<close>

definition locator :: "server_ref \<Rightarrow> str \<times> str" where
  "locator s = (ref_path s, ref_name s)"

text \<open>A server is represented by a source of its own whose locator is no later than the offer's.\<close>

definition represents :: "server_ref list \<Rightarrow> server_ref \<Rightarrow> bool" where
  "represents ss c \<longleftrightarrow> (\<exists>s \<in> set ss. ref_key s = ref_key c \<and> locator s \<le> locator c)"

definition dedupe_ok :: "(key \<times> server_ref) set \<Rightarrow> deduped_match list \<Rightarrow> bool" where
  "dedupe_ok offers ds \<longleftrightarrow>
     distinct (map dhash ds) \<and>
     (\<forall>d \<in> set ds. distinct (map ref_key (sources d)) \<and> sources d \<noteq> [] \<and> (\<forall>s \<in> set (sources d). (dhash d, s) \<in> offers)) \<and>
     (\<forall>(h, c) \<in> offers. \<exists>d \<in> set ds. dhash d = h \<and> represents (sources d) c)"

definition all_offers :: "search_result list \<Rightarrow> (key \<times> server_ref) set" where
  "all_offers rs = {(hash e, candidate r e) | r e. r \<in> set rs \<and> e \<in> set (res_matches r)}"

lemma insert_source_keys:
  "distinct (map ref_key ss) \<Longrightarrow> distinct (map ref_key (insert_source ss c)) \<and>
     ref_key ` set (insert_source ss c) = insert (ref_key c) (ref_key ` set ss)"
  by (induction ss) auto

lemma insert_source_members: "set (insert_source ss c) \<subseteq> insert c (set ss)" "insert_source ss c \<noteq> []"
  by (induction ss) auto

lemma insert_source_represents: "represents (insert_source ss c) c"
  by (induction ss) (auto simp: represents_def locator_def)

lemma insert_source_keeps: "represents ss c' \<Longrightarrow> represents (insert_source ss c) c'"
proof (induction ss)
  case (Cons s ss)
  then show ?case by (auto simp: represents_def locator_def less_imp_le intro: order_trans)
qed (simp add: represents_def)

lemma merge_entry_distinct: "distinct (map dhash ds) \<Longrightarrow> distinct (map dhash (merge_entry c e ds)) \<and>
    dhash ` set (merge_entry c e ds) = insert (hash e) (dhash ` set ds)"
  by (induction ds) auto

lemma merge_entry_set:
  "distinct (map dhash ds) \<Longrightarrow> set (merge_entry c e ds) =
     {d \<in> set ds. dhash d \<noteq> hash e} \<union>
     (if hash e \<in> dhash ` set ds
      then {d\<lparr>sources := insert_source (sources d) c\<rparr> | d. d \<in> set ds \<and> dhash d = hash e}
      else {\<lparr>dhash = hash e, dsize = esize e, sources = [c]\<rparr>})"
  by (induction ds) (auto simp: image_iff)

lemma merged_in:
  "distinct (map dhash ds) \<Longrightarrow> d \<in> set ds \<Longrightarrow> dhash d = hash e \<Longrightarrow>
     d\<lparr>sources := insert_source (sources d) c\<rparr> \<in> set (merge_entry c e ds)"
  by (induction ds) (auto simp: image_iff)

lemma merge_entry_ok:
  assumes "dedupe_ok offers ds"
  shows "dedupe_ok (insert (hash e, c) offers) (merge_entry c e ds)"
proof -
  let ?ds = "merge_entry c e ds"
  note ok = assms[unfolded dedupe_ok_def]
  have dist: "distinct (map dhash ?ds)" using ok merge_entry_distinct by blast
  have member: "distinct (map ref_key (sources d)) \<and> sources d \<noteq> [] \<and>
      (\<forall>s \<in> set (sources d). (dhash d, s) \<in> insert (hash e, c) offers)" if "d \<in> set ?ds" for d
  proof -
    from ok have "distinct (map dhash ds)" by simp
    from that[unfolded merge_entry_set[OF this]] consider "d \<in> set ds"
      | d0 where "d0 \<in> set ds" "dhash d0 = hash e" "d = d0\<lparr>sources := insert_source (sources d0) c\<rparr>"
      | "d = \<lparr>dhash = hash e, dsize = esize e, sources = [c]\<rparr>"
      by (auto split: if_splits)
    then show ?thesis
    proof cases
      case 2
      from ok 2(1) have d0: "distinct (map ref_key (sources d0)) \<and> (\<forall>s \<in> set (sources d0). (dhash d0, s) \<in> offers)"
        by blast
      then have "\<forall>s \<in> set (insert_source (sources d0) c). s = c \<or> (hash e, s) \<in> offers"
        using insert_source_members(1)[of "sources d0" c] 2(2) by auto
      then show ?thesis using d0 2(2,3) insert_source_members(2)[of "sources d0" c] insert_source_keys[of "sources d0" c]
        by simp
    qed (use ok in auto)
  qed
  have new: "\<exists>d \<in> set ?ds. dhash d = hash e \<and> represents (sources d) c"
  proof (cases "hash e \<in> dhash ` set ds")
    case True
    then obtain d where d: "d \<in> set ds" "dhash d = hash e" by auto
    then have "d\<lparr>sources := insert_source (sources d) c\<rparr> \<in> set ?ds" using ok merged_in by blast
    then show ?thesis
      using d insert_source_represents[of "sources d" c]
      by (intro bexI[of _ "d\<lparr>sources := insert_source (sources d) c\<rparr>"]) simp_all
  next
    case False
    then show ?thesis using ok by (auto simp: merge_entry_set represents_def)
  qed
  have old: "\<exists>d \<in> set ?ds. dhash d = h \<and> represents (sources d) c'" if o: "(h, c') \<in> offers" for h c'
  proof -
    from ok o obtain d where d: "d \<in> set ds" "dhash d = h" "represents (sources d) c'" by fast
    show ?thesis
    proof (cases "h = hash e")
      case True
      then have "d\<lparr>sources := insert_source (sources d) c\<rparr> \<in> set ?ds" using d ok merged_in by blast
      then show ?thesis
        using d True insert_source_keeps[OF d(3), of c]
        by (intro bexI[of _ "d\<lparr>sources := insert_source (sources d) c\<rparr>"]) simp_all
    next
      case False
      then have "d \<in> set ?ds" using d ok by (auto simp: merge_entry_set)
      then show ?thesis using d by blast
    qed
  qed
  show ?thesis unfolding dedupe_ok_def using dist member new old by blast
qed

lemma merge_result_ok:
  "dedupe_ok offers ds \<Longrightarrow> dedupe_ok (offers \<union> {(hash e, candidate r e) | e. e \<in> set (res_matches r)}) (merge_result r ds)"
proof -
  have "dedupe_ok offers ds \<Longrightarrow>
      dedupe_ok (offers \<union> {(hash e, candidate r e) | e. e \<in> set es}) (fold (\<lambda>e. merge_entry (candidate r e) e) es ds)" for es
  proof (induction es arbitrary: offers ds)
    case (Cons e es)
    have "offers \<union> {(hash x, candidate r x) | x. x \<in> set (e # es)} =
        insert (hash e, candidate r e) offers \<union> {(hash x, candidate r x) | x. x \<in> set es}" by auto
    then show ?case using Cons.IH[OF merge_entry_ok[OF Cons.prems]] by simp
  qed simp
  then show "dedupe_ok offers ds \<Longrightarrow> ?thesis" by (simp add: merge_result_def)
qed

lemma merge_results_ok: "dedupe_ok offers ds \<Longrightarrow> dedupe_ok (offers \<union> all_offers rs) (fold merge_result rs ds)"
proof (induction rs arbitrary: offers ds)
  case Nil
  then show ?case by (simp add: all_offers_def)
next
  case (Cons r rs)
  have "offers \<union> all_offers (r # rs) =
      (offers \<union> {(hash e, candidate r e) | e. e \<in> set (res_matches r)}) \<union> all_offers rs"
    by (auto simp: all_offers_def)
  then show ?case using Cons.IH[OF merge_result_ok[OF Cons.prems]] by simp
qed

lemma dedupe_ok_sorted:
  assumes "dedupe_ok offers ds"
  shows "dedupe_ok offers (sort_key f (map (\<lambda>d. d\<lparr>sources := sort_key g (sources d)\<rparr>) ds))"
proof -
  have "represents (sort_key g ss) c \<longleftrightarrow> represents ss c" for ss c by (simp add: represents_def)
  moreover have "distinct (map ref_key (sort_key g ss)) = distinct (map ref_key ss)" for ss :: "server_ref list"
    by (simp add: distinct_map)
  moreover have "distinct (map dhash (sort_key f xs)) = distinct (map dhash xs)" for xs :: "deduped_match list"
    by (simp add: distinct_map)
  moreover have "sort_key g ss = [] \<longleftrightarrow> ss = []" for ss :: "server_ref list"
    by (metis length_0_conv length_sort)
  ultimately show ?thesis
    using assms unfolding dedupe_ok_def by (simp add: comp_def case_prod_unfold)
qed

lemma sorted_keys:
  "distinct (map ref_key ss) \<Longrightarrow> sorted_wrt (<) (map ref_key (sort_key (\<lambda>s. (ref_key s, ref_generation s)) ss))"
proof -
  assume d: "distinct (map ref_key ss)"
  let ?ss = "sort_key (\<lambda>s. (ref_key s, ref_generation s)) ss"
  have "sorted_wrt (\<lambda>x y. (ref_key x, ref_generation x) \<le> (ref_key y, ref_generation y)) ?ss"
    using sorted_sort_key[of "\<lambda>s. (ref_key s, ref_generation s)" ss] by (simp add: sorted_wrt_map)
  then have "sorted_wrt (\<lambda>x y. ref_key x \<le> ref_key y) ?ss"
    by (rule sorted_wrt_mono_rel[rotated]) (auto simp: less_eq_prod_def)
  then have "sorted (map ref_key ?ss)" by (simp add: sorted_wrt_map)
  moreover have "distinct (map ref_key ?ss)" using d by (simp add: distinct_map)
  ultimately show ?thesis by (simp add: strict_sorted_iff)
qed

text \<open>
  Dedupe loses nothing and invents nothing: the output has one match per content hash, in
  strictly increasing order of hash; every listed source was offered by that server for that hash;
  every offer is represented by exactly one source of its server, the one that sorts first by path
  and name; and the sources are ordered by server key.
\<close>

lemma dedupe_sound_complete:
  "sorted_wrt (<) (map dhash (dedupe_by_hash rs)) \<and>
   dedupe_ok (all_offers rs) (dedupe_by_hash rs) \<and>
   (\<forall>d \<in> set (dedupe_by_hash rs). sorted_wrt (<) (map ref_key (sources d)))"
proof -
  let ?ds = "fold merge_result rs []"
  have ok: "dedupe_ok (all_offers rs) ?ds" using merge_results_ok[of "{}" "[]" rs] by (simp add: dedupe_ok_def)
  then have out: "dedupe_ok (all_offers rs) (dedupe_by_hash rs)"
    unfolding dedupe_by_hash_def by (rule dedupe_ok_sorted)
  then have "distinct (map dhash (dedupe_by_hash rs))" by (simp add: dedupe_ok_def)
  moreover have "sorted (map dhash (dedupe_by_hash rs))" by (simp add: dedupe_by_hash_def)
  moreover have "\<forall>d \<in> set (dedupe_by_hash rs). sorted_wrt (<) (map ref_key (sources d))"
    using ok sorted_keys by (auto simp: dedupe_by_hash_def dedupe_ok_def)
  ultimately show ?thesis using out by (simp add: strict_sorted_iff)
qed

definition demo_result :: "u8 \<Rightarrow> search_result" where
  "demo_result k = \<lparr>res_key = [k], res_generation = 1, res_matches = [demo_entry [1]]\<rparr>"

section \<open>What a plan guarantees\<close>

lemma set_order_sources [simp]: "mset (order_sources st ss) = mset ss"
  by (cases st) simp_all

lemma order_sources_freshest:
  "i < j \<Longrightarrow> j < length ss \<Longrightarrow>
     ref_generation (order_sources FreshestFirst ss ! j) \<le> ref_generation (order_sources FreshestFirst ss ! i)"
proof -
  assume ij: "i < j" "j < length ss"
  let ?f = "\<lambda>s. (- uint (ref_generation s), ref_key s)"
  have "sorted (map ?f (sort_key ?f ss))" by (rule sorted_sort_key)
  then have "?f (sort_key ?f ss ! i) \<le> ?f (sort_key ?f ss ! j)"
    using ij sorted_nth_mono[of "map ?f (sort_key ?f ss)" i j] by simp
  then show ?thesis by (auto simp: less_eq_prod_def word_le_def)
qed

text \<open>
  A batch plan uses every source and spreads the load: with no cap each file's plan lists
  exactly its sources, the first choice of the \<open>i\<close>-th file is the \<open>i\<close>-th source of the preferred order
  counted round, and a cap only cuts the list; under freshest-first the plan of a single fetch
  never prefers an older catalog to a newer one.
\<close>

lemma plan_batch_rotates:
  assumes "i < length ds" "sources (ds ! i) \<noteq> []"
  shows "mset (plan_sources (plan_fetch_batch ds (p\<lparr>max_sources := 0\<rparr>) ! i)) = mset (sources (ds ! i)) \<and>
    hd (plan_sources (plan_fetch_batch ds p ! i)) =
      order_sources (strategy p) (sources (ds ! i)) ! (i mod length (sources (ds ! i))) \<and>
    prefix (plan_sources (plan_fetch_batch ds p ! i)) (plan_sources (plan_fetch_batch ds (p\<lparr>max_sources := 0\<rparr>) ! i)) \<and>
    (strategy p = FreshestFirst \<longrightarrow>
      sorted_wrt (\<lambda>x y. ref_generation y \<le> ref_generation x) (plan_sources (plan_fetch (ds ! i) p)))"
proof -
  let ?o = "order_sources (strategy p) (sources (ds ! i))"
  have len: "length ?o = length (sources (ds ! i))" by (metis set_order_sources size_mset)
  have nth: "plan_fetch_batch ds q ! i = plan_nth q (i, ds ! i)" for q
    using assms(1) by (simp add: plan_fetch_batch_def nth_enumerate_eq)
  have all: "plan_sources (plan_nth p (i, ds ! i)) = truncate p (rotate (i mod length ?o) ?o)"
    "plan_sources (plan_nth (p\<lparr>max_sources := 0\<rparr>) (i, ds ! i)) = rotate (i mod length ?o) ?o"
    using assms(2) len by (simp_all add: plan_nth_def truncate_def Let_def)
  have "hd (rotate (i mod length ?o) ?o) = ?o ! (i mod length ?o)"
    using assms(2) len by (subst hd_rotate_conv_nth) auto
  moreover have "hd (truncate p xs) = hd xs" for xs by (cases xs) (auto simp: truncate_def hd_take)
  moreover have "mset (rotate k xs) = mset xs" for k and xs :: "server_ref list"
    by (metis append_take_drop_id mset_append rotate_drop_take union_commute)
  moreover have "prefix (truncate p xs) xs" for xs by (simp add: truncate_def take_is_prefix)
  moreover have "sorted_wrt (\<lambda>x y. ref_generation y \<le> ref_generation x) (truncate p ?o)" if "strategy p = FreshestFirst"
    using that order_sources_freshest[of _ _ "sources (ds ! i)"] len
    by (auto simp: truncate_def sorted_wrt_iff_nth_less sorted_wrt_take)
  ultimately show ?thesis by (simp add: nth all len plan_fetch_def)
qed

definition demo_ref :: "u8 \<Rightarrow> server_ref" where
  "demo_ref k = \<lparr>ref_key = [k], ref_generation = 1, ref_area = [], ref_path = [], ref_name = []\<rparr>"

definition demo_match :: deduped_match where
  "demo_match = \<lparr>dhash = [9], dsize = 1, sources = [demo_ref 1, demo_ref 2]\<rparr>"

end
