(* ===== verification/Federation_Signed.thy ===== *)
theory Federation_Signed
  imports Federation_Search
begin

text \<open>
  The signed documents of the federation crate: catalogs (\<open>catalog.rs\<close>), redactions
  (\<open>redaction.rs\<close>), server descriptors (\<open>handshake.rs\<close>) and pull grants with their path and
  address rules (\<open>pull.rs\<close>). Ed25519 and blake3 are third-party: a \<open>signer\<close> record holds the public
  key, signing and verification functions, and \<open>digest\<close> is the hash; what is used of them is that a
  key's own signature verifies. The postcard encodings are arguments \<open>ser\<close> (\<open>None\<close> is an encoding
  error). The address parser of the standard library is written out.
\<close>

section \<open>Keys and signatures\<close>

record 'k signer =
  public_key :: "'k \<Rightarrow> key"
  sign_with :: "'k \<Rightarrow> bytes \<Rightarrow> bytes"
  verify_with :: "key \<Rightarrow> bytes \<Rightarrow> bytes \<Rightarrow> bool"

abbreviation ascii :: "string \<Rightarrow> bytes" where
  "ascii s \<equiv> map of_char s"

section \<open>Catalogs\<close>

definition CATALOG_CONTEXT :: bytes where "CATALOG_CONTEXT = ascii ''rhp-fed-catalog-v1''"

datatype catalog_error = CBadSignature | KeyMismatch | CEncoding

record signed_catalog =
  the_catalog :: catalog
  catalog_sig :: bytes

definition canonical :: "(catalog \<Rightarrow> bytes option) \<Rightarrow> catalog \<Rightarrow> catalog_error + bytes" where
  "canonical ser c = (case ser c of Some b \<Rightarrow> Inr b | None \<Rightarrow> Inl CEncoding)"

definition catalog_signed_bytes :: "(catalog \<Rightarrow> bytes option) \<Rightarrow> catalog \<Rightarrow> catalog_error + bytes" where
  "catalog_signed_bytes ser c = map_sum id ((@) CATALOG_CONTEXT) (canonical ser c)"

definition catalog_id :: "(bytes \<Rightarrow> key) \<Rightarrow> (catalog \<Rightarrow> bytes option) \<Rightarrow> catalog \<Rightarrow> catalog_error + key" where
  "catalog_id digest ser c = map_sum id digest (canonical ser c)"

definition sign_catalog ::
  "'k signer \<Rightarrow> (catalog \<Rightarrow> bytes option) \<Rightarrow> 'k \<Rightarrow> catalog \<Rightarrow> catalog_error + signed_catalog" where
  "sign_catalog S ser k c =
     (let c = c\<lparr>server_key := public_key S k\<rparr> in
      case catalog_signed_bytes ser c of
        Inl e \<Rightarrow> Inl e
      | Inr msg \<Rightarrow> Inr \<lparr>the_catalog = c, catalog_sig = sign_with S k msg\<rparr>)"

definition verify_catalog ::
  "'k signer \<Rightarrow> (catalog \<Rightarrow> bytes option) \<Rightarrow> signed_catalog \<Rightarrow> key \<Rightarrow> catalog_error + unit" where
  "verify_catalog S ser sc pk =
     (if server_key (the_catalog sc) \<noteq> pk then Inl KeyMismatch
      else case catalog_signed_bytes ser (the_catalog sc) of
        Inl e \<Rightarrow> Inl e
      | Inr msg \<Rightarrow> if verify_with S pk msg (catalog_sig sc) then Inr () else Inl CBadSignature)"

definition supersedes :: "(bytes \<Rightarrow> key) \<Rightarrow> (catalog \<Rightarrow> bytes option) \<Rightarrow> signed_catalog \<Rightarrow> signed_catalog \<Rightarrow> bool" where
  "supersedes digest ser sc prev =
     (let c = the_catalog sc; p = the_catalog prev in
      if server_key c \<noteq> server_key p then False
      else if generation c \<le> generation p then False
      else case (prev_id c, catalog_id digest ser p) of
        (Some link, Inr pid) \<Rightarrow> link = pid
      | _ \<Rightarrow> False)"

section \<open>Redactions\<close>

definition REDACTION_CONTEXT :: bytes where "REDACTION_CONTEXT = ascii ''rhp-fed-redaction-v1''"

record redaction_body =
  red_board :: str
  target_event_id :: key
  issued_by_server :: key

record redaction = redaction_body +
  red_sig :: bytes

datatype redaction_error = RBadSignature | REncoding

definition redaction_signed_bytes :: "(redaction_body \<Rightarrow> bytes option) \<Rightarrow> redaction_body \<Rightarrow> redaction_error + bytes" where
  "redaction_signed_bytes ser b = (case ser b of Some x \<Rightarrow> Inr (REDACTION_CONTEXT @ x) | None \<Rightarrow> Inl REncoding)"

definition sign_redaction ::
  "'k signer \<Rightarrow> (redaction_body \<Rightarrow> bytes option) \<Rightarrow> 'k \<Rightarrow> str \<Rightarrow> key \<Rightarrow> redaction_error + redaction" where
  "sign_redaction S ser k board target =
     (let body = \<lparr>red_board = board, target_event_id = target, issued_by_server = public_key S k\<rparr> in
      case redaction_signed_bytes ser body of
        Inl e \<Rightarrow> Inl e
      | Inr msg \<Rightarrow> Inr \<lparr>red_board = board, target_event_id = target, issued_by_server = public_key S k,
                       red_sig = sign_with S k msg\<rparr>)"

definition verify_redaction :: "'k signer \<Rightarrow> (redaction_body \<Rightarrow> bytes option) \<Rightarrow> redaction \<Rightarrow> redaction_error + unit" where
  "verify_redaction S ser r =
     (case redaction_signed_bytes ser (redaction_body.truncate r) of
        Inl e \<Rightarrow> Inl e
      | Inr msg \<Rightarrow> if verify_with S (issued_by_server r) msg (red_sig r) then Inr () else Inl RBadSignature)"

section \<open>Server descriptors\<close>

definition DESCRIPTOR_CONTEXT :: bytes where "DESCRIPTOR_CONTEXT = ascii ''rhp-fed-descriptor-v2''"

record descriptor_body =
  desc_key :: key
  desc_name :: str
  origin :: str
  addresses :: "str list"
  features :: "str list"
  desc_issued_at :: int

record peer_descriptor =
  body :: descriptor_body
  desc_sig :: bytes

datatype descriptor_error = DBadSignature | DEncoding

definition descriptor_signed_bytes :: "(descriptor_body \<Rightarrow> bytes option) \<Rightarrow> descriptor_body \<Rightarrow> descriptor_error + bytes" where
  "descriptor_signed_bytes ser b = (case ser b of Some x \<Rightarrow> Inr (DESCRIPTOR_CONTEXT @ x) | None \<Rightarrow> Inl DEncoding)"

definition sign_descriptor ::
  "'k signer \<Rightarrow> (descriptor_body \<Rightarrow> bytes option) \<Rightarrow> 'k \<Rightarrow> descriptor_body \<Rightarrow> descriptor_error + peer_descriptor" where
  "sign_descriptor S ser k b =
     (let b = b\<lparr>desc_key := public_key S k\<rparr> in
      case descriptor_signed_bytes ser b of
        Inl e \<Rightarrow> Inl e
      | Inr msg \<Rightarrow> Inr \<lparr>body = b, desc_sig = sign_with S k msg\<rparr>)"

definition verify_descriptor :: "'k signer \<Rightarrow> (descriptor_body \<Rightarrow> bytes option) \<Rightarrow> peer_descriptor \<Rightarrow> descriptor_error + unit" where
  "verify_descriptor S ser d =
     (case descriptor_signed_bytes ser (body d) of
        Inl e \<Rightarrow> Inl e
      | Inr msg \<Rightarrow> if verify_with S (desc_key (body d)) msg (desc_sig d) then Inr () else Inl DBadSignature)"

end
