(* ===== verification/Federation_Pull.thy ===== *)
theory Federation_Pull
  imports Federation_Signed Text
begin

text \<open>
  Pull grants between servers (\<open>crates/federation/src/pull.rs\<close>): the grant and its two wire layouts,
  signing, everything \<open>check\<close> looks at, and the rules for relative paths, hosts and endpoints. Main
  results: what an accepted grant guarantees, and that no accepted path can leave the folder it is
  filed under.
\<close>

section \<open>The grant\<close>

definition PULL_GRANT_CONTEXT :: bytes where "PULL_GRANT_CONTEXT = ascii ''rhp-fed-pull-grant-v1''"
definition PULL_GRANT_VERSION :: u32 where "PULL_GRANT_VERSION = 2"
definition PULL_GRANT_V1 :: u32 where "PULL_GRANT_V1 = 1"
definition MAX_GRANT_LIFETIME_SECS :: int where "MAX_GRANT_LIFETIME_SECS = 2 * 3600"
definition MAX_ENDPOINTS :: nat where "MAX_ENDPOINTS = 4"
definition MAX_PULL_ITEMS :: nat where "MAX_PULL_ITEMS = 1000"
definition MAX_PULL_PATH :: nat where "MAX_PULL_PATH = 1024"
definition MAX_PULL_DEPTH :: nat where "MAX_PULL_DEPTH = 16"
definition MAX_SEGMENT :: nat where "MAX_SEGMENT = 128"

record pull_item =
  node_id :: int
  rel_path :: str
  root :: key
  item_size :: u64
  item_mime :: str

record pull_grant_v1 =
  grant_version :: u32
  source_key :: key
  fetcher_key :: key
  issued_unix :: int
  expires_unix :: int
  nonce :: bytes
  items :: "pull_item list"

record pull_grant = pull_grant_v1 +
  tls_fingerprint :: key
  endpoints :: "str list"

record signed_pull_grant =
  grant :: pull_grant
  grant_sig :: bytes

datatype pull_grant_error =
    Decode | Version | PBadSignature | WrongSource | WrongFetcher | Expired | Count | BadPath | TooLong

text \<open>\<open>of\<close> and \<open>into_grant\<close> of the first layout.\<close>

definition v1_of :: "pull_grant \<Rightarrow> pull_grant_v1" where
  "v1_of g = pull_grant_v1.truncate g"

definition into_grant :: "pull_grant_v1 \<Rightarrow> pull_grant" where
  "into_grant g = pull_grant_v1.extend g \<lparr>tls_fingerprint = replicate 32 0, endpoints = []\<rparr>"

text \<open>The two postcard encoders, of the first layout and of the current one.\<close>

record grant_codec =
  ser_v1 :: "pull_grant_v1 \<Rightarrow> bytes option"
  ser_v2 :: "pull_grant \<Rightarrow> bytes option"

definition grant_signed_bytes :: "grant_codec \<Rightarrow> pull_grant \<Rightarrow> pull_grant_error + bytes" where
  "grant_signed_bytes C g =
     (case (if grant_version g = PULL_GRANT_V1 then ser_v1 C (v1_of g) else ser_v2 C g) of
        None \<Rightarrow> Inl Decode
      | Some b \<Rightarrow> Inr (PULL_GRANT_CONTEXT @ b))"

definition sign_grant :: "'k signer \<Rightarrow> grant_codec \<Rightarrow> 'k \<Rightarrow> pull_grant \<Rightarrow> pull_grant_error + signed_pull_grant" where
  "sign_grant S C k g =
     (if grant_version g = PULL_GRANT_V1 \<and> (tls_fingerprint g \<noteq> replicate 32 0 \<or> endpoints g \<noteq> [])
      then Inl Version
      else let g = g\<lparr>source_key := public_key S k\<rparr> in
        case grant_signed_bytes C g of
          Inl e \<Rightarrow> Inl e
        | Inr msg \<Rightarrow> Inr \<lparr>grant = g, grant_sig = sign_with S k msg\<rparr>)"

definition total_bytes :: "pull_grant \<Rightarrow> nat" where
  "total_bytes g = fold (\<lambda>i acc. sat_add64 acc (unat (item_size i))) (items g) 0"

section \<open>Path rules\<close>

definition segment_is_acceptable :: "str \<Rightarrow> bool" where
  "segment_is_acceptable s =
     (let trimmed = trim s in
      trimmed \<noteq> [] \<and> trimmed = s \<and> s \<noteq> lit ''.'' \<and> s \<noteq> lit ''..'' \<and> str_len s \<le> MAX_SEGMENT \<and>
      47 \<notin> set s \<and> \<not> list_ex is_control s)"

definition rel_path_is_acceptable :: "str \<Rightarrow> bool" where
  "rel_path_is_acceptable p =
     (let segments = split_on 47 p in
      p \<noteq> [] \<and> str_len p \<le> MAX_PULL_PATH \<and> length segments \<le> MAX_PULL_DEPTH \<and>
      list_all segment_is_acceptable segments)"

section \<open>Addresses\<close>

definition to_digit_radix :: "nat \<Rightarrow> uchar \<Rightarrow> nat option" where
  "to_digit_radix r c =
     (let d = (if 48 \<le> c \<and> c \<le> 57 then Some (c - 48)
               else if 97 \<le> c \<and> c \<le> 122 then Some (c - 97 + 10)
               else if 65 \<le> c \<and> c \<le> 90 then Some (c - 65 + 10) else None)
      in case d of Some v \<Rightarrow> if v < r then Some v else None | None \<Rightarrow> None)"

fun digits_value :: "nat \<Rightarrow> nat \<Rightarrow> str \<Rightarrow> nat" where
  "digits_value r acc [] = acc"
| "digits_value r acc (c # cs) = digits_value r (acc * r + the (to_digit_radix r c)) cs"

text \<open>
  \<open>Parser::read_number\<close>: the longest run of digits, refused if it is empty, longer than the limit,
  too large for the type, or has a leading zero where none is allowed. The value is only needed for
  the bound, so the parsers return what is left of the input.
\<close>

definition read_number :: "nat \<Rightarrow> nat \<Rightarrow> nat \<Rightarrow> bool \<Rightarrow> str \<Rightarrow> str option" where
  "read_number radix max_digits bound allow_zero_prefix s =
     (let ds = takeWhile (\<lambda>c. to_digit_radix radix c \<noteq> None) s in
      if ds = [] \<or> length ds > max_digits \<or> digits_value radix 0 ds \<ge> bound \<or>
         (\<not> allow_zero_prefix \<and> hd ds = 48 \<and> length ds > 1)
      then None else Some (drop (length ds) s))"

definition read_separator :: "uchar \<Rightarrow> nat \<Rightarrow> (str \<Rightarrow> str option) \<Rightarrow> str \<Rightarrow> str option" where
  "read_separator sep index p s =
     (if index > 0 then (case s of c # cs \<Rightarrow> if c = sep then p cs else None | [] \<Rightarrow> None) else p s)"

definition read_octet :: "str \<Rightarrow> str option" where
  "read_octet = read_number 10 3 256 False"

definition read_ipv4_addr :: "str \<Rightarrow> str option" where
  "read_ipv4_addr s =
     Option.bind (read_separator 46 0 read_octet s) (\<lambda>s.
     Option.bind (read_separator 46 1 read_octet s) (\<lambda>s.
     Option.bind (read_separator 46 2 read_octet s) (\<lambda>s. read_separator 46 3 read_octet s)))"

text \<open>\<open>read_groups\<close>: group \<open>i\<close> of \<open>lim\<close>; the groups read, whether an IPv4 tail ended them, and the rest.\<close>

function read_groups :: "nat \<Rightarrow> nat \<Rightarrow> str \<Rightarrow> nat \<times> bool \<times> str" where
  "read_groups lim i s =
     (if i \<ge> lim then (lim, False, s)
      else case (if i + 1 < lim then read_separator 58 i read_ipv4_addr s else None) of
        Some rest \<Rightarrow> (i + 2, True, rest)
      | None \<Rightarrow>
          (case read_separator 58 i (read_number 16 4 65536 True) s of
             Some rest \<Rightarrow> read_groups lim (i + 1) rest
           | None \<Rightarrow> (i, False, s)))"
  by pat_completeness auto
termination
  by (relation "measure (\<lambda>(lim, i, s). lim - i)") auto

declare read_groups.simps [simp del]

definition read_ipv6_addr :: "str \<Rightarrow> str option" where
  "read_ipv6_addr s =
     (case read_groups 8 0 s of (head_size, head_ipv4, s) \<Rightarrow>
      if head_size = 8 then Some s
      else if head_ipv4 then None
      else case s of
        c # d # s \<Rightarrow>
          if c = 58 \<and> d = 58 then (case read_groups (8 - (head_size + 1)) 0 s of (_, _, s) \<Rightarrow> Some s) else None
      | _ \<Rightarrow> None)"

definition parses_ipv6 :: "str \<Rightarrow> bool" where
  "parses_ipv6 s \<longleftrightarrow> read_ipv6_addr s = Some []"

definition parses_ip :: "str \<Rightarrow> bool" where
  "parses_ip s \<longleftrightarrow> (case read_ipv4_addr s of Some rest \<Rightarrow> rest = [] | None \<Rightarrow> read_ipv6_addr s = Some [])"

text \<open>\<open>strip_prefix('[').and_then(strip_suffix(']')).unwrap_or(host)\<close>\<close>

definition bare_host :: "str \<Rightarrow> str" where
  "bare_host host =
     (case host of c # cs \<Rightarrow> if c = 91 \<and> cs \<noteq> [] \<and> last cs = 93 then butlast cs else host | [] \<Rightarrow> host)"

definition ascii_alnum_or_hyphen :: "uchar \<Rightarrow> bool" where
  "ascii_alnum_or_hyphen c \<longleftrightarrow> (48 \<le> c \<and> c \<le> 57) \<or> (65 \<le> c \<and> c \<le> 90) \<or> (97 \<le> c \<and> c \<le> 122) \<or> c = 45"

definition label_ok :: "str \<Rightarrow> bool" where
  "label_ok l \<longleftrightarrow> l \<noteq> [] \<and> str_len l \<le> 63 \<and> hd l \<noteq> 45 \<and> last l \<noteq> 45 \<and> list_all ascii_alnum_or_hyphen l"

definition host_is_acceptable :: "str \<Rightarrow> bool" where
  "host_is_acceptable host =
     (if host = [] \<or> str_len host > 253 then False
      else if parses_ip (bare_host host) then True
      else hd host \<noteq> 46 \<and> last host \<noteq> 46 \<and> list_all label_ok (split_on 46 host))"

definition endpoint :: "str \<Rightarrow> u16 \<Rightarrow> str" where
  "endpoint host port =
     (let bare = bare_host host in
      if parses_ipv6 bare then [91] @ bare @ [93, 58] @ decimal (unat port) else bare @ [58] @ decimal (unat port))"

text \<open>\<open>rsplit_once(':')\<close>\<close>

definition rsplit_colon :: "str \<Rightarrow> (str \<times> str) option" where
  "rsplit_colon s =
     (if 58 \<in> set s
      then let port = rev (takeWhile (\<lambda>c. c \<noteq> 58) (rev s))
           in Some (take (length s - length port - 1) s, port)
      else None)"

definition endpoint_is_acceptable :: "str \<Rightarrow> bool" where
  "endpoint_is_acceptable e =
     (case rsplit_colon e of
        Some (host, port) \<Rightarrow>
          (case parse_unsigned 65535 port of Some p \<Rightarrow> p \<noteq> 0 | None \<Rightarrow> False) \<and> host_is_acceptable host \<and>
          (58 \<notin> set host \<or> (hd host = 91 \<and> last host = 93))
      | None \<Rightarrow> False)"

section \<open>The check\<close>

text \<open>\<open>i64::saturating_sub\<close>\<close>

definition sat_sub_i64 :: "int \<Rightarrow> int \<Rightarrow> int" where
  "sat_sub_i64 a b = max (- (2 ^ 63)) (min (2 ^ 63 - 1) (a - b))"

definition repeated :: "'a list \<Rightarrow> bool" where
  "repeated xs = list_ex (\<lambda>i. xs ! i \<in> set (take i xs)) [0..<length xs]"

definition check_grant :: "'k signer \<Rightarrow> grant_codec \<Rightarrow> signed_pull_grant \<Rightarrow> key \<Rightarrow> key \<Rightarrow> int \<Rightarrow> pull_grant_error + unit" where
  "check_grant S C sg source fetcher now =
     (let g = grant sg in
      if grant_version g \<noteq> PULL_GRANT_VERSION \<and> grant_version g \<noteq> PULL_GRANT_V1 then Inl Version
      else if source_key g \<noteq> source then Inl WrongSource
      else case grant_signed_bytes C g of
        Inl e \<Rightarrow> Inl e
      | Inr msg \<Rightarrow>
          if \<not> verify_with S source msg (grant_sig sg) then Inl PBadSignature
          else if fetcher_key g \<noteq> fetcher then Inl WrongFetcher
          else if now \<ge> expires_unix g then Inl Expired
          else if sat_sub_i64 (expires_unix g) now > MAX_GRANT_LIFETIME_SECS then Inl TooLong
          else if items g = [] \<or> length (items g) > MAX_PULL_ITEMS then Inl Count
          else if \<not> list_all (\<lambda>i. rel_path_is_acceptable (rel_path i)) (items g) then Inl BadPath
          else if length (endpoints g) > MAX_ENDPOINTS \<or> repeated (endpoints g) \<or>
                  \<not> list_all endpoint_is_acceptable (endpoints g) then Inl BadPath
          else Inr ())"

section \<open>No path climbs out\<close>

text \<open>
  What a file system makes of a relative path under a folder: \<open>.\<close> and empty segments stay, \<open>..\<close>
  goes up, anything else goes down one level.
\<close>

fun resolve :: "str list \<Rightarrow> str list \<Rightarrow> str list" where
  "resolve folder [] = folder"
| "resolve folder (s # ss) =
     resolve (if s = [] \<or> s = lit ''.'' then folder
              else if s = lit ''..'' then butlast folder else folder @ [s]) ss"

lemma resolve_plain: "list_all segment_is_acceptable ss \<Longrightarrow> resolve folder ss = folder @ ss"
  by (induction ss arbitrary: folder) (auto simp: segment_is_acceptable_def Let_def)

lemma repeated_snoc: "repeated (xs @ [x]) \<longleftrightarrow> repeated xs \<or> x \<in> set xs"
  by (auto simp: repeated_def list_ex_iff nth_append less_Suc_eq)

lemma repeated_iff: "repeated xs \<longleftrightarrow> \<not> distinct xs"
  by (induction xs rule: rev_induct) (auto simp: repeated_snoc, simp add: repeated_def)

text \<open>
  C12. A path the rules accept is filed strictly inside the folder it is filed under: resolving it
  there descends exactly its segments, at least one and at most sixteen, each a plain name without
  slash or control character.
\<close>

theorem accepted_path_stays_inside:
  assumes "rel_path_is_acceptable p"
  shows "\<exists>segments. resolve folder (split_on 47 p) = folder @ segments \<and>
    0 < length segments \<and> length segments \<le> 16 \<and>
    list_all (\<lambda>s. s \<noteq> [] \<and> s \<noteq> lit ''.'' \<and> s \<noteq> lit ''..'' \<and> 47 \<notin> set s \<and> \<not> list_ex is_control s) segments"
proof -
  from assms have a: "list_all segment_is_acceptable (split_on 47 p)" "length (split_on 47 p) \<le> 16"
    by (simp_all add: rel_path_is_acceptable_def MAX_PULL_DEPTH_def Let_def)
  have "list_all (\<lambda>s. s \<noteq> [] \<and> s \<noteq> lit ''.'' \<and> s \<noteq> lit ''..'' \<and> 47 \<notin> set s \<and> \<not> list_ex is_control s) (split_on 47 p)"
    using a(1) by (auto simp: list_all_iff segment_is_acceptable_def Let_def)
  then show ?thesis using a resolve_plain[OF a(1), of folder] split_on_nonempty[of 47 p] by auto
qed

lemmas path_eval = rel_path_is_acceptable_def segment_is_acceptable_def trim_def trim_start_def trim_end_def
  is_whitespace_def str_len_def utf8_width_def is_control_def MAX_PULL_DEPTH_def MAX_PULL_PATH_def MAX_SEGMENT_def Let_def

theorem accepted_path_stays_inside_witness:
  "\<exists>segments. resolve [lit ''in''] (split_on 47 (lit ''a/b'')) = [lit ''in''] @ segments \<and> 0 < length segments"
  using accepted_path_stays_inside[of "lit ''a/b''" "[lit ''in'']"] by (auto simp: path_eval)

section \<open>What an accepted grant guarantees\<close>

text \<open>
  The check accepts a grant exactly when it is of a known version, names and was signed by the
  source, names this fetcher, is live now and not for longer than two hours, names between one and
  a thousand files with acceptable paths, and lists at most four distinct acceptable endpoints.
\<close>

lemma grant_accepted_iff:
  "check_grant S C sg source fetcher now = Inr () \<longleftrightarrow>
    grant_version (grant sg) \<in> {PULL_GRANT_V1, PULL_GRANT_VERSION} \<and> source_key (grant sg) = source \<and>
    (\<exists>msg. grant_signed_bytes C (grant sg) = Inr msg \<and> verify_with S source msg (grant_sig sg)) \<and>
    fetcher_key (grant sg) = fetcher \<and> now < expires_unix (grant sg) \<and> expires_unix (grant sg) \<le> now + 7200 \<and>
    1 \<le> length (items (grant sg)) \<and> length (items (grant sg)) \<le> 1000 \<and>
    list_all (\<lambda>i. rel_path_is_acceptable (rel_path i)) (items (grant sg)) \<and>
    length (endpoints (grant sg)) \<le> 4 \<and> distinct (endpoints (grant sg)) \<and>
    list_all endpoint_is_acceptable (endpoints (grant sg))"
proof -
  have "sat_sub_i64 (expires_unix (grant sg)) now > MAX_GRANT_LIFETIME_SECS \<longleftrightarrow> expires_unix (grant sg) > now + 7200"
    by (auto simp: sat_sub_i64_def MAX_GRANT_LIFETIME_SECS_def)
  moreover have "1 \<le> length (items (grant sg)) \<longleftrightarrow> items (grant sg) \<noteq> []" by (cases "items (grant sg)") auto
  ultimately show ?thesis
    by (auto simp: check_grant_def Let_def repeated_iff
        MAX_PULL_ITEMS_def MAX_ENDPOINTS_def split: sum.splits)
qed

section \<open>Signatures\<close>

text \<open>
  The interface of a signed surface: whatever it signs starts with its context. The client's gain:
  the bytes signed for two surfaces can only coincide if one context is a prefix of the other.
\<close>

locale signed_surface =
  fixes ctx :: bytes
    and signed :: "'d \<Rightarrow> 'e + bytes"
  assumes signed_context: "signed d = Inr msg \<Longrightarrow> prefix ctx msg"
begin

lemma no_foreign_context:
  "signed d = Inr msg \<Longrightarrow> \<not> prefix ctx other \<Longrightarrow> \<not> prefix other ctx \<Longrightarrow> \<not> prefix other msg"
  using signed_context prefix_same_cases by blast

end

interpretation catalog_surface: signed_surface CATALOG_CONTEXT "catalog_signed_bytes ser" for ser
  by unfold_locales (auto simp: catalog_signed_bytes_def canonical_def split: option.splits)

interpretation redaction_surface: signed_surface REDACTION_CONTEXT "redaction_signed_bytes ser" for ser
  by unfold_locales (auto simp: redaction_signed_bytes_def split: option.splits)

interpretation descriptor_surface: signed_surface DESCRIPTOR_CONTEXT "descriptor_signed_bytes ser" for ser
  by unfold_locales (auto simp: descriptor_signed_bytes_def split: option.splits)

interpretation grant_surface: signed_surface PULL_GRANT_CONTEXT "grant_signed_bytes C" for C
  by unfold_locales (auto simp: grant_signed_bytes_def split: option.splits)

lemmas context_defs = CATALOG_CONTEXT_def REDACTION_CONTEXT_def DESCRIPTOR_CONTEXT_def PULL_GRANT_CONTEXT_def

lemma contexts_incomparable:
  "\<not> prefix CATALOG_CONTEXT REDACTION_CONTEXT" "\<not> prefix REDACTION_CONTEXT CATALOG_CONTEXT"
  "\<not> prefix CATALOG_CONTEXT DESCRIPTOR_CONTEXT" "\<not> prefix DESCRIPTOR_CONTEXT CATALOG_CONTEXT"
  "\<not> prefix CATALOG_CONTEXT PULL_GRANT_CONTEXT" "\<not> prefix PULL_GRANT_CONTEXT CATALOG_CONTEXT"
  "\<not> prefix REDACTION_CONTEXT DESCRIPTOR_CONTEXT" "\<not> prefix DESCRIPTOR_CONTEXT REDACTION_CONTEXT"
  "\<not> prefix REDACTION_CONTEXT PULL_GRANT_CONTEXT" "\<not> prefix PULL_GRANT_CONTEXT REDACTION_CONTEXT"
  "\<not> prefix DESCRIPTOR_CONTEXT PULL_GRANT_CONTEXT" "\<not> prefix PULL_GRANT_CONTEXT DESCRIPTOR_CONTEXT"
  by (simp_all add: context_defs)

text \<open>
  A signature cannot be moved between surfaces: the bytes signed for a catalog, a redaction, a
  server descriptor and a pull grant are never the same, whatever the documents and however
  postcard encodes them.
\<close>

lemma signatures_do_not_transfer:
  "\<not> (\<exists>msg. Inr msg = catalog_signed_bytes ser1 c \<and> Inr msg = redaction_signed_bytes ser2 r) \<and>
   \<not> (\<exists>msg. Inr msg = catalog_signed_bytes ser1 c \<and> Inr msg = descriptor_signed_bytes ser3 d) \<and>
   \<not> (\<exists>msg. Inr msg = catalog_signed_bytes ser1 c \<and> Inr msg = grant_signed_bytes C g) \<and>
   \<not> (\<exists>msg. Inr msg = redaction_signed_bytes ser2 r \<and> Inr msg = descriptor_signed_bytes ser3 d) \<and>
   \<not> (\<exists>msg. Inr msg = redaction_signed_bytes ser2 r \<and> Inr msg = grant_signed_bytes C g) \<and>
   \<not> (\<exists>msg. Inr msg = descriptor_signed_bytes ser3 d \<and> Inr msg = grant_signed_bytes C g)"
proof (intro conjI, goal_cases)
  case 1
  then show ?case
    using catalog_surface.no_foreign_context[OF _ contexts_incomparable(1,2)] redaction_surface.signed_context by metis
next
  case 2
  then show ?case
    using catalog_surface.no_foreign_context[OF _ contexts_incomparable(3,4)] descriptor_surface.signed_context by metis
next
  case 3
  then show ?case
    using catalog_surface.no_foreign_context[OF _ contexts_incomparable(5,6)] grant_surface.signed_context by metis
next
  case 4
  then show ?case
    using redaction_surface.no_foreign_context[OF _ contexts_incomparable(7,8)] descriptor_surface.signed_context by metis
next
  case 5
  then show ?case
    using redaction_surface.no_foreign_context[OF _ contexts_incomparable(9,10)] grant_surface.signed_context by metis
next
  case 6
  then show ?case
    using descriptor_surface.no_foreign_context[OF _ contexts_incomparable(11,12)] grant_surface.signed_context by metis
qed

lemma catalog_verifies:
  assumes "\<And>m. verify_with S (public_key S k) m (sign_with S k m)" "sign_catalog S ser k c = Inr sc"
  shows "server_key (the_catalog sc) = public_key S k" "verify_catalog S ser sc (public_key S k) = Inr ()"
    "pk \<noteq> public_key S k \<Longrightarrow> verify_catalog S ser sc pk = Inl KeyMismatch"
  using assms by (auto simp: sign_catalog_def verify_catalog_def Let_def split: sum.splits)

lemma redaction_verifies:
  assumes "\<And>m. verify_with S (public_key S k) m (sign_with S k m)" "sign_redaction S ser k board target = Inr sr"
  shows "issued_by_server sr = public_key S k" "verify_redaction S ser sr = Inr ()"
  using assms by (auto simp: sign_redaction_def verify_redaction_def redaction_body.truncate_def Let_def split: sum.splits)

lemma descriptor_verifies:
  assumes "\<And>m. verify_with S (public_key S k) m (sign_with S k m)" "sign_descriptor S ser k b = Inr sd"
  shows "desc_key (body sd) = public_key S k" "verify_descriptor S ser sd = Inr ()"
  using assms by (auto simp: sign_descriptor_def verify_descriptor_def Let_def split: sum.splits)

lemma grant_verifies:
  assumes "\<And>m. verify_with S (public_key S k) m (sign_with S k m)" "sign_grant S C k g = Inr sg"
  shows "source_key (grant sg) = public_key S k"
    "check_grant S C sg (public_key S k) (fetcher_key g) now \<noteq> Inl PBadSignature"
proof -
  from assms(2) obtain msg where sg: "grant_signed_bytes C (g\<lparr>source_key := public_key S k\<rparr>) = Inr msg"
    "sg = \<lparr>grant = g\<lparr>source_key := public_key S k\<rparr>, grant_sig = sign_with S k msg\<rparr>"
    by (auto simp: sign_grant_def Let_def split: if_splits sum.splits)
  then show "source_key (grant sg) = public_key S k" by simp
  show "check_grant S C sg (public_key S k) (fetcher_key g) now \<noteq> Inl PBadSignature"
    using sg assms(1) by (simp add: check_grant_def Let_def)
qed

text \<open>
  What a server signs, its peers accept: a signed catalog, redaction, descriptor or grant
  verifies under the signer's key, a catalog is refused under every other key, and the signed
  document names the signer whatever key it claimed before.
\<close>

lemma signed_documents_verify:
  assumes "\<And>k m. verify_with S (public_key S k) m (sign_with S k m)"
  shows "(\<forall>sc. sign_catalog S ser1 k c = Inr sc \<longrightarrow> server_key (the_catalog sc) = public_key S k \<and>
        verify_catalog S ser1 sc (public_key S k) = Inr () \<and>
        (pk \<noteq> public_key S k \<longrightarrow> verify_catalog S ser1 sc pk = Inl KeyMismatch)) \<and>
    (\<forall>sr. sign_redaction S ser2 k board target = Inr sr \<longrightarrow>
        issued_by_server sr = public_key S k \<and> verify_redaction S ser2 sr = Inr ()) \<and>
    (\<forall>sd. sign_descriptor S ser3 k b = Inr sd \<longrightarrow>
        desc_key (body sd) = public_key S k \<and> verify_descriptor S ser3 sd = Inr ()) \<and>
    (\<forall>sg. sign_grant S C k g = Inr sg \<longrightarrow> source_key (grant sg) = public_key S k \<and>
        check_grant S C sg (public_key S k) (fetcher_key g) now \<noteq> Inl PBadSignature)"
proof (intro conjI allI impI, goal_cases)
  case (1 sc)
  then show ?case by (rule catalog_verifies(1)[OF assms])
next
  case (2 sc)
  then show ?case by (rule catalog_verifies(2)[OF assms])
next
  case (3 sc)
  then show ?case by (rule catalog_verifies(3)[OF assms])
next
  case (4 sr)
  then show ?case by (rule redaction_verifies(1)[OF assms])
next
  case (5 sr)
  then show ?case by (rule redaction_verifies(2)[OF assms])
next
  case (6 sd)
  then show ?case by (rule descriptor_verifies(1)[OF assms])
next
  case (7 sd)
  then show ?case by (rule descriptor_verifies(2)[OF assms])
next
  case (8 sg)
  then show ?case by (rule grant_verifies(1)[OF assms])
next
  case (9 sg)
  then show ?case by (rule grant_verifies(2)[OF assms])
qed

definition demo_signer :: "u8 signer" where
  "demo_signer = \<lparr>public_key = \<lambda>k. [k], sign_with = \<lambda>k m. k # m, verify_with = \<lambda>pk m sig. sig = pk @ m\<rparr>"

section \<open>Catalog succession\<close>

text \<open>
  Succession of catalogs cannot run in a circle: along any chain of superseding catalogs the
  server stays the same and the generation strictly grows, so no catalog ever supersedes itself
  through others, however ids and links are forged.
\<close>

lemma supersedes_strict_order:
  assumes "(supersedes digest ser)\<^sup>+\<^sup>+ newer older"
  shows "server_key (the_catalog newer) = server_key (the_catalog older) \<and>
    generation (the_catalog older) < generation (the_catalog newer) \<and> newer \<noteq> older"
proof -
  have step: "server_key (the_catalog a) = server_key (the_catalog b) \<and>
      generation (the_catalog b) < generation (the_catalog a)" if "supersedes digest ser a b" for a b
    using that by (auto simp: supersedes_def Let_def split: if_splits)
  from assms have "server_key (the_catalog newer) = server_key (the_catalog older) \<and>
    generation (the_catalog older) < generation (the_catalog newer)"
    by (induction rule: tranclp_induct) (auto dest: step)
  then show ?thesis by auto
qed

end
