(* ===== verification/Swarm_Map.thy ===== *)
theory Swarm_Map
  imports Prelude
begin

text \<open>
  What a peer of the swarm holds (\<open>crates/swarm/src/peer.rs\<close>): the bitmaps of units, the store of whole
  and partial seeds, and how a range request is answered. Byte counts are \<open>nat\<close>; the Bao encoder of the
  third-party tree library is the argument \<open>encode\<close>, which gives a stream or says why there is none.
\<close>

section \<open>Bitmaps\<close>

definition PEER_BLOCK_BYTES :: nat where "PEER_BLOCK_BYTES = 16 * 1024"
definition PEER_REQUEST_MAX :: nat where "PEER_REQUEST_MAX = 4 * 1024 * 1024"
definition HAVE_UNIT :: nat where "HAVE_UNIT = 1024 * 1024"
definition HAVE_MAP_MAX :: nat where "HAVE_MAP_MAX = 2 ^ 20"

definition STATUS_OK :: u8 where "STATUS_OK = 0"
definition STATUS_DENIED :: u8 where "STATUS_DENIED = 1"
definition STATUS_NOT_FOUND :: u8 where "STATUS_NOT_FOUND = 2"
definition STATUS_BAD_REQUEST :: u8 where "STATUS_BAD_REQUEST = 3"
definition STATUS_NOT_HELD :: u8 where "STATUS_NOT_HELD = 4"
definition STATUS_BUSY :: u8 where "STATUS_BUSY = 5"

definition unit_bit :: "bytes \<Rightarrow> nat \<Rightarrow> bool" where
  "unit_bit bits i \<longleftrightarrow> i div 8 < length bits \<and> bits ! (i div 8) AND push_bit (i mod 8) 1 \<noteq> 0"

definition set_unit_bit :: "bytes \<Rightarrow> nat \<Rightarrow> bytes" where
  "set_unit_bit bits i =
     (let byte = i div 8;
          bits = (if length bits \<le> byte then bits @ replicate (byte + 1 - length bits) 0 else bits)
      in bits[byte := bits ! byte OR push_bit (i mod 8) 1])"

definition clear_unit_bit :: "bytes \<Rightarrow> nat \<Rightarrow> bytes" where
  "clear_unit_bit bits i =
     (if i div 8 < length bits then bits[i div 8 := bits ! (i div 8) AND NOT (push_bit (i mod 8) 1)] else bits)"

record have_map =
  munit :: nat
  mbits :: bytes

definition low_units :: "nat \<Rightarrow> bytes" where
  "low_units units =
     (let bits = replicate (div_ceil units 8) 0xFF in
      if units mod 8 \<noteq> 0 then bits[length bits - 1 := push_bit (units mod 8) 1 - 1] else bits)"

definition whole_map :: "nat \<Rightarrow> have_map" where
  "whole_map sz = \<lparr>munit = HAVE_UNIT, mbits = low_units (max (div_ceil sz HAVE_UNIT) 1)\<rparr>"

definition covers :: "have_map \<Rightarrow> nat \<Rightarrow> nat \<Rightarrow> bool" where
  "covers m offset len =
     (if munit m = 0 \<or> len = 0 then False
      else list_all (unit_bit (mbits m)) [offset div munit m..<Suc ((offset + len - 1) div munit m)])"

definition clear_unit :: "have_map \<Rightarrow> nat \<Rightarrow> have_map" where
  "clear_unit m i = m\<lparr>mbits := clear_unit_bit (mbits m) i\<rparr>"

section \<open>The set a bitmap stands for\<close>

definition held_units :: "bytes \<Rightarrow> nat set" where
  "held_units bits = {i. unit_bit bits i}"

lemma test_bit_u8: "k < 8 \<Longrightarrow> (b :: u8) AND push_bit k 1 \<noteq> 0 \<longleftrightarrow> bit b k"
  by (simp add: and_exp_eq_0_iff_not_bit)

lemma unit_bit_iff: "unit_bit bits i \<longleftrightarrow> i div 8 < length bits \<and> bit (bits ! (i div 8)) (i mod 8)"
  by (simp add: unit_bit_def test_bit_u8 del: push_bit_of_1)

lemma same_unit: "(i :: nat) div 8 = j div 8 \<and> i mod 8 = j mod 8 \<longleftrightarrow> i = j"
  by (metis div_mod_decomp)

lemma held_set_bit: "held_units (set_unit_bit bits i) = insert i (held_units bits)"
proof (rule set_eqI)
  fix j
  let ?bits = "if length bits \<le> i div 8 then bits @ replicate (i div 8 + 1 - length bits) 0 else bits"
  have len: "i div 8 < length ?bits" by auto
  have same: "unit_bit ?bits j \<longleftrightarrow> unit_bit bits j" by (auto simp: unit_bit_iff nth_append)
  have "unit_bit (set_unit_bit bits i) j \<longleftrightarrow> j = i \<or> unit_bit ?bits j"
    using len same_unit[of i j]
    by (cases "j div 8 = i div 8") (auto simp: set_unit_bit_def Let_def unit_bit_iff bit_simps simp del: push_bit_of_1)
  then show "j \<in> held_units (set_unit_bit bits i) \<longleftrightarrow> j \<in> insert i (held_units bits)"
    using same by (simp add: held_units_def)
qed

lemma held_clear_bit: "held_units (clear_unit_bit bits i) = held_units bits - {i}"
proof (rule set_eqI)
  fix j
  show "j \<in> held_units (clear_unit_bit bits i) \<longleftrightarrow> j \<in> held_units bits - {i}"
    using same_unit[of i j]
    by (cases "j div 8 = i div 8")
      (auto simp: held_units_def clear_unit_bit_def unit_bit_iff bit_simps simp del: push_bit_of_1)
qed

lemma covers_iff:
  "covers m offset len \<longleftrightarrow>
     0 < munit m \<and> 0 < len \<and> {offset div munit m..(offset + len - 1) div munit m} \<subseteq> held_units (mbits m)"
  by (auto simp: covers_def list_all_iff held_units_def less_Suc_eq_le subset_iff)

lemma bit_low_mask: "k < 8 \<Longrightarrow> j < 8 \<Longrightarrow> bit (push_bit k 1 - 1 :: u8) j \<longleftrightarrow> j < k"
  by (simp add: bit_simps flip: mask_eq_exp_minus_1)

lemma bit_full: "j < 8 \<Longrightarrow> bit (0xFF :: u8) j"
proof -
  assume "j < 8"
  then have "bit (mask 8 :: u8) j" by (simp only: bit_mask_iff) (simp add: possible_bit_word)
  moreover have "(mask 8 :: u8) = 0xFF" by (simp add: mask_eq_exp_minus_1)
  ultimately show ?thesis by simp
qed

lemma less_by_digits: "(j :: nat) < n \<longleftrightarrow> (if j div 8 = n div 8 then j mod 8 < n mod 8 else j div 8 < n div 8)"
proof -
  have "d < 8 \<Longrightarrow> b < 8 \<Longrightarrow> 8 * c + d < 8 * a + b \<longleftrightarrow> (if c = a then d < b else c < a)" for a b c d :: nat
    by auto
  from this[of "j mod 8" "n mod 8" "j div 8" "n div 8"] show ?thesis by simp
qed

lemma held_low: "held_units (low_units n) = {..<n}"
proof (rule set_eqI)
  fix j :: nat
  have small: "j mod 8 < 8" "n mod 8 < 8" by simp_all
  have "unit_bit (low_units n) j \<longleftrightarrow> (if j div 8 = n div 8 then j mod 8 < n mod 8 else j div 8 < n div 8)"
  proof (cases "n mod 8 = 0")
    case True
    then show ?thesis using bit_full[OF small(1)] by (auto simp: unit_bit_iff low_units_def div_ceil_exact)
  next
    case False
    then have bits: "low_units n = (replicate (n div 8 + 1) 0xFF)[n div 8 := push_bit (n mod 8) 1 - 1]"
      by (simp add: low_units_def div_ceil_over)
    show ?thesis unfolding bits
      using bit_full[OF small(1)] bit_low_mask[OF small(2,1)]
      by (cases "j div 8 = n div 8") (auto simp: unit_bit_iff nth_list_update less_Suc_eq simp del: push_bit_of_1 replicate.simps)
  qed
  then show "j \<in> held_units (low_units n) \<longleftrightarrow> j \<in> {..<n}"
    unfolding held_units_def mem_Collect_eq lessThan_iff less_by_digits[of j n] .
qed

lemma held_whole: "held_units (mbits (whole_map sz)) = {..<max (div_ceil sz HAVE_UNIT) 1}"
  by (simp add: whole_map_def held_low)

section \<open>What a source holds\<close>

datatype holds = HoldsAll | HoldsMap have_map

definition holds_covers :: "holds \<Rightarrow> nat \<Rightarrow> nat \<Rightarrow> bool" where
  "holds_covers h offset len = (case h of HoldsAll \<Rightarrow> True | HoldsMap m \<Rightarrow> covers m offset len)"

definition clear_range :: "nat \<Rightarrow> nat \<Rightarrow> have_map \<Rightarrow> have_map" where
  "clear_range offset len m =
     fold (\<lambda>i m. clear_unit m i) [offset div munit m..<Suc ((offset + max len 1 - 1) div munit m)] m"

definition holds_lacks :: "holds \<Rightarrow> nat \<Rightarrow> nat \<Rightarrow> nat \<Rightarrow> holds" where
  "holds_lacks h offset len sz =
     HoldsMap (clear_range offset len (case h of HoldsAll \<Rightarrow> whole_map sz | HoldsMap m \<Rightarrow> m))"

lemma held_clear_fold:
  "munit (fold (\<lambda>i m. clear_unit m i) is m) = munit m \<and>
   held_units (mbits (fold (\<lambda>i m. clear_unit m i) is m)) = held_units (mbits m) - set is"
  by (induction "is" arbitrary: m) (auto simp: clear_unit_def held_clear_bit)

lemma clear_range_effect:
  "munit (clear_range offset len m) = munit m"
  "held_units (mbits (clear_range offset len m)) =
     held_units (mbits m) - {offset div munit m..(offset + max len 1 - 1) div munit m}"
  by (auto simp: clear_range_def held_clear_fold less_Suc_eq_le)

lemma covers_shrink:
  "munit m' = munit m \<Longrightarrow> held_units (mbits m') \<subseteq> held_units (mbits m) \<Longrightarrow> covers m' offset len \<Longrightarrow> covers m offset len"
  by (auto simp: covers_iff)

text \<open>After a source has said it lacks a range, no unit that touches the range counts as held.\<close>

lemma lacks_range:
  assumes "0 < len" "offset' < offset + len" "offset < offset' + len'"
  shows "\<not> holds_covers (holds_lacks h offset len sz) offset' len'"
proof -
  define m where "m = (case h of HoldsAll \<Rightarrow> whole_map sz | HoldsMap m \<Rightarrow> m)"
  let ?u = "munit m"
  have "\<not> covers (clear_range offset len m) offset' len'"
  proof
    assume c: "covers (clear_range offset len m) offset' len'"
    let ?x = "max offset offset'"
    from c have "0 < len'" by (simp add: covers_iff)
    then have "offset' \<le> ?x" "?x \<le> offset' + len' - 1" "offset \<le> ?x" "?x \<le> offset + max len 1 - 1"
      using assms by linarith+
    then have "?x div ?u \<in> {offset' div ?u..(offset' + len' - 1) div ?u}"
      and "?x div ?u \<in> {offset div ?u..(offset + max len 1 - 1) div ?u}"
      unfolding atLeastAtMost_iff by (blast intro: div_le_mono)+
    then show False using c unfolding covers_iff clear_range_effect by blast
  qed
  then show ?thesis by (simp add: holds_lacks_def holds_covers_def m_def)
qed

section \<open>The seed store\<close>

text \<open>Paths and proofs are opaque; an outboard is named by the number it was created under.\<close>

datatype seed =
    WholeSeed str nat nat
  | PartialSeed str nat str bytes

type_synonym seed_store = "bytes \<rightharpoonup> seed"

fun seed_size :: "seed \<Rightarrow> nat" where
  "seed_size (WholeSeed _ n _) = n"
| "seed_size (PartialSeed _ n _ _) = n"

definition insert_whole :: "seed_store \<Rightarrow> bytes \<Rightarrow> str \<Rightarrow> nat \<Rightarrow> nat \<Rightarrow> seed_store" where
  "insert_whole st root path n outboard = st(root \<mapsto> WholeSeed path n outboard)"

definition add_partial :: "seed_store \<Rightarrow> bytes \<Rightarrow> nat \<Rightarrow> str \<Rightarrow> str \<Rightarrow> nat list \<Rightarrow> seed_store \<times> bool" where
  "add_partial st root n path proofs held =
     (case st root of
        Some (WholeSeed _ _ _) \<Rightarrow> (st, False)
      | _ \<Rightarrow> (st(root \<mapsto> PartialSeed path n proofs (fold (\<lambda>i bits. set_unit_bit bits i) held [])), True))"

definition mark_unit :: "seed_store \<Rightarrow> bytes \<Rightarrow> nat \<Rightarrow> seed_store" where
  "mark_unit st root i =
     (case st root of
        Some (PartialSeed path n proofs bits) \<Rightarrow> st(root \<mapsto> PartialSeed path n proofs (set_unit_bit bits i))
      | _ \<Rightarrow> st)"

definition remove_partial :: "seed_store \<Rightarrow> bytes \<Rightarrow> seed_store" where
  "remove_partial st root = (case st root of Some (PartialSeed _ _ _ _) \<Rightarrow> st(root := None) | _ \<Rightarrow> st)"

definition remove_seed :: "seed_store \<Rightarrow> bytes \<Rightarrow> seed_store" where
  "remove_seed st root = st(root := None)"

definition holds_whole :: "seed_store \<Rightarrow> bytes \<Rightarrow> bool" where
  "holds_whole st root = (case st root of Some (WholeSeed _ _ _) \<Rightarrow> True | _ \<Rightarrow> False)"

definition holds_whole_at :: "seed_store \<Rightarrow> bytes \<Rightarrow> str \<Rightarrow> bool" where
  "holds_whole_at st root at = (case st root of Some (WholeSeed path _ _) \<Rightarrow> path = at | _ \<Rightarrow> False)"

definition drop_whole :: "seed_store \<Rightarrow> bytes \<Rightarrow> nat \<Rightarrow> seed_store" where
  "drop_whole st root outboard =
     (case st root of Some (WholeSeed _ _ ob) \<Rightarrow> if ob = outboard then st(root := None) else st | _ \<Rightarrow> st)"

definition have_units :: "seed_store \<Rightarrow> bytes \<Rightarrow> have_map option" where
  "have_units st root =
     map_option (\<lambda>s. case s of
         WholeSeed _ n _ \<Rightarrow> whole_map n
       | PartialSeed _ _ _ bits \<Rightarrow> \<lparr>munit = HAVE_UNIT, mbits = bits\<rparr>) (st root)"

section \<open>Serving a range\<close>

datatype unserved = Changed | Passing

text \<open>
  The answer to a range request: a status and the file size, and the Bao stream when the status is OK.
  \<open>authorized\<close> is the verdict on the capability, \<open>encode\<close> the validated encoding of a range of a seed.
\<close>

definition serve_range :: "bool \<Rightarrow> (seed \<Rightarrow> nat \<Rightarrow> nat \<Rightarrow> unserved + bytes) \<Rightarrow> seed_store \<Rightarrow> bytes \<Rightarrow> nat \<Rightarrow> nat \<Rightarrow>
    seed_store \<times> u8 \<times> nat \<times> bytes option" where
  "serve_range authorized encode st root offset reqlen =
     (if \<not> authorized then (st, STATUS_DENIED, 0, None)
      else case st root of
        None \<Rightarrow> (st, STATUS_NOT_FOUND, 0, None)
      | Some s \<Rightarrow>
          let n = seed_size s in
          if reqlen = 0 \<or> reqlen > PEER_REQUEST_MAX \<or> offset \<ge> n then (st, STATUS_BAD_REQUEST, n, None)
          else
            let len = min reqlen (n - offset) in
            case s of
              WholeSeed path _ outboard \<Rightarrow>
                (case encode s offset len of
                   Inr out \<Rightarrow> (st, STATUS_OK, n, Some out)
                 | Inl Changed \<Rightarrow> (drop_whole st root outboard, STATUS_NOT_FOUND, n, None)
                 | Inl Passing \<Rightarrow> (st, STATUS_NOT_HELD, n, None))
            | PartialSeed path _ proofs bits \<Rightarrow>
                if \<not> covers \<lparr>munit = HAVE_UNIT, mbits = bits\<rparr> offset len then (st, STATUS_NOT_HELD, n, None)
                else
                  (case encode s offset len of
                     Inr out \<Rightarrow> (st, STATUS_OK, n, Some out)
                   | Inl Changed \<Rightarrow>
                       (st(root \<mapsto> PartialSeed path n proofs
                          (fold (\<lambda>i bits. clear_unit_bit bits i) [offset div HAVE_UNIT..<Suc ((offset + len - 1) div HAVE_UNIT)] bits)),
                        STATUS_NOT_HELD, n, None)
                   | Inl Passing \<Rightarrow> (st, STATUS_NOT_HELD, n, None)))"

section \<open>Serving is honest\<close>

lemma held_clear_bits: "held_units (fold (\<lambda>i bits. clear_unit_bit bits i) is bits) = held_units bits - set is"
  by (induction "is" arbitrary: bits) (auto simp: held_clear_bit)

lemma covers_cleared:
  "0 < len \<Longrightarrow> \<not> covers \<lparr>munit = HAVE_UNIT, mbits = fold (\<lambda>i bits. clear_unit_bit bits i)
     [offset div HAVE_UNIT..<Suc ((offset + len - 1) div HAVE_UNIT)] bits\<rparr> offset len"
proof -
  assume len: "0 < len"
  let ?is = "[offset div HAVE_UNIT..<Suc ((offset + len - 1) div HAVE_UNIT)]"
  have "offset div HAVE_UNIT \<le> (offset + len - 1) div HAVE_UNIT" using len by (intro div_le_mono) simp
  then have "offset div HAVE_UNIT \<in> set ?is" "offset div HAVE_UNIT \<in> {offset div HAVE_UNIT..(offset + len - 1) div HAVE_UNIT}" by auto
  then show ?thesis unfolding covers_iff have_map.simps held_clear_bits by blast
qed

text \<open>
  A range is answered with data only to an authorised peer, within the file and the request limit, from
  a whole seed or a part whose map covers it, and with what the validated encoding of exactly that range
  gives; and a range found changed on disk is never answered with data again, whatever the disk says later.
\<close>

lemma serve_range_honest:
  "(serve_range authorized encode st root offset reqlen = (st', status, n, Some out) \<longrightarrow>
      authorized \<and> status = STATUS_OK \<and> st' = st \<and>
      (\<exists>s. st root = Some s \<and> n = seed_size s \<and> 0 < reqlen \<and> reqlen \<le> PEER_REQUEST_MAX \<and> offset < n \<and>
         encode s offset (min reqlen (n - offset)) = Inr out \<and>
         (\<forall>path sz proofs bits. s = PartialSeed path sz proofs bits \<longrightarrow>
            covers \<lparr>munit = HAVE_UNIT, mbits = bits\<rparr> offset (min reqlen (n - offset))))) \<and>
   (\<forall>s. authorized \<and> st root = Some s \<and> encode s offset (min reqlen (seed_size s - offset)) = Inl Changed \<longrightarrow>
      snd (snd (snd (serve_range authorized' encode' (fst (serve_range authorized encode st root offset reqlen)) root offset reqlen))) = None)"
  (is "(?served \<longrightarrow> ?from) \<and> (\<forall>s. ?changed s \<longrightarrow> ?silent)")
proof (rule conjI)
  show "?served \<longrightarrow> ?from"
    by (auto simp: serve_range_def Let_def split: if_splits option.splits seed.splits sum.splits unserved.splits)
  show "\<forall>s. ?changed s \<longrightarrow> ?silent"
  proof (intro allI impI)
    fix s assume s: "?changed s"
    then show ?silent
      using covers_cleared[of "min reqlen (seed_size s - offset)" offset]
      by (cases s) (auto simp: serve_range_def Let_def drop_whole_def split: if_splits option.splits sum.splits unserved.splits)
  qed
qed

end
