(* ===== verification/Swarm_Availability.thy ===== *)
theory Swarm_Availability
  imports Swarm_Map
begin

text \<open>
  What a fetch knows of its sources (\<open>crates/swarm/src/scheduler/availability.rs\<close>): one record for
  each source, shared by its lanes, with the map of its last answer, a generation that a contrary range
  reply advances, the diagnostics of rejected data, and the paged snapshots observers read. Each method
  runs under one lock and is one function. An index beyond the sources is a panic in the code and
  \<open>None\<close> here.
\<close>

section \<open>State\<close>

definition UNIT_SIZE :: nat where "UNIT_SIZE = 1024 * 1024"
definition AVAILABILITY_PAGE_MAX :: nat where "AVAILABILITY_PAGE_MAX = 4096"
definition SOURCE_DIAGNOSTICS_MAX :: nat where "SOURCE_DIAGNOSTICS_MAX = 32"

datatype source_rejection = InvalidResponse | InvalidProof | InvalidRange | UnexpectedLength

record source_diagnostic =
  source_index :: nat
  first_offset :: nat
  reason :: source_rejection
  occurrences :: nat

record source_diagnostics =
  rejections :: "source_diagnostic list"
  omitted :: nat

datatype local_unit = Missing | Resumed | Verified

datatype availability_phase = Waiting | Fetching | Verifying | Complete | PhaseFailed | Cancelled

fun terminal :: "availability_phase \<Rightarrow> bool" where
  "terminal Complete = True" | "terminal PhaseFailed = True" | "terminal Cancelled = True"
| "terminal _ = False"

datatype peer_error =
    NetError | IoError | Refused u8 | VerifyError str | SourceRejected source_rejection | Processing str
  | RootMismatch | BadRequest

record source =
  src_holds :: "holds option"
  src_lanes :: nat
  initialized :: bool
  retired :: bool
  stale :: bool
  generation :: nat

definition live :: "source \<Rightarrow> bool" where
  "live s \<longleftrightarrow> src_lanes s > 0 \<and> \<not> retired s"

record tracker =
  t_root :: "bytes option"
  t_size :: nat
  revision :: nat
  t_phase :: availability_phase
  t_sources :: "source list"
  t_resumed :: "nat set"
  t_verified :: "nat set"
  diagnostics :: source_diagnostics

definition new_tracker :: tracker where
  "new_tracker = \<lparr>t_root = None, t_size = 0, revision = 0, t_phase = Waiting, t_sources = [], t_resumed = {},
     t_verified = {}, diagnostics = \<lparr>rejections = [], omitted = 0\<rparr>\<rparr>"

definition publish_tracker :: "tracker \<Rightarrow> tracker" where
  "publish_tracker t = t\<lparr>revision := sat_add64 (revision t) 1\<rparr>"

section \<open>Operations\<close>

definition begin_fetch :: "tracker \<Rightarrow> bytes \<Rightarrow> nat \<Rightarrow> tracker" where
  "begin_fetch t root sz = publish_tracker (t\<lparr>t_root := Some root, t_size := sz, t_phase := Fetching\<rparr>)"

definition initialize_sources :: "tracker \<Rightarrow> nat list \<Rightarrow> nat set \<Rightarrow> tracker" where
  "initialize_sources t lanes resumed_offsets =
     publish_tracker (t\<lparr>t_sources := map (\<lambda>n. \<lparr>src_holds = None, src_lanes = n, initialized = False, retired = False,
         stale = False, generation = 0\<rparr>) lanes,
       t_resumed := (\<lambda>off. off div UNIT_SIZE) ` resumed_offsets\<rparr>)"

definition verifying :: "tracker \<Rightarrow> tracker" where
  "verifying t = publish_tracker (t\<lparr>t_phase := Verifying\<rparr>)"

definition retire :: "source \<Rightarrow> source" where
  "retire s = s\<lparr>retired := True, generation := sat_add64 (generation s) 1\<rparr>"

definition finish :: "tracker \<Rightarrow> availability_phase \<Rightarrow> tracker" where
  "finish t p =
     (if terminal (t_phase t) then t
      else publish_tracker (t\<lparr>t_phase := p, t_sources := map retire (t_sources t)\<rparr>))"

definition stop_sources :: "tracker \<Rightarrow> tracker" where
  "stop_sources t = publish_tracker (t\<lparr>t_sources := map retire (t_sources t)\<rparr>)"

definition invalidate_local :: "tracker \<Rightarrow> tracker" where
  "invalidate_local t = publish_tracker (t\<lparr>t_resumed := {}, t_verified := {}\<rparr>)"

definition unit_landed :: "tracker \<Rightarrow> nat \<Rightarrow> tracker" where
  "unit_landed t off = publish_tracker (t\<lparr>t_verified := insert (off div UNIT_SIZE) (t_verified t)\<rparr>)"

fun note_rejection :: "nat \<Rightarrow> source_rejection \<Rightarrow> source_diagnostic list \<Rightarrow> source_diagnostic list option" where
  "note_rejection index r [] = None"
| "note_rejection index r (d # ds) =
     (if source_index d = index \<and> reason d = r then Some (d\<lparr>occurrences := sat_add64 (occurrences d) 1\<rparr> # ds)
      else map_option (Cons d) (note_rejection index r ds))"

definition rejected :: "tracker \<Rightarrow> nat \<Rightarrow> nat \<Rightarrow> source_rejection \<Rightarrow> tracker" where
  "rejected t index offset r =
     (if terminal (t_phase t) \<or> index \<ge> length (t_sources t) then t
      else
        let ds = diagnostics t in
        publish_tracker (t\<lparr>diagnostics :=
          (case note_rejection index r (rejections ds) of
             Some found \<Rightarrow> ds\<lparr>rejections := found\<rparr>
           | None \<Rightarrow>
               if length (rejections ds) < SOURCE_DIAGNOSTICS_MAX then
                 ds\<lparr>rejections := rejections ds @ [\<lparr>source_index = index, first_offset = offset, reason = r, occurrences = 1\<rparr>]\<rparr>
               else ds\<lparr>omitted := sat_add64 (omitted ds) 1\<rparr>)\<rparr>))"

definition leave_lane :: "tracker \<Rightarrow> nat \<Rightarrow> tracker option" where
  "leave_lane t index =
     (if index \<ge> length (t_sources t) then None
      else
        let s = t_sources t ! index; s = s\<lparr>src_lanes := src_lanes s - 1\<rparr> in
        Some (if src_lanes s = 0 then publish_tracker (t\<lparr>t_sources := (t_sources t)[index := retire s]\<rparr>)
              else t\<lparr>t_sources := (t_sources t)[index := s]\<rparr>))"

definition query_generation :: "tracker \<Rightarrow> nat \<Rightarrow> nat option option" where
  "query_generation t index =
     (if index \<ge> length (t_sources t) then None
      else Some (let s = t_sources t ! index in if live s then Some (generation s) else None))"

definition apply_reply :: "nat \<Rightarrow> peer_error + have_map option \<Rightarrow> source \<Rightarrow> source" where
  "apply_reply sz result s =
     (let s = (case result of
          Inr (Some m) \<Rightarrow>
            if munit m > 0 \<and> munit m mod PEER_BLOCK_BYTES = 0 then
              let needed = min (div_ceil (div_ceil sz (munit m)) 8) (2 ^ 20)
              in s\<lparr>src_holds := Some (HoldsMap (m\<lparr>mbits := take needed (mbits m)\<rparr>)), stale := False\<rparr>
            else s\<lparr>stale := True, src_holds := (case src_holds s of None \<Rightarrow> Some HoldsAll | h \<Rightarrow> h)\<rparr>
        | Inr None \<Rightarrow>
            (case src_holds s of
               None \<Rightarrow> s\<lparr>src_holds := Some HoldsAll\<rparr>
             | Some (HoldsMap _) \<Rightarrow> s\<lparr>stale := True\<rparr>
             | Some HoldsAll \<Rightarrow> s)
        | Inl e \<Rightarrow>
            if e = Refused STATUS_DENIED \<or> e = Refused STATUS_NOT_FOUND then s\<lparr>retired := True\<rparr>
            else s\<lparr>stale := True, src_holds := (case src_holds s of None \<Rightarrow> Some HoldsAll | h \<Rightarrow> h)\<rparr>)
      in s\<lparr>initialized := True\<rparr>)"

definition queried :: "tracker \<Rightarrow> nat \<Rightarrow> nat \<Rightarrow> peer_error + have_map option \<Rightarrow> tracker option" where
  "queried t index g result =
     (if index \<ge> length (t_sources t) then None
      else
        let s = t_sources t ! index in
        Some (if \<not> live s \<or> generation s \<noteq> g then t
              else publish_tracker (t\<lparr>t_sources := (t_sources t)[index := apply_reply (t_size t) result s]\<rparr>)))"

definition source_lacks :: "tracker \<Rightarrow> nat \<Rightarrow> nat \<Rightarrow> nat \<Rightarrow> tracker option" where
  "source_lacks t index off len =
     (if index \<ge> length (t_sources t) then None
      else
        let s = t_sources t ! index;
            s = s\<lparr>src_holds := map_option (\<lambda>h. holds_lacks h off len (t_size t)) (src_holds s),
                  generation := sat_add64 (generation s) 1\<rparr>
        in Some (publish_tracker (t\<lparr>t_sources := (t_sources t)[index := s]\<rparr>)))"

text \<open>What \<open>with_holds\<close> hands to its caller: the map of a live source that has answered.\<close>

definition source_holds :: "tracker \<Rightarrow> nat \<Rightarrow> holds option option" where
  "source_holds t index =
     (if index \<ge> length (t_sources t) then None
      else Some (let s = t_sources t ! index in if live s then src_holds s else None))"

section \<open>Snapshots\<close>

record unit_availability =
  unit_index :: nat
  claimed_sources :: nat
  assumed_sources :: nat
  stale_sources :: nat
  unit_local :: local_unit

definition count_sources :: "(source \<Rightarrow> bool) \<Rightarrow> tracker \<Rightarrow> nat" where
  "count_sources p t = length (filter (\<lambda>s. live s \<and> p s) (t_sources t))"

definition claims :: "nat \<Rightarrow> nat \<Rightarrow> source \<Rightarrow> bool" where
  "claims offset len s = (case src_holds s of Some (HoldsMap m) \<Rightarrow> covers m offset len | _ \<Rightarrow> False)"

definition snapshot_unit :: "tracker \<Rightarrow> nat \<Rightarrow> unit_availability" where
  "snapshot_unit t index =
     (let offset = index * UNIT_SIZE; len = min (t_size t - offset) UNIT_SIZE in
      \<lparr>unit_index = index,
       claimed_sources = count_sources (claims offset len) t,
       assumed_sources = count_sources (\<lambda>s. src_holds s = Some HoldsAll) t,
       stale_sources = count_sources (\<lambda>s. claims offset len s \<and> stale s) t,
       unit_local =
         (if index \<in> t_verified t \<or> t_phase t = Complete then Verified
          else if index \<in> t_resumed t then Resumed else Missing)\<rparr>)"

definition snapshot_units :: "tracker \<Rightarrow> nat \<Rightarrow> nat \<Rightarrow> unit_availability list" where
  "snapshot_units t start_unit limit =
     (let total = div_ceil (t_size t) UNIT_SIZE;
          end_unit = min (sat_add64 start_unit (min limit AVAILABILITY_PAGE_MAX)) total
      in map (snapshot_unit t) [start_unit..<end_unit])"

section \<open>A late answer changes nothing\<close>

inductive tracker_step :: "tracker \<Rightarrow> tracker \<Rightarrow> bool" where
  "tracker_step t (begin_fetch t root sz)"
| "tracker_step t (verifying t)"
| "tracker_step t (finish t p)"
| "tracker_step t (stop_sources t)"
| "tracker_step t (invalidate_local t)"
| "tracker_step t (unit_landed t off)"
| "tracker_step t (rejected t index off r)"
| "leave_lane t index = Some t' \<Longrightarrow> tracker_step t t'"
| "queried t index g result = Some t' \<Longrightarrow> tracker_step t t'"
| "source_lacks t index off len = Some t' \<Longrightarrow> tracker_step t t'"

lemma publish_fields [simp]:
  "t_sources (publish_tracker t) = t_sources t" "t_size (publish_tracker t) = t_size t" "t_phase (publish_tracker t) = t_phase t"
  "diagnostics (publish_tracker t) = diagnostics t"
  by (simp_all add: publish_tracker_def)

text \<open>Along any steps sources keep their place, generations never fall, and the retired stay retired.\<close>

definition source_ok :: "source \<Rightarrow> bool" where
  "source_ok s \<longleftrightarrow> generation s \<le> U64_MAX"

definition source_later :: "source \<Rightarrow> source \<Rightarrow> bool" where
  "source_later s s' \<longleftrightarrow> generation s \<le> generation s' \<and> (live s' \<longrightarrow> live s) \<and> source_ok s'"

definition tracker_ok :: "tracker \<Rightarrow> bool" where
  "tracker_ok t \<longleftrightarrow> list_all source_ok (t_sources t)"

definition tracker_later :: "tracker \<Rightarrow> tracker \<Rightarrow> bool" where
  "tracker_later t t' \<longleftrightarrow> list_all2 source_later (t_sources t) (t_sources t')"

lemma sat_add64_step: "n \<le> U64_MAX \<Longrightarrow> n \<le> sat_add64 n 1 \<and> sat_add64 n 1 \<le> U64_MAX"
  by (simp add: sat_add64_def)

lemma source_later_intros:
  assumes "source_ok s"
  shows "source_later s s" "source_later s (retire s)" "source_later s (apply_reply sz result s)"
    and "source_later s (s\<lparr>src_lanes := src_lanes s - 1\<rparr>)" "source_later s (retire (s\<lparr>src_lanes := src_lanes s - 1\<rparr>))"
    and "source_later s (retire (s\<lparr>src_lanes := 0\<rparr>))" "source_later s (s\<lparr>src_holds := h, generation := sat_add64 (generation s) 1\<rparr>)"
  using assms sat_add64_step[of "generation s"]
  by (auto simp: source_later_def source_ok_def retire_def live_def apply_reply_def Let_def
      split: sum.split option.split holds.split)

lemma source_later_trans: "source_later s s' \<Longrightarrow> source_later s' s'' \<Longrightarrow> source_later s s''"
  by (auto simp: source_later_def)

lemma tracker_later_refl: "tracker_ok t \<Longrightarrow> tracker_later t t"
  by (auto simp: tracker_later_def tracker_ok_def list_all_iff source_later_intros intro!: list.rel_refl_strong)

lemma list_all2_update_right:
  assumes "list_all2 R xs xs" "i < length xs" "R (xs ! i) y"
  shows "list_all2 R xs (xs[i := y])"
  using assms by (simp add: list_all2_conv_all_nth nth_list_update)

lemma tracker_step_later:
  assumes "tracker_step t t'" "tracker_ok t"
  shows "tracker_later t t'"
proof -
  have ok: "source_ok s" if "s \<in> set (t_sources t)" for s using assms(2) that by (simp add: tracker_ok_def list_all_iff)
  have same: "list_all2 source_later (t_sources t) (t_sources t)"
    using tracker_later_refl[OF assms(2)] by (simp add: tracker_later_def)
  have retired: "list_all2 source_later (t_sources t) (map retire (t_sources t))"
    using ok by (simp add: list_all2_conv_all_nth source_later_intros)
  have one: "list_all2 source_later (t_sources t) ((t_sources t)[i := s])"
    if "i < length (t_sources t)" "source_ok (t_sources t ! i) \<Longrightarrow> source_later (t_sources t ! i) s" for i s
    using list_all2_update_right[OF same that(1)] that ok by simp
  show ?thesis
    unfolding tracker_later_def using assms(1) same
    by cases (auto simp: retired begin_fetch_def verifying_def finish_def stop_sources_def invalidate_local_def
        unit_landed_def rejected_def leave_lane_def queried_def source_lacks_def Let_def
        split: if_splits intro!: one source_later_intros source_later_intros[simplified])
qed

lemma tracker_later_ok: "tracker_later t t' \<Longrightarrow> tracker_ok t'"
  by (auto simp: tracker_later_def tracker_ok_def list_all_iff source_later_def list_all2_conv_all_nth in_set_conv_nth)

lemma tracker_later_trans: "tracker_later t t' \<Longrightarrow> tracker_later t' t'' \<Longrightarrow> tracker_later t t''"
  unfolding tracker_later_def using list_all2_trans source_later_trans by blast

lemma tracker_steps_later: "tracker_step\<^sup>*\<^sup>* t t' \<Longrightarrow> tracker_ok t \<Longrightarrow> tracker_later t t'"
  by (induction rule: rtranclp_induct)
    (auto intro: tracker_later_refl tracker_later_trans tracker_step_later tracker_later_ok)

text \<open>
  A late answer cannot undo what a source has since said: once a source has refused a range it was
  believed to hold, no unit touching the range counts as held, and the answer to any question asked
  before the refusal changes nothing whenever it arrives; a source that has been let go never comes back.
\<close>

lemma late_answer_ignored:
  assumes "tracker_ok t" "query_generation t i = Some (Some g)" "tracker_step\<^sup>*\<^sup>* t t1"
    and "source_lacks t1 i off len = Some t2" "0 < len" "generation (t_sources t1 ! i) < U64_MAX"
    and "tracker_step\<^sup>*\<^sup>* t2 t3"
  shows "queried t3 i g result = Some t3 \<and>
    (\<forall>h. source_holds t2 i = Some (Some h) \<longrightarrow> \<not> holds_covers h off len) \<and>
    (source_holds t2 i = Some None \<and> src_holds (t_sources t2 ! i) \<noteq> None \<longrightarrow> source_holds t3 i = Some None)"
proof -
  have i: "i < length (t_sources t)" and g: "g = generation (t_sources t ! i)"
    using assms(2) by (auto simp: query_generation_def Let_def split: if_splits)
  have l1: "tracker_later t t1" using tracker_steps_later assms(1,3) by blast
  have s2: "tracker_step t1 t2" using assms(4) by (rule tracker_step.intros)
  have l2: "tracker_later t2 t3"
    using tracker_steps_later[OF assms(7)] tracker_step_later[OF s2] tracker_later_ok l1 by blast
  have i1: "i < length (t_sources t1)" and len: "length (t_sources t) = length (t_sources t1)"
    using l1 i by (auto simp: tracker_later_def list_all2_lengthD)
  have t2: "t_sources t2 ! i = (t_sources t1 ! i)\<lparr>src_holds := map_option (\<lambda>h. holds_lacks h off len (t_size t1)) (src_holds (t_sources t1 ! i)),
      generation := sat_add64 (generation (t_sources t1 ! i)) 1\<rparr>" "length (t_sources t2) = length (t_sources t1)"
    using assms(4) i1 by (auto simp: source_lacks_def Let_def)
  have "g \<le> generation (t_sources t1 ! i)" using l1 i g by (simp add: tracker_later_def list_all2_conv_all_nth source_later_def)
  also have "\<dots> < generation (t_sources t2 ! i)" using assms(6) t2 by (simp add: sat_add64_def)
  also have "\<dots> \<le> generation (t_sources t3 ! i)"
    using l2 i1 t2(2) by (simp add: tracker_later_def list_all2_conv_all_nth source_later_def)
  finally have "queried t3 i g result = Some t3"
    using l2 i1 t2(2) by (simp add: queried_def tracker_later_def list_all2_lengthD)
  moreover have "\<forall>h. source_holds t2 i = Some (Some h) \<longrightarrow> \<not> holds_covers h off len"
    using t2 i1 assms(5) lacks_range[of len off off len] by (auto simp: source_holds_def Let_def split: if_splits)
  moreover have "source_holds t2 i = Some None \<and> src_holds (t_sources t2 ! i) \<noteq> None \<longrightarrow> source_holds t3 i = Some None"
    using l2 i1 t2(2)
    by (auto simp: source_holds_def Let_def tracker_later_def list_all2_conv_all_nth source_later_def split: if_splits)
  ultimately show ?thesis by blast
qed

definition demo_tracker :: tracker where
  "demo_tracker = new_tracker\<lparr>t_size := 2097152, t_sources := [\<lparr>src_holds = Some HoldsAll, src_lanes = 1, initialized = True,
     retired = False, stale = False, generation = 0\<rparr>]\<rparr>"

end
