(* ===== verification/Swarm_Scheduler.thy ===== *)
theory Swarm_Scheduler
  imports Swarm_Availability Text
begin

text \<open>
  The multi-source fetch of \<open>crates/swarm/src/scheduler.rs\<close>: the shared work state and its operations,
  the worker of a lane cut at its lock regions, and the interleaving of all lanes with the availability
  probes and with the fetch being dropped. Each function that runs under the scheduler lock is one
  definition; a step of the fetch is one of them. The Bao decoder is the argument \<open>decode\<close>, and what a
  source answers, how long things take and which writes fail are chosen by the step. The destination
  file and the resume record are part of the state.
\<close>

section \<open>Verified ranges\<close>

record bao_piece =
  p_offset :: nat
  p_len :: nat
  p_size :: nat
  p_stream :: bytes

type_synonym bao_decoder = "nat \<Rightarrow> nat \<Rightarrow> nat \<Rightarrow> bytes \<Rightarrow> bytes option"

fun join_pieces :: "bao_decoder \<Rightarrow> nat \<Rightarrow> nat option \<Rightarrow> bytes \<Rightarrow> bao_piece list \<Rightarrow> peer_error + bytes \<times> nat \<times> nat option" where
  "join_pieces decode at sz out [] = Inr (out, at, sz)"
| "join_pieces decode at sz out (p # ps) =
     (let known = (case sz of Some n \<Rightarrow> n | None \<Rightarrow> p_size p) in
      if p_offset p \<noteq> at \<or> known \<noteq> p_size p then Inl (SourceRejected InvalidRange)
      else case decode (p_size p) (p_offset p) (p_len p) (p_stream p) of
        None \<Rightarrow> Inl (SourceRejected InvalidProof)
      | Some bs \<Rightarrow> join_pieces decode (at + length bs) (Some known) (out @ bs) ps)"

definition fetch_proved :: "bao_decoder \<Rightarrow> peer_error + bao_piece list \<Rightarrow> nat \<Rightarrow> nat \<Rightarrow> peer_error + bytes" where
  "fetch_proved decode answer offset len =
     (case answer of
        Inl (VerifyError _) \<Rightarrow> Inl (SourceRejected InvalidResponse)
      | Inl e \<Rightarrow> Inl e
      | Inr pieces \<Rightarrow>
          (case join_pieces decode offset None [] pieces of
             Inl e \<Rightarrow> Inl e
           | Inr (_, _, None) \<Rightarrow> Inl (SourceRejected InvalidRange)
           | Inr (out, at, Some sz) \<Rightarrow>
               if at \<noteq> offset + min len (sz - offset) then Inl (SourceRejected InvalidRange) else Inr out))"

section \<open>The work state\<close>

record rhstate =
  st_root :: bytes
  st_size :: nat
  st_done :: "nat set"
  st_borrowed :: "nat set"

record work_state =
  pending :: "(nat \<times> nat) list"
  in_flight :: "nat set"
  working :: "(nat \<times> nat) set"
  unit_done :: "nat set"
  persist_to :: "(bytes \<times> nat) option"
  unpersisted :: nat
  stopped :: bool
  served :: "nat list"
  has_proofs :: bool
  sharing :: "bytes option"
  local_failure :: "peer_error option"
  borrowed :: "nat set"
  dest_file :: bytes
  state_file :: "rhstate option"
  completed :: bool

definition PERSIST_EVERY_UNITS :: nat where "PERSIST_EVERY_UNITS = 32"
definition MAX_MISSES :: nat where "MAX_MISSES = 8"

definition load_rhstate :: "rhstate option \<Rightarrow> bytes \<Rightarrow> nat \<Rightarrow> rhstate option" where
  "load_rhstate stored root sz =
     (case stored of
        None \<Rightarrow> None
      | Some st \<Rightarrow>
          if st_root st \<noteq> root \<or> st_size st \<noteq> sz then None
          else Some (st\<lparr>st_done := {off \<in> st_done st. off < sz \<and> off mod UNIT_SIZE = 0}\<rparr>))"

definition write_record :: "work_state \<Rightarrow> work_state" where
  "write_record s =
     (case persist_to s of
        None \<Rightarrow> s
      | Some (root, sz) \<Rightarrow>
          s\<lparr>state_file := Some \<lparr>st_root = root, st_size = sz, st_done = unit_done s, st_borrowed = borrowed s\<rparr>\<rparr>)"

definition persist :: "work_state \<Rightarrow> work_state" where
  "persist s = (write_record s)\<lparr>unpersisted := 0\<rparr>"

text \<open>\<open>due\<close>: two seconds have passed since the record was last written.\<close>

definition landed :: "bool \<Rightarrow> work_state \<Rightarrow> work_state" where
  "landed due s =
     (let s = s\<lparr>unpersisted := unpersisted s + 1\<rparr> in
      if unpersisted s \<ge> PERSIST_EVERY_UNITS \<or> due then persist s else s)"

definition settle :: "nat \<Rightarrow> work_state \<Rightarrow> work_state" where
  "settle off s =
     (let s = s\<lparr>in_flight := in_flight s - {off}, pending := filter (\<lambda>(o', _). o' \<noteq> off) (pending s)\<rparr> in
      if pending s = [] \<and> in_flight s = {} then s\<lparr>completed := True\<rparr> else s)"

definition give_back :: "nat \<Rightarrow> nat \<Rightarrow> nat \<Rightarrow> bool \<Rightarrow> work_state \<Rightarrow> work_state" where
  "give_back off len index endgame s =
     (let s = s\<lparr>working := working s - {(off, index)}\<rparr> in
      if off \<in> unit_done s then settle off s
      else if \<not> endgame then s\<lparr>in_flight := in_flight s - {off}, pending := pending s @ [(off, len)]\<rparr>
      else s)"

section \<open>The next unit\<close>

datatype next_move = NextUnit nat nat bool | NextWait | NextSibling | NextDone

text \<open>The queue from its end: done units are dropped on the way, the first that may be taken is removed.\<close>

fun scan_pending :: "(nat \<Rightarrow> bool) \<Rightarrow> (nat \<times> nat \<Rightarrow> bool) \<Rightarrow> (nat \<times> nat) list \<Rightarrow> (nat \<times> nat) option \<times> (nat \<times> nat) list" where
  "scan_pending finished takes [] = (None, [])"
| "scan_pending finished takes (u # us) =
     (if finished (fst u) then scan_pending finished takes us
      else if takes u then (Some u, us)
      else let (hit, rest) = scan_pending finished takes us in (hit, u # rest))"

text \<open>
  The units in flight, in the order in which the hash set yields them: whether a sibling lane has one
  that the source holds, and the first that none has.
\<close>

fun find_straggler :: "(nat \<Rightarrow> bool) \<Rightarrow> (nat \<Rightarrow> bool) \<Rightarrow> nat list \<Rightarrow> bool \<times> nat option" where
  "find_straggler skip mine [] = (False, None)"
| "find_straggler skip mine (off # offs) =
     (if skip off then find_straggler skip mine offs
      else if mine off then (True, snd (find_straggler skip mine offs))
      else (False, Some off))"

definition next_unit :: "nat list \<Rightarrow> holds \<Rightarrow> nat \<Rightarrow> nat \<Rightarrow> work_state \<Rightarrow> work_state \<times> next_move" where
  "next_unit order h sz index s =
     (let (hit, rest) = scan_pending (\<lambda>off. off \<in> unit_done s)
            (\<lambda>(off, len). holds_covers h off len \<and> (off, index) \<notin> working s) (rev (pending s));
          s = s\<lparr>pending := rev rest\<rparr> in
      case hit of
        Some (off, len) \<Rightarrow>
          (s\<lparr>in_flight := insert off (in_flight s), working := insert (off, index) (working s)\<rparr>, NextUnit off len False)
      | None \<Rightarrow>
          (case find_straggler (\<lambda>off. off \<in> unit_done s \<or> \<not> holds_covers h off (min (sz - off) UNIT_SIZE))
                 (\<lambda>off. (off, index) \<in> working s) order of
             (_, Some off) \<Rightarrow> (s\<lparr>working := insert (off, index) (working s)\<rparr>, NextUnit off UNIT_SIZE True)
           | (sibling, None) \<Rightarrow>
               (s, if pending s = [] \<and> in_flight s = {} then NextDone
                   else if sibling \<or> list_ex (\<lambda>(off, _). (off, index) \<in> working s) (pending s) then NextSibling
                   else NextWait)))"

section \<open>A unit lands\<close>

definition write_at :: "nat \<Rightarrow> bytes \<Rightarrow> bytes \<Rightarrow> bytes" where
  "write_at off bs f = take off f @ bs @ drop (off + length bs) f"

text \<open>
  The write of a verified unit, under the lock. \<open>fails\<close> is the number of bytes that reach the disk when
  the write fails; \<open>kept\<close> whether saving the proof succeeded. The result says whether this copy landed.
\<close>

definition land_unit :: "nat option \<Rightarrow> bool \<Rightarrow> bool \<Rightarrow> bool \<Rightarrow> nat \<Rightarrow> nat \<Rightarrow> bytes \<Rightarrow> work_state \<Rightarrow> work_state \<times> bool option" where
  "land_unit fails kept shareable due index off bs s =
     (let s = s\<lparr>working := working s - {(off, index)}\<rparr> in
      if stopped s then (s, None)
      else if off \<in> unit_done s then (s, Some False)
      else case fails of
        Some n \<Rightarrow> (s\<lparr>dest_file := write_at off (take n bs) (dest_file s)\<rparr>, None)
      | None \<Rightarrow>
          let s = s\<lparr>dest_file := write_at off bs (dest_file s)\<rparr>;
              s = (if \<not> shareable then s\<lparr>borrowed := insert off (borrowed s)\<rparr>
                   else if has_proofs s \<and> kept
                   then s\<lparr>sharing := map_option (\<lambda>bits. set_unit_bit bits (off div HAVE_UNIT)) (sharing s)\<rparr>
                   else s);
              s = s\<lparr>unit_done := insert off (unit_done s), served := (served s)[index := served s ! index + 1]\<rparr>
          in (settle off (landed due s), Some True))"

section \<open>Starting a fetch\<close>

text \<open>The queue of the units that are not done: built front to back, then reversed.\<close>

function collect_units :: "nat \<Rightarrow> nat set \<Rightarrow> nat \<Rightarrow> (nat \<times> nat) list" where
  "collect_units sz finished offset =
     (if offset < sz then
        (if offset \<notin> finished then [(offset, min (sz - offset) UNIT_SIZE)] else []) @
        collect_units sz finished (offset + UNIT_SIZE)
      else [])"
  by pat_completeness auto
termination by (relation "measure (\<lambda>(sz, _, offset). sz - offset)") (auto simp: UNIT_SIZE_def)

declare collect_units.simps [simp del]

datatype lane_phase =
    Starting | Ready | Asking nat nat bool | LostRace nat | WriteFailed nat nat bool
  | NotHeld nat nat bool | Failing nat nat bool | Gone

record lane =
  l_index :: nat
  l_phase :: lane_phase
  l_misses :: nat
  l_completed :: nat

record fetch =
  work :: work_state
  track :: tracker
  lanes :: "lane list"

text \<open>
  \<open>max_lanes\<close> is what each source says it may be asked at once; \<open>keep\<close> the resume record's key, the
  proofs and the shared bits, as \<open>resumable\<close> prepares them; \<open>before\<close> the bytes already at the destination.
\<close>

record keep =
  k_state :: bool
  k_proofs :: bool
  k_sharing :: "bytes option"

definition source_lanes :: "nat list \<Rightarrow> (nat \<times> nat) list \<Rightarrow> nat list" where
  "source_lanes max_lanes queue = map (\<lambda>n. if queue = [] then 0 else max 1 (min n (max 1 (length queue)))) max_lanes"

definition start_fetch :: "nat list \<Rightarrow> bytes \<Rightarrow> nat \<Rightarrow> nat set \<Rightarrow> nat set \<Rightarrow> keep \<Rightarrow> bytes \<Rightarrow> rhstate option \<Rightarrow> tracker \<Rightarrow> fetch" where
  "start_fetch max_lanes root sz finished lent k before stored t =
     (let queue = rev (collect_units sz finished 0);
          per_source = source_lanes max_lanes queue;
          base = (if k_state k then before else []) in
      \<lparr>work = \<lparr>pending = queue, in_flight = {}, working = {}, unit_done = finished,
         persist_to = (if k_state k then Some (root, sz) else None), unpersisted = 0, stopped = False,
         served = replicate (length max_lanes) 0, has_proofs = k_proofs k, sharing = k_sharing k, local_failure = None,
         borrowed = lent, dest_file = take sz base @ replicate (sz - length base) 0, state_file = stored, completed = False\<rparr>,
       track = initialize_sources t per_source finished,
       lanes = concat (map (\<lambda>(i, n). replicate n \<lparr>l_index = i, l_phase = Starting, l_misses = 0, l_completed = 0\<rparr>)
         (zip [0..<length per_source] per_source))\<rparr>)"

text \<open>
  A resumable fetch starts from what its record says is done and lent. Units from before are shared only
  when they are not lent and their proof was kept; \<open>order\<close> is the order in which the set of done units is
  walked, \<open>proven\<close> the ranges with a kept proof, \<open>seeds\<close> the store it shares through and the seed's path.
\<close>

definition resume_of :: "rhstate option \<Rightarrow> bytes \<Rightarrow> nat \<Rightarrow> nat set \<times> nat set" where
  "resume_of stored root sz =
     (case load_rhstate stored root sz of None \<Rightarrow> ({}, {}) | Some st \<Rightarrow> (st_done st, st_borrowed st))"

definition shared_units :: "nat \<Rightarrow> nat set \<Rightarrow> (nat \<times> nat) list \<Rightarrow> nat list \<Rightarrow> nat list" where
  "shared_units sz lent proven order =
     map (\<lambda>off. off div HAVE_UNIT)
       (filter (\<lambda>off. off \<notin> lent \<and> list_ex (\<lambda>(s, e). s \<le> off \<and> off + min (sz - off) UNIT_SIZE \<le> e) proven) order)"

definition share_through :: "seed_store option \<Rightarrow> bool \<Rightarrow> bytes \<Rightarrow> nat \<Rightarrow> str \<Rightarrow> str \<Rightarrow> nat list \<Rightarrow> seed_store option \<times> bytes option" where
  "share_through seeds proofs root sz dest proofs_at held =
     (case seeds of
        None \<Rightarrow> (None, None)
      | Some st \<Rightarrow>
          if \<not> proofs then (Some st, None)
          else let (st', shared) = add_partial st root sz dest proofs_at held in
            (Some st', if shared then Some (fold (\<lambda>i bits. set_unit_bit bits i) held []) else None))"

definition resume_fetch :: "nat list \<Rightarrow> bytes \<Rightarrow> nat \<Rightarrow> seed_store option \<Rightarrow> bool \<Rightarrow> str \<Rightarrow> str \<Rightarrow> (nat \<times> nat) list \<Rightarrow> nat list \<Rightarrow>
    bytes \<Rightarrow> rhstate option \<Rightarrow> tracker \<Rightarrow> fetch" where
  "resume_fetch max_lanes root sz seeds proofs dest proofs_at proven order before stored t =
     (let (finished, lent) = resume_of stored root sz;
          shared = snd (share_through seeds proofs root sz dest proofs_at (shared_units sz lent proven order)) in
      start_fetch max_lanes root sz finished lent \<lparr>k_state = True, k_proofs = proofs, k_sharing = shared\<rparr> before stored t)"

section \<open>The steps of a fetch\<close>

definition set_phase :: "nat \<Rightarrow> lane_phase \<Rightarrow> fetch \<Rightarrow> fetch" where
  "set_phase n p f = f\<lparr>lanes := (lanes f)[n := (lanes f ! n)\<lparr>l_phase := p\<rparr>]\<rparr>"

abbreviation in_phase :: "fetch \<Rightarrow> nat \<Rightarrow> lane_phase \<Rightarrow> bool" where
  "in_phase f n p \<equiv> n < length (lanes f) \<and> l_phase (lanes f ! n) = p"

abbreviation index_of :: "fetch \<Rightarrow> nat \<Rightarrow> nat" where
  "index_of f n \<equiv> l_index (lanes f ! n)"

text \<open>A lane that ends: its guard takes it off its source's lanes.\<close>

definition leave_fetch :: "nat \<Rightarrow> fetch \<Rightarrow> fetch option" where
  "leave_fetch n f = map_option (\<lambda>t. (set_phase n Gone f)\<lparr>track := t\<rparr>) (leave_lane (track f) (index_of f n))"

definition source_of :: "fetch \<Rightarrow> nat \<Rightarrow> source option" where
  "source_of f n = (if index_of f n < length (t_sources (track f)) then Some (t_sources (track f) ! index_of f n) else None)"

definition choose_move :: "nat \<Rightarrow> nat list \<Rightarrow> nat \<Rightarrow> fetch \<Rightarrow> fetch \<times> next_move" where
  "choose_move sz order n f =
     (if stopped (work f) then (f, NextDone)
      else case source_holds (track f) (index_of f n) of
        Some (Some h) \<Rightarrow> let (w, m) = next_unit order h sz (index_of f n) (work f) in (f\<lparr>work := w\<rparr>, m)
      | _ \<Rightarrow> (f, NextDone))"

definition unit_landed_in :: "nat \<Rightarrow> nat \<Rightarrow> fetch \<Rightarrow> fetch" where
  "unit_landed_in n off f =
     f\<lparr>track := unit_landed (track f) off,
       lanes := (lanes f)[n := (lanes f ! n)\<lparr>l_phase := Ready, l_completed := l_completed (lanes f ! n) + 1\<rparr>]\<rparr>"

definition missed :: "nat \<Rightarrow> fetch \<Rightarrow> fetch" where
  "missed n f = f\<lparr>lanes := (lanes f)[n := (lanes f ! n)\<lparr>l_misses := l_misses (lanes f ! n) + 1\<rparr>]\<rparr>"

text \<open>What a failed answer tells: rejected data is noted against the source, a failure here is the fetch's own.\<close>

definition note_failure :: "nat \<Rightarrow> nat \<Rightarrow> peer_error + bytes \<Rightarrow> fetch \<Rightarrow> fetch" where
  "note_failure n off outcome f =
     (case outcome of
        Inr _ \<Rightarrow> f\<lparr>track := rejected (track f) (index_of f n) off UnexpectedLength\<rparr>
      | Inl (SourceRejected r) \<Rightarrow> f\<lparr>track := rejected (track f) (index_of f n) off r\<rparr>
      | Inl (Processing e) \<Rightarrow>
          f\<lparr>work := (work f)\<lparr>local_failure := (case local_failure (work f) of None \<Rightarrow> Some (Processing e) | x \<Rightarrow> x)\<rparr>\<rparr>
      | _ \<Rightarrow> f)"

definition stop_fetch :: "fetch \<Rightarrow> fetch" where
  "stop_fetch f =
     (let w = (if unpersisted (work f) > 0 then persist (work f) else work f) in
      f\<lparr>work := w\<lparr>stopped := True, persist_to := None\<rparr>, track := stop_sources (track f)\<rparr>)"

inductive fetch_step :: "nat \<Rightarrow> bao_decoder \<Rightarrow> (nat \<Rightarrow> bool) \<Rightarrow> fetch \<Rightarrow> fetch \<Rightarrow> bool" for sz decode shareable where
  start_idle: "in_phase f n Starting \<Longrightarrow> stopped (work f) \<or> (pending (work f) = [] \<and> in_flight (work f) = {}) \<Longrightarrow>
    leave_fetch n f = Some f' \<Longrightarrow> fetch_step sz decode shareable f f'"
| start_dead: "in_phase f n Starting \<Longrightarrow> source_of f n = Some s \<Longrightarrow> \<not> live s \<Longrightarrow> leave_fetch n f = Some f' \<Longrightarrow>
    fetch_step sz decode shareable f f'"
| start_ready: "in_phase f n Starting \<Longrightarrow> source_of f n = Some s \<Longrightarrow> live s \<Longrightarrow> initialized s \<Longrightarrow>
    fetch_step sz decode shareable f (set_phase n Ready f)"
| take_unit: "in_phase f n Ready \<Longrightarrow> set order = in_flight (work f) \<Longrightarrow> distinct order \<Longrightarrow>
    choose_move sz order n f = (f', NextUnit off len endgame) \<Longrightarrow>
    fetch_step sz decode shareable f (set_phase n (Asking off len endgame) f')"
| look_again: "in_phase f n Ready \<Longrightarrow> set order = in_flight (work f) \<Longrightarrow> distinct order \<Longrightarrow>
    choose_move sz order n f = (f', m) \<Longrightarrow> m = NextSibling \<or> m = NextWait \<Longrightarrow> fetch_step sz decode shareable f f'"
| let_go: "in_phase f n Ready \<Longrightarrow> set order = in_flight (work f) \<Longrightarrow> distinct order \<Longrightarrow>
    choose_move sz order n f = (f', m) \<Longrightarrow> m = NextWait \<or> m = NextDone \<Longrightarrow> leave_fetch n f' = Some f'' \<Longrightarrow>
    fetch_step sz decode shareable f f''"
| unit_lands: "in_phase f n (Asking off len endgame) \<Longrightarrow> fetch_proved decode answer off len = Inr bs \<Longrightarrow>
    length bs = min (sz - off) UNIT_SIZE \<Longrightarrow>
    land_unit fails kept (shareable (index_of f n)) due (index_of f n) off bs (work f) = (w, Some True) \<Longrightarrow>
    fetch_step sz decode shareable f (unit_landed_in n off (f\<lparr>work := w\<rparr>))"
| other_copy_won: "in_phase f n (Asking off len endgame) \<Longrightarrow> fetch_proved decode answer off len = Inr bs \<Longrightarrow>
    length bs = min (sz - off) UNIT_SIZE \<Longrightarrow>
    land_unit fails kept (shareable (index_of f n)) due (index_of f n) off bs (work f) = (w, Some False) \<Longrightarrow>
    fetch_step sz decode shareable f (set_phase n (LostRace off) (f\<lparr>work := w\<rparr>))"
| write_fails: "in_phase f n (Asking off len endgame) \<Longrightarrow> fetch_proved decode answer off len = Inr bs \<Longrightarrow>
    length bs = min (sz - off) UNIT_SIZE \<Longrightarrow>
    land_unit fails kept (shareable (index_of f n)) due (index_of f n) off bs (work f) = (w, None) \<Longrightarrow>
    fetch_step sz decode shareable f (set_phase n (WriteFailed off len endgame) (f\<lparr>work := w\<rparr>))"
| lost_settles: "in_phase f n (LostRace off) \<Longrightarrow>
    fetch_step sz decode shareable f (set_phase n Ready (f\<lparr>work := settle off (work f)\<rparr>))"
| failed_write_returns: "in_phase f n (WriteFailed off len endgame) \<Longrightarrow>
    w = (if \<not> stopped (work f) \<and> local_failure (work f) = None then (work f)\<lparr>local_failure := Some IoError\<rparr> else work f) \<Longrightarrow>
    leave_fetch n (f\<lparr>work := give_back off len (index_of f n) endgame w\<rparr>) = Some f' \<Longrightarrow> fetch_step sz decode shareable f f'"
| busy: "in_phase f n (Asking off len endgame) \<Longrightarrow> fetch_proved decode answer off len = Inl (Refused STATUS_BUSY) \<Longrightarrow>
    f' = f\<lparr>work := give_back off len (index_of f n) endgame (work f)\<rparr> \<Longrightarrow>
    f'' = set_phase n Ready f' \<or> leave_fetch n f' = Some f'' \<Longrightarrow> fetch_step sz decode shareable f f''"
| not_held: "in_phase f n (Asking off len endgame) \<Longrightarrow> fetch_proved decode answer off len = Inl (Refused STATUS_NOT_HELD) \<Longrightarrow>
    source_lacks (track f) (index_of f n) off (min (sz - off) UNIT_SIZE) = Some t \<Longrightarrow>
    fetch_step sz decode shareable f (set_phase n (NotHeld off len endgame) (f\<lparr>track := t\<rparr>))"
| not_held_returns: "in_phase f n (NotHeld off len endgame) \<Longrightarrow>
    f' = missed n (f\<lparr>work := give_back off len (index_of f n) endgame (work f)\<rparr>) \<Longrightarrow>
    (if l_misses (lanes f' ! n) > MAX_MISSES then leave_fetch n f' else Some (set_phase n Ready f')) = Some f'' \<Longrightarrow>
    fetch_step sz decode shareable f f''"
| answer_fails: "in_phase f n (Asking off len endgame) \<Longrightarrow> fetch_proved decode answer off len = outcome \<Longrightarrow>
    outcome \<noteq> Inl (Refused STATUS_BUSY) \<Longrightarrow> outcome \<noteq> Inl (Refused STATUS_NOT_HELD) \<Longrightarrow>
    (\<forall>bs. outcome = Inr bs \<longrightarrow> length bs \<noteq> min (sz - off) UNIT_SIZE) \<Longrightarrow>
    fetch_step sz decode shareable f (set_phase n (Failing off len endgame) (note_failure n off outcome f))"
| failed_returns: "in_phase f n (Failing off len endgame) \<Longrightarrow>
    leave_fetch n (f\<lparr>work := give_back off len (index_of f n) endgame (work f)\<rparr>) = Some f' \<Longrightarrow>
    fetch_step sz decode shareable f f'"
| probed: "queried (track f) i g result = Some t \<Longrightarrow> fetch_step sz decode shareable f (f\<lparr>track := t\<rparr>)"
| dropped: "fetch_step sz decode shareable f (stop_fetch f)"
| aborted: "n < length (lanes f) \<Longrightarrow> stopped (work f) \<Longrightarrow> l_phase (lanes f ! n) \<noteq> Gone \<Longrightarrow> leave_fetch n f = Some f' \<Longrightarrow>
    fetch_step sz decode shareable f f'"

section \<open>The end of a fetch\<close>

record fetch_report =
  r_bytes :: nat
  per_source :: "(str \<times> nat) list"
  r_borrowed :: bool

text \<open>What the fetch returns once its workers have been joined or the last unit was reported landed.\<close>

definition fetch_outcome :: "str list \<Rightarrow> nat \<Rightarrow> work_state \<Rightarrow> peer_error + fetch_report" where
  "fetch_outcome labels sz s =
     (case local_failure s of
        Some e \<Rightarrow> Inl e
      | None \<Rightarrow>
          if pending s \<noteq> [] \<or> in_flight s \<noteq> {} then
            Inl (VerifyError (lit ''no source could serve '' @ decimal (length (pending s) + card (in_flight s)) @ lit '' remaining unit(s)''))
          else Inr \<lparr>r_bytes = sz, per_source = zip labels (served s), r_borrowed = (borrowed s \<noteq> {})\<rparr>)"

text \<open>
  The end of a resumable fetch: the whole file is hashed against the root. The result, the destination
  and the record that are left, and whether the file is now seeded whole.
\<close>

definition finish_resumable :: "(bytes \<Rightarrow> bytes) \<Rightarrow> bytes \<Rightarrow> nat \<Rightarrow> peer_error + fetch_report \<Rightarrow> work_state \<Rightarrow>
    (peer_error + fetch_report) \<times> bytes option \<times> rhstate option \<times> bool" where
  "finish_resumable hash root sz outcome s =
     (case outcome of
        Inl e \<Rightarrow> (Inl e, Some (dest_file s), state_file s, False)
      | Inr report \<Rightarrow>
          if hash (dest_file s) \<noteq> root then
            (Inl (VerifyError (lit ''assembled file does not hash to the root (stale partial removed; retry)'')), None, None, False)
          else (Inr report, Some (dest_file s), None, sz > 0 \<and> \<not> r_borrowed report))"

end
