(* ===== verification/Swarm_Correct.thy ===== *)
theory Swarm_Correct
  imports Swarm_Scheduler
begin

text \<open>
  Correctness of the multi-source fetch. An abstract pool of units (waiting, in flight, landed) with
  one claim for each lane states what the scheduler promises; every step of the fetch is a step of the
  pool, and the pool never loses a unit. On top of that: the destination holds exactly the verified
  bytes, the resume record lists only what is on disk, and lent units are never offered on.
\<close>

section \<open>The pool of units\<close>

definition units :: "nat \<Rightarrow> nat set" where
  "units sz = {off. off < sz \<and> off mod UNIT_SIZE = 0}"

text \<open>A claim is a unit a lane is fetching, and whether only as an endgame copy.\<close>

record pool =
  waiting :: "nat set"
  flying :: "nat set"
  on_disk :: "nat set"
  claims_of :: "(nat \<times> bool) option list"
  halted :: bool

inductive pool_step :: "pool \<Rightarrow> pool \<Rightarrow> bool" where
  skip: "pool_step p p"
| take: "n < length (claims_of p) \<Longrightarrow> claims_of p ! n = None \<Longrightarrow> off \<in> waiting p \<Longrightarrow>
    pool_step p (p\<lparr>waiting := waiting p - {off}, flying := insert off (flying p), claims_of := (claims_of p)[n := Some (off, False)]\<rparr>)"
| copy: "n < length (claims_of p) \<Longrightarrow> claims_of p ! n = None \<Longrightarrow> off \<in> flying p \<Longrightarrow>
    pool_step p (p\<lparr>claims_of := (claims_of p)[n := Some (off, True)]\<rparr>)"
| return: "n < length (claims_of p) \<Longrightarrow> claims_of p ! n = Some (off, False) \<Longrightarrow> off \<notin> on_disk p \<Longrightarrow>
    pool_step p (p\<lparr>waiting := insert off (waiting p), flying := flying p - {off}, claims_of := (claims_of p)[n := None]\<rparr>)"
| release: "n < length (claims_of p) \<Longrightarrow> claims_of p ! n = Some (off, endgame) \<Longrightarrow> endgame \<or> off \<in> on_disk p \<or> halted p \<Longrightarrow>
    pool_step p (p\<lparr>claims_of := (claims_of p)[n := None]\<rparr>)"
| land: "n < length (claims_of p) \<Longrightarrow> claims_of p ! n = Some (off, endgame) \<Longrightarrow> off \<notin> on_disk p \<Longrightarrow>
    pool_step p (p\<lparr>waiting := waiting p - {off}, flying := flying p - {off}, on_disk := insert off (on_disk p),
      claims_of := (claims_of p)[n := None]\<rparr>)"
| halt: "pool_step p (p\<lparr>halted := True\<rparr>)"

text \<open>The units are divided up, claims are for units, and a unit in flight has exactly one owner.\<close>

definition owns :: "(nat \<times> bool) option list \<Rightarrow> nat \<Rightarrow> nat \<Rightarrow> bool" where
  "owns cs n off \<longleftrightarrow> n < length cs \<and> cs ! n = Some (off, False)"

definition divided :: "nat set \<Rightarrow> pool \<Rightarrow> bool" where
  "divided U p \<longleftrightarrow> waiting p \<union> flying p \<union> on_disk p = U \<and> waiting p \<inter> flying p = {} \<and> (waiting p \<union> flying p) \<inter> on_disk p = {}"

definition claims_ok :: "nat set \<Rightarrow> pool \<Rightarrow> bool" where
  "claims_ok U p \<longleftrightarrow> (\<forall>off endgame. Some (off, endgame) \<in> set (claims_of p) \<longrightarrow> off \<in> U \<and> (\<not> endgame \<longrightarrow> off \<notin> waiting p))"

definition pool_inv :: "nat set \<Rightarrow> pool \<Rightarrow> bool" where
  "pool_inv U p \<longleftrightarrow> divided U p \<and> claims_ok U p \<and>
     (\<forall>n m off. off \<in> flying p \<longrightarrow> owns (claims_of p) n off \<longrightarrow> owns (claims_of p) m off \<longrightarrow> n = m) \<and>
     (\<not> halted p \<longrightarrow> (\<forall>off \<in> flying p. \<exists>n. owns (claims_of p) n off))"

lemma owns_update:
  "owns (cs[n := c]) m off \<longleftrightarrow> (if m = n then n < length cs \<and> c = Some (off, False) else owns cs m off)"
  by (auto simp: owns_def nth_list_update)

lemma ownsD: "owns cs n off \<Longrightarrow> Some (off, False) \<in> set cs"
  by (auto simp: owns_def in_set_conv_nth)

lemma pool_invD:
  assumes "pool_inv U p"
  shows "waiting p \<union> flying p \<union> on_disk p = U" "waiting p \<inter> flying p = {}" "(waiting p \<union> flying p) \<inter> on_disk p = {}"
    "Some (off, endgame) \<in> set (claims_of p) \<Longrightarrow> off \<in> U"
    "Some (off, False) \<in> set (claims_of p) \<Longrightarrow> off \<notin> waiting p"
    "Some (off, False) \<in> set (claims_of p) \<Longrightarrow> off \<notin> on_disk p \<Longrightarrow> off \<in> flying p"
  using assms by (auto simp: pool_inv_def divided_def claims_ok_def)

lemma claim_in_set: "n < length cs \<Longrightarrow> cs ! n = Some c \<Longrightarrow> Some c \<in> set cs"
  by (metis nth_mem)

text \<open>No step of the pool loses or duplicates a unit.\<close>

lemma pool_inv_step: "pool_step p p' \<Longrightarrow> pool_inv U p \<Longrightarrow> pool_inv U p'"
proof (induction rule: pool_step.induct)
  case (take n p off)
  note D = pool_invD[OF take(4)]
  have off: "off \<in> U" "off \<notin> flying p" "off \<notin> on_disk p" using D(1-3) take(3) by auto
  have none: "\<not> owns (claims_of p) m off" for m using D(5) take(3) ownsD by metis
  have free: "\<not> owns (claims_of p) n x" for x using take(2) by (simp add: owns_def)
  have "divided U (p\<lparr>waiting := waiting p - {off}, flying := insert off (flying p), claims_of := cs\<rparr>)" for cs
    using D(1-3) take(3) off by (auto simp: divided_def)
  moreover have "claims_ok U (p\<lparr>waiting := waiting p - {off}, flying := insert off (flying p), claims_of := (claims_of p)[n := Some (off, False)]\<rparr>)"
    using D(4,5) off(1) set_update_subset_insert[of "claims_of p" n "Some (off, False)"] by (auto simp: claims_ok_def)
  ultimately show ?case
    using take(1,4) none free unfolding pool_inv_def by (auto simp: owns_update) metis
next
  case (copy n p off)
  note D = pool_invD[OF copy(4)]
  have free: "\<not> owns (claims_of p) n x" for x using copy(2) by (simp add: owns_def)
  have "off \<in> U" using D(1) copy(3) by auto
  then have "claims_ok U (p\<lparr>claims_of := (claims_of p)[n := Some (off, True)]\<rparr>)"
    using D(4,5) set_update_subset_insert[of "claims_of p" n "Some (off, True)"] by (auto simp: claims_ok_def)
  then show ?case using copy(4) free unfolding pool_inv_def by (auto simp: owns_update divided_def) metis
next
  case (return n p off)
  note D = pool_invD[OF return(4)]
  have own: "owns (claims_of p) n off" using return(1,2) by (simp add: owns_def)
  have fly: "off \<in> flying p" using D(6) own ownsD return(3) by blast
  have sole: "m = n" if "owns (claims_of p) m off" for m using return(4) own that fly unfolding pool_inv_def by blast
  have gone: "Some (off, False) \<notin> set ((claims_of p)[n := None])"
  proof
    assume "Some (off, False) \<in> set ((claims_of p)[n := None])"
    then obtain m where "owns ((claims_of p)[n := None]) m off" by (auto simp: owns_def in_set_conv_nth)
    then show False using sole by (auto simp: owns_update split: if_splits)
  qed
  have "divided U (p\<lparr>waiting := insert off (waiting p), flying := flying p - {off}, claims_of := cs\<rparr>)" for cs
    using D(1-3) fly by (auto simp: divided_def)
  moreover have "claims_ok U (p\<lparr>waiting := insert off (waiting p), flying := flying p - {off}, claims_of := (claims_of p)[n := None]\<rparr>)"
    using D(4,5) gone set_update_subset_insert[of "claims_of p" n None] by (auto simp: claims_ok_def)
  ultimately show ?case using return(4) own unfolding pool_inv_def by (auto simp: owns_update) (metis owns_def option.inject prod.inject)
next
  case (release n p off endgame)
  note D = pool_invD[OF release(4)]
  have "claims_ok U (p\<lparr>claims_of := (claims_of p)[n := None]\<rparr>)"
    using D(4,5) set_update_subset_insert[of "claims_of p" n None] by (auto simp: claims_ok_def)
  moreover have "\<not> owns (claims_of p) n x" if "x \<in> flying p" "\<not> halted p" for x
    using release(2,3) D(3) that by (auto simp: owns_def)
  ultimately show ?case using release(4) unfolding pool_inv_def by (auto simp: owns_update divided_def) metis+
next
  case (land n p off endgame)
  note D = pool_invD[OF land(4)]
  have "off \<in> U" using D(4) claim_in_set[OF land(1,2)] by blast
  then have "divided U (p\<lparr>waiting := waiting p - {off}, flying := flying p - {off}, on_disk := insert off (on_disk p), claims_of := cs\<rparr>)" for cs
    using D(1-3) by (auto simp: divided_def)
  moreover have "claims_ok U (p\<lparr>waiting := waiting p - {off}, flying := flying p - {off}, on_disk := insert off (on_disk p),
      claims_of := (claims_of p)[n := None]\<rparr>)"
    using D(4,5) set_update_subset_insert[of "claims_of p" n None] by (auto simp: claims_ok_def)
  moreover have "\<not> owns (claims_of p) n x" if "x \<noteq> off" for x using land(2) that by (auto simp: owns_def)
  ultimately show ?case using land(4) unfolding pool_inv_def by (auto simp: owns_update) metis
next
  case (halt p)
  then show ?case by (auto simp: pool_inv_def divided_def claims_ok_def)
qed

text \<open>With every lane gone, nothing is in flight: what has not landed is waiting.\<close>

lemma pool_idle:
  assumes "pool_inv U p" "\<not> halted p" "\<And>c. c \<in> set (claims_of p) \<Longrightarrow> c = None"
  shows "flying p = {} \<and> waiting p = U - on_disk p"
proof -
  have "\<not> owns (claims_of p) n off" for n off using assms(3) ownsD by fastforce
  then have "flying p = {}" using assms(1,2) by (auto simp: pool_inv_def)
  then show ?thesis using pool_invD(1-3)[OF assms(1)] by auto
qed

section \<open>The fetch refines the pool\<close>

fun claim :: "lane_phase \<Rightarrow> (nat \<times> bool) option" where
  "claim (Asking off len endgame) = Some (off, endgame)"
| "claim (WriteFailed off len endgame) = Some (off, endgame)"
| "claim (NotHeld off len endgame) = Some (off, endgame)"
| "claim (Failing off len endgame) = Some (off, endgame)"
| "claim _ = None"

text \<open>The part of the work state the pool sees.\<close>

type_synonym work_queues = "(nat \<times> nat) list \<times> nat set \<times> nat set \<times> bool"

definition work_queues :: "work_state \<Rightarrow> work_queues" where
  "work_queues s = (pending s, in_flight s, unit_done s, stopped s)"

definition claims_in :: "fetch \<Rightarrow> (nat \<times> bool) option list" where
  "claims_in f = map (\<lambda>l. claim (l_phase l)) (lanes f)"

definition pool_view :: "work_queues \<Rightarrow> (nat \<times> bool) option list \<Rightarrow> pool" where
  "pool_view q cs = (case q of (P, F, D, h) \<Rightarrow>
     \<lparr>waiting = fst ` set P, flying = F, on_disk = D, claims_of = cs, halted = h\<rparr>)"

definition pool_of :: "fetch \<Rightarrow> pool" where
  "pool_of f = pool_view (work_queues (work f)) (claims_in f)"

lemma queues_upd [state_simps]:
  "work_queues (s\<lparr>working := x\<rparr>) = work_queues s" "work_queues (s\<lparr>unpersisted := n\<rparr>) = work_queues s" "work_queues (s\<lparr>local_failure := e\<rparr>) = work_queues s"
  "work_queues (s\<lparr>dest_file := b\<rparr>) = work_queues s" "work_queues (s\<lparr>borrowed := B\<rparr>) = work_queues s" "work_queues (s\<lparr>sharing := sh\<rparr>) = work_queues s"
  "work_queues (s\<lparr>completed := c\<rparr>) = work_queues s" "work_queues (s\<lparr>state_file := r\<rparr>) = work_queues s" "work_queues (s\<lparr>persist_to := k\<rparr>) = work_queues s"
  "work_queues (s\<lparr>served := v\<rparr>) = work_queues s"
  by (simp_all add: work_queues_def)

lemma queues_persist [state_simps]: "work_queues (persist s) = work_queues s" "work_queues (landed due s) = work_queues s"
  by (simp_all add: persist_def write_record_def landed_def Let_def state_simps split: option.split prod.split)

definition without :: "nat \<Rightarrow> work_queues \<Rightarrow> work_queues" where
  "without off q = (case q of (P, F, D, h) \<Rightarrow> (filter (\<lambda>(x, _). x \<noteq> off) P, F - {off}, D, h))"

lemma queues_settle [state_simps]: "work_queues (settle off s) = without off (work_queues s)"
  by (simp add: settle_def Let_def work_queues_def without_def)

lemma queues_give_back:
  "work_queues (give_back off len index endgame s) =
     (if off \<in> unit_done s then without off (work_queues s)
      else if \<not> endgame then (pending s @ [(off, len)], in_flight s - {off}, unit_done s, stopped s)
      else work_queues s)"
  by (simp add: give_back_def Let_def state_simps) (simp add: work_queues_def)

lemma queues_land_unit:
  assumes "land_unit fails kept shareable due index off bs s = (w, r)"
  shows "r = Some True \<Longrightarrow> off \<notin> unit_done s \<and> \<not> stopped s \<and>
      work_queues w = without off (pending s, in_flight s, insert off (unit_done s), stopped s)"
    and "r \<noteq> Some True \<Longrightarrow> work_queues w = work_queues s" "r = Some False \<Longrightarrow> off \<in> unit_done s"
  using assms
  by (auto simp: land_unit_def Let_def state_simps split: if_splits option.splits) (auto simp: work_queues_def state_simps)

subsection \<open>The next unit\<close>

lemma scan_pending_cases:
  assumes "\<forall>u \<in> set us. \<not> finished (fst u)" "scan_pending finished takes us = (hit, rest)"
  shows "(hit = None \<and> rest = us \<and> (\<forall>u \<in> set us. \<not> takes u)) \<or>
    (\<exists>u xs ys. hit = Some u \<and> us = xs @ u # ys \<and> rest = xs @ ys \<and> takes u)"
  using assms
proof (induction us arbitrary: rest)
  case (Cons u us)
  show ?case
  proof (cases "takes u")
    case True
    then have "hit = Some u" "rest = us" using Cons.prems by auto
    then have "hit = Some u \<and> u # us = [] @ u # us \<and> rest = [] @ us \<and> takes u" using True by simp
    then show ?thesis by blast
  next
    case False
    obtain rest' where r: "scan_pending finished takes us = (hit, rest')" "rest = u # rest'"
      using Cons.prems False by (auto split: prod.splits)
    from Cons.IH[OF _ r(1)] Cons.prems(1) consider
      "hit = None" "rest' = us" "\<forall>u \<in> set us. \<not> takes u"
      | v xs ys where "hit = Some v" "us = xs @ v # ys" "rest' = xs @ ys" "takes v" by auto
    then show ?thesis
    proof cases
      case 2
      then have "hit = Some v \<and> u # us = (u # xs) @ v # ys \<and> rest = (u # xs) @ ys \<and> takes v" using r by simp
      then show ?thesis by blast
    qed (use r False in simp)
  qed
qed simp

lemma find_straggler_cases:
  "find_straggler skip mine offs = (sib, Some off) \<Longrightarrow> off \<in> set offs \<and> \<not> skip off \<and> \<not> mine off"
  "find_straggler skip mine offs = (sib, None) \<Longrightarrow>
     (\<forall>off \<in> set offs. skip off \<or> mine off) \<and> (sib \<longleftrightarrow> (\<exists>off \<in> set offs. \<not> skip off \<and> mine off))"
proof (induction offs arbitrary: sib)
  case (Cons x offs)
  {
    case 1
    then show ?case using Cons.IH(1)[of "fst (find_straggler skip mine offs)"] Cons.IH(1)[of sib]
      by (auto split: if_splits prod.splits simp: prod_eq_iff)
  next
    case 2
    then show ?case using Cons.IH(2)[of "fst (find_straggler skip mine offs)"] Cons.IH(2)[of sib]
      by (auto split: if_splits simp: prod_eq_iff)
  }
qed auto

definition queue_ok :: "nat \<Rightarrow> (nat \<times> nat) list \<Rightarrow> bool" where
  "queue_ok sz P \<longleftrightarrow> distinct (map fst P) \<and> (\<forall>(off, len) \<in> set P. len = min (sz - off) UNIT_SIZE)"

text \<open>
  What \<open>next_unit\<close> does to the work_queues of a state in which no done unit is queued: it takes one waiting
  unit the source holds and is not fetching, or copies one in flight, or leaves everything as it is.
\<close>

lemma next_unit_cases:
  assumes "fst ` set (pending s) \<inter> unit_done s = {}" "set order = in_flight s" "next_unit order h sz index s = (s', m)"
  obtains (unit) off len xs ys where "m = NextUnit off len False" "pending s = xs @ (off, len) # ys"
      "holds_covers h off len" "(off, index) \<notin> working s"
      "s' = s\<lparr>pending := xs @ ys, in_flight := insert off (in_flight s), working := insert (off, index) (working s)\<rparr>"
    | (endgame) off where "m = NextUnit off UNIT_SIZE True" "off \<in> in_flight s" "off \<notin> unit_done s" "(off, index) \<notin> working s"
      "s' = s\<lparr>working := insert (off, index) (working s)\<rparr>" "holds_covers h off (min (sz - off) UNIT_SIZE)"
      "\<forall>(off, len) \<in> set (pending s). holds_covers h off len \<longrightarrow> (off, index) \<in> working s"
    | (stuck) "s' = s" "m = NextDone \<or> m = NextSibling \<or> m = NextWait"
      "m = NextDone \<longleftrightarrow> pending s = [] \<and> in_flight s = {}"
      "\<forall>(off, len) \<in> set (pending s). holds_covers h off len \<longrightarrow> (off, index) \<in> working s"
      "\<forall>off \<in> in_flight s. off \<in> unit_done s \<or> \<not> holds_covers h off (min (sz - off) UNIT_SIZE) \<or> (off, index) \<in> working s"
      "m = NextWait \<longrightarrow> (\<forall>(off, len) \<in> set (pending s). (off, index) \<notin> working s) \<and>
         (\<forall>off \<in> in_flight s. off \<in> unit_done s \<or> \<not> holds_covers h off (min (sz - off) UNIT_SIZE))"
      "m = NextSibling \<longrightarrow> (\<exists>off \<in> fst ` set (pending s) \<union> in_flight s. (off, index) \<in> working s)"
proof -
  let ?takes = "\<lambda>(off, len). holds_covers h off len \<and> (off, index) \<notin> working s"
  obtain hit rest where sc: "scan_pending (\<lambda>off. off \<in> unit_done s) ?takes (rev (pending s)) = (hit, rest)" by fastforce
  have "\<forall>u \<in> set (rev (pending s)). \<not> fst u \<in> unit_done s" using assms(1) by auto
  from scan_pending_cases[OF this sc] show ?thesis
  proof (elim disjE exE conjE)
    fix u xs ys
    assume u: "hit = Some u" "rev (pending s) = xs @ u # ys" "rest = xs @ ys" "?takes u"
    obtain off len where ol: "u = (off, len)" by fastforce
    have "pending s = rev ys @ (off, len) # rev xs" using u(2) ol by (metis append.assoc append_Cons append_Nil rev.simps(2) rev_append rev_rev_ident)
    then show ?thesis
      using unit[of off len "rev ys" "rev xs"] assms(3) sc u ol by (auto simp: next_unit_def Let_def)
  next
    assume n: "hit = None" "rest = rev (pending s)" "\<forall>u \<in> set (rev (pending s)). \<not> ?takes u"
    let ?skip = "\<lambda>off. off \<in> unit_done s \<or> \<not> holds_covers h off (min (sz - off) UNIT_SIZE)"
    obtain sib strag where st: "find_straggler ?skip (\<lambda>off. (off, index) \<in> working s) order = (sib, strag)" by fastforce
    show ?thesis
    proof (cases strag)
      case (Some off)
      then show ?thesis
        using endgame[of off] find_straggler_cases(1)[of ?skip _ order sib off] st assms(2,3) sc n
        by (auto simp: next_unit_def Let_def)
    next
      case None
      have "next_unit order h sz index s = (s, if pending s = [] \<and> in_flight s = {} then NextDone
          else if sib \<or> list_ex (\<lambda>(off, _). (off, index) \<in> working s) (pending s) then NextSibling else NextWait)"
        using sc st n(1,2) None by (simp add: next_unit_def)
      then have m: "s' = s" "m = (if pending s = [] \<and> in_flight s = {} then NextDone
          else if sib \<or> list_ex (\<lambda>(off, _). (off, index) \<in> working s) (pending s) then NextSibling else NextWait)"
        using assms(3) by simp_all
      have f: "\<forall>off \<in> in_flight s. ?skip off \<or> (off, index) \<in> working s"
        "sib \<longleftrightarrow> (\<exists>off \<in> in_flight s. \<not> ?skip off \<and> (off, index) \<in> working s)"
        using find_straggler_cases(2)[of ?skip _ order sib] st None assms(2) by auto
      show ?thesis
        by (rule stuck) (use m f n(3) in \<open>auto simp: list_ex_iff image_iff Bex_def split: if_splits\<close>)
    qed
  qed
qed

subsection \<open>The invariant of a fetch\<close>

definition phases :: "fetch \<Rightarrow> lane_phase list" where
  "phases f = map l_phase (lanes f)"

text \<open>
  A lane that fetches a unit as its owner asks for the whole of it; a lane whose copy came second knows
  that the unit has landed.
\<close>

fun phase_ok :: "nat \<Rightarrow> nat set \<Rightarrow> lane_phase \<Rightarrow> bool" where
  "phase_ok sz D (Asking off len endgame) = (\<not> endgame \<longrightarrow> len = min (sz - off) UNIT_SIZE)"
| "phase_ok sz D (WriteFailed off len endgame) = (\<not> endgame \<longrightarrow> len = min (sz - off) UNIT_SIZE)"
| "phase_ok sz D (NotHeld off len endgame) = (\<not> endgame \<longrightarrow> len = min (sz - off) UNIT_SIZE)"
| "phase_ok sz D (Failing off len endgame) = (\<not> endgame \<longrightarrow> len = min (sz - off) UNIT_SIZE)"
| "phase_ok sz D (LostRace off) = (off \<in> D)"
| "phase_ok sz D p = True"

definition fetch_ok :: "nat \<Rightarrow> fetch \<Rightarrow> bool" where
  "fetch_ok sz f \<longleftrightarrow> pool_inv (units sz) (pool_of f) \<and> queue_ok sz (pending (work f)) \<and>
     (\<forall>p \<in> set (phases f). phase_ok sz (unit_done (work f)) p)"

lemma claims_phases: "claims_in f = map claim (phases f)"
  by (simp add: claims_in_def phases_def)

lemma phases_work [state_simps]: "phases (f\<lparr>work := w\<rparr>) = phases f" "phases (f\<lparr>track := t\<rparr>) = phases f"
  by (simp_all add: phases_def)

lemma phases_set_phase [state_simps]:
  "phases (set_phase n p f) = (phases f)[n := p]" "work (set_phase n p f) = work f"
  "phases (unit_landed_in n off f) = (phases f)[n := Ready]" "work (unit_landed_in n off f) = work f"
  by (simp_all add: set_phase_def unit_landed_in_def phases_def map_update)

lemma phases_missed [state_simps]: "phases (missed n f) = phases f" "work (missed n f) = work f"
  "length (lanes (missed n f)) = length (lanes f)"
  by (simp_all add: missed_def phases_def map_update) (metis length_map list_update_beyond list_update_id not_le nth_map)

lemma leave_moves: "leave_fetch n f = Some f' \<Longrightarrow> phases f' = (phases f)[n := Gone] \<and> work f' = work f"
  by (auto simp: leave_fetch_def state_simps)

lemma length_phases [simp]: "length (phases f) = length (lanes f)"
  by (simp add: phases_def)

lemma phases_nth: "n < length (lanes f) \<Longrightarrow> phases f ! n = l_phase (lanes f ! n)"
  by (simp add: phases_def)

lemma phase_ok_mono: "phase_ok sz D p \<Longrightarrow> D \<subseteq> D' \<Longrightarrow> phase_ok sz D' p"
  by (cases p) auto

lemma note_failure_moves [state_simps]:
  "phases (note_failure n off outcome f) = phases f" "work_queues (work (note_failure n off outcome f)) = work_queues (work f)"
  by (auto simp: note_failure_def state_simps split: sum.split peer_error.split option.split)

lemma fst_queues [simp]: "fst (work_queues s) = pending s" "fst (snd (snd (work_queues s))) = unit_done s"
  by (simp_all add: work_queues_def)

lemma queues_parts: "work_queues s = work_queues s' \<Longrightarrow> pending s = pending s' \<and> in_flight s = in_flight s' \<and> unit_done s = unit_done s' \<and> stopped s = stopped s'"
  by (simp add: work_queues_def)

text \<open>A lane's step is a step of the pool when its work_queues and its claim move as the pool allows.\<close>

lemma lane_moves:
  assumes ok: "fetch_ok sz f" and q: "work_queues (work f') = q" and ph: "phases f' = (phases f)[n := p]"
    and st: "pool_step (pool_of f) (pool_view q ((claims_in f)[n := claim p]))"
    and qok: "queue_ok sz (fst q)" and D: "unit_done (work f) \<subseteq> fst (snd (snd q))" and p: "phase_ok sz (fst (snd (snd q))) p"
  shows "pool_step (pool_of f) (pool_of f') \<and> fetch_ok sz f'"
proof -
  have pool: "pool_of f' = pool_view q ((claims_in f)[n := claim p])"
    by (simp add: pool_of_def q claims_phases ph map_update)
  have "pool_inv (units sz) (pool_of f')" using pool_inv_step[OF st] ok by (simp add: fetch_ok_def pool)
  moreover have "phase_ok sz (unit_done (work f')) r" if "r \<in> set (phases f')" for r
  proof -
    have "r = p \<or> r \<in> set (phases f)" using that ph set_update_subset_insert[of "phases f" n p] by auto
    then show ?thesis using p ok D q phase_ok_mono fst_queues(2) unfolding fetch_ok_def by metis
  qed
  ultimately show ?thesis using st pool qok q by (auto simp: fetch_ok_def)
qed

lemma pool_of_parts [simp]:
  "waiting (pool_of f) = fst ` set (pending (work f))" "flying (pool_of f) = in_flight (work f)"
  "on_disk (pool_of f) = unit_done (work f)" "halted (pool_of f) = stopped (work f)" "claims_of (pool_of f) = claims_in f"
  by (simp_all add: pool_of_def pool_view_def work_queues_def)

lemma pool_view_of: "pool_view (work_queues (work f)) cs = (pool_of f)\<lparr>claims_of := cs\<rparr>"
  by (simp add: pool_of_def pool_view_def split: prod.split)

lemma claims_nth: "n < length (lanes f) \<Longrightarrow> claims_in f ! n = claim (phases f ! n)" "length (claims_in f) = length (lanes f)"
  by (simp_all add: claims_in_def phases_def)

lemma fetch_okD:
  assumes "fetch_ok sz f"
  shows "pool_inv (units sz) (pool_of f)" "queue_ok sz (pending (work f))"
    "n < length (lanes f) \<Longrightarrow> phase_ok sz (unit_done (work f)) (phases f ! n)"
    "fst ` set (pending (work f)) \<inter> unit_done (work f) = {}"
  using assms pool_invD(3)[of "units sz" "pool_of f"] by (auto simp: fetch_ok_def)

lemma lane_stays:
  assumes ok: "fetch_ok sz f" and n: "n < length (lanes f)" and q: "work_queues (work f') = work_queues (work f)"
    and ph: "phases f' = (phases f)[n := p]" and c: "claim p = claim (phases f ! n)" and p: "phase_ok sz (unit_done (work f)) p"
  shows "pool_step (pool_of f) (pool_of f') \<and> fetch_ok sz f'"
proof (rule lane_moves[OF ok q ph])
  have "(claims_in f)[n := claim p] = claims_in f" by (simp only: c flip: claims_nth(1)[OF n]) simp
  then show "pool_step (pool_of f) (pool_view (work_queues (work f)) ((claims_in f)[n := claim p]))"
    using pool_step.skip[of "pool_of f"] by (simp add: pool_of_def)
qed (use fetch_okD[OF ok] p in simp_all)

lemma lane_releases:
  assumes ok: "fetch_ok sz f" and n: "n < length (lanes f)" and q: "work_queues (work f') = work_queues (work f)"
    and ph: "phases f' = (phases f)[n := p]" and c: "claim p = None" and p: "phase_ok sz (unit_done (work f)) p"
    and may: "\<And>off endgame. claim (phases f ! n) = Some (off, endgame) \<Longrightarrow> endgame \<or> off \<in> unit_done (work f) \<or> stopped (work f)"
  shows "pool_step (pool_of f) (pool_of f') \<and> fetch_ok sz f'"
proof (cases "claim (phases f ! n)")
  case None
  then show ?thesis using lane_stays[OF ok n q ph] c p by simp
next
  case (Some oe)
  obtain off endgame where oe: "oe = (off, endgame)" by fastforce
  show ?thesis
  proof (rule lane_moves[OF ok q ph])
    show "pool_step (pool_of f) (pool_view (work_queues (work f)) ((claims_in f)[n := claim p]))"
      using pool_step.release[of n "pool_of f" off endgame] n claims_nth(1)[of n f] claims_nth(2)[of f] Some oe may c by (simp add: pool_view_of)
  qed (use fetch_okD[OF ok] p in simp_all)
qed

lemma without_settled:
  assumes "fst ` set (pending s) \<inter> unit_done s = {}" "in_flight s \<inter> unit_done s = {}" "off \<in> unit_done s"
  shows "without off (work_queues s) = work_queues s"
proof -
  have "filter (\<lambda>(x, _). x \<noteq> off) (pending s) = pending s" using assms(1,3) by (force intro: filter_True)
  then show ?thesis using assms(2,3) by (auto simp: without_def work_queues_def)
qed

lemma fetch_settled: "fetch_ok sz f \<Longrightarrow> off \<in> unit_done (work f) \<Longrightarrow> without off (work_queues (work f)) = work_queues (work f)"
  using pool_invD(3)[of "units sz" "pool_of f"] by (intro without_settled) (auto simp: fetch_ok_def)

lemma lane_gives_back:
  assumes ok: "fetch_ok sz f" and n: "n < length (lanes f)" and c: "claim (phases f ! n) = Some (off, endgame)"
    and len: "\<not> endgame \<longrightarrow> len = min (sz - off) UNIT_SIZE" and w: "work_queues w = work_queues (work f)"
    and q: "work f' = give_back off len i endgame w" and ph: "phases f' = (phases f)[n := p]" and p: "p = Ready \<or> p = Gone"
  shows "pool_step (pool_of f) (pool_of f') \<and> fetch_ok sz f'"
proof (cases "endgame \<or> off \<in> unit_done (work f)")
  case True
  have "work_queues (work f') = work_queues (work f)"
    using fetch_settled[OF ok, of off] True w queues_parts[OF w] by (auto simp: q queues_give_back)
  then show ?thesis using lane_releases[OF ok n _ ph] True c p by auto
next
  case False
  let ?q = "(pending (work f) @ [(off, len)], in_flight (work f) - {off}, unit_done (work f), stopped (work f))"
  have q': "work_queues (work f') = ?q" using False queues_parts[OF w] by (simp add: q queues_give_back)
  have cl: "claims_in f ! n = Some (off, False)" "Some (off, False) \<in> set (claims_in f)"
    using claims_nth(1)[of n f] claims_nth(2)[of f] n c False nth_mem[of n "claims_in f"] by auto
  show ?thesis
  proof (rule lane_moves[OF ok q' ph])
    have "pool_view ?q ((claims_in f)[n := claim p]) = (pool_of f)\<lparr>waiting := insert off (waiting (pool_of f)),
        flying := flying (pool_of f) - {off}, claims_of := (claims_of (pool_of f))[n := None]\<rparr>"
      using p by (auto simp: pool_view_def pool_of_def work_queues_def)
    then show "pool_step (pool_of f) (pool_view ?q ((claims_in f)[n := claim p]))"
      using pool_step.return[of n "pool_of f" off] n claims_nth(2)[of f] cl(1) False by simp
    have "off \<notin> fst ` set (pending (work f))" using pool_invD(5)[OF fetch_okD(1)[OF ok], of off] cl(2) by simp
    then show "queue_ok sz (fst ?q)" using fetch_okD(2)[OF ok] len False by (auto simp: queue_ok_def)
  qed (use p in auto)
qed

lemma choose_move_via:
  assumes "choose_move sz order n f = (f', m)"
  shows "(f' = f \<and> m = NextDone) \<or> (\<exists>h w. next_unit order h sz (index_of f n) (work f) = (w, m) \<and> f' = f\<lparr>work := w\<rparr>)"
  using assms by (fastforce simp: choose_move_def split: if_splits option.splits prod.splits)

lemma lane_takes:
  assumes ok: "fetch_ok sz f" and n: "n < length (lanes f)" and rdy: "phases f ! n = Ready" and ord: "set order = in_flight (work f)"
    and mv: "choose_move sz order n f = (f', NextUnit off len endgame)"
  shows "pool_step (pool_of f) (pool_of (set_phase n (Asking off len endgame) f')) \<and>
    fetch_ok sz (set_phase n (Asking off len endgame) f')"
proof -
  obtain h w where nu: "next_unit order h sz (index_of f n) (work f) = (w, NextUnit off len endgame)" and f': "f' = f\<lparr>work := w\<rparr>"
    using choose_move_via[OF mv] by blast
  let ?f = "set_phase n (Asking off len endgame) f'"
  have ph: "phases ?f = (phases f)[n := Asking off len endgame]" and wk: "work ?f = w" by (simp_all add: f' state_simps)
  have free: "claims_of (pool_of f) ! n = None" using claims_nth(1)[OF n] rdy by simp
  from fetch_okD(4)[OF ok] ord nu show ?thesis
  proof (cases rule: next_unit_cases)
    case (unit off' len' xs ys)
    let ?q = "(xs @ ys, insert off (in_flight (work f)), unit_done (work f), stopped (work f))"
    have q: "work_queues (work ?f) = ?q" using unit(1,5) by (simp add: f' work_queues_def state_simps)
    have qk: "queue_ok sz (xs @ (off, len) # ys)" using fetch_okD(2)[OF ok] unit(1,2) by simp
    have "fst ` set (xs @ ys) = waiting (pool_of f) - {off}" using qk unit(1,2) by (force simp: queue_ok_def)
    then have "pool_view ?q ((claims_in f)[n := claim (Asking off len endgame)]) = (pool_of f)\<lparr>waiting := waiting (pool_of f) - {off},
        flying := insert off (flying (pool_of f)), claims_of := (claims_of (pool_of f))[n := Some (off, False)]\<rparr>"
      using unit(1) by (auto simp: pool_view_def pool_of_def work_queues_def)
    moreover have "off \<in> waiting (pool_of f)" using unit(1,2) by simp
    ultimately have "pool_step (pool_of f) (pool_view ?q ((claims_in f)[n := claim (Asking off len endgame)]))"
      using pool_step.take[of n "pool_of f" off] n free claims_nth(2)[of f] by simp
    then show ?thesis using lane_moves[OF ok q ph] qk unit(1) by (auto simp: queue_ok_def)
  next
    case (endgame off')
    have q: "work_queues (work ?f) = work_queues (work f)" using endgame(1,5) by (simp add: f' state_simps)
    have "pool_step (pool_of f) (pool_view (work_queues (work f)) ((claims_in f)[n := claim (Asking off len endgame)]))"
      using pool_step.copy[of n "pool_of f" off] n free endgame(1,2) claims_nth(2)[of f] by (simp add: pool_view_of)
    then show ?thesis using lane_moves[OF ok q ph] fetch_okD(2)[OF ok] endgame(1) by simp
  qed simp
qed

lemma choose_move_quiet:
  assumes "fetch_ok sz f" "set order = in_flight (work f)" "choose_move sz order n f = (f', m)" "\<And>off len e. m \<noteq> NextUnit off len e"
  shows "f' = f"
proof (cases "f' = f \<and> m = NextDone")
  case False
  then obtain h w where nu: "next_unit order h sz (index_of f n) (work f) = (w, m)" and f': "f' = f\<lparr>work := w\<rparr>"
    using choose_move_via[OF assms(3)] by blast
  from fetch_okD(4)[OF assms(1)] assms(2) nu have "w = work f" by (cases rule: next_unit_cases) (simp_all add: assms(4))
  then show ?thesis by (simp add: f')
qed simp

lemma lane_lands:
  assumes ok: "fetch_ok sz f" and n: "n < length (lanes f)" and c: "phases f ! n = Asking off len endgame"
    and q: "work_queues (work f') = without off (pending (work f), in_flight (work f), insert off (unit_done (work f)), stopped (work f))"
    and new: "off \<notin> unit_done (work f)" and ph: "phases f' = (phases f)[n := Ready]"
  shows "pool_step (pool_of f) (pool_of f') \<and> fetch_ok sz f'"
proof (rule lane_moves[OF ok q ph])
  let ?q = "without off (pending (work f), in_flight (work f), insert off (unit_done (work f)), stopped (work f))"
  have "pool_view ?q ((claims_in f)[n := claim Ready]) = (pool_of f)\<lparr>waiting := waiting (pool_of f) - {off},
      flying := flying (pool_of f) - {off}, on_disk := insert off (on_disk (pool_of f)),
      claims_of := (claims_of (pool_of f))[n := None]\<rparr>"
    by (force simp: pool_view_def pool_of_def work_queues_def without_def)
  then show "pool_step (pool_of f) (pool_view ?q ((claims_in f)[n := claim Ready]))"
    using pool_step.land[of n "pool_of f" off endgame] n claims_nth(1)[OF n] claims_nth(2)[of f] c new by simp
  show "queue_ok sz (fst ?q)" using fetch_okD(2)[OF ok] by (auto simp: queue_ok_def without_def distinct_map_filter)
qed (auto simp: without_def)

lemma stop_fetch_moves: "phases (stop_fetch f) = phases f" "work_queues (work (stop_fetch f)) = (pending (work f), in_flight (work f), unit_done (work f), True)"
proof -
  define w where "w = (if unpersisted (work f) > 0 then persist (work f) else work f)"
  have "work_queues w = work_queues (work f)" by (simp add: w_def state_simps)
  moreover have "work (stop_fetch f) = w\<lparr>stopped := True, persist_to := None\<rparr>" by (simp add: stop_fetch_def w_def Let_def)
  ultimately show "work_queues (work (stop_fetch f)) = (pending (work f), in_flight (work f), unit_done (work f), True)"
    by (simp add: work_queues_def)
qed (simp add: stop_fetch_def Let_def state_simps)

lemma fetch_step_refines: "fetch_step sz decode shareable f f' \<Longrightarrow> fetch_ok sz f \<Longrightarrow> pool_step (pool_of f) (pool_of f') \<and> fetch_ok sz f'"
proof (induction rule: fetch_step.induct)
  case (start_idle f n f')
  then show ?case using lane_stays[of sz f n f' Gone] leave_moves[of n f f'] by (simp add: phases_nth)
next
  case (start_dead f n s f')
  then show ?case using lane_stays[of sz f n f' Gone] leave_moves[of n f f'] by (simp add: phases_nth)
next
  case (start_ready f n s)
  then show ?case using lane_stays[of sz f n _ Ready] by (simp add: phases_nth state_simps)
next
  case (take_unit f n order f' off len endgame)
  then show ?case using lane_takes[of sz f n order f' off len endgame] by (simp add: phases_nth)
next
  case (look_again f n order f' m)
  then have "f' = f" using choose_move_quiet[of sz f order n f' m] by auto
  then show ?case using look_again pool_step.skip by simp
next
  case (let_go f n order f' m f'')
  then have "f' = f" using choose_move_quiet[of sz f order n f' m] by auto
  then show ?case using let_go lane_stays[of sz f n f'' Gone] leave_moves[of n f f''] by (simp add: phases_nth)
next
  case (unit_lands f n off len endgame answer bs fails kept due w)
  then show ?case using lane_lands[of sz f n off len endgame] queues_land_unit(1)[of fails kept _ due _ off bs "work f" w]
    by (simp add: phases_nth state_simps)
next
  case (other_copy_won f n off len endgame answer bs fails kept due w)
  then have "work_queues w = work_queues (work f)" "off \<in> unit_done (work f)"
    using queues_land_unit(2,3)[of fails kept _ due _ off bs "work f" w] by auto
  then show ?case using other_copy_won lane_releases[of sz f n _ "LostRace off"] by (simp add: phases_nth state_simps)
next
  case (write_fails f n off len endgame answer bs fails kept due w)
  then have "work_queues w = work_queues (work f)" using queues_land_unit(2)[of fails kept _ due _ off bs "work f" w] by auto
  then show ?case using write_fails lane_stays[of sz f n _ "WriteFailed off len endgame"] fetch_okD(3)[of sz f n]
    by (simp add: phases_nth state_simps)
next
  case (lost_settles f n off)
  then have "off \<in> unit_done (work f)" using fetch_okD(3)[of sz f n] by (simp add: phases_nth)
  then show ?case using lost_settles lane_stays[of sz f n _ Ready] fetch_settled[of sz f off] by (simp add: phases_nth state_simps)
next
  case (failed_write_returns f n off len endgame w f')
  then have "work_queues w = work_queues (work f)" by (simp add: state_simps)
  then show ?case
    using failed_write_returns lane_gives_back[of sz f n off endgame len w f' "index_of f n" Gone] fetch_okD(3)[of sz f n]
      leave_moves[of n "f\<lparr>work := give_back off len (index_of f n) endgame w\<rparr>" f'] by (simp add: phases_nth state_simps)
next
  case (busy f n off len endgame answer f' f'')
  show ?case
    using busy lane_gives_back[of sz f n off endgame len "work f" f'' "index_of f n"] fetch_okD(3)[of sz f n] leave_moves[of n f' f'']
    by (auto simp: phases_nth state_simps)
next
  case (not_held f n off len endgame answer t)
  then show ?case using lane_stays[of sz f n _ "NotHeld off len endgame"] fetch_okD(3)[of sz f n] by (simp add: phases_nth state_simps)
next
  case (not_held_returns f n off len endgame f' f'')
  have "phases f'' = (phases f)[n := Ready] \<or> phases f'' = (phases f)[n := Gone]" "work f'' = work f'"
    using not_held_returns leave_moves[of n f' f''] by (auto simp: state_simps split: if_splits)
  then show ?case
    using not_held_returns lane_gives_back[of sz f n off endgame len "work f" f'' "index_of f n"] fetch_okD(3)[of sz f n]
    by (auto simp: phases_nth state_simps)
next
  case (answer_fails f n off len endgame answer outcome)
  then show ?case using lane_stays[of sz f n _ "Failing off len endgame"] fetch_okD(3)[of sz f n] by (simp add: phases_nth state_simps)
next
  case (failed_returns f n off len endgame f')
  then show ?case
    using lane_gives_back[of sz f n off endgame len "work f" f' "index_of f n" Gone] fetch_okD(3)[of sz f n]
      leave_moves[of n "f\<lparr>work := give_back off len (index_of f n) endgame (work f)\<rparr>" f'] by (simp add: phases_nth state_simps)
next
  case (probed f i g result t)
  have "pool_of (f\<lparr>track := t\<rparr>) = pool_of f" by (simp add: pool_of_def claims_in_def)
  then show ?case using probed pool_step.skip by (simp add: fetch_ok_def state_simps)
next
  case (dropped f)
  note q = stop_fetch_moves[of f]
  have p: "pool_of (stop_fetch f) = (pool_of f)\<lparr>halted := True\<rparr>"
    by (simp add: pool_of_def q claims_phases) (simp add: pool_view_def work_queues_def)
  have "queue_ok sz (pending (work (stop_fetch f)))" "unit_done (work (stop_fetch f)) = unit_done (work f)"
    using q(2) fetch_okD(2)[OF dropped] by (simp_all add: work_queues_def)
  then show ?case using pool_step.halt pool_inv_step[OF pool_step.halt fetch_okD(1)[OF dropped]] dropped by (simp add: p fetch_ok_def q(1))
next
  case (aborted n f f')
  then show ?case using lane_releases[of sz f n f' Gone] leave_moves[of n f f'] by simp
qed

end
