(* ===== verification/Swarm_Delivery.thy ===== *)
theory Swarm_Delivery
  imports Swarm_Correct
begin

text \<open>
  What a fetch leaves behind. Given a decoder that accepts only the content's own bytes, every unit
  counted as done is on disk as the content has it, whatever the interleaving, the failed writes and the
  moment the fetch is dropped; the resume record lists only such units; units lent by a source whose
  bytes are not to be passed on are never shared; and the report's counts add up to the units fetched.
\<close>

section \<open>Units of a file\<close>

definition unit_bytes :: "nat \<Rightarrow> bytes \<Rightarrow> bytes" where
  "unit_bytes off bs = take UNIT_SIZE (drop off bs)"

lemma UNIT_SIZE_pos [simp]: "0 < UNIT_SIZE"
  by (simp add: UNIT_SIZE_def)

lemma length_write_at: "off + length bs \<le> length f \<Longrightarrow> length (write_at off bs f) = length f"
  by (simp add: write_at_def)

lemma unit_bytes_written:
  assumes "off + length bs \<le> length f" "length bs = min (length f - off) UNIT_SIZE"
  shows "unit_bytes off (write_at off bs f) = bs"
  using assms by (auto simp: unit_bytes_def write_at_def min_def)

lemma units_apart:
  assumes "off \<in> units sz" "off' \<in> units sz" "off \<noteq> off'"
  shows "off + UNIT_SIZE \<le> off' \<or> off' + UNIT_SIZE \<le> off"
proof -
  obtain a b where ab: "off = UNIT_SIZE * a" "off' = UNIT_SIZE * b"
    using assms(1,2) by (auto simp: units_def elim!: dvdE)
  then have "Suc a \<le> b \<or> Suc b \<le> a" using assms(3) by (metis Suc_leI linorder_neqE_nat)
  then show ?thesis using mult_le_mono2[of "Suc a" b UNIT_SIZE] mult_le_mono2[of "Suc b" a UNIT_SIZE] ab by auto
qed

lemma drop_write_at:
  assumes "off + length bs \<le> length f"
  shows "off + length bs \<le> k \<Longrightarrow> drop k (write_at off bs f) = drop k f"
    "k + m \<le> off \<Longrightarrow> take m (drop k (write_at off bs f)) = take m (drop k f)"
proof -
  assume k: "off + length bs \<le> k"
  obtain d where "k = off + length bs + d" using k le_Suc_ex by blast
  then show "drop k (write_at off bs f) = drop k f"
    using assms by (simp add: write_at_def add.commute)
next
  assume "k + m \<le> off"
  then show "take m (drop k (write_at off bs f)) = take m (drop k f)"
    using assms by (simp add: write_at_def take_drop min_absorb1)
qed

lemma unit_bytes_apart:
  assumes "off \<in> units sz" "off' \<in> units sz" "off \<noteq> off'" "length bs \<le> UNIT_SIZE" "off + length bs \<le> length f"
  shows "unit_bytes off' (write_at off bs f) = unit_bytes off' f"
  using units_apart[OF assms(1-3)] drop_write_at[OF assms(5)] assms(4) by (auto simp: unit_bytes_def)

text \<open>A file that agrees with the content on every unit is the content.\<close>

lemma unit_bytes_all:
  assumes "length f = length content" "\<And>off. off \<in> units (length content) \<Longrightarrow> unit_bytes off f = unit_bytes off content"
  shows "f = content"
proof (rule nth_equalityI)
  fix i assume i: "i < length f"
  let ?off = "i div UNIT_SIZE * UNIT_SIZE"
  have le: "?off \<le> i" and lt: "i - ?off < UNIT_SIZE" by (simp_all add: minus_div_mult_eq_mod)
  have "?off \<in> units (length content)" using le_less_trans[OF le i] assms(1) by (simp add: units_def)
  then have "unit_bytes ?off f ! (i - ?off) = unit_bytes ?off content ! (i - ?off)" using assms(2) by simp
  then show "f ! i = content ! i" using i le lt assms(1) by (simp add: unit_bytes_def)
qed (use assms(1) in simp)

section \<open>Verified answers\<close>

definition decodes_to :: "bao_decoder \<Rightarrow> bytes \<Rightarrow> bool" where
  "decodes_to decode content \<longleftrightarrow>
     (\<forall>n off len stream bs. decode n off len stream = Some bs \<longrightarrow> bs = take (length bs) (drop off content))"

lemma take_drop_snoc:
  assumes "xs = take (length xs) (drop off c)" "ys = take (length ys) (drop (off + length xs) c)"
  shows "xs @ ys = take (length (xs @ ys)) (drop off c)"
  using assms by (metis add.commute drop_drop length_append take_add)

lemma join_pieces_content:
  assumes "decodes_to decode content"
  shows "join_pieces decode at known out ps = Inr (out', at', known') \<Longrightarrow> at = offset + length out \<Longrightarrow>
    out = take (length out) (drop offset content) \<Longrightarrow> out' = take (length out') (drop offset content)"
proof (induction ps arbitrary: at known out)
  case (Cons p ps)
  from Cons.prems(1) obtain bs where d: "decode (p_size p) at (p_len p) (p_stream p) = Some bs"
    "join_pieces decode (at + length bs) (Some (case known of Some n \<Rightarrow> n | None \<Rightarrow> p_size p)) (out @ bs) ps = Inr (out', at', known')"
    by (auto simp: Let_def split: if_splits option.splits)
  have "bs = take (length bs) (drop (offset + length out) content)"
    using assms d(1) Cons.prems(2) unfolding decodes_to_def by metis
  then have "out @ bs = take (length (out @ bs)) (drop offset content)" using take_drop_snoc Cons.prems(3) by blast
  then show ?case using Cons.IH[OF d(2) _] Cons.prems(2) by (metis add.assoc length_append)
qed simp

lemma fetch_proved_content:
  assumes "decodes_to decode content" "fetch_proved decode answer off len = Inr bs"
  shows "bs = take (length bs) (drop off content)"
  using assms(2) join_pieces_content[OF assms(1), of off None "[]" _ _ _ _ off]
  by (auto simp: fetch_proved_def split: sum.splits option.splits peer_error.splits if_splits prod.splits)

lemma verified_unit:
  assumes "decodes_to decode content" "fetch_proved decode answer off len = Inr bs" "length bs = min (length content - off) UNIT_SIZE"
  shows "bs = unit_bytes off content"
proof -
  have "bs = take (length bs) (drop off content)" by (rule fetch_proved_content[OF assms(1,2)])
  then show ?thesis unfolding unit_bytes_def assms(3) by (simp add: min_def split: if_splits)
qed

section \<open>What the work state keeps\<close>

definition has_content :: "bytes \<Rightarrow> work_state \<Rightarrow> bool" where
  "has_content content s \<longleftrightarrow> length (dest_file s) = length content \<and> unit_done s \<subseteq> units (length content) \<and>
     (\<forall>off \<in> unit_done s. unit_bytes off (dest_file s) = unit_bytes off content)"

definition recorded :: "bytes \<Rightarrow> nat \<Rightarrow> work_state \<Rightarrow> bool" where
  "recorded root sz s \<longleftrightarrow> (persist_to s = None \<or> persist_to s = Some (root, sz)) \<and>
     (\<forall>st. load_rhstate (state_file s) root sz = Some st \<longrightarrow> st_done st \<subseteq> unit_done s \<and> st_borrowed st \<subseteq> st_done st)"

definition shares_own :: "work_state \<Rightarrow> bool" where
  "shares_own s \<longleftrightarrow> borrowed s \<subseteq> unit_done s \<and>
     (\<forall>bits. sharing s = Some bits \<longrightarrow> (\<forall>u \<in> held_units bits. u * UNIT_SIZE \<in> unit_done s - borrowed s))"

definition counted :: "nat \<Rightarrow> work_state \<Rightarrow> bool" where
  "counted n s \<longleftrightarrow> finite (unit_done s) \<and> sum_list (served s) + n = card (unit_done s)"

definition kept :: "bytes \<Rightarrow> bytes \<Rightarrow> nat \<Rightarrow> work_state \<Rightarrow> bool" where
  "kept content root n s \<longleftrightarrow> has_content content s \<and> recorded root (length content) s \<and> shares_own s \<and> counted n s"

lemmas kept_defs = kept_def has_content_def recorded_def shares_own_def counted_def

lemma kept_upd [state_simps]:
  "kept c r n (s\<lparr>pending := x1\<rparr>) = kept c r n s" "kept c r n (s\<lparr>in_flight := x2\<rparr>) = kept c r n s"
  "kept c r n (s\<lparr>working := x3\<rparr>) = kept c r n s" "kept c r n (s\<lparr>unpersisted := x4\<rparr>) = kept c r n s"
  "kept c r n (s\<lparr>local_failure := x5\<rparr>) = kept c r n s" "kept c r n (s\<lparr>completed := x6\<rparr>) = kept c r n s"
  "kept c r n (s\<lparr>stopped := x7\<rparr>) = kept c r n s"
  by (simp_all add: kept_defs)

lemma kept_settle [state_simps]: "kept c r n (settle off s) = kept c r n s"
  by (simp add: settle_def Let_def state_simps)

lemma kept_give_back [state_simps]: "kept c r n (give_back off len i endgame s) = kept c r n s"
  by (simp add: give_back_def Let_def state_simps)

lemma kept_next_unit: "next_unit order h sz index s = (s', m) \<Longrightarrow> kept c r n s' = kept c r n s"
  by (auto simp: next_unit_def Let_def state_simps split: prod.splits option.splits)

lemma kept_persist: "kept c r n s \<Longrightarrow> kept c r n (persist s)"
  by (auto simp: kept_defs persist_def write_record_def load_rhstate_def units_def split: option.splits if_splits)

lemma kept_landed: "kept c r n s \<Longrightarrow> kept c r n (landed due s)"
  by (simp add: landed_def Let_def kept_persist state_simps)

lemma kept_stop: "kept c r n (work f) \<Longrightarrow> kept c r n (work (stop_fetch f))"
proof -
  assume k: "kept c r n (work f)"
  define w where "w = (if unpersisted (work f) > 0 then persist (work f) else work f)"
  have "kept c r n w" using k kept_persist by (simp add: w_def)
  then have "kept c r n (w\<lparr>stopped := True, persist_to := None\<rparr>)" by (simp add: kept_defs)
  then show ?thesis by (simp add: stop_fetch_def w_def Let_def)
qed

lemma has_content_write:
  assumes "has_content content s" "off \<in> units (length content)" "off \<notin> unit_done s"
    "length bs \<le> min (length content - off) UNIT_SIZE"
  shows "has_content content (s\<lparr>dest_file := write_at off bs (dest_file s)\<rparr>)"
proof -
  have "off + length bs \<le> length (dest_file s)" using assms(1,2,4) by (auto simp: has_content_def units_def)
  then have "unit_bytes off' (write_at off bs (dest_file s)) = unit_bytes off' content" if "off' \<in> unit_done s" for off'
    using unit_bytes_apart[of off "length content" off' bs "dest_file s"] assms that by (auto simp: has_content_def)
  then show ?thesis using length_write_at assms(1) \<open>off + length bs \<le> _\<close> by (simp add: has_content_def)
qed

lemma counted_land:
  assumes "counted n s" "off \<notin> unit_done s" "index < length (served s)"
  shows "counted n (s\<lparr>unit_done := insert off (unit_done s), served := (served s)[index := served s ! index + 1]\<rparr>)"
  using assms elem_le_sum_list[of index "served s"] by (auto simp: counted_def sum_list_update)

lemma shares_own_land:
  assumes "shares_own s" "off \<notin> unit_done s" "off mod UNIT_SIZE = 0"
  shows "shares_own (s\<lparr>sharing := map_option (\<lambda>bits. set_unit_bit bits (off div HAVE_UNIT)) (sharing s), unit_done := insert off (unit_done s)\<rparr>)"
    "shares_own (s\<lparr>borrowed := insert off (borrowed s), unit_done := insert off (unit_done s)\<rparr>)"
    "shares_own (s\<lparr>unit_done := insert off (unit_done s)\<rparr>)"
proof -
  have "off \<notin> borrowed s" using assms(1,2) by (auto simp: shares_own_def)
  then show "shares_own (s\<lparr>sharing := map_option (\<lambda>bits. set_unit_bit bits (off div HAVE_UNIT)) (sharing s), unit_done := insert off (unit_done s)\<rparr>)"
    using assms by (auto simp: shares_own_def held_set_bit UNIT_SIZE_def HAVE_UNIT_def)
qed (use assms in \<open>auto simp: shares_own_def\<close>)

text \<open>A landed unit keeps all of it, whether or not the write succeeds.\<close>

lemma kept_parts:
  "kept c r n s \<longleftrightarrow> has_content c s \<and> recorded r (length c) s \<and> shares_own s \<and> counted n s"
  by (simp add: kept_def)

lemma has_content_land:
  assumes "has_content content s" "off \<in> units (length content)" "off \<notin> unit_done s"
  shows "has_content content (s\<lparr>dest_file := write_at off (unit_bytes off content) (dest_file s), unit_done := insert off (unit_done s)\<rparr>)"
proof -
  let ?bs = "unit_bytes off content"
  have len: "length ?bs = min (length content - off) UNIT_SIZE" by (simp add: unit_bytes_def min.commute)
  have "off + length ?bs \<le> length (dest_file s)" using assms(1,2) len by (auto simp: has_content_def units_def)
  then have "unit_bytes off (write_at off ?bs (dest_file s)) = ?bs"
    using unit_bytes_written len assms(1) by (simp add: has_content_def)
  then show ?thesis using has_content_write[OF assms, of ?bs] len assms(2) by (simp add: has_content_def)
qed

lemma kept_land_unit:
  assumes k: "kept content root n s" and off: "off \<in> units (length content)" and bs: "bs = unit_bytes off content"
    and i: "index < length (served s)" and land: "land_unit fails pk shareable due index off bs s = (w, res)"
  shows "kept content root n w"
proof (cases "stopped s \<or> off \<in> unit_done s")
  case True
  then show ?thesis using k land by (auto simp: land_unit_def Let_def state_simps split: if_splits)
next
  case new: False
  have len: "length bs = min (length content - off) UNIT_SIZE" by (simp add: bs unit_bytes_def min.commute)
  have k': "has_content content s" "recorded root (length content) s" "shares_own s" "counted n s" using k by (simp_all add: kept_def)
  show ?thesis
  proof (cases fails)
    case (Some m)
    have "has_content content (s\<lparr>dest_file := write_at off (take m bs) (dest_file s)\<rparr>)"
      using has_content_write[OF k'(1) off, of "take m bs"] new len by (auto simp: min.coboundedI1)
    then have "kept content root n (s\<lparr>dest_file := write_at off (take m bs) (dest_file s)\<rparr>)"
      using k' by (simp add: kept_defs)
    then show ?thesis using land new Some by (auto simp: land_unit_def Let_def kept_defs)
  next
    case None
    let ?file = "write_at off bs (dest_file s)" and ?D = "insert off (unit_done s)" and ?v = "(served s)[index := served s ! index + 1]"
    let ?sh = "map_option (\<lambda>bits. set_unit_bit bits (off div HAVE_UNIT)) (sharing s)"
    have m: "off mod UNIT_SIZE = 0" using off by (simp add: units_def)
    note parts = has_content_land[OF k'(1) off] counted_land[OF k'(4) _ i, of off] shares_own_land[OF k'(3) _ m]
    have "kept content root n (s\<lparr>working := x, dest_file := ?file, borrowed := insert off (borrowed s), unit_done := ?D, served := ?v\<rparr>)"
      "kept content root n (s\<lparr>working := x, dest_file := ?file, sharing := ?sh, unit_done := ?D, served := ?v\<rparr>)"
      "kept content root n (s\<lparr>working := x, dest_file := ?file, unit_done := ?D, served := ?v\<rparr>)" for x
      using parts new k'(2) bs by (auto simp: kept_parts has_content_def recorded_def shares_own_def counted_def)
    then show ?thesis using land new None by (auto simp: land_unit_def Let_def state_simps intro!: kept_landed split: if_splits)
  qed
qed

section \<open>Every step keeps it\<close>

definition lanes_of_sources :: "fetch \<Rightarrow> bool" where
  "lanes_of_sources f \<longleftrightarrow> (\<forall>l \<in> set (lanes f). l_index l < length (served (work f)))"

definition fetch_inv :: "bytes \<Rightarrow> bytes \<Rightarrow> nat \<Rightarrow> fetch \<Rightarrow> bool" where
  "fetch_inv content root n f \<longleftrightarrow> fetch_ok (length content) f \<and> kept content root n (work f) \<and> lanes_of_sources f"

lemma served_ops [state_simps]:
  "length (served (settle off s)) = length (served s)" "length (served (give_back off len i endgame s)) = length (served s)"
  "length (served (persist s)) = length (served s)" "length (served (landed due s)) = length (served s)"
  by (simp_all add: settle_def give_back_def persist_def write_record_def landed_def Let_def split: option.split)

lemma served_land_unit: "land_unit fails pk sh due i off bs s = (w, res) \<Longrightarrow> length (served w) = length (served s)"
  by (auto simp: land_unit_def Let_def state_simps split: if_splits option.splits)

lemma served_next_unit: "next_unit order h sz i s = (s', m) \<Longrightarrow> length (served s') = length (served s)"
  by (auto simp: next_unit_def Let_def split: prod.splits option.splits)

definition indices :: "fetch \<Rightarrow> nat list" where
  "indices f = map l_index (lanes f)"

lemma lanes_of_sources_iff: "lanes_of_sources f \<longleftrightarrow> (\<forall>i \<in> set (indices f). i < length (served (work f)))"
  by (simp add: lanes_of_sources_def indices_def)

lemma indices_upd [state_simps]:
  "indices (f\<lparr>work := w\<rparr>) = indices f" "indices (f\<lparr>track := t\<rparr>) = indices f" "indices (stop_fetch f) = indices f"
  by (simp_all add: indices_def stop_fetch_def Let_def)

lemma map_update_same: "g y = g (xs ! n) \<Longrightarrow> map g (xs[n := y]) = map g xs"
  by (metis list_update_beyond list_update_id map_update not_le)

lemma indices_lane [state_simps]:
  "indices (set_phase n p f) = indices f" "indices (unit_landed_in n off f) = indices f" "indices (missed n f) = indices f"
  by (simp_all add: indices_def set_phase_def unit_landed_in_def missed_def map_update_same)

lemma indices_leave: "leave_fetch n f = Some f' \<Longrightarrow> indices f' = indices f \<and> work f' = work f"
  by (auto simp: leave_fetch_def state_simps)

lemma choose_move_work:
  "choose_move sz order n f = (f', m) \<Longrightarrow>
   indices f' = indices f \<and> (kept c r k (work f') \<longleftrightarrow> kept c r k (work f)) \<and> length (served (work f')) = length (served (work f))"
  using choose_move_via[of sz order n f f' m] kept_next_unit served_next_unit by (fastforce simp: state_simps)

lemma note_failure_work:
  "indices (note_failure n off outcome f) = indices f" "kept c r k (work (note_failure n off outcome f)) = kept c r k (work f)"
  "length (served (work (note_failure n off outcome f))) = length (served (work f))"
  by (auto simp: note_failure_def state_simps split: sum.split peer_error.split option.split)

lemma served_stop [state_simps]: "length (served (work (stop_fetch f))) = length (served (work f))"
  by (simp add: stop_fetch_def Let_def state_simps)

text \<open>A step changes what is kept only by landing a unit, and then a verified one.\<close>

lemma fetch_step_work:
  assumes "fetch_step sz decode shareable f f'"
  obtains (same) "indices f' = indices f" "length (served (work f')) = length (served (work f))"
      "\<And>c r k. kept c r k (work f) \<Longrightarrow> kept c r k (work f')"
    | (land) n off len endgame answer bs fails pk due w res where "in_phase f n (Asking off len endgame)"
      "fetch_proved decode answer off len = Inr bs" "length bs = min (sz - off) UNIT_SIZE"
      "land_unit fails pk (shareable (index_of f n)) due (index_of f n) off bs (work f) = (w, res)"
      "indices f' = indices f" "work f' = w"
  using assms
proof (cases rule: fetch_step.cases)
  case (take_unit n order f1 off len endgame)
  then show thesis using choose_move_work[of sz order n f f1] same by (simp add: state_simps)
next
  case (look_again n order m)
  then show thesis using choose_move_work[of sz order n f f'] same by simp
next
  case (let_go n order f1 m)
  then show thesis using choose_move_work[of sz order n f f1] indices_leave[of n f1 f'] same by simp
next
  case (unit_lands n off len endgame answer bs fails kept due w)
  then show thesis using land[of n off len endgame answer bs] by (simp add: state_simps)
next
  case (other_copy_won n off len endgame answer bs fails kept due w)
  then show thesis using land[of n off len endgame answer bs] by (simp add: state_simps)
next
  case (write_fails n off len endgame answer bs fails kept due w)
  then show thesis using land[of n off len endgame answer bs] by (simp add: state_simps)
next
  case (failed_write_returns n off len endgame w)
  then show thesis using indices_leave[of n "f\<lparr>work := give_back off len (index_of f n) endgame w\<rparr>" f'] same by (simp add: state_simps)
next
  case (busy n off len endgame answer f1)
  then show thesis using indices_leave[of n f1 f'] same by (auto simp: state_simps)
next
  case (not_held_returns n off len endgame f1)
  then show thesis using indices_leave[of n f1 f'] same by (auto simp: state_simps split: if_splits)
next
  case (failed_returns n off len endgame)
  then show thesis
    using indices_leave[of n "f\<lparr>work := give_back off len (index_of f n) endgame (work f)\<rparr>" f'] same by (simp add: state_simps)
qed (use same indices_leave kept_stop in \<open>auto simp: state_simps note_failure_work\<close>)

lemma fetch_inv_step:
  assumes "decodes_to decode content" "fetch_step (length content) decode shareable f f'" "fetch_inv content root n f"
  shows "fetch_inv content root n f'"
proof -
  have ok: "fetch_ok (length content) f" "fetch_ok (length content) f'"
    using assms(3) fetch_step_refines[OF assms(2)] by (auto simp: fetch_inv_def)
  from assms(2) show ?thesis
  proof (cases rule: fetch_step_work)
    case same
    then show ?thesis using assms(3) ok by (simp add: fetch_inv_def lanes_of_sources_iff)
  next
    case (land m off len endgame answer bs fails pk due w res)
    have "Some (off, endgame) \<in> set (claims_in f)" using land(1) claim_in_set[of m "claims_in f"] claims_nth(1)[of m f] claims_nth(2)[of f] by (simp add: phases_nth)
    then have off: "off \<in> units (length content)" using pool_invD(4)[OF fetch_okD(1)[OF ok(1)]] by simp
    have i: "index_of f m < length (served (work f))" using assms(3) land(1) by (simp add: fetch_inv_def lanes_of_sources_def)
    have "kept content root n w"
      using kept_land_unit[OF _ off verified_unit[OF assms(1) land(2,3)] i land(4)] assms(3) by (simp add: fetch_inv_def)
    then show ?thesis
      using assms(3) ok(2) served_land_unit[OF land(4)] land(5,6) by (simp add: fetch_inv_def lanes_of_sources_iff)
  qed
qed

lemma fetch_inv_steps:
  assumes "(fetch_step (length content) decode shareable)\<^sup>*\<^sup>* f f'" "decodes_to decode content" "fetch_inv content root n f"
  shows "fetch_inv content root n f'"
  using assms(1,3) by (induction rule: rtranclp_induct) (auto intro: fetch_inv_step[OF assms(2)])

section \<open>The start\<close>

lemma collect_units_props:
  "offset mod UNIT_SIZE = 0 \<Longrightarrow>
    set (collect_units sz D offset) = {(off, min (sz - off) UNIT_SIZE) | off. off \<in> units sz - D \<and> offset \<le> off} \<and>
    distinct (map fst (collect_units sz D offset))"
proof (induction sz D offset rule: collect_units.induct)
  case (1 sz D offset)
  let ?rest = "collect_units sz D (offset + UNIT_SIZE)"
  show ?case
  proof (cases "offset < sz")
    case True
    have IH: "set ?rest = {(off, min (sz - off) UNIT_SIZE) | off. off \<in> units sz - D \<and> offset + UNIT_SIZE \<le> off}"
      "distinct (map fst ?rest)" using 1 True by auto
    have u: "offset \<in> units sz" using True 1(2) by (simp add: units_def)
    have "off \<in> units sz \<Longrightarrow> offset \<le> off \<longleftrightarrow> off = offset \<or> offset + UNIT_SIZE \<le> off" for off
      using units_apart[OF u, of off] UNIT_SIZE_pos by (cases "off = offset") auto
    then have split: "{off \<in> units sz - D. offset \<le> off} =
        (if offset \<in> D then {} else {offset}) \<union> {off \<in> units sz - D. offset + UNIT_SIZE \<le> off}" using u by auto
    let ?g = "\<lambda>off. (off, min (sz - off) UNIT_SIZE)"
    have e: "collect_units sz D offset = (if offset \<notin> D then [?g offset] else []) @ ?rest"
      by (subst collect_units.simps) (simp add: True)
    have r: "set ?rest = ?g ` {off \<in> units sz - D. offset + UNIT_SIZE \<le> off}" unfolding IH(1) by blast
    have "offset \<notin> fst ` set ?rest" unfolding r by (auto simp: UNIT_SIZE_def)
    then have "distinct (map fst (collect_units sz D offset))" unfolding e using IH(2) by simp
    moreover have "set (collect_units sz D offset) = ?g ` {off \<in> units sz - D. offset \<le> off}"
      unfolding e split image_Un set_append r by simp
    ultimately show ?thesis by (simp add: setcompr_eq_image)
  next
    case False
    then show ?thesis by (subst (1 2) collect_units.simps) (auto simp: units_def)
  qed
qed

lemma collect_units_start:
  "set (collect_units sz D 0) = {(off, min (sz - off) UNIT_SIZE) | off. off \<in> units sz - D}" "distinct (map fst (collect_units sz D 0))"
  using collect_units_props[of 0 sz D] by simp_all

lemma start_lanes:
  "l \<in> set (lanes (start_fetch max_lanes root sz D lent k before stored t)) \<Longrightarrow> l_phase l = Starting \<and> l_index l < length max_lanes"
  by (auto simp: start_fetch_def Let_def source_lanes_def set_zip)

lemma start_queues:
  "work_queues (work (start_fetch max_lanes root sz D lent k before stored t)) = (rev (collect_units sz D 0), {}, D, False)"
  by (simp add: start_fetch_def Let_def work_queues_def)

lemma start_ok:
  assumes "D \<subseteq> units sz"
  shows "fetch_ok sz (start_fetch max_lanes root sz D lent k before stored t)" (is "fetch_ok sz ?f")
proof -
  have c: "c = None" if "c \<in> set (claims_in ?f)" for c using that start_lanes[of _ max_lanes root sz D lent k before stored t]
    by (auto simp: claims_in_def)
  have "fst ` set (collect_units sz D 0) = units sz - D" using collect_units_start(1)[of sz D] by (force simp: image_iff)
  then have parts: "waiting (pool_of ?f) = units sz - D" "flying (pool_of ?f) = {}" "on_disk (pool_of ?f) = D"
    by (simp_all add: pool_of_def start_queues pool_view_def del: pool_of_parts)
  have "pool_inv (units sz) (pool_of ?f)"
    unfolding pool_inv_def divided_def claims_ok_def parts using assms c by auto
  moreover have "queue_ok sz (rev (collect_units sz D 0))"
    using collect_units_start[of sz D] by (auto simp: queue_ok_def rev_map[symmetric])
  moreover have "phase_ok sz X p" if "p \<in> set (phases ?f)" for p X
    using that start_lanes[of _ max_lanes root sz D lent k before stored t] by (fastforce simp: phases_def)
  ultimately show ?thesis by (simp add: fetch_ok_def fst_queues(1)[symmetric] start_queues del: fst_queues)
qed

subsection \<open>A resumed fetch\<close>

text \<open>
  A record is honest about a destination when every unit it lists is there as the content has it, and
  only listed units are noted as lent.
\<close>

definition honest :: "bytes \<Rightarrow> bytes \<Rightarrow> bytes \<Rightarrow> rhstate option \<Rightarrow> bool" where
  "honest content root before stored \<longleftrightarrow>
     (\<forall>st. load_rhstate stored root (length content) = Some st \<longrightarrow>
        (\<forall>off \<in> st_done st. unit_bytes off before = unit_bytes off content) \<and> st_borrowed st \<subseteq> st_done st)"

lemma unit_bytes_resized:
  assumes "off \<in> units (length content)" "unit_bytes off before = unit_bytes off content"
  shows "unit_bytes off (take (length content) before @ replicate (length content - length before) x) = unit_bytes off content"
proof -
  let ?n = "length content"
  have off: "off < ?n" using assms(1) by (simp add: units_def)
  have len: "min (length before - off) UNIT_SIZE = min (?n - off) UNIT_SIZE"
    using arg_cong[OF assms(2), of length] by (simp add: unit_bytes_def min.commute)
  show ?thesis
  proof (cases "off + UNIT_SIZE \<le> ?n")
    case True
    then have "off + UNIT_SIZE \<le> length before" using len UNIT_SIZE_pos by linarith
    moreover from this have "UNIT_SIZE \<le> length before - off" by linarith
    moreover have "UNIT_SIZE \<le> ?n - off" using True by linarith
    ultimately show ?thesis using True assms(2) by (simp add: unit_bytes_def drop_take)
  next
    case False
    then have "length before = ?n" using len off by auto
    then show ?thesis using assms(2) by simp
  qed
qed

lemma held_fold: "held_units (fold (\<lambda>i bits. set_unit_bit bits i) held bits) = set held \<union> held_units bits"
  by (induction held arbitrary: bits) (auto simp: held_set_bit)

lemma held_nil [simp]: "held_units [] = {}"
  by (simp add: held_units_def unit_bit_def)

lemma resume_of_units: "resume_of stored root sz = (D, lent) \<Longrightarrow> D \<subseteq> units sz"
  by (auto simp: resume_of_def load_rhstate_def units_def split: option.splits if_splits)

lemma shared_start:
  assumes "D \<subseteq> units sz" "set order \<subseteq> D" "u \<in> set (shared_units sz lent proven order)"
  shows "u * UNIT_SIZE \<in> D - lent"
proof -
  obtain off where off: "off \<in> set order" "off \<notin> lent" "u = off div UNIT_SIZE"
    using assms(3) by (auto simp: shared_units_def UNIT_SIZE_def HAVE_UNIT_def)
  then have "off mod UNIT_SIZE = 0" using assms(1,2) by (auto simp: units_def)
  then have "u * UNIT_SIZE = off" using off(3) div_mult_mod_eq[of off UNIT_SIZE] by simp
  then show ?thesis using off assms(2) by auto
qed

lemma units_finite: "D \<subseteq> units sz \<Longrightarrow> finite D"
  by (rule finite_subset[of _ "{..<sz}"]) (auto simp: units_def)

lemma resume_fetch_inv:
  assumes "honest content root before stored" "set order \<subseteq> fst (resume_of stored root (length content))"
  shows "fetch_inv content root (card (fst (resume_of stored root (length content))))
    (resume_fetch max_lanes root (length content) seeds proofs dest proofs_at proven order before stored t)"
proof -
  let ?n = "length content"
  obtain D lent where D: "resume_of stored root ?n = (D, lent)" by fastforce
  have u: "D \<subseteq> units ?n" by (rule resume_of_units[OF D])
  have rec: "st_done st = D \<and> st_borrowed st = lent" if "load_rhstate stored root ?n = Some st" for st
    using D that by (simp add: resume_of_def)
  have lent: "lent \<subseteq> D" and bytes: "\<forall>off \<in> D. unit_bytes off before = unit_bytes off content"
    using assms(1) D by (auto simp: honest_def resume_of_def split: option.splits)
  define k where "k = \<lparr>k_state = True, k_proofs = proofs,
    k_sharing = snd (share_through seeds proofs root ?n dest proofs_at (shared_units ?n lent proven order))\<rparr>"
  let ?f = "start_fetch max_lanes root ?n D lent k before stored t"
  have f: "resume_fetch max_lanes root ?n seeds proofs dest proofs_at proven order before stored t = ?f"
    by (simp add: resume_fetch_def D k_def)
  have "has_content content (work ?f)"
    using u bytes unit_bytes_resized[of _ content before 0] by (auto simp: has_content_def start_fetch_def Let_def k_def)
  moreover have "recorded root ?n (work ?f)" using rec lent by (simp add: recorded_def start_fetch_def Let_def k_def)
  moreover have "x * UNIT_SIZE \<in> D - lent" if "k_sharing k = Some bits" "x \<in> held_units bits" for bits x
    using shared_start[OF u, of order x lent proven] that assms(2) D
    by (auto simp: k_def share_through_def held_fold Let_def split: option.splits if_splits prod.splits)
  then have "shares_own (work ?f)" using lent by (simp add: shares_own_def start_fetch_def Let_def)
  moreover have "counted (card D) (work ?f)" using units_finite[OF u] by (simp add: counted_def start_fetch_def Let_def sum_list_replicate)
  moreover have "lanes_of_sources ?f" using start_lanes[of _ max_lanes root ?n D lent k before stored t]
    by (auto simp: lanes_of_sources_def) (simp add: start_fetch_def Let_def)
  ultimately show ?thesis using start_ok[OF u] by (simp add: f D fetch_inv_def kept_def)
qed

section \<open>What a fetch delivers\<close>

lemma fetch_inv_units: "fetch_inv content root n f \<Longrightarrow> pending (work f) = [] \<Longrightarrow> in_flight (work f) = {} \<Longrightarrow> unit_done (work f) = units (length content)"
  using pool_invD(1)[OF fetch_okD(1), of "length content" f] by (simp add: fetch_inv_def)

lemma outcome_ok: "fetch_outcome labels sz s = Inr report \<Longrightarrow>
    pending s = [] \<and> in_flight s = {} \<and> report = \<lparr>r_bytes = sz, per_source = zip labels (served s), r_borrowed = (borrowed s \<noteq> {})\<rparr>"
  by (auto simp: fetch_outcome_def split: option.splits if_splits)

lemma fetch_inv_whole:
  assumes "fetch_inv content root n f" "pending (work f) = []" "in_flight (work f) = {}"
  shows "dest_file (work f) = content" "sum_list (served (work f)) + n = card (units (length content))"
  using assms(1) fetch_inv_units[OF assms] unit_bytes_all[of "dest_file (work f)" content]
  by (auto simp: fetch_inv_def kept_def has_content_def counted_def)

lemma refine_steps:
  assumes "(fetch_step sz decode shareable)\<^sup>*\<^sup>* f f'" "fetch_ok sz f"
  shows "pool_step\<^sup>*\<^sup>* (pool_of f) (pool_of f') \<and> fetch_ok sz f'"
  using assms by (induction rule: rtranclp_induct) (auto dest: fetch_step_refines intro: rtranclp.rtrancl_into_rtrancl)

lemma lanes_gone:
  assumes ok: "fetch_ok sz f" and gone: "\<forall>l \<in> set (lanes f). l_phase l = Gone" and run: "\<not> stopped (work f)"
  shows "in_flight (work f) = {} \<and> length (pending (work f)) = card (units sz - unit_done (work f))"
proof -
  have "c = None" if "c \<in> set (claims_of (pool_of f))" for c using that gone by (auto simp: claims_in_def)
  then have p: "in_flight (work f) = {}" "fst ` set (pending (work f)) = units sz - unit_done (work f)"
    using pool_idle[OF fetch_okD(1)[OF ok]] run by auto
  have "length (pending (work f)) = card (set (map fst (pending (work f))))"
    using fetch_okD(2)[OF ok] by (simp add: queue_ok_def distinct_card[of "map fst (pending (work f))"] del: set_map)
  then show ?thesis using p by simp
qed

subsection \<open>A fetch of one unit\<close>

text \<open>A run used to instantiate the theorems: one source, one unit, from the first probe to the landing.\<close>

definition demo_content :: bytes where "demo_content = [1, 2, 3]"

definition demo_decode :: bao_decoder where
  "demo_decode n off len stream = (if stream = take (length stream) (drop off demo_content) then Some stream else None)"

definition demo_start :: fetch where
  "demo_start = resume_fetch [1] [9] 3 (Some (\<lambda>_. None)) True [] [] [] [] [] None (begin_fetch new_tracker [9] 3)"

definition demo_asking :: fetch where
  "demo_asking = (let t = queried (track demo_start) 0 0 (Inr None);
     f = set_phase 0 Ready (demo_start\<lparr>track := the t\<rparr>) in set_phase 0 (Asking 0 3 False) (fst (choose_move 3 [] 0 f)))"

definition demo_end :: fetch where
  "demo_end = unit_landed_in 0 0 (demo_asking\<lparr>work := fst (land_unit None True True False 0 0 demo_content (work demo_asking))\<rparr>)"

lemma demo_decodes: "decodes_to demo_decode demo_content"
  by (simp add: decodes_to_def demo_decode_def)

lemma demo_size [simp]: "length demo_content = 3"
  by (simp add: demo_content_def)

text \<open>The queue of a file of one unit.\<close>

lemma collect_one: "0 < sz \<Longrightarrow> sz \<le> UNIT_SIZE \<Longrightarrow> collect_units sz {} 0 = [(0, sz)]"
  by (subst collect_units.simps, subst collect_units.simps) (simp add: min_def)

lemma demo_collect [simp]: "collect_units 3 {} 0 = [(0, 3)]"
  by (rule collect_one) (simp_all add: UNIT_SIZE_def)

definition demo_source :: source where
  "demo_source = \<lparr>src_holds = Some HoldsAll, src_lanes = 1, initialized = True, retired = False, stale = False, generation = 0\<rparr>"

definition demo_lane :: "lane_phase \<Rightarrow> lane" where
  "demo_lane p = \<lparr>l_index = 0, l_phase = p, l_misses = 0, l_completed = 0\<rparr>"

lemmas demo_eval = demo_start_def resume_fetch_def resume_of_def load_rhstate_def share_through_def shared_units_def add_partial_def start_fetch_def source_lanes_def
  initialize_sources_def begin_fetch_def new_tracker_def publish_tracker_def live_def apply_reply_def queried_def sat_add64_def

lemma replicate_3: "replicate 3 x = [x, x, x]"
  by (simp add: numeral_3_eq_3)

lemma demo_start_eq: "demo_start = \<lparr>
    work = \<lparr>pending = [(0, 3)], in_flight = {}, working = {}, unit_done = {}, persist_to = Some ([9], 3), unpersisted = 0,
      stopped = False, served = [0], has_proofs = True, sharing = Some [], local_failure = None, borrowed = {},
      dest_file = [0, 0, 0], state_file = None, completed = False\<rparr>,
    track = \<lparr>t_root = Some [9], t_size = 3, revision = 2, t_phase = Fetching, t_sources = [\<lparr>src_holds = None, src_lanes = 1,
      initialized = False, retired = False, stale = False, generation = 0\<rparr>], t_resumed = {}, t_verified = {},
      diagnostics = \<lparr>rejections = [], omitted = 0\<rparr>\<rparr>,
    lanes = [demo_lane Starting]\<rparr>"
  by (simp add: demo_eval demo_lane_def U64_MAX_def replicate_3 Let_def)

lemma demo_asking_eq: "demo_asking = demo_start\<lparr>
    work := (work demo_start)\<lparr>pending := [], in_flight := {0}, working := {(0, 0)}\<rparr>,
    track := (track demo_start)\<lparr>revision := 3, t_sources := [demo_source]\<rparr>, lanes := [demo_lane (Asking 0 3 False)]\<rparr>"
  by (simp add: demo_asking_def demo_start_eq queried_def live_def apply_reply_def publish_tracker_def sat_add64_def U64_MAX_def
      set_phase_def choose_move_def source_holds_def next_unit_def holds_covers_def demo_source_def demo_lane_def)

lemma demo_asks: "(fetch_step 3 demo_decode (\<lambda>_. True))\<^sup>*\<^sup>* demo_start demo_asking"
proof -
  let ?f = "demo_start\<lparr>track := (track demo_start)\<lparr>revision := 3, t_sources := [demo_source]\<rparr>\<rparr>"
  let ?step = "fetch_step 3 demo_decode (\<lambda>_. True)"
  have "queried (track demo_start) 0 0 (Inr None) = Some (track ?f)"
    by (simp add: demo_start_eq queried_def live_def apply_reply_def publish_tracker_def sat_add64_def U64_MAX_def demo_source_def)
  then have 1: "?step demo_start ?f" using fetch_step.probed[of demo_start] by simp
  have 2: "?step ?f (set_phase 0 Ready ?f)"
    by (rule fetch_step.start_ready[where s = demo_source]) (simp_all add: demo_start_eq demo_lane_def source_of_def live_def demo_source_def)
  let ?g = "(set_phase 0 Ready ?f)\<lparr>work := (work demo_start)\<lparr>pending := [], in_flight := {0}, working := {(0, 0)}\<rparr>\<rparr>"
  have mv: "choose_move 3 [] 0 (set_phase 0 Ready ?f) = (?g, NextUnit 0 3 False)"
    by (simp add: demo_start_eq choose_move_def source_holds_def live_def next_unit_def holds_covers_def demo_source_def set_phase_def demo_lane_def)
  have g: "demo_asking = set_phase 0 (Asking 0 3 False) ?g"
    by (simp add: demo_asking_eq demo_start_eq set_phase_def demo_lane_def)
  have 3: "?step (set_phase 0 Ready ?f) demo_asking" unfolding g
    by (rule fetch_step.take_unit[OF _ _ _ mv]) (simp_all add: demo_start_eq set_phase_def demo_lane_def)
  from 1 2 3 show ?thesis by (meson converse_rtranclp_into_rtranclp rtranclp.rtrancl_refl)
qed

lemma demo_land: "land_unit None True True False 0 0 demo_content (work demo_asking) =
    ((work demo_asking)\<lparr>in_flight := {}, working := {}, unit_done := {0}, unpersisted := 1, served := [1], sharing := Some [1], dest_file := demo_content,
       completed := True\<rparr>, Some True)"
  by (simp add: land_unit_def demo_asking_eq demo_start_eq write_at_def demo_content_def landed_def settle_def PERSIST_EVERY_UNITS_def set_unit_bit_def)

lemma demo_run: "(fetch_step 3 demo_decode (\<lambda>_. True))\<^sup>*\<^sup>* demo_start demo_end"
proof -
  let ?answer = "Inr [\<lparr>p_offset = 0, p_len = 3, p_size = 3, p_stream = demo_content\<rparr>] :: peer_error + bao_piece list"
  have "fetch_proved demo_decode ?answer 0 3 = Inr demo_content"
    by (simp add: fetch_proved_def demo_decode_def demo_content_def)
  moreover have ph: "in_phase demo_asking 0 (Asking 0 3 False)" "index_of demo_asking 0 = 0" "length demo_content = min (3 - 0) UNIT_SIZE"
    by (simp_all add: demo_asking_eq demo_lane_def UNIT_SIZE_def)
  moreover have "land_unit None True True False (index_of demo_asking 0) 0 demo_content (work demo_asking) =
      (fst (land_unit None True True False 0 0 demo_content (work demo_asking)), Some True)"
    unfolding ph(2) demo_land by simp
  ultimately have "fetch_step 3 demo_decode (\<lambda>_. True) demo_asking demo_end" unfolding demo_end_def by (intro fetch_step.unit_lands)
  with demo_asks show ?thesis by (rule rtranclp.rtrancl_into_rtrancl)
qed

lemma demo_end_work: "work demo_end = (work demo_asking)\<lparr>in_flight := {}, working := {}, unit_done := {0}, unpersisted := 1,
    served := [1], sharing := Some [1], dest_file := demo_content, completed := True\<rparr>"
  unfolding demo_end_def demo_land by (simp add: unit_landed_in_def)

lemma demo_outcome: "fetch_outcome [lit ''peer''] 3 (work demo_end) = Inr \<lparr>r_bytes = 3, per_source = [(lit ''peer'', 1)], r_borrowed = False\<rparr>"
  unfolding demo_end_work by (simp add: demo_asking_eq demo_start_eq fetch_outcome_def)

lemma demo_honest: "honest demo_content [9] [] None" "set [] = fst (resume_of None [9] (length demo_content))"
  by (simp_all add: honest_def load_rhstate_def resume_of_def)

lemmas demo_resumed = demo_run[unfolded demo_start_def, folded demo_size]

text \<open>A source that answers its probe with a denial: its lane leaves, and the unit stays in the queue.\<close>

definition demo_refused :: fetch where
  "demo_refused = demo_start\<lparr>track := (track demo_start)\<lparr>revision := 4, t_sources := [\<lparr>src_holds = None, src_lanes = 0,
     initialized = True, retired = True, stale = False, generation = 1\<rparr>]\<rparr>, lanes := [demo_lane Gone]\<rparr>"

lemma demo_refusal: "(fetch_step 3 demo_decode (\<lambda>_. True))\<^sup>*\<^sup>* demo_start demo_refused"
proof -
  let ?s = "\<lparr>src_holds = None, src_lanes = 1, initialized = True, retired = True, stale = False, generation = 0\<rparr>"
  let ?f = "demo_start\<lparr>track := (track demo_start)\<lparr>revision := 3, t_sources := [?s]\<rparr>\<rparr>"
  have "queried (track demo_start) 0 0 (Inl (Refused STATUS_DENIED)) = Some (track ?f)"
    by (simp add: demo_start_eq queried_def live_def apply_reply_def publish_tracker_def sat_add64_def U64_MAX_def)
  then have 1: "fetch_step 3 demo_decode (\<lambda>_. True) demo_start ?f" using fetch_step.probed[of demo_start] by simp
  have 2: "fetch_step 3 demo_decode (\<lambda>_. True) ?f demo_refused"
    by (rule fetch_step.start_dead[where n = 0 and s = ?s])
      (simp_all add: demo_start_eq demo_lane_def source_of_def live_def leave_fetch_def leave_lane_def set_phase_def demo_refused_def
        retire_def publish_tracker_def sat_add64_def U64_MAX_def)
  from 1 2 show ?thesis by (meson converse_rtranclp_into_rtranclp rtranclp.rtrancl_refl)
qed

section \<open>Theorems\<close>

text \<open>
  C20. Every fetch, whatever the answers, the timing, the failed writes and the moment it is dropped, runs
  as the pool of units allows: each step is a step of the pool, so no unit is ever lost, queued twice, or
  in flight without an owner while the fetch runs.
\<close>

theorem fetch_refines_pool:
  assumes "finished \<subseteq> units sz"
    and "(fetch_step sz decode shareable)\<^sup>*\<^sup>* (start_fetch max_lanes root sz finished lent k before stored t) f"
  shows "pool_step\<^sup>*\<^sup>* (pool_of (start_fetch max_lanes root sz finished lent k before stored t)) (pool_of f) \<and>
    pool_inv (units sz) (pool_of f)"
  using refine_steps[OF assms(2) start_ok[OF assms(1)]] fetch_okD(1) by blast

lemma demo_start_is: "demo_start = start_fetch [1] [9] 3 {} {} \<lparr>k_state = True, k_proofs = True, k_sharing = Some []\<rparr> [] None
    (begin_fetch new_tracker [9] 3)"
  by (simp add: demo_start_def resume_fetch_def resume_of_def load_rhstate_def share_through_def add_partial_def shared_units_def)

theorem fetch_refines_pool_witness:
  "pool_step\<^sup>*\<^sup>* (pool_of demo_start) (pool_of demo_end) \<and> pool_inv (units 3) (pool_of demo_end)"
  using fetch_refines_pool[of "{}" 3 demo_decode "\<lambda>_. True" "[1]" "[9]" "{}", OF _ demo_run[unfolded demo_start_is]] demo_start_is by simp

text \<open>
  C21. A resumed fetch that reports success, from a record that is honest about the destination and with a
  decoder that yields only the content's bytes, leaves exactly the content at the destination; it passes
  the final hash, its record is removed, it is seeded whole exactly when nothing was lent, and the
  per-source counts add up to the units that were missing at the start.
\<close>

theorem swarm_fetch_delivers:
  assumes "decodes_to decode content" and "honest content root before stored"
    and "set order = fst (resume_of stored root (length content))"
    and "(fetch_step (length content) decode shareable)\<^sup>*\<^sup>*
      (resume_fetch max_lanes root (length content) seeds proofs dest proofs_at proven order before stored t) f"
    and "fetch_outcome labels (length content) (work f) = Inr report" and "hash content = root"
  shows "finish_resumable hash root (length content) (fetch_outcome labels (length content) (work f)) (work f) =
      (Inr report, Some content, None, content \<noteq> [] \<and> borrowed (work f) = {}) \<and>
    r_bytes report = length content \<and>
    sum_list (served (work f)) + card (fst (resume_of stored root (length content))) = card (units (length content))"
proof -
  have inv: "fetch_inv content root (card (fst (resume_of stored root (length content)))) f"
    using fetch_inv_steps[OF assms(4,1) resume_fetch_inv[OF assms(2)]] assms(3) by simp
  note ok = outcome_ok[OF assms(5)]
  show ?thesis using fetch_inv_whole[OF inv] ok assms(5,6) by (auto simp: finish_resumable_def)
qed

theorem swarm_fetch_delivers_witness:
  "finish_resumable (\<lambda>_. [9]) [9] 3 (fetch_outcome [lit ''peer''] 3 (work demo_end)) (work demo_end) =
     (Inr \<lparr>r_bytes = 3, per_source = [(lit ''peer'', 1)], r_borrowed = False\<rparr>, Some demo_content, None, True) \<and>
   sum_list (served (work demo_end)) = card (units 3)"
proof -
  have "demo_content \<noteq> []" "borrowed (work demo_end) = {}" by (simp_all add: demo_content_def demo_end_work demo_asking_eq demo_start_eq)
  then show ?thesis
    using swarm_fetch_delivers[OF demo_decodes demo_honest demo_resumed demo_outcome[folded demo_size], of "\<lambda>_. [9]"] demo_honest(2) by simp
qed

text \<open>
  C22. At every moment of a resumed fetch, the record on disk is honest about the destination on disk: a
  fetch that is killed there and resumed skips only units whose bytes are the content's. An honest record
  at the start is all it takes, so the guarantee carries over any number of interruptions.
\<close>

theorem resume_record_honest:
  assumes "decodes_to decode content" and "honest content root before stored"
    and "set order = fst (resume_of stored root (length content))"
    and "(fetch_step (length content) decode shareable)\<^sup>*\<^sup>*
      (resume_fetch max_lanes root (length content) seeds proofs dest proofs_at proven order before stored t) f"
  shows "honest content root (dest_file (work f)) (state_file (work f))"
proof -
  have "kept content root (card (fst (resume_of stored root (length content)))) (work f)"
    using fetch_inv_steps[OF assms(4,1) resume_fetch_inv[OF assms(2)]] assms(3) by (simp add: fetch_inv_def)
  then show ?thesis by (auto simp: honest_def kept_def has_content_def recorded_def)
qed

theorem resume_record_honest_witness:
  "honest demo_content [9] (dest_file (work (stop_fetch demo_end))) (state_file (work (stop_fetch demo_end))) \<and>
   state_file (work (stop_fetch demo_end)) = Some \<lparr>st_root = [9], st_size = 3, st_done = {0}, st_borrowed = {}\<rparr>"
proof -
  have "honest demo_content [9] (dest_file (work (stop_fetch demo_end))) (state_file (work (stop_fetch demo_end)))"
    by (rule resume_record_honest[OF demo_decodes demo_honest rtranclp.rtrancl_into_rtrancl[OF demo_resumed fetch_step.dropped]])
  moreover have "state_file (work (stop_fetch demo_end)) = Some \<lparr>st_root = [9], st_size = 3, st_done = {0}, st_borrowed = {}\<rparr>"
    unfolding stop_fetch_def Let_def demo_end_work by (simp add: demo_asking_eq demo_start_eq persist_def write_record_def)
  ultimately show ?thesis by blast
qed

text \<open>
  C23. What a fetch offers to other peers while it runs are units that have landed with the content's own
  bytes and that no source merely lent: a unit from a source whose bytes may not be passed on never shows
  in the shared bitmap, in this fetch or after a resume.
\<close>

theorem shared_units_owned:
  assumes "decodes_to decode content" and "honest content root before stored"
    and "set order = fst (resume_of stored root (length content))"
    and "(fetch_step (length content) decode shareable)\<^sup>*\<^sup>*
      (resume_fetch max_lanes root (length content) seeds proofs dest proofs_at proven order before stored t) f"
    and "sharing (work f) = Some bits" and "unit_bit bits u"
  shows "u * UNIT_SIZE \<in> unit_done (work f) \<and> u * UNIT_SIZE \<notin> borrowed (work f) \<and>
    unit_bytes (u * UNIT_SIZE) (dest_file (work f)) = unit_bytes (u * UNIT_SIZE) content"
proof -
  have "kept content root (card (fst (resume_of stored root (length content)))) (work f)"
    using fetch_inv_steps[OF assms(4,1) resume_fetch_inv[OF assms(2)]] assms(3) by (simp add: fetch_inv_def)
  then show ?thesis using assms(5,6) by (auto simp: kept_def has_content_def shares_own_def held_units_def)
qed

theorem shared_units_owned_witness:
  "unit_bit [1] 0 \<and> 0 \<in> unit_done (work demo_end) \<and> 0 \<notin> borrowed (work demo_end) \<and>
   unit_bytes 0 (dest_file (work demo_end)) = unit_bytes 0 demo_content"
proof -
  have "sharing (work demo_end) = Some [1]" unfolding demo_end_work by simp
  moreover have "unit_bit [1] 0" by (simp add: unit_bit_def)
  ultimately show ?thesis
    using shared_units_owned[OF demo_decodes demo_honest demo_resumed, of "[1]" 0] by simp
qed

text \<open>
  When every lane has left a fetch that was not dropped, the outcome is exact: with a local failure it
  is that failure, with all units landed it is success, and otherwise the error counts precisely the
  units that are not on disk; nothing is left marked as in flight.
\<close>

lemma fetch_failure_exact:
  assumes "finished \<subseteq> units sz"
    and "(fetch_step sz decode shareable)\<^sup>*\<^sup>* (start_fetch max_lanes root sz finished lent k before stored t) f"
    and "\<forall>l \<in> set (lanes f). l_phase l = Gone" and "\<not> stopped (work f)"
  shows "fetch_outcome labels sz (work f) =
    (case local_failure (work f) of
       Some e \<Rightarrow> Inl e
     | None \<Rightarrow>
         if units sz \<subseteq> unit_done (work f)
         then Inr \<lparr>r_bytes = sz, per_source = zip labels (served (work f)), r_borrowed = (borrowed (work f) \<noteq> {})\<rparr>
         else Inl (VerifyError (lit ''no source could serve '' @ decimal (card (units sz - unit_done (work f))) @ lit '' remaining unit(s)'')))"
proof -
  have ok: "fetch_ok sz f" using refine_steps[OF assms(2) start_ok[OF assms(1)]] by blast
  note g = lanes_gone[OF ok assms(3,4)]
  have "units sz \<subseteq> unit_done (work f) \<longleftrightarrow> pending (work f) = []"
    using g units_finite[of "units sz - unit_done (work f)" sz] by (metis Diff_eq_empty_iff Diff_subset card_0_eq length_0_conv)
  then show ?thesis using g by (auto simp: fetch_outcome_def split: option.split)
qed

text \<open>
  What lane \<open>n\<close> could still fetch: a unit that is not on disk and that its source holds.
\<close>

definition wanted :: "nat \<Rightarrow> holds \<Rightarrow> fetch \<Rightarrow> nat \<Rightarrow> bool" where
  "wanted sz h f off \<longleftrightarrow> off \<in> units sz - unit_done (work f) \<and> holds_covers h off (min (sz - off) UNIT_SIZE)"

text \<open>
  C24. What a lane of a live source is told to do next is exact, in every state of a fetch that was not
  stopped and whatever the source holds, all of the file or a map of it. It gets a unit only if the
  unit is still missing, the source holds it and no lane of the same source is fetching it; the unit
  is one already in flight (an endgame copy) precisely when no such unit is waiting. It is told to look
  again for its siblings only when every missing unit the source holds is with them. It is told that
  the source has nothing to give only when units are missing and the source holds none of them, and
  that the work is done only when no unit is missing. So a lane whose source holds a missing unit is
  never sent away at this point; it can still leave later, after answers that fail, are busy for a
  minute or deny the unit too often.
\<close>

theorem next_move_exact:
  assumes "finished \<subseteq> units sz"
    and "(fetch_step sz decode shareable)\<^sup>*\<^sup>* (start_fetch max_lanes root sz finished lent k before stored t) f"
    and "source_holds (track f) (index_of f n) = Some (Some h)" and "\<not> stopped (work f)"
    and "set order = in_flight (work f)"
  shows "case snd (choose_move sz order n f) of
      NextUnit off len endgame \<Rightarrow>
        wanted sz h f off \<and> (off, index_of f n) \<notin> working (work f) \<and> (endgame \<longleftrightarrow> off \<in> in_flight (work f)) \<and>
        (endgame \<longleftrightarrow> \<not> (\<exists>off' \<in> fst ` set (pending (work f)). wanted sz h f off' \<and> (off', index_of f n) \<notin> working (work f)))
    | NextSibling \<Rightarrow>
        (\<forall>off. wanted sz h f off \<longrightarrow> (off, index_of f n) \<in> working (work f)) \<and>
        (\<exists>off \<in> units sz - unit_done (work f). (off, index_of f n) \<in> working (work f))
    | NextWait \<Rightarrow> \<not> units sz \<subseteq> unit_done (work f) \<and> (\<forall>off. \<not> wanted sz h f off)
    | NextDone \<Rightarrow> units sz \<subseteq> unit_done (work f)"
proof -
  have ok: "fetch_ok sz f" using refine_steps[OF assms(2) start_ok[OF assms(1)]] by blast
  obtain w m where nu: "next_unit order h sz (index_of f n) (work f) = (w, m)" by fastforce
  have m: "snd (choose_move sz order n f) = m" using assms(3,4) nu by (simp add: choose_move_def)
  note D = pool_invD(1-3)[OF fetch_okD(1)[OF ok]]
  have left: "units sz - unit_done (work f) = fst ` set (pending (work f)) \<union> in_flight (work f)"
    and apart: "fst ` set (pending (work f)) \<inter> in_flight (work f) = {}"
    using D by auto
  have len: "len = min (sz - off) UNIT_SIZE" if "(off, len) \<in> set (pending (work f))" for off len
    using fetch_okD(2)[OF ok] that by (auto simp: queue_ok_def)
  note W = wanted_def left
  from fetch_okD(4)[OF ok] assms(5) nu show ?thesis
  proof (cases rule: next_unit_cases)
    case (unit off len' xs ys)
    then have "(off, len') \<in> set (pending (work f))" by simp
    then have w: "wanted sz h f off" "off \<in> fst ` set (pending (work f))" using len unit(3) by (force simp: W)+
    then have "off \<notin> in_flight (work f)" using apart by blast
    with w unit(1,4) show ?thesis by (auto simp: m)
  next
    case (endgame off)
    have "\<not> (\<exists>off' \<in> fst ` set (pending (work f)). wanted sz h f off' \<and> (off', index_of f n) \<notin> working (work f))"
      using endgame(7) len by (fastforce simp: W)
    with endgame(1-4,6) show ?thesis by (simp add: m W)
  next
    case stuck
    have mine: "(off, index_of f n) \<in> working (work f)" if "wanted sz h f off" for off
    proof -
      from that have c: "holds_covers h off (min (sz - off) UNIT_SIZE)" "off \<notin> unit_done (work f)" by (simp_all add: wanted_def)
      from that consider "off \<in> fst ` set (pending (work f))" | "off \<in> in_flight (work f)" by (auto simp: W)
      then show ?thesis
      proof cases
        case 1
        then show ?thesis using stuck(4) len c(1) by fastforce
      next
        case 2
        then show ?thesis using stuck(5) c by blast
      qed
    qed
    have none: "\<not> wanted sz h f off" if "m = NextWait" for off
    proof
      assume off: "wanted sz h f off"
      from stuck(6) that have 1: "\<forall>(off, len) \<in> set (pending (work f)). (off, index_of f n) \<notin> working (work f)"
        and 2: "\<forall>off \<in> in_flight (work f). off \<in> unit_done (work f) \<or> \<not> holds_covers h off (min (sz - off) UNIT_SIZE)" by auto
      from off have "off \<in> in_flight (work f)" using 1 mine[OF off] by (auto simp: W)
      then show False using off 2 by (auto simp: wanted_def)
    qed
    show ?thesis
    proof (cases m)
      case NextSibling
      then show ?thesis using mine stuck(7) left by (auto simp: m)
    next
      case NextWait
      then show ?thesis using none stuck(3) by (simp add: m left flip: Diff_eq_empty_iff)
    next
      case NextDone
      then show ?thesis using stuck(3) left by (auto simp: m)
    qed (use stuck(2) in simp)
  qed
qed

theorem next_move_exact_witness:
  "\<exists>f. source_holds (track f) (index_of f 0) = Some (Some HoldsAll) \<and> in_flight (work f) = {0} \<and> \<not> units 3 \<subseteq> unit_done (work f) \<and>
     snd (choose_move 3 [0] 0 f) = NextSibling \<and> (\<forall>off. wanted 3 HoldsAll f off \<longrightarrow> (off, index_of f 0) \<in> working (work f))"
proof -
  have d: "source_holds (track demo_asking) (index_of demo_asking 0) = Some (Some HoldsAll)" "\<not> stopped (work demo_asking)"
    "in_flight (work demo_asking) = {0}" "unit_done (work demo_asking) = {}"
    by (simp_all add: demo_asking_eq demo_start_eq demo_lane_def source_holds_def demo_source_def live_def)
  moreover have "snd (choose_move 3 [0] 0 demo_asking) = NextSibling"
    by (simp add: choose_move_def d) (simp add: demo_asking_eq demo_start_eq demo_lane_def next_unit_def holds_covers_def)
  moreover have "0 \<in> units 3" by (simp add: units_def)
  ultimately show ?thesis
    using next_move_exact[of "{}" 3 demo_decode "\<lambda>_. True" "[1]" "[9]" "{}" _ "[]" None _ demo_asking 0 HoldsAll "[0]",
      OF _ demo_asks[unfolded demo_start_is]] by (intro exI[of _ demo_asking]) auto
qed

end
