(* ===== verification/Core_Dedup.thy ===== *)
theory Core_Dedup
  imports Prelude
begin

text \<open>
  The seen set of \<open>crates/server-core/src/dedup.rs\<close>: message identities of every network under one
  namespace, kept for a time window and up to a capacity, with reservations that a failed ingest gives
  back. Every method runs under the store's mutex and is one function. Clocks are \<open>i64\<close>, kept as \<open>int\<close>,
  with the wrap-around of the subtraction written out.
\<close>

section \<open>State\<close>

datatype seen_key =
    SeenEvent bytes | SeenFtn str | SeenMessageId str | SeenQwk u16 u32 | SeenQwkReply bytes | SeenSyndication str

record dedup =
  seen_at :: "(seen_key, int \<times> nat) fmap"
  seen_order :: "(int \<times> seen_key \<times> nat) list"
  window_ms :: int
  seen_capacity :: nat
  next_generation :: nat

definition new_dedup :: "int \<Rightarrow> nat \<Rightarrow> dedup" where
  "new_dedup window cap = \<lparr>seen_at = fmempty, seen_order = [], window_ms = window, seen_capacity = cap, next_generation = 0\<rparr>"

definition dedup_defaults :: dedup where
  "dedup_defaults = new_dedup (1000 * 60 * 60 * 24 * 30) 1000000"

definition wrap_i64 :: "int \<Rightarrow> int" where
  "wrap_i64 n = (n + 2 ^ 63) mod 2 ^ 64 - 2 ^ 63"

section \<open>Operations\<close>

text \<open>A key is dropped only while it still carries the generation of the entry that leaves the queue.\<close>

definition forget_key :: "seen_key \<Rightarrow> nat \<Rightarrow> (seen_key, int \<times> nat) fmap \<Rightarrow> (seen_key, int \<times> nat) fmap" where
  "forget_key key g m = (case fmlookup m key of Some (_, current) \<Rightarrow> if current = g then fmdrop key m else m | None \<Rightarrow> m)"

fun evict_old :: "int \<Rightarrow> (int \<times> seen_key \<times> nat) list \<Rightarrow> (seen_key, int \<times> nat) fmap \<Rightarrow>
    (int \<times> seen_key \<times> nat) list \<times> (seen_key, int \<times> nat) fmap" where
  "evict_old cutoff [] m = ([], m)"
| "evict_old cutoff ((ts, key, g) # order) m =
     (if ts \<ge> cutoff then ((ts, key, g) # order, m) else evict_old cutoff order (forget_key key g m))"

definition evict :: "int \<Rightarrow> dedup \<Rightarrow> dedup" where
  "evict now d =
     (let (order, m) = evict_old (wrap_i64 (now - window_ms d)) (seen_order d) (seen_at d)
      in d\<lparr>seen_order := order, seen_at := m\<rparr>)"

fun evict_over :: "nat \<Rightarrow> (int \<times> seen_key \<times> nat) list \<Rightarrow> (seen_key, int \<times> nat) fmap \<Rightarrow>
    (int \<times> seen_key \<times> nat) list \<times> (seen_key, int \<times> nat) fmap" where
  "evict_over cap [] m = ([], m)"
| "evict_over cap ((ts, key, g) # order) m =
     (if Suc (length order) > cap then evict_over cap order (forget_key key g m) else ((ts, key, g) # order, m))"

text \<open>\<open>record\<close>: the generation of a first sighting, \<open>None\<close> for a duplicate.\<close>

definition record_key :: "seen_key \<Rightarrow> int \<Rightarrow> dedup \<Rightarrow> dedup \<times> nat option" where
  "record_key key now d =
     (let d = evict now d in
      if fmlookup (seen_at d) key \<noteq> None then (d, None)
      else if next_generation d + 1 > U64_MAX then (d, None)
      else
        let g = next_generation d + 1;
            (order, m) = evict_over (seen_capacity d) (seen_order d @ [(now, key, g)]) (fmupd key (now, g) (seen_at d))
        in (d\<lparr>next_generation := g, seen_order := order, seen_at := m\<rparr>, Some g))"

definition check_and_record :: "seen_key \<Rightarrow> int \<Rightarrow> dedup \<Rightarrow> dedup \<times> bool" where
  "check_and_record key now d = (let (d', r) = record_key key now d in (d', r \<noteq> None))"

text \<open>A reservation: what it holds of the key, and whether it has been committed.\<close>

record reservation =
  res_key :: seen_key
  res_generation :: nat
  committed :: bool

definition reserve :: "seen_key \<Rightarrow> int \<Rightarrow> dedup \<Rightarrow> dedup \<times> reservation option" where
  "reserve key now d =
     (let (d', r) = record_key key now d
      in (d', map_option (\<lambda>g. \<lparr>res_key = key, res_generation = g, committed = False\<rparr>) r))"

definition commit :: "reservation \<Rightarrow> reservation" where
  "commit r = r\<lparr>committed := True\<rparr>"

definition drop_reservation :: "reservation \<Rightarrow> dedup \<Rightarrow> dedup" where
  "drop_reservation r d =
     (if committed r then d else d\<lparr>seen_at := forget_key (res_key r) (res_generation r) (seen_at d)\<rparr>)"

definition seen :: "seen_key \<Rightarrow> dedup \<Rightarrow> bool" where
  "seen key d \<longleftrightarrow> fmlookup (seen_at d) key \<noteq> None"

definition seen_len :: "dedup \<Rightarrow> nat" where
  "seen_len d = fcard (fmdom (seen_at d))"

section \<open>The invariant\<close>

text \<open>
  Every key that counts as seen has its own entry in the queue; the generations in the queue increase and
  none is from the future; the queue is within the capacity.
\<close>

definition tracked :: "dedup \<Rightarrow> bool" where
  "tracked d \<longleftrightarrow>
     (\<forall>key ts g. fmlookup (seen_at d) key = Some (ts, g) \<longrightarrow> (ts, key, g) \<in> set (seen_order d)) \<and>
     sorted_wrt (<) (map (\<lambda>(_, _, g). g) (seen_order d)) \<and>
     (\<forall>(_, _, g) \<in> set (seen_order d). g \<le> next_generation d)"

definition dedup_ok :: "dedup \<Rightarrow> bool" where
  "dedup_ok d \<longleftrightarrow> tracked d \<and> length (seen_order d) \<le> seen_capacity d"

lemma forget_lookup:
  "fmlookup (forget_key key g m) k = Some (ts, g') \<longleftrightarrow> fmlookup m k = Some (ts, g') \<and> (k = key \<longrightarrow> g' \<noteq> g)"
  by (auto simp: forget_key_def split: option.splits)

text \<open>Leaving entries are a prefix of the queue, and a key stays unless its own entry leaves.\<close>

lemma evict_old_split:
  "evict_old cutoff order m = (order', m') \<Longrightarrow>
   \<exists>gone. order = gone @ order' \<and> (\<forall>(ts, _, _) \<in> set gone. ts < cutoff) \<and>
     (\<forall>k ts g. fmlookup m' k = Some (ts, g) \<longleftrightarrow> fmlookup m k = Some (ts, g) \<and> (\<forall>(_, key, g') \<in> set gone. k = key \<longrightarrow> g \<noteq> g'))"
proof (induction cutoff order m rule: evict_old.induct)
  case (2 cutoff ts key g order m)
  show ?case
  proof (cases "ts \<ge> cutoff")
    case False
    then obtain gone where "order = gone @ order'" "\<forall>(ts, _, _) \<in> set gone. ts < cutoff"
      "\<forall>k ts g'. fmlookup m' k = Some (ts, g') \<longleftrightarrow>
        fmlookup (forget_key key g m) k = Some (ts, g') \<and> (\<forall>(_, key, g'') \<in> set gone. k = key \<longrightarrow> g' \<noteq> g'')"
      using 2 by auto
    then show ?thesis using False by (intro exI[of _ "(ts, key, g) # gone"]) (auto simp: forget_lookup)
  qed (use 2 in auto)
qed simp

lemma evict_over_split:
  "evict_over cap order m = (order', m') \<Longrightarrow>
   \<exists>gone. order = gone @ order' \<and> length order' = min cap (length order) \<and>
     (\<forall>k ts g. fmlookup m' k = Some (ts, g) \<longleftrightarrow> fmlookup m k = Some (ts, g) \<and> (\<forall>(_, key, g') \<in> set gone. k = key \<longrightarrow> g \<noteq> g'))"
proof (induction cap order m rule: evict_over.induct)
  case (2 cap ts key g order m)
  show ?case
  proof (cases "Suc (length order) > cap")
    case True
    then obtain gone where "order = gone @ order'" "length order' = min cap (length order)"
      "\<forall>k ts g'. fmlookup m' k = Some (ts, g') \<longleftrightarrow>
        fmlookup (forget_key key g m) k = Some (ts, g') \<and> (\<forall>(_, key, g'') \<in> set gone. k = key \<longrightarrow> g' \<noteq> g'')"
      using 2 by auto
    then show ?thesis using True by (intro exI[of _ "(ts, key, g) # gone"]) (auto simp: forget_lookup)
  qed (use 2 in auto)
qed simp

definition sheds :: "(int \<times> seen_key \<times> nat) list \<Rightarrow> dedup \<Rightarrow> dedup \<Rightarrow> bool" where
  "sheds gone d d' \<longleftrightarrow> seen_order d = gone @ seen_order d' \<and>
     (\<forall>k ts g. fmlookup (seen_at d') k = Some (ts, g) \<longleftrightarrow>
        fmlookup (seen_at d) k = Some (ts, g) \<and> (\<forall>(_, key, g') \<in> set gone. k = key \<longrightarrow> g \<noteq> g')) \<and>
     next_generation d' = next_generation d \<and> seen_capacity d' = seen_capacity d \<and> window_ms d' = window_ms d"

lemma evict_sheds:
  obtains gone where "sheds gone d (evict now d)" "\<forall>(ts, _, _) \<in> set gone. ts < wrap_i64 (now - window_ms d)"
proof -
  obtain order m where e: "evict_old (wrap_i64 (now - window_ms d)) (seen_order d) (seen_at d) = (order, m)" by fastforce
  obtain gone where g: "seen_order d = gone @ order" "\<forall>(ts, _, _) \<in> set gone. ts < wrap_i64 (now - window_ms d)"
    "\<forall>k ts g. fmlookup m k = Some (ts, g) \<longleftrightarrow> fmlookup (seen_at d) k = Some (ts, g) \<and> (\<forall>(_, key, g') \<in> set gone. k = key \<longrightarrow> g \<noteq> g')"
    using evict_old_split[OF e] by blast
  show thesis by (rule that[of gone]) (use e g in \<open>auto simp: sheds_def evict_def\<close>)
qed

lemma sheds_tracked: "sheds gone d d' \<Longrightarrow> tracked d \<Longrightarrow> tracked d'"
  by (fastforce simp: sheds_def tracked_def sorted_wrt_append)

lemma sheds_ok: "sheds gone d d' \<Longrightarrow> dedup_ok d \<Longrightarrow> dedup_ok d'"
  using sheds_tracked by (auto simp: dedup_ok_def sheds_def)

text \<open>The state after a first sighting, before the capacity is enforced.\<close>

definition added :: "seen_key \<Rightarrow> int \<Rightarrow> dedup \<Rightarrow> dedup" where
  "added key now d = d\<lparr>next_generation := next_generation d + 1,
     seen_order := seen_order d @ [(now, key, next_generation d + 1)],
     seen_at := fmupd key (now, next_generation d + 1) (seen_at d)\<rparr>"

lemma record_key_cases:
  assumes "record_key key now d = (d', r)"
  obtains (duplicate) "d' = evict now d" "r = None"
    | (fresh) gone where "fmlookup (seen_at (evict now d)) key = None" "next_generation (evict now d) < U64_MAX"
      "r = Some (next_generation (evict now d) + 1)"
      "sheds gone (added key now (evict now d)) d'" "length (seen_order d') = min (seen_capacity d) (Suc (length (seen_order (evict now d))))"
proof (cases "fmlookup (seen_at (evict now d)) key \<noteq> None \<or> next_generation (evict now d) + 1 > U64_MAX")
  case True
  then show thesis using assms duplicate by (auto simp: record_key_def Let_def split: if_splits)
next
  case False
  let ?e = "evict now d" and ?a = "added key now (evict now d)"
  have cap: "seen_capacity ?e = seen_capacity d" by (simp add: evict_def split: prod.split)
  obtain order m where e: "evict_over (seen_capacity d) (seen_order ?a) (seen_at ?a) = (order, m)" by fastforce
  then have d': "d' = ?a\<lparr>seen_order := order, seen_at := m\<rparr>" "r = Some (next_generation ?e + 1)"
    using assms False cap by (auto simp: record_key_def Let_def added_def)
  obtain gone where "seen_order ?a = gone @ order" "length order = min (seen_capacity d) (length (seen_order ?a))"
    "\<forall>k ts g. fmlookup m k = Some (ts, g) \<longleftrightarrow> fmlookup (seen_at ?a) k = Some (ts, g) \<and> (\<forall>(_, key, g') \<in> set gone. k = key \<longrightarrow> g \<noteq> g')"
    using evict_over_split[OF e] by blast
  moreover have "length (seen_order ?a) = Suc (length (seen_order ?e))" by (simp add: added_def)
  ultimately have "sheds gone ?a d'" "length (seen_order d') = min (seen_capacity d) (Suc (length (seen_order ?e)))"
    unfolding sheds_def d'(1) by simp_all
  moreover have "fmlookup (seen_at ?e) key = None" "next_generation ?e < U64_MAX" using False by (auto simp del: not_None_eq)
  ultimately show thesis using fresh[of gone] d'(2) by blast
qed

lemma added_tracked: "tracked d \<Longrightarrow> tracked (added key now d)"
  by (fastforce simp: tracked_def added_def sorted_wrt_append)

lemma record_key_ok:
  assumes "record_key key now d = (d', r)" "dedup_ok d"
  shows "dedup_ok d' \<and> seen_capacity d' = seen_capacity d \<and> window_ms d' = window_ms d"
proof -
  obtain g0 where e: "sheds g0 d (evict now d)" using evict_sheds by blast
  have ok: "dedup_ok (evict now d)" by (rule sheds_ok[OF e assms(2)])
  from assms(1) show ?thesis
  proof (cases rule: record_key_cases)
    case (fresh gone)
    have "tracked d'" using sheds_tracked[OF fresh(4) added_tracked] ok by (simp add: dedup_ok_def)
    then show ?thesis using fresh(4,5) e by (auto simp: sheds_def dedup_ok_def added_def)
  qed (use ok e in \<open>auto simp: sheds_def\<close>)
qed

lemma drop_reservation_ok: "dedup_ok d \<Longrightarrow> dedup_ok (drop_reservation r d)"
  by (auto simp: dedup_ok_def tracked_def drop_reservation_def forget_lookup)

lemma new_dedup_ok: "dedup_ok (new_dedup window cap)"
  by (simp add: dedup_ok_def tracked_def new_dedup_def)

text \<open>The capacity bounds the set of seen keys, too.\<close>

lemma seen_bounded:
  assumes "dedup_ok d"
  shows "seen_len d \<le> seen_capacity d"
proof -
  have "fset (fmdom (seen_at d)) \<subseteq> (\<lambda>(_, key, _). key) ` set (seen_order d)"
  proof
    fix k assume "k \<in> fset (fmdom (seen_at d))"
    then obtain ts g where "fmlookup (seen_at d) k = Some (ts, g)" by (auto simp: fmlookup_dom_iff)
    then show "k \<in> (\<lambda>(_, key, _). key) ` set (seen_order d)" using assms by (force simp: dedup_ok_def tracked_def)
  qed
  then have "seen_len d \<le> card ((\<lambda>(_, key, _). key) ` set (seen_order d))"
    by (simp add: seen_len_def fcard.rep_eq card_mono)
  also have "\<dots> \<le> length (seen_order d)" by (meson card_image_le card_length finite_set le_trans)
  finally show ?thesis using assms by (simp add: dedup_ok_def)
qed

section \<open>Once per window\<close>

text \<open>What other callers do to the store meanwhile: they record keys, and drop reservations.\<close>

datatype dedup_op = RecordOp seen_key int | DropOp reservation

fun apply_op :: "dedup \<Rightarrow> dedup_op \<Rightarrow> dedup" where
  "apply_op d (RecordOp key now) = fst (record_key key now d)"
| "apply_op d (DropOp r) = drop_reservation r d"

fun is_record :: "dedup_op \<Rightarrow> bool" where
  "is_record (RecordOp _ _) = True" | "is_record (DropOp _) = False"

text \<open>A sighting of a key, with the number of entries queued after it.\<close>

definition sighted :: "seen_key \<Rightarrow> int \<Rightarrow> nat \<Rightarrow> nat \<Rightarrow> dedup \<Rightarrow> bool" where
  "sighted key ts g j d \<longleftrightarrow> fmlookup (seen_at d) key = Some (ts, g) \<and>
     (\<exists>pre post. seen_order d = pre @ (ts, key, g) # post \<and> length post \<le> j)"

lemma tracked_unique:
  assumes "tracked d" "seen_order d = pre @ (ts, key, g) # post" "(ts', key', g') \<in> set pre"
  shows "g' \<noteq> g"
  using assms by (fastforce simp: tracked_def sorted_wrt_append)

lemma sighted_sheds:
  assumes "sighted key ts g j d" "tracked d" "sheds gone d d'" "(ts, key, g) \<notin> set gone"
  shows "sighted key ts g j d'"
proof -
  obtain pre post where o: "seen_order d = pre @ (ts, key, g) # post" "length post \<le> j" and l: "fmlookup (seen_at d) key = Some (ts, g)"
    using assms(1) by (auto simp: sighted_def)
  have app: "gone @ seen_order d' = pre @ (ts, key, g) # post" using assms(3) o(1) by (simp add: sheds_def)
  then obtain us where us: "(gone = pre @ us \<and> us @ seen_order d' = (ts, key, g) # post) \<or> (gone @ us = pre \<and> seen_order d' = us @ (ts, key, g) # post)"
    by (auto simp: append_eq_append_conv2)
  have "us = []" if "gone = pre @ us" "us @ seen_order d' = (ts, key, g) # post" using that assms(4) by (cases us) auto
  then obtain vs where vs: "pre = gone @ vs" "seen_order d' = vs @ (ts, key, g) # post" using us by (metis append.right_neutral append_Nil)
  have "\<forall>(ts', key', g') \<in> set gone. g' \<noteq> g" using tracked_unique[OF assms(2) o(1)] vs(1) by fastforce
  then have "fmlookup (seen_at d') key = Some (ts, g)" using assms(3) l by (fastforce simp: sheds_def)
  then show ?thesis using vs(2) o(2) by (auto simp: sighted_def)
qed

lemma sighted_record:
  assumes "sighted key ts g j d" "dedup_ok d" "wrap_i64 (now - window_ms d) \<le> ts" "Suc j < seen_capacity d"
  shows "sighted key ts g (Suc j) (fst (record_key k now d))"
proof -
  obtain d' r where r: "record_key k now d = (d', r)" by fastforce
  obtain g0 where g0: "sheds g0 d (evict now d)" "\<forall>(ts, _, _) \<in> set g0. ts < wrap_i64 (now - window_ms d)" using evict_sheds by blast
  have se: "sighted key ts g j (evict now d)"
    using sighted_sheds[OF assms(1) _ g0(1)] g0(2) assms(2,3) by (fastforce simp: dedup_ok_def)
  have ok: "dedup_ok (evict now d)" by (rule sheds_ok[OF g0(1) assms(2)])
  from r show ?thesis
  proof (cases rule: record_key_cases)
    case duplicate
    then show ?thesis using se r by (auto simp: sighted_def intro: le_SucI)
  next
    case (fresh gone)
    let ?a = "added k now (evict now d)"
    obtain pre post where o: "seen_order (evict now d) = pre @ (ts, key, g) # post" "length post \<le> j" using se by (auto simp: sighted_def)
    have k: "k \<noteq> key" using fresh(1) se by (auto simp: sighted_def)
    have oa: "seen_order ?a = pre @ (ts, key, g) # (post @ [(now, k, next_generation (evict now d) + 1)])" using o(1) by (simp add: added_def)
    have sa: "sighted key ts g (Suc j) ?a" unfolding sighted_def
      using se k oa o(2) by (intro conjI exI[of _ pre] exI[of _ "post @ [(now, k, next_generation (evict now d) + 1)]"]) (simp_all add: sighted_def added_def)
    have ta: "tracked ?a" using added_tracked ok by (simp add: dedup_ok_def)
    let ?post = "post @ [(now, k, next_generation (evict now d) + 1)]"
    have app: "gone @ seen_order d' = pre @ (ts, key, g) # ?post" using fresh(4) oa by (simp add: sheds_def)
    have "length gone \<le> length pre" using arg_cong[OF app, of length] fresh(5) o assms(4) by (auto simp: min_def split: if_splits)
    then have "gone = take (length gone) pre" using arg_cong[OF app, of "take (length gone)"] by simp
    then have "(ts, key, g) \<notin> set gone" using tracked_unique[OF ta oa] by (metis in_set_takeD)
    then show ?thesis using sighted_sheds[OF sa ta fresh(4)] r by simp
  qed
qed

lemma sighted_drop:
  assumes "sighted key ts g j d" "committed r \<or> \<not> (res_key r = key \<and> res_generation r = g)"
  shows "sighted key ts g j (drop_reservation r d)"
  using assms by (auto simp: sighted_def drop_reservation_def forget_lookup)

lemma fresh_sighted:
  assumes "record_key key now d = (d', Some g)" "dedup_ok d" "0 < seen_capacity d"
  shows "sighted key now g 0 d'"
  using assms(1)
proof (cases rule: record_key_cases)
  case (fresh gone)
  let ?a = "added key now (evict now d)"
  have g: "g = next_generation (evict now d) + 1" using fresh(3) by simp
  have sa: "sighted key now g 0 ?a" by (auto simp: sighted_def added_def g)
  have ta: "tracked ?a"
    using added_tracked sheds_ok assms(2) evict_sheds[of d now] unfolding dedup_ok_def by metis
  have app: "gone @ seen_order d' = seen_order (evict now d) @ [(now, key, g)]" using fresh(4) by (simp add: sheds_def added_def g)
  have "length gone \<le> length (seen_order (evict now d))"
    using arg_cong[OF app, of length] fresh(5) assms(3) by simp
  then have "gone = take (length gone) (seen_order (evict now d))" using arg_cong[OF app, of "take (length gone)"] by simp
  then have "(now, key, g) \<notin> set gone"
    using tracked_unique[OF ta, of "seen_order (evict now d)" now key g "[]"] by (auto simp: added_def g dest: in_set_takeD) (metis in_set_takeD)
  then show ?thesis using sighted_sheds[OF sa ta fresh(4)] by simp
qed simp

definition near :: "int \<Rightarrow> int \<Rightarrow> int \<Rightarrow> bool" where
  "near window ts now \<longleftrightarrow> - (2 ^ 63) \<le> now - window \<and> now - window \<le> ts \<and> now - window < 2 ^ 63"

lemma near_cutoff: "near window ts now \<Longrightarrow> wrap_i64 (now - window) \<le> ts"
  by (simp add: near_def wrap_i64_def)

fun harmless :: "int \<Rightarrow> seen_key \<Rightarrow> int \<Rightarrow> nat \<Rightarrow> dedup_op \<Rightarrow> bool" where
  "harmless window key ts g (RecordOp _ now) = near window ts now"
| "harmless window key ts g (DropOp r) = (committed r \<or> \<not> (res_key r = key \<and> res_generation r = g))"

lemma apply_op_ok: "dedup_ok d \<Longrightarrow> dedup_ok (apply_op d op) \<and> seen_capacity (apply_op d op) = seen_capacity d \<and> window_ms (apply_op d op) = window_ms d"
  by (cases op) (use drop_reservation_ok[of d] record_key_ok[OF prod.collapse[symmetric]] in \<open>auto simp: drop_reservation_def\<close>)

lemma ops_ok: "dedup_ok d \<Longrightarrow> dedup_ok (foldl apply_op d ops) \<and> seen_capacity (foldl apply_op d ops) = seen_capacity d \<and>
    window_ms (foldl apply_op d ops) = window_ms d"
  by (induction ops arbitrary: d) (auto simp: apply_op_ok)

lemma sighted_ops:
  assumes "sighted key ts g j d" "dedup_ok d" "list_all (harmless (window_ms d) key ts g) ops"
    "j + length (filter is_record ops) < seen_capacity d"
  shows "sighted key ts g (j + length (filter is_record ops)) (foldl apply_op d ops)"
  using assms
proof (induction ops arbitrary: d j)
  case (Cons op ops)
  note ok = apply_op_ok[OF Cons.prems(2), of op]
  show ?case
  proof (cases op)
    case (RecordOp k now)
    have "sighted key ts g (Suc j) (apply_op d op)"
      using sighted_record[OF Cons.prems(1,2), of now k] near_cutoff Cons.prems(3,4) RecordOp by simp
    then show ?thesis using Cons.IH[of "Suc j" "apply_op d op"] ok Cons.prems(3,4) RecordOp by simp
  next
    case (DropOp r)
    have "sighted key ts g j (apply_op d op)" using sighted_drop[OF Cons.prems(1)] Cons.prems(3) DropOp by simp
    then show ?thesis using Cons.IH[of j "apply_op d op"] ok Cons.prems(3,4) DropOp by simp
  qed
qed simp

text \<open>A reservation that is dropped leaves its key free: a retry is a first sighting again.\<close>

lemma dropped_reservation_retries:
  assumes "reserve key now d = (d', Some r)" "next_generation d' < U64_MAX"
  shows "snd (check_and_record key later (drop_reservation r d'))"
proof -
  obtain g where g: "record_key key now d = (d', Some g)" "r = \<lparr>res_key = key, res_generation = g, committed = False\<rparr>"
    using assms(1) by (auto simp: reserve_def split: prod.splits)
  from g(1) have free: "fmlookup (seen_at (drop_reservation r d')) key = None"
  proof (cases rule: record_key_cases)
    case (fresh gone)
    have "fmlookup (seen_at d') key = Some (ts, g') \<Longrightarrow> g' = g" for ts g' using fresh(3,4) by (auto simp: sheds_def added_def)
    then show ?thesis by (auto simp: drop_reservation_def g(2) forget_key_def split: option.split)
  qed simp
  obtain gone where e: "sheds gone (drop_reservation r d') (evict later (drop_reservation r d'))" using evict_sheds by blast
  have "fmlookup (seen_at (evict later (drop_reservation r d'))) key = None"
    using e free by (cases "fmlookup (seen_at (evict later (drop_reservation r d'))) key") (auto simp: sheds_def)
  moreover have "next_generation (evict later (drop_reservation r d')) < U64_MAX"
    using e assms(2) by (auto simp: sheds_def drop_reservation_def)
  ultimately show ?thesis by (auto simp: check_and_record_def record_key_def Let_def split: prod.splits)
qed

text \<open>
  C26. A message is processed once: after its first sighting, however many other keys other callers record
  or release, as long as fewer than the capacity arrive and the clock stays within the window, the same
  key is refused as a duplicate, unless its own reservation was dropped uncommitted. At no time does the
  store hold more keys than its capacity.
\<close>

theorem dedup_processes_once:
  assumes "d = foldl apply_op (new_dedup window cap) before" and "record_key key ts d = (d', Some g)"
    and "list_all (harmless window key ts g) ops" and "length (filter is_record ops) < cap" and "near window ts now"
  shows "\<not> snd (check_and_record key now (foldl apply_op d' ops)) \<and> seen_len (foldl apply_op d' ops) \<le> cap"
proof -
  have d: "dedup_ok d" "seen_capacity d = cap" "window_ms d = window"
    using ops_ok[OF new_dedup_ok] assms(1) by (simp_all add: new_dedup_def)
  note d' = record_key_ok[OF assms(2) d(1)]
  let ?s = "foldl apply_op d' ops"
  have ok: "dedup_ok ?s" "seen_capacity ?s = cap" "window_ms ?s = window" using ops_ok[of d' ops] d' d by auto
  have "sighted key ts g 0 d'" using fresh_sighted[OF assms(2) d(1)] assms(4) d(2) by simp
  then have s: "sighted key ts g (length (filter is_record ops)) ?s"
    using sighted_ops[of key ts g 0 d' ops] d' assms(3,4) d(2,3) by simp
  obtain gone where e: "sheds gone ?s (evict now ?s)" "\<forall>(ts, _, _) \<in> set gone. ts < wrap_i64 (now - window_ms ?s)" using evict_sheds by blast
  have "(ts, key, g) \<notin> set gone" using e(2) near_cutoff[OF assms(5)] ok(3) by force
  then have "sighted key ts g (length (filter is_record ops)) (evict now ?s)"
    using sighted_sheds[OF s _ e(1)] ok(1) by (simp add: dedup_ok_def)
  then show ?thesis
    using seen_bounded[OF ok(1)] ok(2) by (simp add: check_and_record_def record_key_def sighted_def Let_def)
qed

theorem dedup_processes_once_witness:
  "\<not> snd (check_and_record (SeenFtn [1]) 900 (foldl apply_op (fst (record_key (SeenFtn [1]) 0 (new_dedup 1000 3))) [RecordOp (SeenFtn [2]) 500]))"
proof -
  have "record_key (SeenFtn [1]) 0 (new_dedup 1000 3) = (fst (record_key (SeenFtn [1]) 0 (new_dedup 1000 3)), Some 1)"
    by (simp add: record_key_def evict_def new_dedup_def U64_MAX_def)
  from dedup_processes_once[OF _ this, of 1000 3 "[]" "[RecordOp (SeenFtn [2]) 500]" 900] show ?thesis by (simp add: near_def)
qed

end
