(* ===== verification/Core_Push.thy ===== *)
theory Core_Push
  imports Proto_Frame
begin

text \<open>
  The push replay log of \<open>crates/server-core/src/pushlog.rs\<close>: each account's pushes are numbered and the
  last ones kept in a ring, from which a reconnecting client is sent what it missed. Accounts share one
  table; the interface of independent machines behind one table gives each account its own log.
\<close>

section \<open>The log\<close>

definition RING_CAPACITY :: nat where "RING_CAPACITY = 256"

record account_log =
  next_seq :: u64
  ring :: "(u64 \<times> frame) list"

type_synonym push_log = "int \<rightharpoonup> account_log"

definition log_entry :: "push_log \<Rightarrow> int \<Rightarrow> account_log" where
  "log_entry st account = (case st account of Some l \<Rightarrow> l | None \<Rightarrow> \<lparr>next_seq = 0, ring = []\<rparr>)"

definition stamp_log :: "account_log \<Rightarrow> frame \<Rightarrow> account_log \<times> frame" where
  "stamp_log l f =
     (let n = next_seq l + 1;
          f = f\<lparr>request_id := n\<rparr>;
          kept = (if length (ring l) = RING_CAPACITY then tl (ring l) else ring l)
      in (\<lparr>next_seq = n, ring = kept @ [(n, f)]\<rparr>, f))"

definition stamp :: "push_log \<Rightarrow> int \<Rightarrow> frame \<Rightarrow> push_log \<times> frame" where
  "stamp st account f = (let (l, f') = stamp_log (log_entry st account) f in (st(account \<mapsto> l), f'))"

definition since :: "push_log \<Rightarrow> int \<Rightarrow> u64 \<Rightarrow> frame list" where
  "since st account cursor =
     (case st account of
        Some l \<Rightarrow> map snd (filter (\<lambda>(s, _). s > cursor) (ring l))
      | None \<Rightarrow> [])"

definition forget_log :: "push_log \<Rightarrow> int \<Rightarrow> push_log" where
  "forget_log st account = st(account := None)"

definition known_accounts :: "push_log \<Rightarrow> int set" where
  "known_accounts st = dom st"

section \<open>One account among many\<close>

datatype push_call = Stamp int frame | Forget int

fun call_account :: "push_call \<Rightarrow> int" where
  "call_account (Stamp a _) = a" | "call_account (Forget a) = a"

fun push_step :: "push_log \<Rightarrow> push_call \<Rightarrow> push_log \<times> frame option" where
  "push_step st (Stamp a f) = (let (st', f') = stamp st a f in (st', Some f'))"
| "push_step st (Forget a) = (forget_log st a, None)"

fun own_push :: "account_log option \<Rightarrow> push_call \<Rightarrow> account_log option \<times> frame option" where
  "own_push l (Stamp a f) = (let (l', f') = stamp_log (case l of Some x \<Rightarrow> x | None \<Rightarrow> \<lparr>next_seq = 0, ring = []\<rparr>) f in (Some l', Some f'))"
| "own_push l (Forget a) = (None, None)"

interpretation pushes: multiplexed push_step call_account "\<lambda>st a. st a" own_push
proof
  fix st c k
  show "(fst (push_step st c) (call_account c), snd (push_step st c)) = own_push (st (call_account c)) c"
    by (cases c) (auto simp: stamp_def log_entry_def forget_log_def split: prod.split)
  show "call_account c \<noteq> k \<Longrightarrow> fst (push_step st c) k = st k"
    by (cases c) (auto simp: stamp_def forget_log_def split: prod.split)
qed

text \<open>The pushes of one account, numbered from one.\<close>

definition numbered :: "frame list \<Rightarrow> (u64 \<times> frame) list" where
  "numbered fs = map (\<lambda>i. (of_nat (Suc i), (fs ! i)\<lparr>request_id := of_nat (Suc i)\<rparr>)) [0..<length fs]"

definition log_of :: "frame list \<Rightarrow> account_log" where
  "log_of fs = \<lparr>next_seq = of_nat (length fs), ring = drop (length fs - RING_CAPACITY) (numbered fs)\<rparr>"

lemma length_numbered [simp]: "length (numbered fs) = length fs"
  by (simp add: numbered_def)

lemma numbered_nth: "i < length fs \<Longrightarrow> numbered fs ! i = (of_nat (Suc i), (fs ! i)\<lparr>request_id := of_nat (Suc i)\<rparr>)"
  by (simp add: numbered_def)

lemma numbered_snoc: "numbered (fs @ [f]) = numbered fs @ [(of_nat (Suc (length fs)), f\<lparr>request_id := of_nat (Suc (length fs))\<rparr>)]"
  by (simp add: numbered_def nth_append)

lemma stamp_log_of:
  "stamp_log (log_of fs) f = (log_of (fs @ [f]), f\<lparr>request_id := of_nat (Suc (length fs))\<rparr>)"
proof -
  let ?n = "length fs"
  have len: "length (ring (log_of fs)) = min ?n RING_CAPACITY" by (simp add: log_of_def)
  have "(if length (ring (log_of fs)) = RING_CAPACITY then tl (ring (log_of fs)) else ring (log_of fs)) =
      drop (Suc ?n - RING_CAPACITY) (numbered fs)"
  proof (cases "RING_CAPACITY \<le> ?n")
    case True
    then show ?thesis using len by (simp add: log_of_def tl_drop[symmetric] drop_Suc Suc_diff_le)
  next
    case False
    then show ?thesis using len by (simp add: log_of_def)
  qed
  then show ?thesis
    by (simp add: stamp_log_def Let_def) (simp add: log_of_def numbered_snoc add.commute RING_CAPACITY_def)
qed

lemma own_run:
  "run_calls own_push (if ps = [] then None else Some (log_of ps)) (map (Stamp a) fs) =
     (if ps @ fs = [] then None else Some (log_of (ps @ fs)), map (\<lambda>p. Some (snd p)) (drop (length ps) (numbered (ps @ fs))))"
proof (induction fs arbitrary: ps)
  case (Cons f fs)
  have start: "(case (if ps = [] then None else Some (log_of ps)) of Some x \<Rightarrow> x | None \<Rightarrow> \<lparr>next_seq = 0, ring = []\<rparr>) = log_of ps"
    by (simp add: log_of_def numbered_def)
  have "drop (length ps) (numbered (ps @ f # fs)) =
      (of_nat (Suc (length ps)), f\<lparr>request_id := of_nat (Suc (length ps))\<rparr>) # drop (Suc (length ps)) (numbered (ps @ f # fs))"
    using Cons_nth_drop_Suc[of "length ps" "numbered (ps @ f # fs)"] numbered_nth[of "length ps" "ps @ f # fs"] by simp
  then show ?case using Cons[of "ps @ [f]"] by (simp add: start stamp_log_of)
qed simp

fun stamped_for :: "int \<Rightarrow> push_call \<Rightarrow> frame list" where
  "stamped_for a (Stamp b f) = (if a = b then [f] else [])"
| "stamped_for a (Forget b) = []"

lemma calls_of_account:
  "Forget a \<notin> set cs \<Longrightarrow> filter (\<lambda>c. call_account c = a) cs = map (Stamp a) (concat (map (stamped_for a) cs))"
proof (induction cs)
  case (Cons c cs)
  then show ?case by (cases c) auto
qed simp

text \<open>Numbers grow with the position, so those beyond the cursor are a suffix.\<close>

lemma beyond_cursor:
  assumes "length fs < 2 ^ 64" "k \<le> length fs"
  shows "filter (\<lambda>(s, _). s > cursor) (drop k (numbered fs)) = drop (max (unat cursor) k) (numbered fs)"
proof -
  have big: "(of_nat (Suc i) :: u64) > cursor \<longleftrightarrow> unat cursor \<le> i" if "i < length fs" for i
    using that assms(1) by (simp add: word_less_nat_alt unat_of_nat take_bit_nat_eq_self less_Suc_eq_le del: of_nat_Suc)
  let ?g = "\<lambda>i. (of_nat (Suc i) :: u64, (fs ! i)\<lparr>request_id := of_nat (Suc i)\<rparr>)"
  have "filter (\<lambda>(s, _). s > cursor) (drop k (numbered fs)) = filter (\<lambda>(s, _). s > cursor) (map ?g [k..<length fs])"
    by (simp add: numbered_def drop_map)
  also have "\<dots> = map ?g (filter (\<lambda>i. unat cursor \<le> i) [k..<length fs])"
    unfolding filter_map by (intro arg_cong[of _ _ "map ?g"] filter_cong) (use big in \<open>auto simp del: of_nat_Suc\<close>)
  also have "filter (\<lambda>i. c \<le> i) [k..<m] = [max c k..<m]" for c m :: nat
    by (induction m) (auto simp: max_def filter_empty_conv)
  also have "map ?g [max (unat cursor) k..<length fs] = drop (max (unat cursor) k) (numbered fs)"
    by (simp add: numbered_def drop_map)
  finally show ?thesis .
qed

text \<open>
  C27. A reconnecting client gets exactly what it missed: whatever the other accounts do in between, the
  pushes of an account are numbered 1, 2, 3, ... in the order they were sent, and the replay from a
  cursor is all of them beyond the cursor, in order and without gaps, as far back as the ring reaches.
\<close>

theorem push_replay_complete:
  assumes "Forget a \<notin> set cs" and "length (concat (map (stamped_for a) cs)) < 2 ^ 64"
  shows "since (fst (run_calls push_step Map.empty cs)) a cursor =
      map snd (drop (max (unat cursor) (length (concat (map (stamped_for a) cs)) - RING_CAPACITY)) (numbered (concat (map (stamped_for a) cs)))) \<and>
    map snd (filter (\<lambda>(c, r). call_account c = a) (zip cs (snd (run_calls push_step Map.empty cs)))) =
      map (\<lambda>p. Some (snd p)) (numbered (concat (map (stamped_for a) cs)))"
proof -
  let ?fs = "concat (map (stamped_for a) cs)" and ?st = "fst (run_calls push_step Map.empty cs)"
  have run: "(?st a, map snd (filter (\<lambda>(c, r). call_account c = a) (zip cs (snd (run_calls push_step Map.empty cs))))) =
      (if ?fs = [] then None else Some (log_of ?fs), map (\<lambda>p. Some (snd p)) (numbered ?fs))"
    using pushes.projection[of Map.empty a cs] own_run[of "[]" a ?fs] calls_of_account[OF assms(1)] by simp
  have "since ?st a cursor = map snd (filter (\<lambda>(s, _). s > cursor) (drop (length ?fs - RING_CAPACITY) (numbered ?fs)))"
    using run by (auto simp: since_def log_of_def numbered_def split: if_splits)
  also have "\<dots> = map snd (drop (max (unat cursor) (length ?fs - RING_CAPACITY)) (numbered ?fs))"
    using beyond_cursor[OF assms(2), of "length ?fs - RING_CAPACITY" cursor] by simp
  finally show ?thesis using run by simp
qed

theorem push_replay_complete_witness:
  "\<exists>f. since (fst (run_calls push_step Map.empty [Stamp 1 f, Stamp 2 f, Stamp 1 f])) 1 1 = [f\<lparr>request_id := 2\<rparr>]"
proof -
  define f where "f = \<lparr>version = PROTOCOL_VERSION, kind = Push, family = 0, message_type = 1, request_id = 0, error = None, fpayload = []\<rparr>"
  have "numbered [f, f] = [(1, f\<lparr>request_id := 1\<rparr>), (2, f\<lparr>request_id := 2\<rparr>)]" by (simp add: numbered_def)
  then show ?thesis
    using push_replay_complete[of 1 "[Stamp 1 f, Stamp 2 f, Stamp 1 f]" 1] by (intro exI[of _ f]) (simp add: RING_CAPACITY_def)
qed

end
