(* ===== verification/Float64.thy ===== *)
theory Float64
  imports Prelude "HOL-Library.Log_Nat"
begin

text \<open>
  Rust's \<open>f64\<close> for the non-negative finite values the rate limiter computes with. A value is the
  rational it stands for; an operation is the exact one followed by rounding to the nearest number with
  a significand of 53 bits, ties to even (IEEE 754, the only mode Rust uses). The limits of the exponent
  are left out: every value here lies between \<open>10^-20\<close> and \<open>10^30\<close>, or is zero.
\<close>

type_synonym f64 = rat

section \<open>Rounding\<close>

definition round_even :: "rat \<Rightarrow> int" where
  "round_even y =
     (let n = \<lfloor>y\<rfloor>; d = y - of_int n in
      if d < 1 / 2 then n else if d > 1 / 2 then n + 1 else if even n then n else n + 1)"

definition floor_log2 :: "rat \<Rightarrow> int" where
  "floor_log2 x =
     (let (a, b) = quotient_of x; k = int (floorlog 2 (nat a)) - int (floorlog 2 (nat b))
      in if 2 powi k \<le> x then k else k - 1)"

definition fl :: "rat \<Rightarrow> f64" where
  "fl x = (if x \<le> 0 then 0 else
     let e = floor_log2 x - 52 in of_int (round_even (x / 2 powi e)) * 2 powi e)"

lemma round_even_near: "\<bar>of_int (round_even y) - y\<bar> \<le> 1 / 2"
proof -
  have "of_int \<lfloor>y\<rfloor> \<le> y" "y < of_int \<lfloor>y\<rfloor> + 1" by linarith+
  then show ?thesis by (auto simp: round_even_def Let_def abs_le_iff field_simps)
qed

lemma round_even_int [simp]: "round_even (of_int n) = n"
  by (simp add: round_even_def)

lemma round_even_unique:
  assumes "\<bar>of_int n - y\<bar> \<le> 1 / 2" "\<bar>of_int n - y\<bar> < 1 / 2 \<or> even n"
  shows "round_even y = n"
proof -
  have n: "of_int n \<le> y + 1 / 2" "y \<le> of_int n + 1 / 2" using assms(1) by linarith+
  have "\<lfloor>y\<rfloor> = n \<or> \<lfloor>y\<rfloor> = n - 1" using n by linarith
  then show ?thesis
  proof
    assume f: "\<lfloor>y\<rfloor> = n"
    then show ?thesis using n assms(2) by (auto simp: round_even_def Let_def abs_less_iff)
  next
    assume f: "\<lfloor>y\<rfloor> = n - 1"
    have d: "y - of_int (n - 1) = y - of_int n + 1" by simp
    then have "\<not> y - of_int (n - 1) < 1 / 2" using n by linarith
    moreover have "y - of_int (n - 1) > 1 / 2" if "odd n"
      using assms(2) that unfolding d by (elim disjE) linarith+
    ultimately show ?thesis using f unfolding round_even_def Let_def by auto
  qed
qed

text \<open>The binary exponent of a positive rational.\<close>

lemma floor_log2_bounds:
  assumes "0 < x"
  shows "2 powi floor_log2 x \<le> x" "x < 2 powi (floor_log2 x + 1)"
proof -
  obtain a b where q: "quotient_of x = (a, b)" by fastforce
  have b: "0 < b" using quotient_of_denom_pos[OF q] .
  have x: "x = of_int a / of_int b" by (rule quotient_of_div[OF q])
  have a: "0 < a" using assms b x by (simp add: zero_less_divide_iff)
  define m n where "m = floorlog 2 (nat a)" and "n = floorlog 2 (nat b)"
  have ma: "2 ^ (m - 1) \<le> nat a" "nat a < 2 ^ m" and nb: "2 ^ (n - 1) \<le> nat b" "nat b < 2 ^ n"
    using floorlog_bounds[of "nat a" 2] floorlog_bounds[of "nat b" 2] a b by (auto simp: m_def n_def)
  have pos: "0 < m" "0 < n" using a b by (simp_all add: m_def n_def floorlog_def)
  have ra: "(2::rat) ^ (m - 1) \<le> of_int a" "of_int a < (2::rat) ^ m" and rb: "(2::rat) ^ (n - 1) \<le> of_int b" "of_int b < (2::rat) ^ n"
    using ma nb a b by (metis less_le_not_le nat_le_iff of_int_le_iff of_int_less_iff of_int_numeral of_int_power of_nat_numeral of_nat_power zless_nat_conj
      nat_less_iff le_nat_iff)+
  have lo: "2 powi (int m - int n - 1) < x" and hi: "x < 2 powi (int m - int n + 1)"
  proof -
    have "(2::rat) ^ (m - 1) / 2 ^ n < of_int a / of_int b" using ra(1) rb(2) b by (intro frac_less2) auto
    moreover have "(2::rat) powi (int m - int n - 1) = 2 ^ (m - 1) / 2 ^ n"
      using pos by (simp add: power_int_diff power_int_of_nat power_diff)
    ultimately show "2 powi (int m - int n - 1) < x" by (simp add: x)
    have "of_int a / of_int b < (2::rat) ^ m / 2 ^ (n - 1)" using ra(2) rb(1) a by (intro frac_less) auto
    moreover have "(2::rat) powi (int m - int n + 1) = 2 ^ m / 2 ^ (n - 1)"
      using pos by (simp add: power_int_diff power_int_add power_int_of_nat power_diff)
    ultimately show "x < 2 powi (int m - int n + 1)" by (simp add: x)
  qed
  then show "2 powi floor_log2 x \<le> x" "x < 2 powi (floor_log2 x + 1)"
    by (auto simp: floor_log2_def q Let_def m_def[symmetric] n_def[symmetric])
qed

lemma fl_zero [simp]: "fl 0 = 0"
  by (simp add: fl_def)

text \<open>The relative error of one rounding.\<close>

lemma fl_error:
  assumes "0 \<le> x"
  shows "\<bar>fl x - x\<bar> \<le> x / 2 ^ 53"
proof (cases "x = 0")
  case False
  then have x: "0 < x" using assms by simp
  define e where "e = floor_log2 x - 52"
  have p: "(0::rat) < 2 powi e" by simp
  have f: "fl x = of_int (round_even (x / 2 powi e)) * 2 powi e" using x by (simp add: fl_def e_def Let_def)
  have "\<bar>fl x - x\<bar> = \<bar>of_int (round_even (x / 2 powi e)) - x / 2 powi e\<bar> * 2 powi e"
  proof -
    have "fl x - x = (of_int (round_even (x / 2 powi e)) - x / 2 powi e) * 2 powi e" using p by (simp add: f left_diff_distrib)
    then show ?thesis using p by (simp only: abs_mult abs_of_pos)
  qed
  also have "\<dots> \<le> 1 / 2 * 2 powi e" using round_even_near p by (intro mult_right_mono) auto
  also have "\<dots> = 2 powi floor_log2 x / 2 ^ 53" by (simp add: e_def power_int_diff)
  also have "\<dots> \<le> x / 2 ^ 53" using floor_log2_bounds(1)[OF x] by (intro divide_right_mono) auto
  finally show ?thesis .
qed simp

lemma fl_upper: "0 \<le> x \<Longrightarrow> fl x \<le> x * (1 + 1 / 2 ^ 53)"
proof -
  assume "0 \<le> x"
  then have "fl x - x \<le> x / 2 ^ 53" using fl_error[of x] abs_ge_self[of "fl x - x"] by (meson order_trans)
  then show ?thesis by (simp add: field_simps)
qed

lemma fl_nonneg: "0 \<le> fl x"
proof (cases "x \<le> 0")
  case False
  then have "- (fl x - x) \<le> x / 2 ^ 53" using fl_error[of x] abs_ge_minus_self[of "fl x - x"] by (meson less_imp_le not_le order_trans)
  moreover have "x / 2 ^ 53 \<le> x" using False by (simp add: field_simps)
  ultimately show ?thesis by linarith
qed (simp add: fl_def)

text \<open>A rounding is determined by the significand and the exponent it must have.\<close>

lemma powi_between:
  assumes "2 powi e \<le> (x::rat)" "x < 2 powi (e + 1)" "2 powi e' \<le> x" "x < 2 powi (e' + 1)"
  shows "e = e'"
proof (rule ccontr)
  assume "e \<noteq> e'"
  then consider "e + 1 \<le> e'" | "e' + 1 \<le> e" by linarith
  then show False
  proof cases
    case 1
    then have "(2::rat) powi (e + 1) \<le> 2 powi e'" by (intro power_int_increasing) auto
    then show False using assms by linarith
  next
    case 2
    then have "(2::rat) powi (e' + 1) \<le> 2 powi e" by (intro power_int_increasing) auto
    then show False using assms by linarith
  qed
qed

lemma fl_eqI:
  assumes "2 powi (e + 52) \<le> x" "x < 2 powi (e + 53)" "\<bar>of_int m - x / 2 powi e\<bar> \<le> 1 / 2"
    "\<bar>of_int m - x / 2 powi e\<bar> < 1 / 2 \<or> even m"
  shows "fl x = of_int m * 2 powi e"
proof -
  have x: "0 < x" using assms(1) zero_less_power_int[of "2::rat" "e + 52"] by linarith
  have "floor_log2 x = e + 52" using powi_between[OF floor_log2_bounds[OF x], of "e + 52"] assms(1,2) by (simp add: add.assoc)
  then show ?thesis using x round_even_unique[OF assms(3,4)] by (simp add: fl_def)
qed

text \<open>Integers of up to 53 bits are exact.\<close>

lemma fl_int:
  assumes "0 \<le> n" "n < 2 ^ 53"
  shows "fl (of_int n) = of_int n"
proof (cases "n = 0")
  case False
  let ?x = "of_int n :: rat"
  have x: "0 < ?x" using False assms by simp
  define e where "e = floor_log2 ?x - 52"
  have "floor_log2 ?x \<le> 52"
  proof (rule ccontr)
    assume "\<not> floor_log2 ?x \<le> 52"
    then have "(2::rat) powi 53 \<le> 2 powi floor_log2 ?x" by (intro power_int_increasing) auto
    then have "(2::rat) ^ 53 \<le> ?x" using floor_log2_bounds(1)[OF x] by simp
    then show False using assms(2) by (metis linorder_not_le of_int_le_iff of_int_numeral of_int_power)
  qed
  then have e: "e \<le> 0" by (simp add: e_def)
  have "?x / 2 powi e = of_int (n * 2 ^ nat (- e))"
    using e by (simp add: power_int_def field_simps)
  then have r: "of_int (round_even (?x / 2 powi e)) = ?x / 2 powi e" by (simp only: round_even_int)
  have "fl ?x = of_int (round_even (?x / 2 powi e)) * 2 powi e" using x by (simp add: fl_def e_def Let_def)
  also have "\<dots> = ?x" unfolding r by simp
  finally show ?thesis .
qed simp

lemma fl_scaled:
  assumes "2 ^ 52 \<le> x * 2 ^ k" "x * 2 ^ k < 2 ^ 53" "\<bar>of_int m - x * 2 ^ k\<bar> \<le> 1 / 2" "\<bar>of_int m - x * 2 ^ k\<bar> < 1 / 2 \<or> even m"
  shows "fl x = of_int m / 2 ^ k"
proof -
  have s: "(2::rat) powi (int j - int k) = 2 ^ j / 2 ^ k" for j by (simp add: power_int_diff power_int_of_nat)
  have e: "(2::rat) powi - int k = 1 / 2 ^ k" using s[of 0] by simp
  have lo: "(2::rat) powi (- int k + 52) = 2 ^ 52 / 2 ^ k" and hi: "(2::rat) powi (- int k + 53) = 2 ^ 53 / 2 ^ k"
    using s[of 52] s[of 53] by (simp_all add: add.commute)
  have "2 powi (- int k + 52) \<le> x" unfolding lo using assms(1) by (simp only: pos_divide_le_eq zero_less_power zero_less_numeral)
  moreover have "x < 2 powi (- int k + 53)" unfolding hi using assms(2) by (simp only: pos_less_divide_eq zero_less_power zero_less_numeral)
  moreover have y: "x / 2 powi - int k = x * 2 ^ k" by (simp add: e)
  ultimately have "fl x = of_int m * 2 powi - int k" using fl_eqI[of "- int k" x m] assms(3,4) by simp
  then show ?thesis by (simp add: e)
qed

end
