(* ===== verification/Core_RateLimit.thy ===== *)
theory Core_RateLimit
  imports Float64
begin

text \<open>
  The token-bucket limiter of \<open>crates/server-core/src/ratelimit.rs\<close>. Buckets are \<open>f64\<close> arithmetic with its
  rounding; clocks are milliseconds as \<open>nat\<close>. Each method runs under the limiter's mutex and is one
  function; the sweep every \<open>SWEEP_EVERY\<close> checks is part of \<open>decide\<close>.
\<close>

section \<open>State\<close>

definition NOTE_INTERVAL_MS :: nat where "NOTE_INTERVAL_MS = 60000"
definition SWEEP_EVERY :: nat where "SWEEP_EVERY = 1024"

datatype scope = ScopeIp bytes | ScopeAccount int

record limit_key =
  lk_scope :: scope
  lk_class :: str

record policy =
  p_capacity :: nat
  p_refill :: f64

record limit_config =
  ratelimit_conn_per_min :: nat
  ratelimit_conn_burst :: nat
  ratelimit_auth_per_min :: nat
  ratelimit_auth_burst :: nat
  ratelimit_msg_per_sec :: nat
  ratelimit_msg_burst :: nat
  ratelimit_post_per_min :: nat
  ratelimit_post_burst :: nat
  ratelimit_transfer_per_min :: nat
  ratelimit_transfer_burst :: nat
  ratelimit_legacy_per_sec :: nat
  ratelimit_legacy_burst :: nat

definition default_limits :: limit_config where
  "default_limits = \<lparr>ratelimit_conn_per_min = 30, ratelimit_conn_burst = 10, ratelimit_auth_per_min = 5, ratelimit_auth_burst = 5,
     ratelimit_msg_per_sec = 10, ratelimit_msg_burst = 20, ratelimit_post_per_min = 6, ratelimit_post_burst = 6,
     ratelimit_transfer_per_min = 10, ratelimit_transfer_burst = 10, ratelimit_legacy_per_sec = 20, ratelimit_legacy_burst = 60\<rparr>"

definition for_class :: "limit_config \<Rightarrow> str \<Rightarrow> policy option" where
  "for_class cfg c =
     (case (if c = lit ''conn'' then Some (ratelimit_conn_per_min cfg, 60, ratelimit_conn_burst cfg)
            else if c = lit ''auth'' then Some (ratelimit_auth_per_min cfg, 60, ratelimit_auth_burst cfg)
            else if c = lit ''msg'' then Some (ratelimit_msg_per_sec cfg, 1, ratelimit_msg_burst cfg)
            else if c = lit ''post'' then Some (ratelimit_post_per_min cfg, 60, ratelimit_post_burst cfg)
            else if c = lit ''transfer'' then Some (ratelimit_transfer_per_min cfg, 60, ratelimit_transfer_burst cfg)
            else if c = lit ''legacy'' then Some (ratelimit_legacy_per_sec cfg, 1, ratelimit_legacy_burst cfg)
            else None) of
        None \<Rightarrow> None
      | Some (rate, per_secs, burst) \<Rightarrow>
          if rate = 0 then None else Some \<lparr>p_capacity = burst, p_refill = fl (of_nat rate / per_secs)\<rparr>)"

datatype decision = Allowed | Limited nat bool

fun is_limited :: "decision \<Rightarrow> bool" where
  "is_limited (Limited _ _) = True" | "is_limited Allowed = False"

record bucket =
  tokens :: f64
  b_capacity :: f64
  b_refill :: f64
  updated_ms :: nat
  noted_ms :: "nat option"

definition fresh_bucket :: "policy \<Rightarrow> nat \<Rightarrow> bucket" where
  "fresh_bucket p now = \<lparr>tokens = of_nat (p_capacity p), b_capacity = of_nat (p_capacity p), b_refill = p_refill p,
     updated_ms = now, noted_ms = None\<rparr>"

text \<open>The tokens \<open>dt\<close> milliseconds bring, and the level they bring a bucket to.\<close>

definition gained :: "f64 \<Rightarrow> nat \<Rightarrow> f64" where
  "gained rate dt = fl (fl (fl (of_nat dt) / 1000) * rate)"

definition refill :: "policy \<Rightarrow> nat \<Rightarrow> bucket \<Rightarrow> bucket" where
  "refill p now b =
     (let cap = of_nat (p_capacity p);
          dt = now - updated_ms b;
          t = (if p_refill p > 0 \<and> dt > 0 then fl (tokens b + gained (p_refill p) dt) else tokens b)
      in b\<lparr>tokens := max (min t cap) 0, b_capacity := cap, b_refill := p_refill p, updated_ms := now\<rparr>)"

definition note_stale :: "nat \<Rightarrow> bucket \<Rightarrow> bool" where
  "note_stale now b = (case noted_ms b of None \<Rightarrow> True | Some t \<Rightarrow> now - t \<ge> NOTE_INTERVAL_MS)"

definition note_refusal :: "nat \<Rightarrow> bucket \<Rightarrow> bucket \<times> bool" where
  "note_refusal now b = (if note_stale now b then (b\<lparr>noted_ms := Some now\<rparr>, True) else (b, False))"

definition expired :: "nat \<Rightarrow> bucket \<Rightarrow> bool" where
  "expired now b \<longleftrightarrow> fl (tokens b + gained (b_refill b) (now - updated_ms b)) \<ge> b_capacity b \<and> note_stale now b"

record limiter =
  policies :: "str \<rightharpoonup> policy"
  buckets :: "limit_key \<rightharpoonup> bucket"
  checks :: nat

section \<open>Operations\<close>

definition new_limiter :: limiter where
  "new_limiter = \<lparr>policies = Map.empty, buckets = Map.empty, checks = 0\<rparr>"

definition set_policy :: "str \<Rightarrow> policy \<Rightarrow> limiter \<Rightarrow> limiter" where
  "set_policy c p l = l\<lparr>policies := (policies l)(c \<mapsto> p)\<rparr>"

definition retain :: "nat \<Rightarrow> (limit_key \<rightharpoonup> bucket) \<Rightarrow> (limit_key \<rightharpoonup> bucket)" where
  "retain now m = (\<lambda>k. case m k of Some b \<Rightarrow> if expired now b then None else Some b | None \<Rightarrow> None)"

definition sweep :: "nat \<Rightarrow> limiter \<Rightarrow> limiter" where
  "sweep now l = l\<lparr>buckets := retain now (buckets l)\<rparr>"

text \<open>The limiter a decision is taken in: counted, and swept when the count says so.\<close>

definition tick :: "nat \<Rightarrow> limiter \<Rightarrow> limiter" where
  "tick now l = (let l = l\<lparr>checks := (checks l + 1) mod 2 ^ 64\<rparr> in if checks l mod SWEEP_EVERY = 0 then sweep now l else l)"

definition bucket_entry :: "policy \<Rightarrow> nat \<Rightarrow> limit_key \<Rightarrow> limiter \<Rightarrow> bucket" where
  "bucket_entry p now k l = refill p now (case buckets l k of Some b \<Rightarrow> b | None \<Rightarrow> fresh_bucket p now)"

definition retry_after :: "policy \<Rightarrow> bucket \<Rightarrow> nat" where
  "retry_after p b = (if p_refill p > 0 then min (nat \<lceil>fl (fl (fl (1 - tokens b) * 1000) / p_refill p)\<rceil>) U64_MAX else U64_MAX)"

definition decide :: "limit_key \<Rightarrow> policy \<Rightarrow> nat \<Rightarrow> bool \<Rightarrow> limiter \<Rightarrow> limiter \<times> decision" where
  "decide k p now consume l =
     (let l = tick now l in
      if p_capacity p = 0 then
        let (b, audit) = note_refusal now (bucket_entry p now k l)
        in (l\<lparr>buckets := (buckets l)(k \<mapsto> b)\<rparr>, Limited U64_MAX audit)
      else if \<not> consume \<and> buckets l k = None then (l, Allowed)
      else
        let b = bucket_entry p now k l in
        if tokens b \<ge> 1 then
          (l\<lparr>buckets := (buckets l)(k \<mapsto> (if consume then b\<lparr>tokens := fl (tokens b - 1)\<rparr> else b))\<rparr>, Allowed)
        else
          let (b', audit) = note_refusal now b
          in (l\<lparr>buckets := (buckets l)(k \<mapsto> b')\<rparr>, Limited (retry_after p b) audit))"

definition check_with :: "limit_key \<Rightarrow> policy \<Rightarrow> nat \<Rightarrow> limiter \<Rightarrow> limiter \<times> decision" where
  "check_with k p now l = decide k p now True l"

definition peek_with :: "limit_key \<Rightarrow> policy \<Rightarrow> nat \<Rightarrow> limiter \<Rightarrow> limiter \<times> decision" where
  "peek_with k p now l = decide k p now False l"

definition check :: "limit_key \<Rightarrow> nat \<Rightarrow> limiter \<Rightarrow> limiter \<times> decision" where
  "check k now l =
     (case policies l (lk_class k) of Some p \<Rightarrow> check_with k p now l | None \<Rightarrow> (l, Allowed))"

definition bucket_count :: "limiter \<Rightarrow> nat" where
  "bucket_count l = card (dom (buckets l))"

section \<open>How much gets through\<close>

text \<open>The rate per millisecond, with room for the rounding of the refill, and the error of one call.\<close>

definition per_ms :: "policy \<Rightarrow> rat" where
  "per_ms p = p_refill p / 1000 * (1 + 1 / 2 ^ 50)"

definition slack :: "policy \<Rightarrow> rat" where
  "slack p = of_nat (p_capacity p) / 2 ^ 51"

lemma fl_le: "0 \<le> x \<Longrightarrow> x \<le> y \<Longrightarrow> fl x \<le> y * (1 + 1 / 2 ^ 53)"
  using fl_upper[of x] by (meson mult_right_mono order_trans add_nonneg_nonneg zero_le_divide_1_iff zero_le_one zero_le_numeral zero_le_power)

lemma gained_bound:
  assumes "0 \<le> rate"
  shows "0 \<le> gained rate dt" "gained rate dt \<le> of_nat dt * rate / 1000 * (1 + 1 / 2 ^ 53) ^ 3"
proof -
  let ?u = "1 + 1 / 2 ^ 53 :: rat"
  have 1: "fl (of_nat dt) \<le> of_nat dt * ?u" by (rule fl_le) auto
  have 2: "fl (fl (of_nat dt) / 1000) \<le> of_nat dt * ?u / 1000 * ?u"
    by (rule fl_le) (use 1 fl_nonneg in \<open>auto intro: divide_right_mono\<close>)
  have "fl (fl (fl (of_nat dt) / 1000) * rate) \<le> of_nat dt * ?u / 1000 * ?u * rate * ?u"
    by (rule fl_le[OF _ mult_right_mono[OF 2 assms]]) (use fl_nonneg assms in auto)
  then show "gained rate dt \<le> of_nat dt * rate / 1000 * ?u ^ 3" by (simp add: gained_def power3_eq_cube mult_ac)
  show "0 \<le> gained rate dt" by (simp add: gained_def fl_nonneg)
qed

lemma level_bound:
  assumes "0 \<le> t" "t \<le> of_nat (p_capacity p)" "0 \<le> p_refill p"
  shows "fl (t + gained (p_refill p) dt) \<le> t + of_nat dt * per_ms p + of_nat (p_capacity p) / 2 ^ 53"
proof -
  let ?u = "1 + 1 / 2 ^ 53 :: rat" and ?g = "of_nat dt * p_refill p / 1000"
  note g = gained_bound[OF assms(3), of dt]
  have "fl (t + gained (p_refill p) dt) \<le> (t + ?g * ?u ^ 3) * ?u" by (rule fl_le) (use g assms in auto)
  also have "\<dots> = t * ?u + ?g * ?u ^ 4" by (simp only: distrib_right mult.assoc) (simp add: eval_nat_numeral mult_ac)
  also have "\<dots> \<le> (t + of_nat (p_capacity p) / 2 ^ 53) + ?g * (1 + 1 / 2 ^ 50)"
  proof (rule add_mono)
    show "t * ?u \<le> t + of_nat (p_capacity p) / 2 ^ 53" using assms(2) by (simp add: distrib_left divide_right_mono)
    have "?u ^ 4 \<le> 1 + 1 / 2 ^ 50" by (simp add: eval_nat_numeral)
    then show "?g * ?u ^ 4 \<le> ?g * (1 + 1 / 2 ^ 50)" using assms(3) by (intro mult_left_mono) auto
  qed
  finally show ?thesis by (simp add: per_ms_def algebra_simps)
qed

text \<open>
  What is accounted for one key after \<open>a\<close> granted calls among \<open>n\<close>, up to time \<open>now\<close>: what was granted and
  what is left in the bucket never exceeds the capacity and what time has brought.
\<close>

definition accounted :: "limit_key \<Rightarrow> policy \<Rightarrow> nat \<Rightarrow> nat \<Rightarrow> nat \<Rightarrow> nat \<Rightarrow> limiter \<Rightarrow> bool" where
  "accounted k p t0 now a n l \<longleftrightarrow> t0 \<le> now \<and>
     (case buckets l k of
        None \<Rightarrow> of_nat a \<le> of_nat (now - t0) * per_ms p + of_nat n * slack p
      | Some b \<Rightarrow> b_capacity b = of_nat (p_capacity p) \<and> b_refill b = p_refill p \<and> t0 \<le> updated_ms b \<and> updated_ms b \<le> now \<and>
          0 \<le> tokens b \<and> tokens b \<le> of_nat (p_capacity p) \<and>
          of_nat a + tokens b \<le> of_nat (p_capacity p) + of_nat (updated_ms b - t0) * per_ms p + of_nat n * slack p)"

lemma slack_nonneg: "0 \<le> slack p"
  by (simp add: slack_def)

lemma per_ms_nonneg: "0 \<le> p_refill p \<Longrightarrow> 0 \<le> per_ms p"
  by (simp add: per_ms_def)

lemma slack_split: "slack p = of_nat (p_capacity p) / 2 ^ 53 * 4"
  by (simp add: slack_def)

text \<open>Time passing and further calls only add to the account.\<close>

lemma span_mono: "0 \<le> r \<Longrightarrow> (m::nat) \<le> n \<Longrightarrow> of_nat m * r \<le> of_nat n * (r::rat)"
  by (simp add: mult_right_mono)

lemma accounted_later:
  assumes "accounted k p t0 now a n l" "now \<le> now'" "n \<le> n'" "0 \<le> p_refill p"
  shows "accounted k p t0 now' a n' l"
proof -
  have "of_nat n * slack p \<le> of_nat n' * slack p" using span_mono[OF slack_nonneg assms(3)] .
  moreover have "of_nat (now - t0) * per_ms p \<le> of_nat (now' - t0) * per_ms p"
    using assms(2) by (intro span_mono[OF per_ms_nonneg[OF assms(4)]]) simp
  ultimately show ?thesis using assms(1,2) unfolding accounted_def by (auto split: option.splits)
qed

text \<open>A bucket brought up to \<open>now\<close>, whether by the refill or by the sweep that drops it when full.\<close>

lemma level_accounted:
  assumes "accounted k p t0 now a n l" "buckets l k = Some b" "now \<le> now'" "0 \<le> p_refill p"
    "x \<le> fl (tokens b + gained (p_refill p) (now' - updated_ms b)) \<or> x \<le> tokens b"
  shows "of_nat a + x \<le> of_nat (p_capacity p) + of_nat (now' - t0) * per_ms p + of_nat n * slack p + of_nat (p_capacity p) / 2 ^ 53"
proof -
  have b: "t0 \<le> updated_ms b" "updated_ms b \<le> now'" "0 \<le> tokens b" "tokens b \<le> of_nat (p_capacity p)"
    "of_nat a + tokens b \<le> of_nat (p_capacity p) + of_nat (updated_ms b - t0) * per_ms p + of_nat n * slack p"
    using assms(1-3) by (auto simp: accounted_def)
  have r: "0 \<le> per_ms p" by (rule per_ms_nonneg[OF assms(4)])
  have "x \<le> tokens b + of_nat (now' - updated_ms b) * per_ms p + of_nat (p_capacity p) / 2 ^ 53"
    using assms(5)
  proof
    assume "x \<le> fl (tokens b + gained (p_refill p) (now' - updated_ms b))"
    then show ?thesis using level_bound[OF b(3,4) assms(4), of "now' - updated_ms b"] by linarith
  next
    assume "x \<le> tokens b"
    moreover have "0 \<le> of_nat (now' - updated_ms b) * per_ms p" using r by simp
    moreover have "0 \<le> (of_nat (p_capacity p) / 2 ^ 53 :: rat)" by simp
    ultimately show ?thesis by linarith
  qed
  moreover have "of_nat (now' - t0) * per_ms p = of_nat (updated_ms b - t0) * per_ms p + of_nat (now' - updated_ms b) * per_ms p"
    using b(1,2) by (simp flip: distrib_right of_nat_add)
  ultimately show ?thesis using b(5) by linarith
qed

lemma accounted_sweep:
  assumes "accounted k p t0 now a n l" "now \<le> now'" "0 \<le> p_refill p"
  shows "accounted k p t0 now' a (Suc n) (sweep now' l)"
proof (cases "buckets (sweep now' l) k = buckets l k")
  case True
  then show ?thesis using accounted_later[OF assms(1,2) _ assms(3), of "Suc n"] by (simp add: accounted_def)
next
  case False
  then obtain b where b: "buckets l k = Some b" "expired now' b" "buckets (sweep now' l) k = None"
    by (auto simp: sweep_def retain_def split: option.splits if_splits)
  have "of_nat (p_capacity p) \<le> fl (tokens b + gained (p_refill p) (now' - updated_ms b))"
    using b(1,2) assms(1) by (simp add: accounted_def expired_def)
  then have "of_nat a + of_nat (p_capacity p) \<le> of_nat (p_capacity p) + of_nat (now' - t0) * per_ms p + of_nat n * slack p + of_nat (p_capacity p) / 2 ^ 53"
    using level_accounted[OF assms(1) b(1) assms(2,3)] by blast
  moreover have "of_nat (p_capacity p) / 2 ^ 53 \<le> slack p" using slack_split[of p] slack_nonneg[of p] by linarith
  ultimately show ?thesis using b(3) assms(1,2) by (simp add: accounted_def distrib_right)
qed

lemma entry_accounted:
  assumes "accounted k p t0 now a n l" "now \<le> now'" "0 \<le> p_refill p"
  defines "b \<equiv> bucket_entry p now' k l"
  shows "b_capacity b = of_nat (p_capacity p)" "b_refill b = p_refill p" "updated_ms b = now'" "0 \<le> tokens b" "tokens b \<le> of_nat (p_capacity p)"
    "of_nat a + tokens b \<le> of_nat (p_capacity p) + of_nat (now' - t0) * per_ms p + of_nat n * slack p + of_nat (p_capacity p) / 2 ^ 53"
proof -
  show "b_capacity b = of_nat (p_capacity p)" "b_refill b = p_refill p" "updated_ms b = now'" "0 \<le> tokens b" "tokens b \<le> of_nat (p_capacity p)"
    by (simp_all add: b_def bucket_entry_def refill_def Let_def)
  show "of_nat a + tokens b \<le> of_nat (p_capacity p) + of_nat (now' - t0) * per_ms p + of_nat n * slack p + of_nat (p_capacity p) / 2 ^ 53"
  proof (cases "buckets l k")
    case None
    have "of_nat a \<le> of_nat (now' - t0) * per_ms p + of_nat n * slack p"
      using accounted_later[OF assms(1,2) _ assms(3), of n] None by (simp add: accounted_def del: of_nat_diff)
    moreover have "tokens b = of_nat (p_capacity p)" using None by (simp add: b_def bucket_entry_def refill_def fresh_bucket_def Let_def)
    moreover have "0 \<le> (of_nat (p_capacity p) / 2 ^ 53 :: rat)" by simp
    ultimately show ?thesis by linarith
  next
    case (Some b')
    have "0 \<le> tokens b'" using assms(1) Some by (simp add: accounted_def)
    then have "tokens b \<le> fl (tokens b' + gained (p_refill p) (now' - updated_ms b')) \<or> tokens b \<le> tokens b'"
      using Some fl_nonneg by (simp add: b_def bucket_entry_def refill_def Let_def)
    then show ?thesis by (rule level_accounted[OF assms(1) Some assms(2,3)])
  qed
qed

text \<open>One call on the key, whether it consumes or only looks.\<close>

lemma spend_bound:
  assumes "1 \<le> t" "t \<le> of_nat (p_capacity p)" "p_capacity p < 2 ^ 32"
  shows "0 \<le> fl (t - 1)" "fl (t - 1) \<le> of_nat (p_capacity p)" "fl (t - 1) \<le> t - 1 + of_nat (p_capacity p) / 2 ^ 53"
proof -
  have f: "fl (t - 1) \<le> (t - 1) * (1 + 1 / 2 ^ 53)" using fl_upper[of "t - 1"] assms(1) by simp
  also have "\<dots> = (t - 1) + (t - 1) / 2 ^ 53" by (simp only: distrib_left mult_1_right times_divide_eq_right)
  finally have g: "fl (t - 1) \<le> (t - 1) + (t - 1) / 2 ^ 53" .
  have "(t - 1) / 2 ^ 53 \<le> of_nat (p_capacity p) / 2 ^ 53" using assms(2) by (intro divide_right_mono) auto
  with g show b: "fl (t - 1) \<le> t - 1 + of_nat (p_capacity p) / 2 ^ 53" by linarith
  have "(of_nat (p_capacity p) :: rat) \<le> 2 ^ 32" using assms(3) by (metis less_imp_le of_nat_le_iff of_nat_numeral of_nat_power)
  then have "of_nat (p_capacity p) / 2 ^ 53 \<le> (1::rat)" by simp
  with b assms(2) show "fl (t - 1) \<le> of_nat (p_capacity p)" by linarith
qed (rule fl_nonneg)

lemma note_refusal_fields: "note_refusal now b = (b', audit) \<Longrightarrow> tokens b' = tokens b \<and> b_capacity b' = b_capacity b \<and> b_refill b' = b_refill b \<and> updated_ms b' = updated_ms b"
  by (auto simp: note_refusal_def split: if_splits)

definition granted :: "bool \<Rightarrow> decision \<Rightarrow> nat" where
  "granted consume r = (if consume \<and> r = Allowed then 1 else 0)"

lemma accounted_own:
  assumes acc: "accounted k p t0 now a n l" and t: "now \<le> now'" and p: "0 \<le> p_refill p" "0 < p_capacity p" "p_capacity p < 2 ^ 32"
    and l': "l' = (if consume \<or> buckets l k \<noteq> None then
        (let b = bucket_entry p now' k l in
         if tokens b \<ge> 1 then l\<lparr>buckets := (buckets l)(k \<mapsto> (if consume then b\<lparr>tokens := fl (tokens b - 1)\<rparr> else b))\<rparr>
         else l\<lparr>buckets := (buckets l)(k \<mapsto> fst (note_refusal now' b))\<rparr>) else l)"
    and r: "g = (if consume \<and> tokens (bucket_entry p now' k l) \<ge> 1 then 1 else 0)"
  shows "accounted k p t0 now' (a + g) (Suc n) l'"
proof (cases "consume \<or> buckets l k \<noteq> None")
  case False
  then have "accounted k p t0 now' a (Suc n) l" using accounted_later[OF acc t _ p(1), of "Suc n"] by simp
  then show ?thesis using False l' r by simp
next
  case True
  let ?b = "bucket_entry p now' k l" and ?cap = "of_nat (p_capacity p) :: rat"
  note e = entry_accounted[OF acc t p(1)]
  have s: "?cap / 2 ^ 53 * 2 \<le> slack p" using slack_split[of p] slack_nonneg[of p] by linarith
  have c0: "0 \<le> ?cap / 2 ^ 53" by simp
  have t0: "t0 \<le> now'" using acc t by (auto simp: accounted_def)
  have fin: "accounted k p t0 now' (a + g) (Suc n) (l\<lparr>buckets := (buckets l)(k \<mapsto> b')\<rparr>)"
    if "b_capacity b' = ?cap" "b_refill b' = p_refill p" "updated_ms b' = now'" "0 \<le> tokens b'" "tokens b' \<le> ?cap"
      "of_nat g + tokens b' \<le> tokens ?b + ?cap / 2 ^ 53" for b'
    using that e(6) s t0 by (simp add: accounted_def distrib_right)
  show ?thesis
  proof (cases "tokens ?b \<ge> 1")
    case True
    note sp = spend_bound[OF True e(5) p(3)]
    show ?thesis using fin[of "if consume then ?b\<lparr>tokens := fl (tokens ?b - 1)\<rparr> else ?b"] l' r True sp e c0 \<open>consume \<or> _\<close>
      by (auto simp: Let_def)
  next
    case False
    obtain b' audit where nr: "note_refusal now' ?b = (b', audit)" by fastforce
    show ?thesis using fin[of b'] note_refusal_fields[OF nr] nr l' r False e c0 \<open>consume \<or> _\<close> by (auto simp: Let_def)
  qed
qed

subsection \<open>Any sequence of calls\<close>

datatype limit_op = Decide limit_key policy nat bool | Sweep nat

fun op_time :: "limit_op \<Rightarrow> nat" where
  "op_time (Decide _ _ now _) = now" | "op_time (Sweep now) = now"

fun limit_step :: "limiter \<Rightarrow> limit_op \<Rightarrow> limiter \<times> decision option" where
  "limit_step l (Decide k p now consume) = (let (l', r) = decide k p now consume l in (l', Some r))"
| "limit_step l (Sweep now) = (sweep now l, None)"

text \<open>Calls on a key that consumed a token.\<close>

fun grants_of :: "limit_key \<Rightarrow> limit_op \<times> decision option \<Rightarrow> nat" where
  "grants_of k (Decide k' p now consume, r) = (if k' = k \<and> consume \<and> r = Some Allowed then 1 else 0)"
| "grants_of k (Sweep now, r) = 0"

definition fixed_policy :: "limit_key \<Rightarrow> policy \<Rightarrow> limit_op \<Rightarrow> bool" where
  "fixed_policy k p op = (case op of Decide k' p' _ _ \<Rightarrow> k' = k \<longrightarrow> p' = p | Sweep _ \<Rightarrow> True)"

lemma accounted_tick:
  assumes "accounted k p t0 now a n l" "now \<le> now'" "0 \<le> p_refill p"
  shows "accounted k p t0 now' a (Suc n) (tick now' l)"
proof -
  let ?l = "l\<lparr>checks := (checks l + 1) mod 2 ^ 64\<rparr>"
  have "accounted k p t0 now a n ?l" using assms(1) by (simp add: accounted_def)
  then show ?thesis
    using accounted_sweep[of k p t0 now a n ?l now'] accounted_later[of k p t0 now a n ?l now' "Suc n"] assms(2,3)
    by (auto simp: tick_def Let_def)
qed

lemma decide_own:
  assumes "0 < p_capacity p"
  shows "fst (decide k p now consume l) = (let l = tick now l in if consume \<or> buckets l k \<noteq> None then
        (let b = bucket_entry p now k l in
         if tokens b \<ge> 1 then l\<lparr>buckets := (buckets l)(k \<mapsto> (if consume then b\<lparr>tokens := fl (tokens b - 1)\<rparr> else b))\<rparr>
         else l\<lparr>buckets := (buckets l)(k \<mapsto> fst (note_refusal now b))\<rparr>) else l)"
    and "consume \<Longrightarrow> snd (decide k p now consume l) = Allowed \<longleftrightarrow> tokens (bucket_entry p now k (tick now l)) \<ge> 1"
  using assms by (auto simp: decide_def Let_def split: prod.split)

lemma decide_other:
  assumes "k' \<noteq> k"
  shows "buckets (fst (decide k' p' now consume l)) k = buckets (tick now l) k"
  using assms by (auto simp: decide_def Let_def split: prod.split)

lemma accounted_step:
  assumes acc: "accounted k p t0 now a n l" and t: "now \<le> op_time op" and p: "0 \<le> p_refill p" "0 < p_capacity p" "p_capacity p < 2 ^ 32"
    and pol: "fixed_policy k p op" and st: "limit_step l op = (l', r)"
  shows "accounted k p t0 (op_time op) (a + grants_of k (op, r)) (n + 2) l'"
proof (cases op)
  case (Decide k' p' now' consume)
  have d: "decide k' p' now' consume l = (l', the r)" "r = Some (the r)" using st Decide by (auto split: prod.splits)
  have tk: "accounted k p t0 now' a (Suc n) (tick now' l)" using accounted_tick[OF acc _ p(1)] t Decide by simp
  show ?thesis
  proof (cases "k' = k")
    case True
    then have pp: "p' = p" using pol Decide by (simp add: fixed_policy_def)
    have g: "grants_of k (op, r) = (if consume \<and> tokens (bucket_entry p now' k (tick now' l)) \<ge> 1 then 1 else 0)"
      using decide_own(2)[OF p(2), of consume k now' l] d True pp Decide by auto
    have "l' = (let l = tick now' l in if consume \<or> buckets l k \<noteq> None then
        (let b = bucket_entry p now' k l in
         if tokens b \<ge> 1 then l\<lparr>buckets := (buckets l)(k \<mapsto> (if consume then b\<lparr>tokens := fl (tokens b - 1)\<rparr> else b))\<rparr>
         else l\<lparr>buckets := (buckets l)(k \<mapsto> fst (note_refusal now' b))\<rparr>) else l)"
      using decide_own(1)[OF p(2), of k now' consume l] d True pp by simp
    then have "accounted k p t0 now' (a + grants_of k (op, r)) (Suc (Suc n)) l'"
      unfolding Let_def[of "tick now' l"] by (intro accounted_own[OF tk _ p _ g]) simp_all
    then show ?thesis using Decide by simp
  next
    case False
    have "buckets l' k = buckets (tick now' l) k" using decide_other[OF False, of p' now' consume l] d by simp
    then have "accounted k p t0 now' a (Suc n) l'" using tk by (simp add: accounted_def)
    then show ?thesis using accounted_later[of k p t0 now' a "Suc n" l' now' "n + 2"] p(1) False Decide by simp
  qed
next
  case (Sweep now')
  have "accounted k p t0 now' a (Suc n) l'" using accounted_sweep[OF acc _ p(1), of now'] t st Sweep by simp
  then show ?thesis using accounted_later[of k p t0 now' a "Suc n" l' now' "n + 2"] p(1) Sweep by simp
qed

lemma accounted_run:
  assumes "accounted k p t0 now a n l" "sorted (now # map op_time ops)" "0 \<le> p_refill p" "0 < p_capacity p" "p_capacity p < 2 ^ 32"
    "list_all (fixed_policy k p) ops"
  shows "accounted k p t0 (last (now # map op_time ops)) (a + sum_list (map (grants_of k) (zip ops (snd (run_calls limit_step l ops)))))
     (n + 2 * length ops) (fst (run_calls limit_step l ops))"
  using assms
proof (induction ops arbitrary: now a n l)
  case (Cons op ops)
  obtain l' r where st: "limit_step l op = (l', r)" by fastforce
  have "accounted k p t0 (op_time op) (a + grants_of k (op, r)) (n + 2) l'"
    using accounted_step[OF Cons.prems(1) _ Cons.prems(3-5) _ st] Cons.prems(2,6) by simp
  from Cons.IH[OF this] Cons.prems show ?case by (simp add: st split_beta add.assoc)
qed simp

section \<open>How often a refusal is noted\<close>

fun audits_of :: "limit_key \<Rightarrow> limit_op \<times> decision option \<Rightarrow> nat list" where
  "audits_of k (Decide k' p now consume, Some (Limited _ True)) = (if k' = k then [now] else [])"
| "audits_of k _ = []"

lemma audits_none [simp]:
  "k' \<noteq> k \<Longrightarrow> audits_of k (Decide k' p now consume, r) = []" "audits_of k (op, Some Allowed) = []" "audits_of k (Sweep now, r) = []"
  by (cases "(k, (Decide k' p now consume, r))" rule: audits_of.cases; simp) (cases op; simp)+

definition spaced :: "nat list \<Rightarrow> bool" where
  "spaced ts \<longleftrightarrow> sorted_wrt (\<lambda>s t. s + NOTE_INTERVAL_MS \<le> t) ts"

text \<open>The last note of a key is still in its bucket, or a minute has passed.\<close>

definition noted :: "limit_key \<Rightarrow> nat \<Rightarrow> nat \<Rightarrow> limiter \<Rightarrow> bool" where
  "noted k now t l \<longleftrightarrow> t \<le> now \<and>
     (t + NOTE_INTERVAL_MS \<le> now \<or> (\<exists>b. buckets l k = Some b \<and> noted_ms b = Some t))"

lemma noted_later: "noted k now t l \<Longrightarrow> now \<le> now' \<Longrightarrow> noted k now' t l"
  by (auto simp: noted_def)

lemma noted_sweep: "noted k now t l \<Longrightarrow> now \<le> now' \<Longrightarrow> noted k now' t (sweep now' l)"
  by (auto simp: noted_def sweep_def retain_def expired_def note_stale_def NOTE_INTERVAL_MS_def split: option.splits)

lemma noted_tick: "noted k now t l \<Longrightarrow> now \<le> now' \<Longrightarrow> noted k now' t (tick now' l)"
  using noted_sweep[of k now t "l\<lparr>checks := (checks l + 1) mod 2 ^ 64\<rparr>" now'] noted_later[of k now t l now']
  by (auto simp: tick_def Let_def noted_def)

lemma noted_ms_refill: "noted_ms (refill p now b) = noted_ms b"
  by (simp add: refill_def Let_def)

lemma decide_forms:
  obtains "decide k p now consume l = (tick now l, Allowed)" "buckets (tick now l) k = None"
  | b where "decide k p now consume l = ((tick now l)\<lparr>buckets := (buckets (tick now l))(k \<mapsto> b)\<rparr>, Allowed)"
      "noted_ms b = noted_ms (bucket_entry p now k (tick now l))"
  | b retry audit where "decide k p now consume l = ((tick now l)\<lparr>buckets := (buckets (tick now l))(k \<mapsto> b)\<rparr>, Limited retry audit)"
      "note_refusal now (bucket_entry p now k (tick now l)) = (b, audit)"
proof -
  obtain b' audit where nr: "note_refusal now (bucket_entry p now k (tick now l)) = (b', audit)" by fastforce
  show thesis
  proof (cases "p_capacity p = 0")
    case True
    then show thesis using that(3)[of b' U64_MAX audit] nr by (simp add: decide_def Let_def)
  next
    case cap: False
    show thesis
    proof (cases "\<not> consume \<and> buckets (tick now l) k = None")
      case True
      then show thesis using that(1) cap by (simp add: decide_def Let_def)
    next
      case False
      then show thesis using that(2) that(3)[of b' _ audit] cap nr
        by (cases "tokens (bucket_entry p now k (tick now l)) \<ge> 1"; cases consume) (auto simp: decide_def Let_def)
    qed
  qed
qed

lemma entry_noted:
  assumes "noted k now t l"
  shows "noted_ms (bucket_entry p now k l) = Some t \<or> t + NOTE_INTERVAL_MS \<le> now"
  using assms by (auto simp: noted_def bucket_entry_def noted_ms_refill)

lemma noted_step:
  assumes n: "noted k now t l" and le: "now \<le> op_time op" and st: "limit_step l op = (l', r)"
  shows "(audits_of k (op, r) = [] \<and> noted k (op_time op) t l') \<or>
    (audits_of k (op, r) = [op_time op] \<and> t + NOTE_INTERVAL_MS \<le> op_time op \<and> noted k (op_time op) (op_time op) l')"
proof (cases op)
  case (Sweep now')
  then show ?thesis using noted_sweep[OF n, of now'] le st by auto
next
  case (Decide k' p now' consume)
  have tk: "noted k now' t (tick now' l)" using noted_tick[OF n] le Decide by simp
  have d: "decide k' p now' consume l = (l', the r)" "r = Some (the r)" using st Decide by (auto split: prod.splits)
  show ?thesis
  proof (cases "k' = k")
    case False
    then have "buckets l' k = buckets (tick now' l) k" using decide_other[OF False, of p now' consume l] d by simp
    then have "noted k now' t l'" using tk by (simp add: noted_def)
    moreover have "audits_of k (op, r) = []" using Decide False by simp
    ultimately show ?thesis using Decide by simp
  next
    case True
    note e = entry_noted[OF tk, of p]
    show ?thesis
    proof (cases rule: decide_forms[of k' p now' consume l])
      case 1
      then have "r = Some Allowed" "l' = tick now' l" using d by auto
      then show ?thesis using tk Decide by simp
    next
      case (2 b)
      then have "r = Some Allowed" "l' = (tick now' l)\<lparr>buckets := (buckets (tick now' l))(k \<mapsto> b)\<rparr>" using d True by auto
      then show ?thesis using tk Decide True e 2(2) by (auto simp: noted_def)
    next
      case (3 b retry audit)
      then have "r = Some (Limited retry audit)" "l' = (tick now' l)\<lparr>buckets := (buckets (tick now' l))(k \<mapsto> b)\<rparr>" using d True by auto
      then show ?thesis using 3(2) Decide True e tk
        by (cases audit) (auto simp: noted_def note_refusal_def note_stale_def NOTE_INTERVAL_MS_def split: if_splits option.splits)
    qed
  qed
qed

lemma spaced_Cons: "spaced (t # ts) \<longleftrightarrow> spaced ts \<and> (\<forall>s \<in> set ts. t + NOTE_INTERVAL_MS \<le> s)"
  by (auto simp: spaced_def)

lemma spaced_before: "spaced (s # ts) \<Longrightarrow> t + NOTE_INTERVAL_MS \<le> s \<Longrightarrow> spaced (t # s # ts)"
  by (fastforce simp: spaced_Cons)

lemma noted_run:
  assumes "noted k now t l" "sorted (now # map op_time ops)"
  shows "spaced (t # concat (map (audits_of k) (zip ops (snd (run_calls limit_step l ops)))))"
  using assms
proof (induction ops arbitrary: now t l)
  case (Cons op ops)
  obtain l' r where st: "limit_step l op = (l', r)" by fastforce
  from noted_step[OF Cons.prems(1) _ st] Cons.prems(2) consider
    "audits_of k (op, r) = []" "noted k (op_time op) t l'"
    | "audits_of k (op, r) = [op_time op]" "t + NOTE_INTERVAL_MS \<le> op_time op" "noted k (op_time op) (op_time op) l'" by auto
  then show ?case
  proof cases
    case 1
    then show ?thesis using Cons.IH[OF 1(2)] Cons.prems(2) st by (simp add: split_beta)
  next
    case 2
    then show ?thesis using spaced_before[OF Cons.IH[OF 2(3)] 2(2)] Cons.prems(2) st by (simp add: split_beta)
  qed
qed (simp add: spaced_def)

text \<open>Before the first note there is nothing to keep.\<close>

lemma first_note:
  assumes "sorted (map op_time ops)"
  shows "spaced (concat (map (audits_of k) (zip ops (snd (run_calls limit_step l ops)))))"
  using assms
proof (induction ops arbitrary: l)
  case (Cons op ops)
  obtain l' r where st: "limit_step l op = (l', r)" by fastforce
  show ?case
  proof (cases "audits_of k (op, r)")
    case Nil
    then show ?thesis using Cons st by (simp add: split_beta)
  next
    case (Cons x xs)
    then obtain p consume retry where op: "op = Decide k p x consume" "r = Some (Limited retry True)" "xs = []"
      by (cases "(k, (op, r))" rule: audits_of.cases) (auto split: if_splits)
    have "noted k x x l'"
      using st op by (cases rule: decide_forms[of k p x consume l])
        (auto simp: noted_def note_refusal_def split: prod.splits if_splits)
    then show ?thesis
      using noted_run[of k x x l' ops] \<open>sorted (map op_time (op # ops))\<close> Cons st op by (simp add: split_beta)
  qed
qed (simp add: spaced_def)

section \<open>Theorems\<close>

text \<open>
  C28. However calls on many keys, probes and sweeps are interleaved under a clock that does not run
  backwards, the calls a key gets through in any period are at most its burst, plus its rate times the
  period, up to the rounding of the floating-point arithmetic, which is bounded. Dropping idle buckets
  grants nothing extra.
\<close>

theorem rate_limit_bound:
  assumes "sorted (t0 # map op_time ops)" and "0 \<le> p_refill p" and "0 < p_capacity p" and "p_capacity p < 2 ^ 32"
    and "list_all (fixed_policy k p) ops"
  shows "of_nat (sum_list (map (grants_of k) (zip ops (snd (run_calls limit_step new_limiter ops)))))
    \<le> of_nat (p_capacity p) + of_nat (last (t0 # map op_time ops) - t0) * (p_refill p / 1000 * (1 + 1 / 2 ^ 50))
      + of_nat (2 * length ops) * (of_nat (p_capacity p) / 2 ^ 51)"
proof -
  let ?n = "sum_list (map (grants_of k) (zip ops (snd (run_calls limit_step new_limiter ops))))"
  let ?T = "last (t0 # map op_time ops)" and ?l = "fst (run_calls limit_step new_limiter ops)"
  have "accounted k p t0 t0 0 0 new_limiter" by (simp add: accounted_def new_limiter_def)
  from accounted_run[OF this assms] have acc: "accounted k p t0 ?T ?n (2 * length ops) ?l" by simp
  have cap: "0 \<le> (of_nat (p_capacity p) :: rat)" by simp
  show ?thesis
  proof (cases "buckets ?l k")
    case None
    then have "of_nat ?n \<le> of_nat (?T - t0) * per_ms p + of_nat (2 * length ops) * slack p" using acc by (simp add: accounted_def del: of_nat_diff)
    then show ?thesis using cap unfolding per_ms_def slack_def by linarith
  next
    case (Some b)
    have "of_nat (updated_ms b - t0) * per_ms p \<le> of_nat (?T - t0) * per_ms p"
      using acc Some by (intro span_mono[OF per_ms_nonneg[OF assms(2)]] diff_le_mono) (simp add: accounted_def)
    moreover have "of_nat ?n + tokens b \<le> of_nat (p_capacity p) + of_nat (updated_ms b - t0) * per_ms p + of_nat (2 * length ops) * slack p"
      "0 \<le> tokens b" using acc Some by (simp_all add: accounted_def del: of_nat_diff)
    ultimately show ?thesis unfolding per_ms_def slack_def by linarith
  qed
qed

theorem rate_limit_bound_witness:
  "of_nat (sum_list (map (grants_of (\<lparr>lk_scope = ScopeAccount 1, lk_class = lit ''msg''\<rparr>))
     (zip (replicate 3 (Decide \<lparr>lk_scope = ScopeAccount 1, lk_class = lit ''msg''\<rparr> \<lparr>p_capacity = 2, p_refill = 1\<rparr> 5 True))
       (snd (run_calls limit_step new_limiter (replicate 3 (Decide \<lparr>lk_scope = ScopeAccount 1, lk_class = lit ''msg''\<rparr> \<lparr>p_capacity = 2, p_refill = 1\<rparr> 5 True)))))))
   < (3 :: rat)"
  using rate_limit_bound[of 5 "replicate 3 (Decide \<lparr>lk_scope = ScopeAccount 1, lk_class = lit ''msg''\<rparr> \<lparr>p_capacity = 2, p_refill = 1\<rparr> 5 True)"
      "\<lparr>p_capacity = 2, p_refill = 1\<rparr>" "\<lparr>lk_scope = ScopeAccount 1, lk_class = lit ''msg''\<rparr>"]
  by (simp add: fixed_policy_def numeral_3_eq_3)

text \<open>
  A flood of refusals does not flood the audit log: whatever is called in between, and even when the
  bucket is swept away and made anew, two refusals of the same key that are flagged for audit are at
  least a minute apart.
\<close>

lemma refusals_audited_sparsely:
  assumes "sorted (map op_time ops)"
  shows "sorted_wrt (\<lambda>s t. s + NOTE_INTERVAL_MS \<le> t) (concat (map (audits_of k) (zip ops (snd (run_calls limit_step l ops)))))"
  using first_note[OF assms] by (simp add: spaced_def)

section \<open>The retry hint\<close>

text \<open>The roundings of one refill of the default message policy, ten tokens a second.\<close>

lemma fl_nat: "n < 2 ^ 53 \<Longrightarrow> fl (of_nat n) = of_nat n"
  using fl_int[of "int n"] by simp

lemma msg_policy: "for_class default_limits (lit ''msg'') = Some \<lparr>p_capacity = 20, p_refill = 10\<rparr>"
  using fl_nat[of 10] by (simp add: for_class_def default_limits_def)

lemma gained_8: "gained 10 8 = 5764607523034235 / 2 ^ 56"
proof -
  have "fl (8 / 1000) = 4611686018427388 / 2 ^ 59" using fl_scaled[of "8 / 1000" 59 4611686018427388] by simp
  moreover have "fl (4611686018427388 / 2 ^ 59 * 10) = 5764607523034235 / 2 ^ 56"
    using fl_scaled[of "4611686018427388 / 2 ^ 59 * 10" 56 5764607523034235] by simp
  moreover have "fl (of_nat 8) = 8" using fl_nat[of 8] by simp
  ultimately show ?thesis by (simp only: gained_def)
qed

lemma gained_92: "gained 10 92 = 8286623314361712 / 2 ^ 53"
proof -
  have "fl (92 / 1000) = 6629298651489370 / 2 ^ 56" using fl_scaled[of "92 / 1000" 56 6629298651489370] by simp
  moreover have "fl (6629298651489370 / 2 ^ 56 * 10) = 8286623314361712 / 2 ^ 53"
    using fl_scaled[of "6629298651489370 / 2 ^ 56 * 10" 53 8286623314361712] by simp
  moreover have "fl (of_nat 92) = 92" using fl_nat[of 92] by simp
  ultimately show ?thesis by (simp only: gained_def)
qed

lemma level_8: "fl (5764607523034235 / 2 ^ 56) = 5764607523034235 / 2 ^ 56"
  using fl_scaled[of "5764607523034235 / 2 ^ 56" 56 5764607523034235] by simp

lemma level_100: "fl (5764607523034235 / 2 ^ 56 + 8286623314361712 / 2 ^ 53) = 9007199254740991 / 2 ^ 53"
  using fl_scaled[of "5764607523034235 / 2 ^ 56 + 8286623314361712 / 2 ^ 53" 53 9007199254740991] by simp

lemma hint_8: "fl (fl (fl (1 - 5764607523034235 / 2 ^ 56) * 1000) / 10) = 92"
proof -
  have "fl (1 - 5764607523034235 / 2 ^ 56) = 8286623314361713 / 2 ^ 53"
    using fl_scaled[of "1 - 5764607523034235 / 2 ^ 56" 53 8286623314361713] by simp
  moreover have "fl (8286623314361713 / 2 ^ 53 * 1000) = 920"
    using fl_scaled[of "8286623314361713 / 2 ^ 53 * 1000" 43 8092405580431360] by simp
  moreover have "fl (920 / 10) = 92" using fl_nat[of 92] by simp
  ultimately show ?thesis by (simp only:)
qed

text \<open>Draining a full bucket at one instant.\<close>

definition msg_key :: limit_key where "msg_key = \<lparr>lk_scope = ScopeAccount 1, lk_class = lit ''msg''\<rparr>"

definition drained :: "nat \<Rightarrow> limiter" where
  "drained n = \<lparr>policies = Map.empty, buckets = (if n = 0 then Map.empty else [msg_key \<mapsto> \<lparr>tokens = of_nat (20 - n), b_capacity = 20, b_refill = 10,
     updated_ms = 0, noted_ms = None\<rparr>]), checks = n\<rparr>"

lemma drain_step: "n < 20 \<Longrightarrow> check_with msg_key \<lparr>p_capacity = 20, p_refill = 10\<rparr> 0 (drained n) = (drained (Suc n), Allowed)"
proof -
  assume n: "n < 20"
  have s: "fl (of_nat (20 - n) - 1) = of_nat (20 - Suc n)" using fl_nat[of "20 - Suc n"] n by (simp add: Suc_diff_Suc[symmetric] of_nat_diff)
  have "Suc n mod 1024 \<noteq> 0" using n by auto
  then show ?thesis using n s
    by (cases "n = 0") (simp_all add: check_with_def decide_def tick_def SWEEP_EVERY_def bucket_entry_def refill_def fresh_bucket_def drained_def Let_def of_nat_diff)
qed

lemma drain_all: "k + n \<le> 20 \<Longrightarrow> run_calls (\<lambda>l now. check_with msg_key \<lparr>p_capacity = 20, p_refill = 10\<rparr> now l) (drained k) (replicate n 0) =
    (drained (k + n), replicate n Allowed)"
  by (induction n arbitrary: k) (simp_all add: drain_step)

lemma hint_100: "retry_after \<lparr>p_capacity = 20, p_refill = 10\<rparr> \<lparr>tokens = 9007199254740991 / 2 ^ 53, b_capacity = 20, b_refill = 10, updated_ms = 100, noted_ms = Some 8\<rparr> = 1"
proof -
  have "fl (1 - 9007199254740991 / 2 ^ 53) = 4503599627370496 / 2 ^ 105" using fl_scaled[of "1 - 9007199254740991 / 2 ^ 53" 105 4503599627370496] by simp
  moreover have "fl (4503599627370496 / 2 ^ 105 * 1000) = 8796093022208000 / 2 ^ 96" using fl_scaled[of "4503599627370496 / 2 ^ 105 * 1000" 96 8796093022208000] by simp
  moreover have "fl (8796093022208000 / 2 ^ 96 / 10) = 7036874417766400 / 2 ^ 99" using fl_scaled[of "8796093022208000 / 2 ^ 96 / 10" 99 7036874417766400] by simp
  ultimately have h: "fl (fl (fl (1 - 9007199254740991 / 2 ^ 53) * 1000) / 10) = 7036874417766400 / 2 ^ 99" by (simp only:)
  have "\<lceil>7036874417766400 / 2 ^ 99 :: rat\<rceil> = 1" by (simp add: ceiling_unique)
  then show ?thesis unfolding retry_after_def bucket.simps policy.simps h by (simp add: U64_MAX_def)
qed

text \<open>
  C29. The retry hint can be too short. With the default message policy, a drained bucket asked 8 ms later
  answers "retry after 92 ms"; asked again exactly then, at 100 ms, when a token should have arrived, it
  refuses, because ten tokens a second for 8 and for 92 ms round to just below one.
\<close>

theorem retry_hint_too_short:
  "snd (run_calls (\<lambda>l now. check_with msg_key (the (for_class default_limits (lit ''msg''))) now l) new_limiter (replicate 20 0 @ [8, 100])) =
     replicate 20 Allowed @ [Limited 92 True, Limited 1 False]"
proof -
  let ?p = "\<lparr>p_capacity = 20, p_refill = 10\<rparr> :: policy"
  let ?step = "\<lambda>l now. check_with msg_key ?p now l"
  define X Y where "X = (5764607523034235 / 2 ^ 56 :: rat)" and "Y = (9007199254740991 / 2 ^ 53 :: rat)"
  have X: "gained 10 8 = X" "fl X = X" "fl (fl (fl (1 - X) * 1000) / 10) = 92" "0 < X" "X < 1"
    unfolding X_def by (rule gained_8 level_8 hint_8 | simp)+
  have Y: "fl (X + gained 10 92) = Y" "0 < Y" "Y < 1"
    unfolding X_def Y_def gained_92 by (rule level_100 | simp)+
  let ?l = "\<lparr>policies = Map.empty, buckets = [msg_key \<mapsto> \<lparr>tokens = X, b_capacity = 20, b_refill = 10, updated_ms = 8, noted_ms = Some 8\<rparr>], checks = 21\<rparr>"
  have first: "run_calls ?step new_limiter (replicate 20 0) = (drained 20, replicate 20 Allowed)"
    using drain_all[of 0 20] by (simp add: drained_def new_limiter_def)
  have e8: "bucket_entry ?p 8 msg_key (drained 20\<lparr>checks := 21\<rparr>) = \<lparr>tokens = X, b_capacity = 20, b_refill = 10, updated_ms = 8, noted_ms = None\<rparr>"
    using X by (simp add: bucket_entry_def refill_def drained_def Let_def)
  have t8: "tick 8 (drained 20) = drained 20\<lparr>checks := 21\<rparr>" by (simp add: tick_def drained_def SWEEP_EVERY_def)
  have "retry_after ?p \<lparr>tokens = X, b_capacity = 20, b_refill = 10, updated_ms = 8, noted_ms = None\<rparr> = 92"
    using X(3) by (simp add: retry_after_def U64_MAX_def)
  then have second: "?step (drained 20) 8 = (?l, Limited 92 True)"
    unfolding check_with_def decide_def t8 Let_def e8 using X by (simp add: note_refusal_def note_stale_def drained_def)
  have e100: "bucket_entry ?p 100 msg_key (?l\<lparr>checks := 22\<rparr>) = \<lparr>tokens = Y, b_capacity = 20, b_refill = 10, updated_ms = 100, noted_ms = Some 8\<rparr>"
    using Y by (simp add: bucket_entry_def refill_def Let_def)
  have t100: "tick 100 ?l = ?l\<lparr>checks := 22\<rparr>" by (simp add: tick_def SWEEP_EVERY_def)
  have third: "snd (?step ?l 100) = Limited 1 False"
    unfolding check_with_def decide_def t100 Let_def e100 using Y hint_100[folded Y_def]
    by (simp add: note_refusal_def note_stale_def NOTE_INTERVAL_MS_def)
  show ?thesis unfolding msg_policy option.sel run_calls_append first using second third by (simp add: split_beta)
qed

end
