(* ===== verification/Core_Auth.thy ===== *)
theory Core_Auth
  imports Hotline_Access
begin

text \<open>
  Sign-in and registration (\<open>crates/server-core/src/auth.rs\<close>) over the account tables of
  \<open>crates/store-server/src/repo.rs\<close> and \<open>repo2.rs\<close>. A table is its list of rows in the order of their ids, or
  a map by its primary key; a statement is the function it computes, with the columns nobody here reads
  left out. Names compare as SQLite's \<open>NOCASE\<close> does. The third-party cryptography (Argon2id, TOTP, blake3,
  base64) and Unicode lower-casing are the fields of the argument \<open>cr\<close>; random bytes and the time are
  arguments of the calls that draw them.
\<close>

section \<open>Tables\<close>

record auth_account = account +
  acc_login :: str
  acc_phc :: "str option"
  acc_name :: str
  acc_disabled :: bool
  invited_by :: "int option"

record persona =
  per_id :: int
  per_account :: int
  per_name :: str
  is_default :: bool

record invite_row =
  created_by :: int
  inv_expires :: int
  used_by :: "int option"

record totp_row =
  totp_secret :: bytes
  totp_confirmed :: bool
  recovery_hashes :: "bytes list"

record auth_store =
  accounts :: "auth_account list"
  next_account :: int
  personas :: "persona list"
  next_persona :: int
  retired_names :: "str list"
  invites :: "str \<rightharpoonup> invite_row"
  sessions :: "bytes \<rightharpoonup> int \<times> int"
  totps :: "int \<rightharpoonup> totp_row"
  class_rows :: classes

record crypto =
  verify_password :: "str \<Rightarrow> str \<Rightarrow> bool option"
  hash_password :: "nat \<Rightarrow> str \<Rightarrow> str option"
  needs_rehash :: "str \<Rightarrow> bool option"
  totp_valid :: "bytes \<Rightarrow> str \<Rightarrow> bool"
  totp_verify :: "bytes \<Rightarrow> int \<Rightarrow> str \<Rightarrow> bool option"
  blake3 :: "bytes \<Rightarrow> bytes"
  lowercase :: "str \<Rightarrow> str"
  base64url_decode :: "str \<Rightarrow> bytes option"

definition nocase :: "str \<Rightarrow> str \<Rightarrow> bool" where
  "nocase a b \<longleftrightarrow> to_ascii_lowercase a = to_ascii_lowercase b"

definition by_login :: "str \<Rightarrow> auth_store \<Rightarrow> auth_account option" where
  "by_login n st = List.find (\<lambda>a. nocase (acc_login a) n) (accounts st)"

definition by_id :: "int \<Rightarrow> auth_store \<Rightarrow> auth_account option" where
  "by_id i st = List.find (\<lambda>a. acc_id a = i) (accounts st)"

definition by_screen_name :: "str \<Rightarrow> auth_store \<Rightarrow> persona option" where
  "by_screen_name n st = List.find (\<lambda>p. nocase (per_name p) n) (personas st)"

definition name_is_retired :: "str \<Rightarrow> auth_store \<Rightarrow> bool" where
  "name_is_retired n st \<longleftrightarrow> list_ex (\<lambda>r. nocase r n) (retired_names st)"

definition update_account :: "int \<Rightarrow> (auth_account \<Rightarrow> auth_account) \<Rightarrow> auth_store \<Rightarrow> auth_store" where
  "update_account i f st = st\<lparr>accounts := map (\<lambda>a. if acc_id a = i then f a else a) (accounts st)\<rparr>"

definition update_phc :: "int \<Rightarrow> str \<Rightarrow> auth_store \<Rightarrow> auth_store" where
  "update_phc i phc = update_account i (\<lambda>a. a\<lparr>acc_phc := Some phc\<rparr>)"

definition set_invited_by :: "int \<Rightarrow> int \<Rightarrow> auth_store \<Rightarrow> auth_store" where
  "set_invited_by i inviter = update_account i (\<lambda>a. a\<lparr>invited_by := Some inviter\<rparr>)"

text \<open>\<open>UNIQUE\<close> columns refuse a second row of the same name, foreign keys a row of no account.\<close>

definition insert_account :: "str \<Rightarrow> str option \<Rightarrow> u8 \<Rightarrow> int option \<Rightarrow> auth_store \<Rightarrow> (auth_store \<times> auth_account) option" where
  "insert_account n phc r cid st =
     (if by_login n st \<noteq> None then None
      else let a = \<lparr>acc_id = next_account st, acc_role = r, acc_class = cid, acc_grant = 0, acc_revoke = 0, acc_login = n,
                    acc_phc = phc, acc_name = n, acc_disabled = False, invited_by = None\<rparr>
           in Some (st\<lparr>accounts := accounts st @ [a], next_account := next_account st + 1\<rparr>, a))"

definition insert_persona :: "int \<Rightarrow> str \<Rightarrow> bool \<Rightarrow> auth_store \<Rightarrow> (auth_store \<times> persona) option" where
  "insert_persona i n d st =
     (if by_screen_name n st \<noteq> None \<or> by_id i st = None then None
      else let p = \<lparr>per_id = next_persona st, per_account = i, per_name = n, is_default = d\<rparr>
           in Some (st\<lparr>personas := personas st @ [p], next_persona := next_persona st + 1\<rparr>, p))"

definition default_for_account :: "int \<Rightarrow> auth_store \<Rightarrow> persona option" where
  "default_for_account i st =
     (let own = filter (\<lambda>p. per_account p = i) (personas st) in
      case List.find is_default own of Some p \<Rightarrow> Some p | None \<Rightarrow> List.find (\<lambda>_. True) own)"

definition reserve_invite :: "int \<Rightarrow> str \<Rightarrow> auth_store \<Rightarrow> auth_store \<times> int option" where
  "reserve_invite now code st =
     (case invites st code of
        Some i \<Rightarrow>
          if used_by i = None \<and> inv_expires i > now
          then (st\<lparr>invites := (invites st)(code \<mapsto> i\<lparr>used_by := Some 0\<rparr>)\<rparr>, Some (created_by i))
          else (st, None)
      | None \<Rightarrow> (st, None))"

definition finalize_invite :: "str \<Rightarrow> int \<Rightarrow> auth_store \<Rightarrow> auth_store" where
  "finalize_invite code i st = st\<lparr>invites := (\<lambda>c. if c = code then map_option (\<lambda>v. v\<lparr>used_by := Some i\<rparr>) (invites st c) else invites st c)\<rparr>"

definition create_invite :: "int \<Rightarrow> str \<Rightarrow> int \<Rightarrow> int \<Rightarrow> auth_store \<Rightarrow> auth_store option" where
  "create_invite now code by ttl st =
     (if invites st code \<noteq> None then None
      else Some (st\<lparr>invites := (invites st)(code \<mapsto> \<lparr>created_by = by, inv_expires = now + ttl, used_by = None\<rparr>)\<rparr>))"

definition revoke_invite :: "str \<Rightarrow> auth_store \<Rightarrow> auth_store \<times> bool" where
  "revoke_invite code st =
     (case invites st code of
        Some i \<Rightarrow> if used_by i = None then (st\<lparr>invites := (invites st)(code := None)\<rparr>, True) else (st, False)
      | None \<Rightarrow> (st, False))"

definition insert_session :: "int \<Rightarrow> bytes \<Rightarrow> int \<Rightarrow> int \<Rightarrow> auth_store \<Rightarrow> auth_store option" where
  "insert_session now h i ttl st =
     (if sessions st h \<noteq> None \<or> by_id i st = None then None else Some (st\<lparr>sessions := (sessions st)(h \<mapsto> (i, now + ttl))\<rparr>))"

definition resume_session :: "int \<Rightarrow> bytes \<Rightarrow> auth_store \<Rightarrow> int option" where
  "resume_session now h st = (case sessions st h of Some (i, expires) \<Rightarrow> if expires > now then Some i else None | None \<Rightarrow> None)"

definition revoke_account :: "int \<Rightarrow> auth_store \<Rightarrow> auth_store" where
  "revoke_account i st = st\<lparr>sessions := (\<lambda>h. case sessions st h of Some (j, e) \<Rightarrow> if j = i then None else Some (j, e) | None \<Rightarrow> None)\<rparr>"

definition consume_recovery :: "int \<Rightarrow> bytes \<Rightarrow> bytes \<Rightarrow> auth_store \<Rightarrow> auth_store \<times> bool" where
  "consume_recovery i secret h st =
     (case totps st i of
        Some t \<Rightarrow>
          if totp_confirmed t \<and> totp_secret t = secret \<and> h \<in> set (recovery_hashes t)
          then (st\<lparr>totps := (totps st)(i \<mapsto> t\<lparr>recovery_hashes := filter (\<lambda>x. x \<noteq> h) (recovery_hashes t)\<rparr>)\<rparr>, True)
          else (st, False)
      | None \<Rightarrow> (st, False))"

text \<open>Removing an account: its names are retired, its unused invitations withdrawn, its rows cascade away.\<close>

definition keepers :: "u8 \<Rightarrow> auth_store \<Rightarrow> auth_account list" where
  "keepers r st = filter (\<lambda>a. acc_role a \<ge> r \<and> \<not> acc_disabled a) (accounts st)"

definition delete_account :: "int \<Rightarrow> u8 \<Rightarrow> auth_store \<Rightarrow> auth_store \<times> bool" where
  "delete_account i keeper_role st =
     (case by_id i st of
        None \<Rightarrow> (st, False)
      | Some a \<Rightarrow>
          let names = map per_name (filter (\<lambda>p. per_account p = i) (personas st));
              others = filter (\<lambda>b. acc_id b \<noteq> i) (keepers keeper_role st);
              is_keeper = list_ex (\<lambda>b. acc_id b = i) (keepers keeper_role st) in
          if is_keeper \<and> others = [] then (st, False)
          else (st\<lparr>retired_names := retired_names st @ acc_login a # names,
                  invites := (\<lambda>c. case invites st c of
                     Some v \<Rightarrow> if created_by v = i \<and> used_by v = None then None else Some v | None \<Rightarrow> None),
                  accounts := filter (\<lambda>b. acc_id b \<noteq> i) (accounts st),
                  personas := filter (\<lambda>p. per_account p \<noteq> i) (personas st),
                  sessions := (\<lambda>h. case sessions st h of Some (j, e) \<Rightarrow> if j = i then None else Some (j, e) | None \<Rightarrow> None),
                  totps := (totps st)(i := None)\<rparr>, True))"

definition invitees :: "int \<Rightarrow> auth_store \<Rightarrow> (int \<times> str) list" where
  "invitees i st = map (\<lambda>a. (acc_id a, acc_login a)) (filter (\<lambda>a. invited_by a = Some i) (accounts st))"

definition create_with_access :: "str \<Rightarrow> str \<Rightarrow> account_access \<Rightarrow> auth_store \<Rightarrow> auth_store \<times> auth_account option" where
  "create_with_access n phc access st =
     (if by_login n st \<noteq> None \<or> by_screen_name n st \<noteq> None \<or> name_is_retired n st then (st, None)
      else let a = \<lparr>acc_id = next_account st, acc_role = aa_role access, acc_class = aa_class access,
                    acc_grant = aa_grant access, acc_revoke = aa_revoke access, acc_login = n,
                    acc_phc = Some phc, acc_name = n, acc_disabled = False, invited_by = None\<rparr>;
               p = \<lparr>per_id = next_persona st, per_account = acc_id a, per_name = n, is_default = True\<rparr>
           in (st\<lparr>accounts := accounts st @ [a], next_account := next_account st + 1,
                 personas := personas st @ [p], next_persona := next_persona st + 1\<rparr>, Some a))"

text \<open>The compare-and-set behind a credential edit: it writes only over the row it was decided on.\<close>

definition unchanged_row :: "auth_account \<Rightarrow> auth_account \<Rightarrow> bool" where
  "unchanged_row e a \<longleftrightarrow>
     acc_id a = acc_id e \<and> nocase (acc_login a) (acc_login e) \<and> acc_phc a = acc_phc e \<and> acc_role a = acc_role e \<and>
     acc_class a = acc_class e \<and> acc_grant a = acc_grant e \<and> acc_revoke a = acc_revoke e \<and> \<not> acc_disabled a"

definition update_credentials_and_access ::
    "auth_account \<Rightarrow> str option \<Rightarrow> account_access \<Rightarrow> auth_store \<Rightarrow> auth_store \<times> bool" where
  "update_credentials_and_access e phc access st =
     (if \<not> list_ex (unchanged_row e) (accounts st) then (st, False)
      else (revoke_account (acc_id e)
              (st\<lparr>accounts := map (\<lambda>a. if unchanged_row e a
                   then a\<lparr>acc_phc := (case phc of Some h \<Rightarrow> Some h | None \<Rightarrow> acc_phc a), acc_role := aa_role access,
                          acc_class := aa_class access, acc_grant := aa_grant access, acc_revoke := aa_revoke access\<rparr>
                   else a) (accounts st)\<rparr>), True))"

text \<open>The update breaks the foreign key when it would give a row a class that is not there.\<close>

definition admin_set :: "str \<Rightarrow> u8 option \<Rightarrow> int option option \<Rightarrow> bool option \<Rightarrow> auth_store \<Rightarrow> auth_store option \<times> bool" where
  "admin_set n r cid off st =
     (if by_login n st \<noteq> None \<and> (case cid of Some (Some c) \<Rightarrow> class_by_id (class_rows st) c = None | _ \<Rightarrow> False) then (None, False)
      else (Some (st\<lparr>accounts := map (\<lambda>a. if nocase (acc_login a) n
          then a\<lparr>acc_role := (case r of Some v \<Rightarrow> v | None \<Rightarrow> acc_role a),
                 acc_class := (case cid of Some v \<Rightarrow> v | None \<Rightarrow> acc_class a),
                 acc_disabled := (case off of Some v \<Rightarrow> v | None \<Rightarrow> acc_disabled a)\<rparr>
          else a) (accounts st)\<rparr>), by_login n st \<noteq> None))"

definition begin_totp :: "int \<Rightarrow> bytes \<Rightarrow> auth_store \<Rightarrow> auth_store option" where
  "begin_totp i secret st =
     (if by_id i st = None then None
      else Some (st\<lparr>totps := (totps st)(i \<mapsto>
             \<lparr>totp_secret = secret, totp_confirmed = False, recovery_hashes = []\<rparr>)\<rparr>))"

definition confirm_totp :: "int \<Rightarrow> bytes list \<Rightarrow> auth_store \<Rightarrow> auth_store" where
  "confirm_totp i hs st =
     st\<lparr>totps := (\<lambda>j. if j = i then map_option (\<lambda>t. t\<lparr>totp_confirmed := True, recovery_hashes := hs\<rparr>) (totps st j)
                      else totps st j)\<rparr>"

definition remove_totp :: "int \<Rightarrow> auth_store \<Rightarrow> auth_store" where
  "remove_totp i st = st\<lparr>totps := (totps st)(i := None)\<rparr>"

definition revoke_session :: "bytes \<Rightarrow> auth_store \<Rightarrow> auth_store" where
  "revoke_session h st = st\<lparr>sessions := (sessions st)(h := None)\<rparr>"

definition reap_expired :: "int \<Rightarrow> auth_store \<Rightarrow> auth_store" where
  "reap_expired t st =
     st\<lparr>sessions := (\<lambda>h. case sessions st h of Some (i, expires) \<Rightarrow> if expires \<le> t then None else Some (i, expires) | None \<Rightarrow> None)\<rparr>"

text \<open>The request to add a screen name, as the session's handler decides it, and its removal.\<close>

datatype persona_refusal = GuestsHaveNone | TooManyPersonas | BadScreenName | ScreenNameTaken | PersonaFailure

definition create_persona :: "bool \<Rightarrow> nat \<Rightarrow> int \<Rightarrow> str \<Rightarrow> auth_store \<Rightarrow> auth_store \<times> (persona_refusal + persona)" where
  "create_persona is_guest persona_max i screen_name st =
     (let n = trim screen_name in
      if is_guest then (st, Inl GuestsHaveNone)
      else if length (filter (\<lambda>p. per_account p = i) (personas st)) \<ge> persona_max then (st, Inl TooManyPersonas)
      else if n = [] \<or> length (as_bytes n) > 32 then (st, Inl BadScreenName)
      else if by_screen_name n st \<noteq> None \<or> by_login n st \<noteq> None \<or> name_is_retired n st then (st, Inl ScreenNameTaken)
      else case insert_persona i n False st of
        Some (st', p) \<Rightarrow> (st', Inr p)
      | None \<Rightarrow> (st, Inl PersonaFailure))"

definition delete_persona :: "int \<Rightarrow> int \<Rightarrow> auth_store \<Rightarrow> auth_store \<times> bool" where
  "delete_persona pid i st =
     (if length (filter (\<lambda>p. per_account p = i) (personas st)) \<le> 1 then (st, False)
      else let hit = (\<lambda>p. per_id p = pid \<and> per_account p = i \<and> \<not> is_default p)
           in (st\<lparr>personas := filter (\<lambda>p. \<not> hit p) (personas st)\<rparr>, list_ex hit (personas st)))"

section \<open>The service\<close>

datatype auth_error =
    BadCredentials | Disabled | GuestsDisabled | SessionExpired | LoginTaken | TotpRequired | RegistrationClosed
  | BadInvite | StoreFailure | HashFailure

datatype registration_mode = Open | Invite | Closed

definition parse_registration_mode :: "str \<Rightarrow> registration_mode option" where
  "parse_registration_mode s =
     (if s = lit ''open'' then Some Open else if s = lit ''invite'' then Some Invite
      else if s = lit ''closed'' then Some Closed else None)"

record authed_user =
  au_account :: auth_account
  au_subject :: subject
  au_persona :: persona
  au_token :: "bytes option"

record invite_node =
  node_id :: int
  node_login :: str
  node_depth :: nat

text \<open>One sign-in's circumstances: the store's clock, the session lifetime, the random token and salt.\<close>

record draw =
  now :: int
  session_ttl :: int
  token_bytes :: bytes
  salt :: nat

fun check_recovery_code_from :: "bytes \<Rightarrow> nat \<Rightarrow> bytes list \<Rightarrow> nat option \<Rightarrow> nat option" where
  "check_recovery_code_from h i [] found = found"
| "check_recovery_code_from h i (s # stored) found =
     check_recovery_code_from h (i + 1) stored (if h = s then Some i else found)"

definition recovery_hash :: "crypto \<Rightarrow> str \<Rightarrow> bytes" where
  "recovery_hash cr code = blake3 cr (as_bytes (lowercase cr (trim code)))"

definition check_recovery_code :: "crypto \<Rightarrow> str \<Rightarrow> bytes list \<Rightarrow> nat option" where
  "check_recovery_code cr code stored = check_recovery_code_from (recovery_hash cr code) 0 stored None"

definition decode_token :: "crypto \<Rightarrow> str \<Rightarrow> bytes option" where
  "decode_token cr s =
     (case base64url_decode cr s of Some raw \<Rightarrow> if length raw = 32 then Some raw else None | None \<Rightarrow> None)"

definition ALL_ROLES :: "role list" where
  "ALL_ROLES = [Guest, User, Moderator, Admin, Superuser]"

definition set_class_mask :: "str \<Rightarrow> u64 \<Rightarrow> classes \<Rightarrow> classes" where
  "set_class_mask n m = map (\<lambda>(i, n', m'). if n' = n then (i, n', m) else (i, n', m'))"

definition seed_class_masks :: "auth_store \<Rightarrow> auth_store" where
  "seed_class_masks st =
     st\<lparr>class_rows := foldl (\<lambda>cs r. case class_by_name cs (class_name r) of
          Some (_, m) \<Rightarrow> if m = 0 then set_class_mask (class_name r) (default_caps r) cs else cs
        | None \<Rightarrow> cs) (class_rows st) ALL_ROLES\<rparr>"

text \<open>A class that is not there yet gets the next id; classes are never removed.\<close>

definition upsert_class :: "str \<Rightarrow> u64 \<Rightarrow> auth_store \<Rightarrow> auth_store" where
  "upsert_class n m st =
     st\<lparr>class_rows := (case class_by_name (class_rows st) n of
          Some _ \<Rightarrow> set_class_mask n m (class_rows st)
        | None \<Rightarrow> class_rows st @ [(foldr (\<lambda>(j, _). max j) (class_rows st) 0 + 1, n, m)])\<rparr>"

definition create_account :: "crypto \<Rightarrow> nat \<Rightarrow> str \<Rightarrow> str \<Rightarrow> role \<Rightarrow> auth_store \<Rightarrow> auth_store \<times> (auth_error + auth_account)" where
  "create_account cr slt n password r st =
     (if by_login n st \<noteq> None \<or> name_is_retired n st \<or> by_screen_name n st \<noteq> None then (st, Inl LoginTaken)
      else case hash_password cr slt password of
        None \<Rightarrow> (st, Inl HashFailure)
      | Some phc \<Rightarrow>
          let cid = map_option fst (class_by_name (class_rows st) (class_name r)) in
          (case insert_account n (Some phc) (role_ordinal r) cid st of
             None \<Rightarrow> (st, Inl StoreFailure)
           | Some (st1, a) \<Rightarrow>
               (case insert_persona (acc_id a) n True st1 of
                  None \<Rightarrow> (st1, Inl StoreFailure)
                | Some (st2, _) \<Rightarrow> (st2, Inr a))))"

definition create_account_with_access ::
    "crypto \<Rightarrow> nat \<Rightarrow> str \<Rightarrow> str \<Rightarrow> account_access \<Rightarrow> auth_store \<Rightarrow> auth_store \<times> (auth_error + auth_account)" where
  "create_account_with_access cr slt n password access st =
     (case hash_password cr slt password of
        None \<Rightarrow> (st, Inl HashFailure)
      | Some phc \<Rightarrow>
          (case create_with_access n phc access st of
             (st', None) \<Rightarrow> (st', Inl LoginTaken)
           | (st', Some a) \<Rightarrow> (st', Inr a)))"

definition subject_for :: "auth_store \<Rightarrow> auth_account \<Rightarrow> subject" where
  "subject_for st a =
     \<lparr>account_id = acc_id a, subj_role = from_ordinal (acc_role a), class_id = acc_class a,
      class_mask = (case acc_class a of
          Some i \<Rightarrow> (case class_by_id (class_rows st) i of Some m \<Rightarrow> m | None \<Rightarrow> 0)
        | None \<Rightarrow> 0),
      grant_mask = acc_grant a, revoke_mask = acc_revoke a\<rparr>"

definition default_persona :: "auth_account \<Rightarrow> auth_store \<Rightarrow> auth_store \<times> (auth_error + persona)" where
  "default_persona a st =
     (case default_for_account (acc_id a) st of
        Some p \<Rightarrow> (st, Inr p)
      | None \<Rightarrow>
          (case insert_persona (acc_id a) (acc_login a) True st of
             Some (st', p) \<Rightarrow> (st', Inr p)
           | None \<Rightarrow> (st, Inl StoreFailure)))"

text \<open>The second factor: nothing to check, a current code, or a recovery code that is burnt.\<close>

definition second_factor :: "crypto \<Rightarrow> int \<Rightarrow> auth_account \<Rightarrow> str option \<Rightarrow> auth_store \<Rightarrow> auth_store \<times> (auth_error + unit)" where
  "second_factor cr t a code st =
     (case totps st (acc_id a) of
        None \<Rightarrow> (st, Inr ())
      | Some row \<Rightarrow>
          if \<not> totp_confirmed row then (st, Inr ())
          else case code of
            None \<Rightarrow> (st, Inl TotpRequired)
          | Some c \<Rightarrow>
              if \<not> totp_valid cr (totp_secret row) (acc_login a) then (st, Inl BadCredentials)
              else if totp_verify cr (totp_secret row) t c = Some True then (st, Inr ())
              else case check_recovery_code cr c (recovery_hashes row) of
                None \<Rightarrow> (st, Inl BadCredentials)
              | Some idx \<Rightarrow>
                  (case consume_recovery (acc_id a) (totp_secret row) (recovery_hashes row ! idx) st of
                     (st', True) \<Rightarrow> (st', Inr ())
                   | (st', False) \<Rightarrow> (st', Inl BadCredentials)))"

definition rehash :: "crypto \<Rightarrow> nat \<Rightarrow> auth_account \<Rightarrow> str \<Rightarrow> str \<Rightarrow> auth_store \<Rightarrow> auth_store \<times> (auth_error + unit)" where
  "rehash cr slt a phc password st =
     (case needs_rehash cr phc of
        None \<Rightarrow> (st, Inl HashFailure)
      | Some False \<Rightarrow> (st, Inr ())
      | Some True \<Rightarrow>
          (case hash_password cr slt password of
             None \<Rightarrow> (st, Inl HashFailure)
           | Some h \<Rightarrow> (update_phc (acc_id a) h st, Inr ())))"

text \<open>What follows the checks: the session row, the subject and the persona.\<close>

definition open_session :: "crypto \<Rightarrow> draw \<Rightarrow> auth_account \<Rightarrow> auth_store \<Rightarrow> auth_store \<times> (auth_error + authed_user)" where
  "open_session cr dr a st =
     (case insert_session (now dr) (blake3 cr (token_bytes dr)) (acc_id a) (session_ttl dr) st of
        None \<Rightarrow> (st, Inl StoreFailure)
      | Some st1 \<Rightarrow>
          let sub = subject_for st1 a in
          (case default_persona a st1 of
             (st2, Inl e) \<Rightarrow> (st2, Inl e)
           | (st2, Inr p) \<Rightarrow>
               (st2, Inr \<lparr>au_account = a, au_subject = sub, au_persona = p, au_token = Some (token_bytes dr)\<rparr>)))"

definition login_password ::
    "crypto \<Rightarrow> draw \<Rightarrow> str \<Rightarrow> str \<Rightarrow> str option \<Rightarrow> auth_store \<Rightarrow> auth_store \<times> (auth_error + authed_user)" where
  "login_password cr dr n password code st =
     (case by_login n st of
        None \<Rightarrow> (st, Inl BadCredentials)
      | Some a \<Rightarrow>
          (case acc_phc a of
             None \<Rightarrow> (st, Inl BadCredentials)
           | Some phc \<Rightarrow>
               (case verify_password cr password phc of
                  None \<Rightarrow> (st, Inl HashFailure)
                | Some False \<Rightarrow> (st, Inl BadCredentials)
                | Some True \<Rightarrow>
                    if acc_disabled a then (st, Inl Disabled)
                    else case second_factor cr (now dr) a code st of
                      (st1, Inl e) \<Rightarrow> (st1, Inl e)
                    | (st1, Inr _) \<Rightarrow>
                        (case rehash cr (salt dr) a phc password st1 of
                           (st2, Inl e) \<Rightarrow> (st2, Inl e)
                         | (st2, Inr _) \<Rightarrow> open_session cr dr a st2))))"

definition login_resume :: "crypto \<Rightarrow> int \<Rightarrow> str \<Rightarrow> auth_store \<Rightarrow> auth_store \<times> (auth_error + authed_user)" where
  "login_resume cr t s st =
     (case decode_token cr s of
        None \<Rightarrow> (st, Inl SessionExpired)
      | Some tok \<Rightarrow>
          (case resume_session t (blake3 cr tok) st of
             None \<Rightarrow> (st, Inl SessionExpired)
           | Some i \<Rightarrow>
               (case by_id i st of
                  None \<Rightarrow> (st, Inl SessionExpired)
                | Some a \<Rightarrow>
                    if acc_disabled a then (st, Inl Disabled)
                    else let sub = subject_for st a in
                      (case default_persona a st of
                         (st', Inl e) \<Rightarrow> (st', Inl e)
                       | (st', Inr p) \<Rightarrow>
                           (st', Inr \<lparr>au_account = a, au_subject = sub, au_persona = p, au_token = Some tok\<rparr>)))))"

definition register ::
    "crypto \<Rightarrow> draw \<Rightarrow> registration_mode \<Rightarrow> str \<Rightarrow> str \<Rightarrow> str option \<Rightarrow> auth_store \<Rightarrow> auth_store \<times> (auth_error + authed_user)" where
  "register cr dr rm n password invite_code st =
     (let created = (\<lambda>st pending.
        case create_account cr (salt dr) n password User st of
          (st1, Inl e) \<Rightarrow> (st1, Inl e)
        | (st1, Inr a) \<Rightarrow>
            let st2 = (case pending of
                         Some (code, inviter) \<Rightarrow> set_invited_by (acc_id a) inviter (finalize_invite code (acc_id a) st1)
                       | None \<Rightarrow> st1)
            in login_password cr dr n password None st2) in
      case rm of
        Closed \<Rightarrow> (st, Inl RegistrationClosed)
      | Open \<Rightarrow> created st None
      | Invite \<Rightarrow>
          (case invite_code of
             None \<Rightarrow> (st, Inl BadInvite)
           | Some code \<Rightarrow>
               (case reserve_invite (now dr) code st of
                  (st', None) \<Rightarrow> (st', Inl BadInvite)
                | (st', Some inviter) \<Rightarrow> created st' (Some (code, inviter)))))"

definition sanitize_guest :: "str \<Rightarrow> str" where
  "sanitize_guest n = trim (take 24 (filter (\<lambda>c. \<not> is_control c) n))"

text \<open>A guest has no account row; the counter's value names it, negated, as its id.\<close>

definition login_guest :: "bool \<Rightarrow> str option \<Rightarrow> u64 \<Rightarrow> auth_store \<Rightarrow> u64 \<times> (auth_error + authed_user)" where
  "login_guest guests_enabled desired n st =
     (if \<not> guests_enabled then (n, Inl GuestsDisabled)
      else
        let base = (case map_option sanitize_guest desired of Some s \<Rightarrow> if s = [] then None else Some s | None \<Rightarrow> None);
            nm = (case base of Some s \<Rightarrow> s @ lit '' (guest)'' | None \<Rightarrow> lit ''guest-'' @ decimal (unat n));
            i = sint (- n);
            a = \<lparr>acc_id = i, acc_role = role_ordinal Guest, acc_class = None, acc_grant = 0, acc_revoke = 0,
                 acc_login = lit ''guest:'' @ decimal (unat n), acc_phc = None, acc_name = nm, acc_disabled = False,
                 invited_by = None\<rparr>;
            cmask = (case class_by_name (class_rows st) (class_name Guest) of Some (_, m) \<Rightarrow> m | None \<Rightarrow> 0) in
        (n + 1, Inr \<lparr>au_account = a,
           au_subject = \<lparr>account_id = i, subj_role = Guest, class_id = None, class_mask = cmask, grant_mask = 0, revoke_mask = 0\<rparr>,
           au_persona = \<lparr>per_id = i, per_account = i, per_name = nm, is_default = True\<rparr>,
           au_token = None\<rparr>))"

section \<open>The invite tree\<close>

definition pending_ids :: "auth_store \<Rightarrow> (int \<times> str \<times> nat) list \<Rightarrow> int set \<Rightarrow> int set" where
  "pending_ids st queue seen = (acc_id ` set (accounts st) \<union> fst ` set queue) - seen"

lemma pending_ids_push:
  "i \<notin> seen \<Longrightarrow>
   pending_ids st (queue @ map (\<lambda>(c, l). (c, l, d)) (invitees i st)) (insert i seen) \<subset> pending_ids st ((i, n, d') # queue) seen"
  by (auto simp: pending_ids_def invitees_def image_iff)

lemma finite_pending [simp]: "finite (pending_ids st queue seen)"
  by (simp add: pending_ids_def)

lemma pending_ids_pop: "pending_ids st queue seen \<subseteq> pending_ids st (q # queue) seen"
  by (auto simp: pending_ids_def)

function walk_invites :: "auth_store \<Rightarrow> nat \<Rightarrow> int set \<Rightarrow> (int \<times> str \<times> nat) list \<Rightarrow> invite_node list \<Rightarrow> invite_node list" where
  "walk_invites st max_nodes seen [] out = out"
| "walk_invites st max_nodes seen ((i, n, d) # queue) out =
     (if length out \<ge> max_nodes \<or> i \<in> seen then walk_invites st max_nodes seen queue out
      else walk_invites st max_nodes (insert i seen) (queue @ map (\<lambda>(c, l). (c, l, d + 1)) (invitees i st))
             (out @ [\<lparr>node_id = i, node_login = n, node_depth = d\<rparr>]))"
  by pat_completeness auto
termination
proof (relation "(\<lambda>(st, m, seen, queue, out). card (pending_ids st queue seen)) <*mlex*>
                 measure (\<lambda>(st, m, seen, queue, out). length queue)", goal_cases)
  case 1
  show ?case by (intro wf_mlex wf_measure)
next
  case 2
  then show ?case by (intro mlex_leq) (simp_all add: card_mono [OF finite_pending pending_ids_pop])
next
  case (3 st max_nodes seen i n d queue out)
  then have "i \<notin> seen" by simp
  then show ?case by (intro mlex_less) (simp add: psubset_card_mono pending_ids_push)
qed

definition invite_subtree :: "str \<Rightarrow> nat \<Rightarrow> auth_store \<Rightarrow> invite_node list" where
  "invite_subtree root_login max_nodes st =
     (case by_login root_login st of
        None \<Rightarrow> []
      | Some root \<Rightarrow> walk_invites st max_nodes {} [(acc_id root, acc_login root, 0)] [])"

end
