(* ===== verification/Core_Auth_Correct.thy ===== *)
theory Core_Auth_Correct
  imports Core_Auth
begin

text \<open>
  What sign-in and registration guarantee. Every operation is a sequence of writes to single tables, so the
  facts that hold of every store (one row per id and per name, no row without its account, a removed name
  never taken again, a used invitation never unused, a spent recovery code never back) are proved once per
  write and carried to every store the operations reach. On them rest the guarantees of the service:
  who can sign in, when a saved session resumes, what an invitation admits, and what the walk of the
  invite tree lists.
\<close>

section \<open>Table writes\<close>

text \<open>
  The writes the service makes on its own, session rows only under the hashes in \<open>H\<close>. None of them
  enables or disables an account or touches another account's second factor.
\<close>

inductive service_step :: "bytes set \<Rightarrow> auth_store \<Rightarrow> auth_store \<Rightarrow> bool" for H where
  row_account: "\<lbrakk>by_login (acc_login a) st = None; \<not> name_is_retired (acc_login a) st; acc_id a = next_account st\<rbrakk> \<Longrightarrow>
     service_step H st (st\<lparr>accounts := accounts st @ [a], next_account := next_account st + 1\<rparr>)"
| row_persona: "insert_persona i n d st = Some (st', p) \<Longrightarrow> service_step H st st'"
| row_edit: "\<forall>a. acc_id (f a) = acc_id a \<and> acc_login (f a) = acc_login a \<and> acc_disabled (f a) = acc_disabled a \<Longrightarrow>
     service_step H st (st\<lparr>accounts := map f (accounts st)\<rparr>)"
| row_reserve: "reserve_invite t c st = (st', Some i) \<Longrightarrow> service_step H st st'"
| row_finalize: "invites st c = Some v \<Longrightarrow> used_by v \<noteq> None \<Longrightarrow> service_step H st (finalize_invite c i st)"
| row_session: "h \<in> H \<Longrightarrow> insert_session t h i ttl st = Some st' \<Longrightarrow> service_step H st st'"
| row_recovery: "service_step H st (fst (consume_recovery i s h st))"

text \<open>
  Everything that is done to the tables: the calls of the service and the statements its clients and
  administrators run on the repositories, with any arguments and in any order. A handler that makes
  several of them in a row is a sequence of these.
\<close>

datatype auth_op =
    OpCreateAccount nat str str role
  | OpCreateWithAccess nat str str account_access
  | OpRegister draw registration_mode str str "str option"
  | OpLogin draw str str "str option"
  | OpResume int str
  | OpSetPhc int str
  | OpCreatePersona bool nat int str
  | OpDeletePersona int int
  | OpEdit auth_account "str option" account_access
  | OpAdminSet str "u8 option" "int option option" "bool option"
  | OpInvite int str int int
  | OpUninvite str
  | OpRevokeSession bytes
  | OpRevokeAccount int
  | OpReapExpired int
  | OpDelete int u8
  | OpBeginTotp int bytes
  | OpConfirmTotp int "bytes list"
  | OpRemoveTotp int
  | OpSeedClasses
  | OpUpsertClass str u64

fun run_op :: "crypto \<Rightarrow> auth_op \<Rightarrow> auth_store \<Rightarrow> auth_store" where
  "run_op cr (OpCreateAccount slt n pw r) st = fst (create_account cr slt n pw r st)"
| "run_op cr (OpCreateWithAccess slt n pw access) st = fst (create_account_with_access cr slt n pw access st)"
| "run_op cr (OpRegister dr rm n pw code) st = fst (register cr dr rm n pw code st)"
| "run_op cr (OpLogin dr n pw code) st = fst (login_password cr dr n pw code st)"
| "run_op cr (OpResume t s) st = fst (login_resume cr t s st)"
| "run_op cr (OpSetPhc i phc) st = update_phc i phc st"
| "run_op cr (OpCreatePersona g m i n) st = fst (create_persona g m i n st)"
| "run_op cr (OpDeletePersona pid i) st = fst (delete_persona pid i st)"
| "run_op cr (OpEdit e phc access) st = fst (update_credentials_and_access e phc access st)"
| "run_op cr (OpAdminSet n ro ci off) st = (case fst (admin_set n ro ci off st) of Some st' \<Rightarrow> st' | None \<Rightarrow> st)"
| "run_op cr (OpInvite t c i ttl) st = (case create_invite t c i ttl st of Some st' \<Rightarrow> st' | None \<Rightarrow> st)"
| "run_op cr (OpUninvite c) st = fst (revoke_invite c st)"
| "run_op cr (OpRevokeSession h) st = revoke_session h st"
| "run_op cr (OpRevokeAccount i) st = revoke_account i st"
| "run_op cr (OpReapExpired t) st = reap_expired t st"
| "run_op cr (OpDelete i r) st = fst (delete_account i r st)"
| "run_op cr (OpBeginTotp i s) st = (case begin_totp i s st of Some st' \<Rightarrow> st' | None \<Rightarrow> st)"
| "run_op cr (OpConfirmTotp i hs) st = confirm_totp i hs st"
| "run_op cr (OpRemoveTotp i) st = remove_totp i st"
| "run_op cr OpSeedClasses st = seed_class_masks st"
| "run_op cr (OpUpsertClass n m) st = upsert_class n m st"

inductive auth_step :: "crypto \<Rightarrow> auth_store \<Rightarrow> auth_store \<Rightarrow> bool" for cr where
  "auth_step cr st (run_op cr op st)"

definition run_ops :: "crypto \<Rightarrow> auth_op list \<Rightarrow> auth_store \<Rightarrow> auth_store" where
  "run_ops cr ops st = fold (run_op cr) ops st"

text \<open>The hashes of the tokens an operation draws.\<close>

fun op_tokens :: "crypto \<Rightarrow> auth_op \<Rightarrow> bytes set" where
  "op_tokens cr (OpRegister dr rm n pw code) = {blake3 cr (token_bytes dr)}"
| "op_tokens cr (OpLogin dr n pw code) = {blake3 cr (token_bytes dr)}"
| "op_tokens cr _ = {}"

section \<open>Operations as table writes\<close>

lemma update_account_steps:
  "(\<And>a. acc_id (f a) = acc_id a \<and> acc_login (f a) = acc_login a \<and> acc_disabled (f a) = acc_disabled a) \<Longrightarrow> service_step H st (update_account i f st)"
  unfolding update_account_def by (rule row_edit) simp

lemma create_account_steps: "(service_step H)\<^sup>*\<^sup>* st (fst (create_account cr slt n pw r st))"
proof (cases "create_account cr slt n pw r st")
  case (Pair st' res)
  show ?thesis
  proof (cases "by_login n st \<noteq> None \<or> name_is_retired n st \<or> by_screen_name n st \<noteq> None \<or> hash_password cr slt pw = None")
    case True
    then show ?thesis by (auto simp: create_account_def split: option.splits)
  next
    case False
    then obtain phc where "hash_password cr slt pw = Some phc" by auto
    let ?a = "\<lparr>acc_id = next_account st, acc_role = role_ordinal r,
        acc_class = map_option fst (class_by_name (class_rows st) (class_name r)), acc_grant = 0, acc_revoke = 0,
        acc_login = n, acc_phc = Some phc, acc_name = n, acc_disabled = False, invited_by = None\<rparr>"
    let ?st1 = "st\<lparr>accounts := accounts st @ [?a], next_account := next_account st + 1\<rparr>"
    have 1: "service_step H st ?st1" using False by (intro row_account) auto
    have "fst (create_account cr slt n pw r st) =
        (case insert_persona (next_account st) n True ?st1 of None \<Rightarrow> ?st1 | Some (st2, _) \<Rightarrow> st2)"
      using False \<open>hash_password cr slt pw = Some phc\<close>
      by (simp add: create_account_def insert_account_def Let_def split: option.splits prod.splits)
    with 1 show ?thesis
      by (auto split: option.splits prod.splits intro: row_persona rtranclp.rtrancl_into_rtrancl)
  qed
qed

lemma create_with_access_steps: "(service_step H)\<^sup>*\<^sup>* st (fst (create_with_access n phc access st))"
proof (cases "by_login n st \<noteq> None \<or> by_screen_name n st \<noteq> None \<or> name_is_retired n st")
  case False
  let ?a = "\<lparr>acc_id = next_account st, acc_role = aa_role access, acc_class = aa_class access,
      acc_grant = aa_grant access, acc_revoke = aa_revoke access, acc_login = n,
      acc_phc = Some phc, acc_name = n, acc_disabled = False, invited_by = None\<rparr>"
  let ?st1 = "st\<lparr>accounts := accounts st @ [?a], next_account := next_account st + 1\<rparr>"
  have 1: "service_step H st ?st1" using False by (intro row_account) auto
  have "by_id (next_account st) ?st1 \<noteq> None" by (auto simp: by_id_def find_None_iff)
  moreover have "by_screen_name n ?st1 = None" using False by (simp add: by_screen_name_def)
  ultimately have "insert_persona (next_account st) n True ?st1 = Some (fst (create_with_access n phc access st),
      \<lparr>per_id = next_persona st, per_account = next_account st, per_name = n, is_default = True\<rparr>)"
    using False by (simp add: insert_persona_def create_with_access_def Let_def)
  from row_persona [OF this] 1 show ?thesis by (rule rtranclp.rtrancl_into_rtrancl [OF r_into_rtranclp, rotated])
qed (auto simp: create_with_access_def)

lemma default_persona_steps: "(service_step H)\<^sup>*\<^sup>* st (fst (default_persona a st))"
  by (auto simp: default_persona_def split: option.splits prod.splits intro: row_persona)

lemma open_session_steps:
  assumes "blake3 cr (token_bytes dr) \<in> H"
  shows "(service_step H)\<^sup>*\<^sup>* st (fst (open_session cr dr a st))"
proof (cases "insert_session (now dr) (blake3 cr (token_bytes dr)) (acc_id a) (session_ttl dr) st")
  case (Some st1)
  then have "fst (open_session cr dr a st) = fst (default_persona a st1)"
    by (auto simp: open_session_def Let_def split: prod.splits sum.splits)
  moreover have "(service_step H)\<^sup>*\<^sup>* st st1" using row_session [OF assms Some] by blast
  ultimately show ?thesis using rtranclp_trans [OF _ default_persona_steps] by metis
qed (simp add: open_session_def)

lemma second_factor_steps: "(service_step H)\<^sup>*\<^sup>* st (fst (second_factor cr t a code st))"
proof -
  have "fst (second_factor cr t a code st) = st \<or>
      (\<exists>s h. fst (second_factor cr t a code st) = fst (consume_recovery (acc_id a) s h st))"
    by (auto simp: second_factor_def split: option.splits prod.splits bool.splits) (metis fst_conv)+
  then show ?thesis using row_recovery by (metis r_into_rtranclp rtranclp.rtrancl_refl)
qed

lemma rehash_steps: "(service_step H)\<^sup>*\<^sup>* st (fst (rehash cr slt a phc pw st))"
  by (auto simp: rehash_def update_phc_def split: option.splits bool.splits intro!: r_into_rtranclp update_account_steps)

lemma login_password_steps:
  assumes "blake3 cr (token_bytes dr) \<in> H"
  shows "(service_step H)\<^sup>*\<^sup>* st (fst (login_password cr dr n pw code st))"
proof (cases "\<exists>a phc. by_login n st = Some a \<and> acc_phc a = Some phc \<and> verify_password cr pw phc = Some True \<and> \<not> acc_disabled a")
  case True
  then obtain a phc where a: "by_login n st = Some a" "acc_phc a = Some phc" "verify_password cr pw phc = Some True" "\<not> acc_disabled a"
    by blast
  obtain st1 r1 where s: "second_factor cr (now dr) a code st = (st1, r1)" by fastforce
  obtain st2 r2 where h: "rehash cr (salt dr) a phc pw st1 = (st2, r2)" by fastforce
  have 1: "(service_step H)\<^sup>*\<^sup>* st st1" using second_factor_steps s by (metis fst_conv)
  have 2: "(service_step H)\<^sup>*\<^sup>* st st2" using rehash_steps h 1 by (metis fst_conv rtranclp_trans)
  have "(service_step H)\<^sup>*\<^sup>* st (fst (open_session cr dr a st2))" using 2 open_session_steps [OF assms] by (rule rtranclp_trans)
  with 1 2 a s h show ?thesis by (auto simp: login_password_def split: sum.splits)
next
  case False
  then have "fst (login_password cr dr n pw code st) = st"
    by (auto simp: login_password_def split: option.splits bool.splits)
  then show ?thesis by simp
qed

lemma login_resume_steps: "(service_step H)\<^sup>*\<^sup>* st (fst (login_resume cr t s st))"
proof -
  have "fst (login_resume cr t s st) = st \<or> (\<exists>a. fst (login_resume cr t s st) = fst (default_persona a st))"
    by (auto simp: login_resume_def Let_def split: option.splits prod.splits sum.splits) (metis fst_conv)+
  then show ?thesis using default_persona_steps by (metis rtranclp.rtrancl_refl)
qed

lemma create_account_invites: "invites (fst (create_account cr slt n pw r st)) = invites st"
  by (auto simp: create_account_def insert_account_def insert_persona_def Let_def split: option.splits if_splits)

lemma register_steps:
  assumes "blake3 cr (token_bytes dr) \<in> H"
  shows "(service_step H)\<^sup>*\<^sup>* st (fst (register cr dr rm n pw code st))"
proof -
  have created: "(service_step H)\<^sup>*\<^sup>* s0 (fst (case create_account cr (salt dr) n pw User s0 of
       (st1, Inl e) \<Rightarrow> (st1, Inl e)
     | (st1, Inr a) \<Rightarrow> login_password cr dr n pw None
         (case pending of Some (c, inviter) \<Rightarrow> set_invited_by (acc_id a) inviter (finalize_invite c (acc_id a) st1) | None \<Rightarrow> st1)))"
    if "\<forall>c i. pending = Some (c, i) \<longrightarrow> (\<exists>v. invites s0 c = Some v \<and> used_by v \<noteq> None)" for s0 and pending :: "(str \<times> int) option"
  proof (cases "create_account cr (salt dr) n pw User s0")
    case (Pair st1 res)
    have 1: "(service_step H)\<^sup>*\<^sup>* s0 st1" using create_account_steps Pair by (metis fst_conv)
    have inv: "invites st1 = invites s0" using create_account_invites Pair by (metis fst_conv)
    show ?thesis
    proof (cases "\<exists>a c i. res = Inr a \<and> pending = Some (c, i)")
      case True
      then obtain a c i where r: "res = Inr a" "pending = Some (c, i)" by blast
      then have "service_step H st1 (finalize_invite c (acc_id a) st1)"
        using that inv by (auto intro: row_finalize)
      moreover have "service_step H (finalize_invite c (acc_id a) st1) (set_invited_by (acc_id a) i (finalize_invite c (acc_id a) st1))"
        unfolding set_invited_by_def by (rule update_account_steps) simp
      ultimately have "(service_step H)\<^sup>*\<^sup>* s0 (set_invited_by (acc_id a) i (finalize_invite c (acc_id a) st1))"
        using 1 by (meson rtranclp.rtrancl_into_rtrancl)
      then show ?thesis using Pair r login_password_steps [OF assms] by (auto intro: rtranclp_trans)
    next
      case False
      then show ?thesis using Pair 1 login_password_steps [OF assms]
        by (auto split: sum.splits option.splits intro: rtranclp_trans)
    qed
  qed
  show ?thesis
  proof (cases rm)
    case Invite
    show ?thesis
    proof (cases code)
      case (Some c)
      obtain st' res where r: "reserve_invite (now dr) c st = (st', res)" by fastforce
      show ?thesis
      proof (cases res)
        case None
        then show ?thesis using r Some Invite by (auto simp: register_def reserve_invite_def Let_def split: option.splits if_splits)
      next
        case (Some i)
        have v: "\<exists>v. invites st' c = Some v \<and> used_by v \<noteq> None"
          using r Some by (auto simp: reserve_invite_def split: option.splits if_splits)
        have "(service_step H)\<^sup>*\<^sup>* st st'" using row_reserve r Some by blast
        then show ?thesis using created [of "Some (c, i)" st'] v r Some Invite \<open>code = Some c\<close>
          by (auto simp: register_def Let_def intro: rtranclp_trans)
      qed
    qed (simp add: register_def Invite)
  qed (use created [of None st] in \<open>simp_all add: register_def Let_def\<close>)
qed

lemma create_account_with_access_steps: "(service_step H)\<^sup>*\<^sup>* st (fst (create_account_with_access cr slt n pw access st))"
proof (cases "hash_password cr slt pw")
  case (Some phc)
  then have "fst (create_account_with_access cr slt n pw access st) = fst (create_with_access n phc access st)"
    by (simp add: create_account_with_access_def split: prod.splits option.splits)
  then show ?thesis by (simp add: create_with_access_steps)
qed (simp add: create_account_with_access_def)

lemma create_persona_steps: "(service_step H)\<^sup>*\<^sup>* st (fst (create_persona g m i n st))"
  by (auto simp: create_persona_def Let_def split: option.splits intro: row_persona)

text \<open>The calls that are nothing but such writes; every other operation is one write of its own.\<close>

fun is_service_op :: "auth_op \<Rightarrow> bool" where
  "is_service_op (OpCreateAccount _ _ _ _) = True"
| "is_service_op (OpCreateWithAccess _ _ _ _) = True"
| "is_service_op (OpRegister _ _ _ _ _) = True"
| "is_service_op (OpLogin _ _ _ _) = True"
| "is_service_op (OpResume _ _) = True"
| "is_service_op (OpSetPhc _ _) = True"
| "is_service_op (OpCreatePersona _ _ _ _) = True"
| "is_service_op _ = False"

lemma update_phc_steps: "(service_step H)\<^sup>*\<^sup>* st (update_phc i phc st)"
  unfolding update_phc_def by (intro r_into_rtranclp update_account_steps) simp

lemma service_op_steps: "is_service_op op \<Longrightarrow> (service_step (op_tokens cr op))\<^sup>*\<^sup>* st (run_op cr op st)"
  by (cases op) (simp_all add: create_account_steps create_account_with_access_steps register_steps login_password_steps
      login_resume_steps create_persona_steps update_phc_steps)

section \<open>What every write keeps\<close>

lemma service_steps_keep:
  assumes "(service_step H)\<^sup>*\<^sup>* st st'" and "P st" and "\<And>s s'. service_step H s s' \<Longrightarrow> P s \<Longrightarrow> P s'"
  shows "P st'"
  using assms(1,2) by (induction rule: rtranclp_induct) (auto intro: assms(3))

lemma run_op_keeps:
  assumes "P st" and "\<And>s s'. service_step (op_tokens cr op) s s' \<Longrightarrow> P s \<Longrightarrow> P s'"
    and "\<not> is_service_op op \<Longrightarrow> P (run_op cr op st)"
  shows "P (run_op cr op st)"
proof (cases "is_service_op op")
  case True
  from service_steps_keep [of _ _ _ P, OF service_op_steps [OF True] assms(1,2)] show ?thesis .
qed (rule assms(3))

lemma run_ops_keep:
  assumes "P st" and "\<And>op s. op \<in> set ops \<Longrightarrow> P s \<Longrightarrow> P (run_op cr op s)"
  shows "P (run_ops cr ops st)"
  using assms by (induction ops arbitrary: st) (simp_all add: run_ops_def)

lemma auth_steps_keep:
  assumes "(auth_step cr)\<^sup>*\<^sup>* st st'" and "P st" and "\<And>op s. P s \<Longrightarrow> P (run_op cr op s)"
  shows "P st'"
  using assms(1,2) by (induction rule: rtranclp_induct) (auto elim!: auth_step.cases intro: assms(3))

lemma nocase_sym: "nocase a b \<longleftrightarrow> nocase b a"
  by (auto simp: nocase_def)

lemma nocase_trans: "nocase a b \<Longrightarrow> nocase b c \<Longrightarrow> nocase a c"
  by (simp add: nocase_def)

lemma by_id_None: "by_id i st = None \<longleftrightarrow> (\<forall>a \<in> set (accounts st). acc_id a \<noteq> i)"
  by (auto simp: by_id_def find_None_iff)

lemma by_login_None: "by_login n st = None \<longleftrightarrow> (\<forall>a \<in> set (accounts st). \<not> nocase (acc_login a) n)"
  by (auto simp: by_login_def find_None_iff)

lemma by_id_Some: "by_id i st = Some a \<Longrightarrow> a \<in> set (accounts st) \<and> acc_id a = i"
  by (auto simp: by_id_def find_Some_iff)

lemma by_login_Some: "by_login n st = Some a \<Longrightarrow> a \<in> set (accounts st) \<and> nocase (acc_login a) n"
  by (auto simp: by_login_def find_Some_iff)

lemma by_screen_name_None: "by_screen_name n st = None \<longleftrightarrow> (\<forall>p \<in> set (personas st). \<not> nocase (per_name p) n)"
  by (auto simp: by_screen_name_def find_None_iff)

lemmas table_defs = insert_persona_def reserve_invite_def finalize_invite_def create_invite_def revoke_invite_def
  insert_session_def revoke_account_def consume_recovery_def delete_account_def Let_def

lemmas op_defs = table_defs delete_persona_def update_credentials_and_access_def admin_set_def revoke_session_def reap_expired_def
  begin_totp_def confirm_totp_def remove_totp_def seed_class_masks_def upsert_class_def

text \<open>The tables' keys and references.\<close>

definition account_ids :: "auth_store \<Rightarrow> int set" where
  "account_ids st = acc_id ` set (accounts st)"

lemma account_ids_frame [simp]:
  "account_ids (st\<lparr>personas := ps, next_persona := k\<rparr>) = account_ids st"
  "account_ids (st\<lparr>invites := invs\<rparr>) = account_ids st"
  "account_ids (st\<lparr>sessions := ses\<rparr>) = account_ids st"
  "account_ids (st\<lparr>totps := tot\<rparr>) = account_ids st"
  "account_ids (st\<lparr>accounts := as @ [a], next_account := m\<rparr>) = insert (acc_id a) (acc_id ` set as)"
  by (simp_all add: account_ids_def)

definition keys_ok :: "auth_store \<Rightarrow> bool" where
  "keys_ok st \<longleftrightarrow>
     distinct (map acc_id (accounts st)) \<and> (\<forall>i \<in> account_ids st. 0 < i \<and> i < next_account st) \<and> 0 < next_account st \<and>
     distinct (map (\<lambda>a. to_ascii_lowercase (acc_login a)) (accounts st)) \<and>
     distinct (map (\<lambda>p. to_ascii_lowercase (per_name p)) (personas st)) \<and>
     distinct (map per_id (personas st)) \<and> (\<forall>p \<in> set (personas st). per_id p < next_persona st)"

definition refs_ok :: "auth_store \<Rightarrow> bool" where
  "refs_ok st \<longleftrightarrow>
     (\<forall>p \<in> set (personas st). per_account p \<in> account_ids st) \<and>
     (\<forall>h i e. sessions st h = Some (i, e) \<longrightarrow> i \<in> account_ids st) \<and>
     (\<forall>i t. totps st i = Some t \<longrightarrow> i \<in> account_ids st)"

lemma keys_ok_edit:
  assumes "keys_ok st" "\<And>a. acc_id (f a) = acc_id a \<and> acc_login (f a) = acc_login a"
  shows "keys_ok (st\<lparr>accounts := map f (accounts st)\<rparr>)"
proof -
  have "acc_id \<circ> f = acc_id" "(\<lambda>a. to_ascii_lowercase (acc_login a)) \<circ> f = (\<lambda>a. to_ascii_lowercase (acc_login a))"
    using assms(2) by auto
  then show ?thesis using assms by (simp add: keys_ok_def account_ids_def)
qed

lemma keys_ok_service: "service_step H st st' \<Longrightarrow> keys_ok st \<Longrightarrow> keys_ok st'"
proof (induction rule: service_step.induct)
  case (row_account a st)
  then show ?case by (force simp: keys_ok_def account_ids_def by_login_None nocase_def)
next
  case (row_persona i n d st st' p)
  then show ?case
    by (fastforce simp: keys_ok_def account_ids_def insert_persona_def by_screen_name_None nocase_def Let_def split: if_splits)
next
  case (row_edit f st)
  then show ?case by (simp add: keys_ok_edit)
qed (auto simp: keys_ok_def account_ids_def table_defs split: option.splits if_splits)

lemma keys_ok_sessions: "keys_ok (revoke_account i st) = keys_ok st"
  by (simp add: keys_ok_def account_ids_def revoke_account_def)

lemma keys_ok_op: "keys_ok st \<Longrightarrow> keys_ok (run_op cr op st)"
proof (rule run_op_keeps [where P = keys_ok])
  assume ok: "keys_ok st" and "\<not> is_service_op op"
  then show "keys_ok (run_op cr op st)"
  proof (cases op)
    case (OpEdit e phc access)
    then show ?thesis using ok by (simp add: update_credentials_and_access_def keys_ok_sessions keys_ok_edit)
  next
    case (OpAdminSet n ro ci off)
    then show ?thesis using ok by (simp add: admin_set_def keys_ok_edit)
  qed (use ok in \<open>auto simp: keys_ok_def account_ids_def op_defs distinct_map_filter split: option.splits\<close>)
qed (use keys_ok_service in blast)+

lemma refs_ok_edit:
  assumes "refs_ok st" "\<And>a. acc_id (f a) = acc_id a"
  shows "refs_ok (st\<lparr>accounts := map f (accounts st)\<rparr>)"
proof -
  have "acc_id ` set (map f (accounts st)) = acc_id ` set (accounts st)" using assms(2) by (auto simp: image_iff)
  then show ?thesis using assms(1) unfolding refs_ok_def account_ids_def by simp
qed

lemma refs_ok_service: "service_step H st st' \<Longrightarrow> refs_ok st \<Longrightarrow> refs_ok st'"
proof (induction rule: service_step.induct)
  case (row_persona i n d st st' p)
  then obtain a where "by_id i st = Some a" by (auto simp: insert_persona_def split: if_splits)
  then have "i \<in> account_ids st" by (auto dest: by_id_Some simp: account_ids_def)
  moreover have "account_ids st' = account_ids st"
    using row_persona by (auto simp: account_ids_def insert_persona_def Let_def split: if_splits)
  ultimately show ?case using row_persona by (fastforce simp: refs_ok_def insert_persona_def Let_def split: if_splits)
next
  case (row_edit f st)
  then show ?case by (simp add: refs_ok_edit)
next
  case (row_session h t i ttl st st')
  then obtain a where "by_id i st = Some a" by (auto simp: insert_session_def split: if_splits)
  then have "i \<in> account_ids st" by (auto dest: by_id_Some simp: account_ids_def)
  moreover have "account_ids st' = account_ids st"
    using row_session by (auto simp: account_ids_def insert_session_def split: if_splits)
  ultimately show ?case using row_session by (fastforce simp: refs_ok_def insert_session_def split: if_splits)
next
  case (row_recovery st i s h)
  then show ?case by (auto simp: refs_ok_def account_ids_def consume_recovery_def split: option.splits)
next
  case (row_account a st)
  then show ?case by (auto simp: refs_ok_def simp flip: account_ids_def)
qed (auto simp: refs_ok_def table_defs split: option.splits if_splits, blast+)

lemma refs_ok_revoke: "refs_ok st \<Longrightarrow> refs_ok (revoke_account i st)"
  by (auto simp: refs_ok_def revoke_account_def split: option.splits if_splits)

lemma refs_ok_reap: "refs_ok st \<Longrightarrow> refs_ok (reap_expired t st)"
  by (auto simp: refs_ok_def reap_expired_def split: option.splits if_splits)

lemma refs_ok_delete: "refs_ok st \<Longrightarrow> refs_ok (fst (delete_account i r st))"
  by (force simp: refs_ok_def account_ids_def delete_account_def Let_def split: option.splits if_splits)

lemma refs_ok_begin_totp:
  assumes "refs_ok st" "begin_totp i s st = Some st'"
  shows "refs_ok st'"
proof -
  from assms(2) obtain a where "by_id i st = Some a" by (auto simp: begin_totp_def split: if_splits)
  then have "i \<in> account_ids st" by (auto dest: by_id_Some simp: account_ids_def)
  with assms show ?thesis by (auto simp: begin_totp_def refs_ok_def split: if_splits) blast
qed

lemma refs_ok_op: "refs_ok st \<Longrightarrow> refs_ok (run_op cr op st)"
proof (rule run_op_keeps [where P = refs_ok])
  assume ok: "refs_ok st" and "\<not> is_service_op op"
  then show "refs_ok (run_op cr op st)"
  proof (cases op)
    case (OpEdit e phc access)
    then show ?thesis using ok by (simp add: update_credentials_and_access_def refs_ok_revoke refs_ok_edit)
  next
    case (OpAdminSet n ro ci off)
    then show ?thesis using ok by (simp add: admin_set_def refs_ok_edit)
  next
    case (OpBeginTotp i s)
    then show ?thesis using ok refs_ok_begin_totp by (auto split: option.split)
  next
    case (OpRevokeAccount i)
    then show ?thesis using ok by (simp add: refs_ok_revoke)
  next
    case (OpReapExpired t)
    then show ?thesis using ok by (simp add: refs_ok_reap)
  next
    case (OpDelete i r)
    then show ?thesis using ok by (simp add: refs_ok_delete)
  qed (use ok in \<open>auto simp: refs_ok_def account_ids_def create_invite_def revoke_invite_def revoke_session_def
      confirm_totp_def remove_totp_def delete_persona_def seed_class_masks_def upsert_class_def Let_def
      split: option.splits if_splits\<close>)
qed (use refs_ok_service in blast)+

text \<open>An account that is gone stays gone, with its name; a used invitation stays used; a spent code stays spent.\<close>

definition gone :: "int \<Rightarrow> str \<Rightarrow> auth_store \<Rightarrow> bool" where
  "gone i n st \<longleftrightarrow> i < next_account st \<and> by_id i st = None \<and> by_login n st = None \<and> name_is_retired n st"

definition invite_used :: "str \<Rightarrow> auth_store \<Rightarrow> bool" where
  "invite_used c st \<longleftrightarrow> (\<exists>v. invites st c = Some v \<and> used_by v \<noteq> None)"

definition code_spent :: "int \<Rightarrow> bytes \<Rightarrow> bytes \<Rightarrow> auth_store \<Rightarrow> bool" where
  "code_spent i s h st \<longleftrightarrow> i < next_account st \<and>
     (case totps st i of
        Some t \<Rightarrow> totp_confirmed t \<and> totp_secret t = s \<and> h \<notin> set (recovery_hashes t)
      | None \<Rightarrow> by_id i st = None)"

lemma retired_nocase: "name_is_retired n st \<Longrightarrow> nocase m n \<Longrightarrow> name_is_retired m st"
  by (auto simp: name_is_retired_def list_ex_iff nocase_def)

lemma gone_service: "service_step H st st' \<Longrightarrow> gone i n st \<Longrightarrow> gone i n st'"
proof (induction rule: service_step.induct)
  case (row_account a st)
  then show ?case using retired_nocase by (fastforce simp: gone_def by_id_None by_login_None name_is_retired_def)
qed (auto simp: gone_def by_id_None by_login_None name_is_retired_def table_defs split: option.splits if_splits)

lemma gone_op: "gone i n st \<Longrightarrow> gone i n (run_op cr op st)"
proof (rule run_op_keeps [where P = "gone i n"])
  assume "gone i n st" "\<not> is_service_op op"
  then show "gone i n (run_op cr op st)"
    by (cases op) (auto simp: gone_def by_id_None by_login_None name_is_retired_def list_ex_iff op_defs split: option.splits)
qed (use gone_service in blast)+

lemma invite_used_service: "service_step H st st' \<Longrightarrow> invite_used c st \<Longrightarrow> invite_used c st'"
  by (induction rule: service_step.induct)
     (auto simp: invite_used_def table_defs split: option.splits if_splits)

lemma invite_used_op: "invite_used c st \<Longrightarrow> invite_used c (run_op cr op st)"
proof (rule run_op_keeps [where P = "invite_used c"])
  assume "invite_used c st" "\<not> is_service_op op"
  then show "invite_used c (run_op cr op st)"
    by (cases op) (auto simp: invite_used_def op_defs split: option.splits if_splits)
qed (use invite_used_service in blast)+

text \<open>The operations that give an account's second factor up or begin a new one.\<close>

fun resets_factor :: "int \<Rightarrow> auth_op \<Rightarrow> bool" where
  "resets_factor i (OpBeginTotp j _) \<longleftrightarrow> j = i"
| "resets_factor i (OpConfirmTotp j _) \<longleftrightarrow> j = i"
| "resets_factor i (OpRemoveTotp j) \<longleftrightarrow> j = i"
| "resets_factor i _ \<longleftrightarrow> False"

lemma code_spent_service: "service_step H st st' \<Longrightarrow> code_spent i s h st \<Longrightarrow> code_spent i s h st'"
  by (induction rule: service_step.induct)
     (auto simp: code_spent_def by_id_None table_defs split: option.splits if_splits)

lemma code_spent_op: "code_spent i s h st \<Longrightarrow> \<not> resets_factor i op \<Longrightarrow> code_spent i s h (run_op cr op st)"
proof (rule run_op_keeps [where P = "code_spent i s h"])
  assume "code_spent i s h st" "\<not> is_service_op op" "\<not> resets_factor i op"
  then show "code_spent i s h (run_op cr op st)"
    by (cases op) (auto simp: code_spent_def by_id_None op_defs split: option.splits if_splits)
qed (use code_spent_service in blast)+

section \<open>Signing in\<close>

lemma recovery_index:
  "check_recovery_code_from h i xs found = Some k \<Longrightarrow> found = Some k \<or> (i \<le> k \<and> k < i + length xs \<and> xs ! (k - i) = h)"
proof (induction h i xs found rule: check_recovery_code_from.induct)
  case (2 h i s stored found)
  then show ?case by (auto split: if_splits simp: nth_Cons' le_Suc_eq)
qed simp

lemma recovery_found: "h \<in> set xs \<or> found \<noteq> None \<longleftrightarrow> check_recovery_code_from h i xs found \<noteq> None"
  by (induction h i xs found rule: check_recovery_code_from.induct) auto

lemma check_recovery_code_hit:
  "check_recovery_code cr c xs = Some k \<Longrightarrow> k < length xs \<and> xs ! k = recovery_hash cr c"
  using recovery_index [of "recovery_hash cr c" 0 xs None k] by (simp add: check_recovery_code_def)

lemma check_recovery_code_member: "check_recovery_code cr c xs = Some k \<Longrightarrow> recovery_hash cr c \<in> set xs"
  by (metis check_recovery_code_hit nth_mem)

text \<open>When the second factor of account \<open>a\<close> is met by \<open>code\<close> at time \<open>t\<close>.\<close>

definition factor_met :: "crypto \<Rightarrow> int \<Rightarrow> auth_account \<Rightarrow> str option \<Rightarrow> auth_store \<Rightarrow> bool" where
  "factor_met cr t a code st \<longleftrightarrow>
     (case totps st (acc_id a) of
        None \<Rightarrow> True
      | Some row \<Rightarrow> \<not> totp_confirmed row \<or>
          (case code of
             None \<Rightarrow> False
           | Some c \<Rightarrow> totp_verify cr (totp_secret row) t c = Some True \<or> recovery_hash cr c \<in> set (recovery_hashes row)))"

lemma second_factor_ok:
  assumes "second_factor cr t a code st = (st1, Inr u)"
  shows "factor_met cr t a code st" "sessions st1 = sessions st \<and> class_rows st1 = class_rows st \<and> accounts st1 = accounts st \<and>
    invites st1 = invites st"
proof -
  show "factor_met cr t a code st"
    using assms
    by (auto simp: second_factor_def factor_met_def split: option.splits if_splits dest: check_recovery_code_member)
  show "sessions st1 = sessions st \<and> class_rows st1 = class_rows st \<and> accounts st1 = accounts st \<and>
    invites st1 = invites st"
    using assms by (auto simp: second_factor_def consume_recovery_def split: option.splits if_splits prod.splits bool.splits)
qed

lemma second_factor_refused:
  "second_factor cr t a code st = (st1, Inl e) \<Longrightarrow> st1 = st \<and> e \<in> {TotpRequired, BadCredentials}"
  by (auto simp: second_factor_def consume_recovery_def split: option.splits if_splits prod.splits bool.splits)

lemma second_factor_spends:
  assumes "second_factor cr t a (Some c) st = (st1, Inr u)" and "totps st (acc_id a) = Some row" "totp_confirmed row"
    and "totp_verify cr (totp_secret row) t c \<noteq> Some True"
  shows "totps st1 (acc_id a) = Some (row\<lparr>recovery_hashes := filter (\<lambda>x. x \<noteq> recovery_hash cr c) (recovery_hashes row)\<rparr>)"
  using assms
  by (auto simp: second_factor_def consume_recovery_def dest: check_recovery_code_hit
      split: option.splits if_splits prod.splits bool.splits)

lemma rehash_ok:
  assumes "rehash cr slt a phc pw st = (st1, r)"
  shows "st1 = st \<or> (\<exists>h. st1 = update_phc (acc_id a) h st)" and "r = Inl e \<Longrightarrow> st1 = st \<and> e = HashFailure"
  using assms by (auto simp: rehash_def split: option.splits bool.splits)

lemma login_password_ok:
  assumes "login_password cr dr n pw code st = (st', Inr u)"
  obtains a phc st1 st2 where "by_login n st = Some a" "acc_phc a = Some phc" "verify_password cr pw phc = Some True"
    "\<not> acc_disabled a" "second_factor cr (now dr) a code st = (st1, Inr ())"
    "rehash cr (salt dr) a phc pw st1 = (st2, Inr ())" "open_session cr dr a st2 = (st', Inr u)"
  using assms by (auto simp: login_password_def split: option.splits bool.splits if_splits prod.splits sum.splits)

lemma default_persona_ok:
  "default_persona a st = (st', Inr p) \<Longrightarrow>
   default_for_account (acc_id a) st' = Some p \<and> sessions st' = sessions st \<and> accounts st' = accounts st \<and> class_rows st' = class_rows st \<and>
   totps st' = totps st \<and> invites st' = invites st"
  by (auto simp: default_persona_def default_for_account_def insert_persona_def Let_def find_append
      split: option.splits if_splits)

lemma open_session_ok:
  assumes "open_session cr dr a st = (st', Inr u)"
  shows "au_account u = a \<and> au_subject u = subject_for st a \<and> au_token u = Some (token_bytes dr)"
    and "sessions st' = (sessions st)(blake3 cr (token_bytes dr) \<mapsto> (acc_id a, now dr + session_ttl dr))"
    and "accounts st' = accounts st \<and> class_rows st' = class_rows st \<and> totps st' = totps st \<and> invites st' = invites st"
    and "default_for_account (acc_id a) st' = Some (au_persona u)"
  using assms
  by (auto simp: open_session_def insert_session_def subject_for_def Let_def dest!: default_persona_ok
      split: option.splits if_splits prod.splits sum.splits)

lemma subject_for_class_rows: "class_rows st' = class_rows st \<Longrightarrow> subject_for st' a = subject_for st a"
  by (simp add: subject_for_def split: option.splits)

lemma open_session_refused: "open_session cr dr a st = (st', Inl e) \<Longrightarrow> e = StoreFailure"
  by (auto simp: open_session_def default_persona_def split: option.splits prod.splits sum.splits)

lemma password_login_factor:
  assumes "login_password cr dr n pw code st = (st', Inr u)"
  shows "\<exists>a. by_login n st = Some a \<and> au_account u = a \<and> factor_met cr (now dr) a code st"
  using assms by (elim login_password_ok) (auto dest: second_factor_ok(1) open_session_ok(1))

section \<open>A store to try things on\<close>

definition fresh_store :: "classes \<Rightarrow> auth_store" where
  "fresh_store cs = \<lparr>accounts = [], next_account = 1, personas = [], next_persona = 1, retired_names = [],
     invites = (\<lambda>_. None), sessions = (\<lambda>_. None), totps = (\<lambda>_. None), class_rows = cs\<rparr>"

definition demo_crypto :: crypto where
  "demo_crypto = \<lparr>verify_password = (\<lambda>pw phc. Some (pw = phc)), hash_password = (\<lambda>_ pw. Some pw),
     needs_rehash = (\<lambda>_. Some False), totp_valid = (\<lambda>_ _. True), totp_verify = (\<lambda>_ _ _. Some False),
     blake3 = (\<lambda>b. b), lowercase = (\<lambda>s. s), base64url_decode = (\<lambda>s. Some (map of_nat s))\<rparr>"

definition demo_draw :: draw where
  "demo_draw = \<lparr>now = 100, session_ttl = 60, token_bytes = replicate 32 7, salt = 0\<rparr>"

definition demo_row :: auth_account where
  "demo_row = \<lparr>acc_id = 1, acc_role = 1, acc_class = None, acc_grant = 0, acc_revoke = 0, acc_login = [97], acc_phc = Some [112],
     acc_name = [97], acc_disabled = False, invited_by = None\<rparr>"

definition demo_user :: persona where
  "demo_user = \<lparr>per_id = 1, per_account = 1, per_name = [97], is_default = True\<rparr>"

text \<open>One account with a confirmed second factor and one recovery code, and an open invitation of its.\<close>

definition demo_auth :: auth_store where
  "demo_auth = (fresh_store [])\<lparr>accounts := [demo_row], next_account := 2, personas := [demo_user], next_persona := 2,
     invites := [[99] \<mapsto> \<lparr>created_by = 1, inv_expires = 200, used_by = None\<rparr>],
     totps := [1 \<mapsto> \<lparr>totp_secret = [1], totp_confirmed = True, recovery_hashes = [[114]]\<rparr>]\<rparr>"

definition demo_signed :: auth_store where
  "demo_signed = demo_auth\<lparr>sessions := [replicate 32 7 \<mapsto> (1, 160)],
     totps := [1 \<mapsto> \<lparr>totp_secret = [1], totp_confirmed = True, recovery_hashes = []\<rparr>]\<rparr>"

definition demo_authed :: authed_user where
  "demo_authed = \<lparr>au_account = demo_row, au_subject = subject_for demo_auth demo_row, au_persona = demo_user,
     au_token = Some (replicate 32 7)\<rparr>"

lemmas demo_defs = fresh_store_def demo_crypto_def demo_draw_def demo_row_def demo_user_def demo_auth_def demo_signed_def
  demo_authed_def

lemmas auth_eval = by_login_def by_id_def by_screen_name_def name_is_retired_def nocase_def to_ascii_lowercase_def
  ascii_lower_def

lemma demo_recovery_hash: "recovery_hash demo_crypto [114] = [114]"
  by (simp add: recovery_hash_def demo_crypto_def as_bytes_def utf8_char_def trim_def trim_start_def trim_end_def is_whitespace_def)

lemma demo_login: "login_password demo_crypto demo_draw [97] [112] (Some [114]) demo_auth = (demo_signed, Inr demo_authed)"
  by (simp add: login_password_def second_factor_def rehash_def open_session_def insert_session_def consume_recovery_def
      check_recovery_code_def demo_recovery_hash [unfolded demo_crypto_def] default_persona_def default_for_account_def subject_for_def Let_def auth_eval demo_defs)

lemma demo_keys: "keys_ok demo_auth" "keys_ok demo_signed"
  by (simp_all add: keys_ok_def account_ids_def demo_defs)

section \<open>Guarantees of sign-in\<close>

text \<open>
  C25. A password sign-in succeeds only for an enabled account whose stored hash verifies the password and, if
  a second factor is confirmed, with a current code or an unspent recovery code; it returns that account with the
  subject its row and class give, and stores the new session under the hash of its token. A sign-in refused for its
  credentials, a disabled account or a missing code changes nothing.
\<close>

theorem password_login_checked:
  assumes "login_password cr dr n pw code st = (st', res)"
  shows "case res of
      Inr u \<Rightarrow> \<exists>a phc. by_login n st = Some a \<and> acc_phc a = Some phc \<and> verify_password cr pw phc = Some True \<and>
        \<not> acc_disabled a \<and> factor_met cr (now dr) a code st \<and>
        au_account u = a \<and> au_subject u = subject_for st a \<and> au_token u = Some (token_bytes dr) \<and>
        sessions st' = (sessions st)(blake3 cr (token_bytes dr) \<mapsto> (acc_id a, now dr + session_ttl dr))
    | Inl e \<Rightarrow> e \<in> {BadCredentials, Disabled, TotpRequired} \<longrightarrow> st' = st"
proof (cases res)
  case (Inr u)
  with assms obtain a phc st1 st2 where l: "by_login n st = Some a" "acc_phc a = Some phc"
    "verify_password cr pw phc = Some True" "\<not> acc_disabled a" "second_factor cr (now dr) a code st = (st1, Inr ())"
    "rehash cr (salt dr) a phc pw st1 = (st2, Inr ())" "open_session cr dr a st2 = (st', Inr u)"
    by (auto elim: login_password_ok)
  have "sessions st2 = sessions st" "class_rows st2 = class_rows st"
    using second_factor_ok(2) [OF l(5)] rehash_ok(1) [OF l(6)] by (auto simp: update_phc_def update_account_def)
  then show ?thesis
    using Inr l(1-4) open_session_ok(1,2) [OF l(7)] second_factor_ok(1) [OF l(5)] subject_for_class_rows [of st2 st a]
    by simp
next
  case (Inl e)
  then show ?thesis using assms
    by (auto simp: login_password_def split: option.splits bool.splits if_splits prod.splits sum.splits
        dest: second_factor_refused rehash_ok(2) open_session_refused)
qed

theorem password_login_checked_witness:
  "login_password demo_crypto demo_draw [97] [112] (Some [114]) demo_auth = (demo_signed, Inr demo_authed) \<and>
   sessions demo_signed (replicate 32 7) = Some (1, 160)"
  using password_login_checked [OF demo_login] demo_login by (auto simp: demo_defs)

text \<open>
  C30. A recovery code signs in once: after a sign-in that spent one, and after any further operations on the
  tables of which none removes that account's second factor or enrols it anew, no sign-in with that code reaches
  the account again. (Removing the factor lifts the requirement altogether, and a new enrolment brings new codes.)
\<close>

theorem recovery_code_once:
  assumes "keys_ok st"
    and first: "login_password cr dr n pw (Some c) st = (st1, Inr u)"
    and row: "totps st (acc_id (au_account u)) = Some row" "totp_confirmed row"
    and spent: "totp_verify cr (totp_secret row) (now dr) c \<noteq> Some True"
    and later: "\<forall>op \<in> set ops. \<not> resets_factor (acc_id (au_account u)) op"
    and again: "login_password cr dr' n' pw' (Some c') (run_ops cr ops st1) = (st3, Inr u')"
    and same: "recovery_hash cr c' = recovery_hash cr c" "totp_verify cr (totp_secret row) (now dr') c' \<noteq> Some True"
  shows "acc_id (au_account u') \<noteq> acc_id (au_account u)"
proof
  assume eq: "acc_id (au_account u') = acc_id (au_account u)"
  from first obtain a phc s1 s2 where l: "by_login n st = Some a" "second_factor cr (now dr) a (Some c) st = (s1, Inr ())"
    "rehash cr (salt dr) a phc pw s1 = (s2, Inr ())" "open_session cr dr a s2 = (st1, Inr u)"
    by (auto elim: login_password_ok)
  have ua: "au_account u = a" using open_session_ok(1) [OF l(4)] by simp
  have "a \<in> set (accounts st)" using by_login_Some [OF l(1)] by simp
  then have "acc_id a < next_account s1"
    using assms(1) l(2) by (auto simp: keys_ok_def account_ids_def second_factor_def consume_recovery_def
        split: option.splits if_splits prod.splits bool.splits)
  then have "code_spent (acc_id a) (totp_secret row) (recovery_hash cr c) s1"
    using second_factor_spends [OF l(2)] row spent by (simp add: ua code_spent_def)
  moreover have "(service_step UNIV)\<^sup>*\<^sup>* s1 s2" "(service_step UNIV)\<^sup>*\<^sup>* s2 st1"
    using rehash_steps [of UNIV s1 cr "salt dr" a phc pw] open_session_steps [of cr dr UNIV s2 a] l(3,4) by simp_all
  ultimately have "code_spent (acc_id a) (totp_secret row) (recovery_hash cr c) st1"
    using service_steps_keep [OF rtranclp_trans, of UNIV s1 s2 st1 "code_spent (acc_id a) (totp_secret row) (recovery_hash cr c)"]
      code_spent_service by blast
  then have 2: "code_spent (acc_id a) (totp_secret row) (recovery_hash cr c) (run_ops cr ops st1)"
    by (rule run_ops_keep) (use later ua in \<open>auto simp: code_spent_op\<close>)
  define st2 where "st2 = run_ops cr ops st1"
  note 2 = 2 [folded st2_def]
  from password_login_factor [OF again, folded st2_def] obtain a' where a': "by_login n' st2 = Some a'" "au_account u' = a'"
    "factor_met cr (now dr') a' (Some c') st2" by blast
  have "by_id (acc_id a') st2 \<noteq> None" using by_login_Some [OF a'(1)] by (auto simp: by_id_None)
  then show False using 2 a' eq ua same by (auto simp: code_spent_def factor_met_def split: option.splits)
qed

theorem recovery_code_once_witness:
  "acc_id (au_account demo_authed) = 1 \<and>
   (\<nexists>st3 u'. login_password demo_crypto demo_draw [97] [112] (Some [114])
       (run_ops demo_crypto [OpRevokeAccount 1, OpSetPhc 1 [112], OpRemoveTotp 2] demo_signed) = (st3, Inr u') \<and> acc_id (au_account u') = 1)"
proof -
  let ?ops = "[OpRevokeAccount 1, OpSetPhc 1 [112], OpRemoveTotp 2]"
  have row: "totps demo_auth (acc_id (au_account demo_authed)) =
      Some \<lparr>totp_secret = [1], totp_confirmed = True, recovery_hashes = [[114]]\<rparr>" "acc_id (au_account demo_authed) = 1"
    by (simp_all add: demo_defs)
  have "acc_id (au_account u') \<noteq> 1"
    if "login_password demo_crypto demo_draw [97] [112] (Some [114]) (run_ops demo_crypto ?ops demo_signed) = (st3, Inr u')" for st3 u'
    using recovery_code_once [OF demo_keys(1) demo_login row(1) _ _ _ that refl] row(2)
    by (simp add: demo_crypto_def)
  with row(2) show ?thesis by blast
qed

text \<open>
  A removed name is never taken again: once an account is removed, no later store has an account under its
  login or its id, and creating one with that name is refused.
\<close>

lemma removed_name_stays_taken:
  assumes "keys_ok st" and a: "by_id i st = Some a"
    and del: "delete_account i keeper_role st = (st1, True)"
    and later: "(auth_step cr)\<^sup>*\<^sup>* st1 st2" and n: "nocase n (acc_login a)"
  shows "by_id i st2 = None \<and> by_login n st2 = None \<and> create_account cr slt n pw r st2 = (st2, Inl LoginTaken) \<and>
    snd (create_with_access n phc access st2) = None"
proof -
  have row: "a \<in> set (accounts st)" "acc_id a = i" using by_id_Some [OF a] by simp_all
  have "acc_id b = i" if "b \<in> set (accounts st)" "nocase (acc_login b) n" for b
    using assms(1) that row n unfolding keys_ok_def nocase_def distinct_map inj_on_def by metis
  moreover have "i < next_account st" using assms(1) row by (auto simp: keys_ok_def account_ids_def)
  moreover have "nocase (acc_login a) n" using n nocase_sym by blast
  ultimately have "gone i n st1"
    using a del by (auto simp: gone_def delete_account_def by_id_None by_login_None name_is_retired_def Let_def
        split: if_splits)
  then have "gone i n st2" using auth_steps_keep [OF later, of "gone i n"] gone_op by blast
  then show ?thesis by (simp add: gone_def create_account_def create_with_access_def)
qed

section \<open>Invitations\<close>

lemma create_account_ok:
  assumes "create_account cr slt n pw r st = (st', Inr a)"
  shows "by_login n st = None" "accounts st' = accounts st @ [a]" "acc_id a = next_account st" "acc_login a = n"
    "acc_role a = role_ordinal r" "invites st' = invites st"
  using assms
  by (auto simp: create_account_def insert_account_def insert_persona_def Let_def split: option.splits if_splits prod.splits)

lemma used_invite_refused:
  "invite_used c st \<Longrightarrow> register cr dr Invite n pw (Some c) st = (st, Inl BadInvite)"
  by (auto simp: invite_used_def register_def reserve_invite_def Let_def)

lemma used_invite_stays:
  "invite_used c st \<Longrightarrow> (auth_step cr)\<^sup>*\<^sup>* st st' \<Longrightarrow> register cr dr Invite n pw (Some c) st' = (st', Inl BadInvite)"
  using auth_steps_keep [of cr st st' "invite_used c"] invite_used_op used_invite_refused by blast

lemma find_map_id: "(\<And>x. P (f x) = P x) \<Longrightarrow> List.find P (map f xs) = map_option f (List.find P xs)"
  by (induction xs) auto

lemma login_password_frame:
  assumes "login_password cr dr n pw code st = (st', Inr u)"
  shows "invites st' = invites st" "by_login n st = Some (au_account u)"
proof -
  from assms obtain a phc s1 s2 where l: "by_login n st = Some a" "second_factor cr (now dr) a code st = (s1, Inr ())"
    "rehash cr (salt dr) a phc pw s1 = (s2, Inr ())" "open_session cr dr a s2 = (st', Inr u)"
    by (auto elim: login_password_ok)
  show "by_login n st = Some (au_account u)" using l(1) open_session_ok(1) [OF l(4)] by simp
  have "invites s2 = invites s1"
    using rehash_ok(1) [OF l(3)] by (auto simp: update_phc_def update_account_def)
  then show "invites st' = invites st" using second_factor_ok(2) [OF l(2)] open_session_ok(3) [OF l(4)] by simp
qed

lemma invited_row:
  assumes "create_account cr slt n pw r st = (st1, Inr a)"
  shows "by_login n (set_invited_by (acc_id a) i (finalize_invite c (acc_id a) st1)) = Some (a\<lparr>invited_by := Some i\<rparr>)"
proof -
  let ?f = "\<lambda>b. if acc_id b = acc_id a then b\<lparr>invited_by := Some i\<rparr> else b"
  have f: "(\<lambda>a. nocase (acc_login a) n) (?f b) = (\<lambda>a. nocase (acc_login a) n) b" for b by simp
  have "List.find (\<lambda>a. nocase (acc_login a) n) (accounts st) = None"
    using create_account_ok(1) [OF assms] by (simp add: by_login_def)
  then have "List.find (\<lambda>a. nocase (acc_login a) n) (accounts st1) = Some a"
    using create_account_ok(2,4) [OF assms] by (simp add: find_append nocase_def)
  then show ?thesis
    using find_map_id [of "\<lambda>a. nocase (acc_login a) n" ?f "accounts st1", OF f]
    by (simp add: by_login_def set_invited_by_def update_account_def finalize_invite_def)
qed

text \<open>
  C31. In invite mode a registration succeeds only on an invitation that is unused and not expired; it creates one
  account of user rank, new by id and login, records who invited it and who used the code; and whatever happens
  afterwards, that code admits nobody else.
\<close>

theorem invite_admits_once:
  assumes reg: "register cr dr Invite n pw (Some c) st = (st1, Inr u)" and later: "(auth_step cr)\<^sup>*\<^sup>* st1 st2"
  shows "(\<exists>v. invites st c = Some v \<and> used_by v = None \<and> now dr < inv_expires v \<and> by_login n st = None \<and>
      acc_id (au_account u) = next_account st \<and> acc_login (au_account u) = n \<and>
      acc_role (au_account u) = role_ordinal User \<and> invited_by (au_account u) = Some (created_by v) \<and>
      invites st1 c = Some (v\<lparr>used_by := Some (next_account st)\<rparr>)) \<and>
    register cr dr' Invite n' pw' (Some c) st2 = (st2, Inl BadInvite)"
proof -
  obtain s0 res where "reserve_invite (now dr) c st = (s0, res)" by fastforce
  with reg obtain v where v: "invites st c = Some v" "used_by v = None" "now dr < inv_expires v"
    and s0: "reserve_invite (now dr) c st = (st\<lparr>invites := (invites st)(c \<mapsto> v\<lparr>used_by := Some 0\<rparr>)\<rparr>, Some (created_by v))"
    by (auto simp: register_def reserve_invite_def Let_def split: option.splits if_splits)
  define st0 where "st0 = st\<lparr>invites := (invites st)(c \<mapsto> v\<lparr>used_by := Some 0\<rparr>)\<rparr>"
  from reg s0 obtain s1 a where ca: "create_account cr (salt dr) n pw User st0 = (s1, Inr a)"
    and lg: "login_password cr dr n pw None
        (set_invited_by (acc_id a) (created_by v) (finalize_invite c (acc_id a) s1)) = (st1, Inr u)"
    by (auto simp: register_def st0_def Let_def split: prod.splits sum.splits)
  have u: "au_account u = a\<lparr>invited_by := Some (created_by v)\<rparr>"
    using login_password_frame(2) [OF lg] invited_row [OF ca] by simp
  have i: "invites st1 c = Some (v\<lparr>used_by := Some (acc_id a)\<rparr>)"
    using login_password_frame(1) [OF lg] create_account_ok(6) [OF ca]
    by (simp add: set_invited_by_def update_account_def finalize_invite_def st0_def)
  have "by_login n st = None" "next_account st0 = next_account st"
    using create_account_ok(1) [OF ca] by (simp_all add: by_login_def st0_def)
  then show ?thesis
    using v u i create_account_ok(3-5) [OF ca] used_invite_stays [OF _ later, of c] by (simp add: invite_used_def)
qed

definition demo_open :: auth_store where
  "demo_open = demo_auth\<lparr>totps := \<lambda>_. None\<rparr>"

lemma demo_register:
  "\<exists>st1 u. register demo_crypto demo_draw Invite [98] [113] (Some [99]) demo_open = (st1, Inr u)"
  by (simp add: register_def reserve_invite_def create_account_def insert_account_def insert_persona_def finalize_invite_def
      set_invited_by_def update_account_def login_password_def second_factor_def rehash_def open_session_def
      insert_session_def default_persona_def default_for_account_def subject_for_def class_by_name_def Let_def auth_eval demo_open_def demo_defs)

theorem invite_admits_once_witness:
  "\<exists>st1 u. register demo_crypto demo_draw Invite [98] [113] (Some [99]) demo_open = (st1, Inr u) \<and>
     acc_id (au_account u) = 2 \<and> invited_by (au_account u) = Some 1 \<and>
     register demo_crypto demo_draw Invite [100] [113] (Some [99]) st1 = (st1, Inl BadInvite)"
proof -
  obtain st1 u where r: "register demo_crypto demo_draw Invite [98] [113] (Some [99]) demo_open = (st1, Inr u)"
    using demo_register by blast
  show ?thesis
    using r invite_admits_once [OF r rtranclp.rtrancl_refl, of demo_draw "[100]" "[113]"]
    by (auto simp: demo_open_def demo_defs)
qed

text \<open>
  C32. A registration that names a taken login spends the invitation all the same: the code is marked used by
  nobody, it can neither be redeemed nor withdrawn, and no account came of it.
\<close>

theorem taken_login_burns_invite:
  assumes "invites st c = Some v" "used_by v = None" "now dr < inv_expires v" and "by_login n st \<noteq> None"
  shows "\<exists>st1. register cr dr Invite n pw (Some c) st = (st1, Inl LoginTaken) \<and> accounts st1 = accounts st \<and>
      invites st1 c = Some (v\<lparr>used_by := Some 0\<rparr>) \<and> revoke_invite c st1 = (st1, False) \<and>
      (\<forall>st2 dr' n' pw'. (auth_step cr)\<^sup>*\<^sup>* st1 st2 \<longrightarrow> register cr dr' Invite n' pw' (Some c) st2 = (st2, Inl BadInvite))"
proof -
  let ?st1 = "st\<lparr>invites := (invites st)(c \<mapsto> v\<lparr>used_by := Some 0\<rparr>)\<rparr>"
  have "by_login n ?st1 \<noteq> None" using assms(4) by (simp add: by_login_def)
  then have "register cr dr Invite n pw (Some c) st = (?st1, Inl LoginTaken)"
    using assms(1-3) by (simp add: register_def reserve_invite_def create_account_def Let_def)
  moreover have "invite_used c ?st1" by (simp add: invite_used_def)
  ultimately show ?thesis using used_invite_stays by (intro exI [of _ ?st1]) (auto simp: revoke_invite_def)
qed

theorem taken_login_burns_invite_witness:
  "\<exists>st1. register demo_crypto demo_draw Invite [97] [113] (Some [99]) demo_auth = (st1, Inl LoginTaken) \<and>
     register demo_crypto demo_draw Invite [98] [113] (Some [99]) st1 = (st1, Inl BadInvite)"
proof -
  have "invites demo_auth [99] = Some \<lparr>created_by = 1, inv_expires = 200, used_by = None\<rparr>" "by_login [97] demo_auth \<noteq> None"
    by (simp_all add: auth_eval demo_defs)
  from taken_login_burns_invite [OF this(1) _ _ this(2), of demo_draw demo_crypto "[113]"] show ?thesis
    by (auto simp: demo_draw_def)
qed

section \<open>Saved sessions\<close>

lemma by_id_of_row: "keys_ok st \<Longrightarrow> a \<in> set (accounts st) \<Longrightarrow> by_id (acc_id a) st = Some a"
proof -
  assume "keys_ok st" "a \<in> set (accounts st)"
  then have "b = a" if "b \<in> set (accounts st)" "acc_id b = acc_id a" for b
    using that by (auto simp: keys_ok_def distinct_map inj_on_def)
  with \<open>a \<in> set (accounts st)\<close> show ?thesis
    by (cases "by_id (acc_id a) st") (auto simp: by_id_None dest!: by_id_Some)
qed

lemma by_id_update_phc: "by_id i (update_phc j h st) = map_option (\<lambda>a. if acc_id a = j then a\<lparr>acc_phc := Some h\<rparr> else a) (by_id i st)"
  using find_map_id [of "\<lambda>a. acc_id a = i" "\<lambda>a. if acc_id a = j then a\<lparr>acc_phc := Some h\<rparr> else a" "accounts st"]
  by (simp add: by_id_def update_phc_def update_account_def)

lemma no_session_expired:
  "decode_token cr s = Some tok \<Longrightarrow> sessions st (blake3 cr tok) = None \<Longrightarrow> login_resume cr t s st = (st, Inl SessionExpired)"
  by (simp add: login_resume_def resume_session_def)

lemma signed_in_row:
  assumes "keys_ok st" and "login_password cr dr n pw code st = (st1, Inr u)"
  obtains b where "by_id (acc_id (au_account u)) st1 = Some b" "acc_id b = acc_id (au_account u)"
    "acc_login b = acc_login (au_account u)" "\<not> acc_disabled b"
    "subject_for st1 b = au_subject u" "default_for_account (acc_id b) st1 = Some (au_persona u)"
    "sessions st1 (blake3 cr (token_bytes dr)) = Some (acc_id b, now dr + session_ttl dr)" "au_token u = Some (token_bytes dr)"
proof -
  from assms(2) obtain a phc s1 s2 where l: "by_login n st = Some a" "\<not> acc_disabled a"
    "second_factor cr (now dr) a code st = (s1, Inr ())" "rehash cr (salt dr) a phc pw s1 = (s2, Inr ())"
    "open_session cr dr a s2 = (st1, Inr u)"
    by (auto elim: login_password_ok)
  note s1 = second_factor_ok(2) [OF l(3)] and s2 = rehash_ok(1) [OF l(4)] and s3 = open_session_ok [OF l(5)]
  have "by_id (acc_id a) s1 = Some a"
    using by_id_of_row [OF assms(1)] by_login_Some [OF l(1)] s1 by (simp add: by_id_def)
  then obtain b where b: "by_id (acc_id a) s2 = Some b" "b = a \<or> (\<exists>h. b = a\<lparr>acc_phc := Some h\<rparr>)"
    using s2 by (fastforce simp: by_id_update_phc)
  have "by_id (acc_id a) st1 = Some b" using b(1) s3(3) by (simp add: by_id_def)
  moreover have "subject_for st1 b = subject_for s2 a"
    using b(2) s3(3) by (auto simp: subject_for_def split: option.splits)
  ultimately show thesis using that [of b] b(2) l(2) s3(1,2,4) by auto
qed

text \<open>
  What can end a saved session of account \<open>i\<close> (login \<open>n\<close>), stored under hash \<open>h\<close> until \<open>expires\<close>: its own
  revocation, a revocation of the account's sessions, an edit of its credentials or access, its removal, disabling
  it, and the sweep of sessions that have expired. Those of them that took effect end it for good.
\<close>

fun may_end :: "int \<Rightarrow> str \<Rightarrow> bytes \<Rightarrow> int \<Rightarrow> auth_op \<Rightarrow> bool" where
  "may_end i n h expires (OpRevokeSession h') \<longleftrightarrow> h' = h"
| "may_end i n h expires (OpRevokeAccount j) \<longleftrightarrow> j = i"
| "may_end i n h expires (OpReapExpired t) \<longleftrightarrow> expires \<le> t"
| "may_end i n h expires (OpEdit e _ _) \<longleftrightarrow> acc_id e = i"
| "may_end i n h expires (OpDelete j _) \<longleftrightarrow> j = i"
| "may_end i n h expires (OpAdminSet m _ _ off) \<longleftrightarrow> nocase n m \<and> off = Some True"
| "may_end i n h expires _ \<longleftrightarrow> False"

fun ends_for_good :: "int \<Rightarrow> bytes \<Rightarrow> auth_op \<Rightarrow> auth_store \<Rightarrow> bool" where
  "ends_for_good i h (OpRevokeSession h') st \<longleftrightarrow> h' = h"
| "ends_for_good i h (OpRevokeAccount j) st \<longleftrightarrow> j = i"
| "ends_for_good i h (OpEdit e phc access) st \<longleftrightarrow> acc_id e = i \<and> snd (update_credentials_and_access e phc access st)"
| "ends_for_good i h (OpDelete j r) st \<longleftrightarrow> j = i \<and> snd (delete_account j r st)"
| "ends_for_good i h _ st \<longleftrightarrow> False"

lemma sessions_service: "service_step H st st' \<Longrightarrow> h \<notin> H \<Longrightarrow> sessions st' h = sessions st h"
  by (induction rule: service_step.induct) (auto simp: table_defs split: option.splits if_splits)

lemma sessions_op:
  assumes "h \<notin> op_tokens cr op"
  shows "sessions (run_op cr op st) h = None \<or> sessions (run_op cr op st) h = sessions st h"
proof (rule run_op_keeps [where P = "\<lambda>s. sessions s h = None \<or> sessions s h = sessions st h"])
  assume "\<not> is_service_op op"
  then show "sessions (run_op cr op st) h = None \<or> sessions (run_op cr op st) h = sessions st h"
    by (cases op) (auto simp: op_defs split: option.splits if_splits)
qed (use sessions_service assms in \<open>auto simp: sessions_service\<close>)

lemma session_ends:
  assumes "ends_for_good i h op st" "sessions st h = None \<or> (\<exists>e. sessions st h = Some (i, e))"
  shows "sessions (run_op cr op st) h = None"
  using assms by (cases op) (auto simp: op_defs split: option.splits if_splits)

text \<open>A session that is good: its row, its account enabled, a persona to come back as.\<close>

definition resumable :: "int \<Rightarrow> str \<Rightarrow> bytes \<Rightarrow> int \<Rightarrow> auth_store \<Rightarrow> bool" where
  "resumable i n h expires st \<longleftrightarrow>
     (\<exists>b. by_id i st = Some b \<and> acc_login b = n \<and> \<not> acc_disabled b) \<and> sessions st h = Some (i, expires) \<and>
     (\<exists>p \<in> set (personas st). per_account p = i)"

lemma by_id_edit: "(\<And>a. acc_id (f a) = acc_id a) \<Longrightarrow> by_id i (st\<lparr>accounts := map f (accounts st)\<rparr>) = map_option f (by_id i st)"
  using find_map_id [of "\<lambda>a. acc_id a = i" f "accounts st"] by (simp add: by_id_def)

lemma resumable_service: "service_step H st st' \<Longrightarrow> h \<notin> H \<Longrightarrow> resumable i n h e st \<Longrightarrow> resumable i n h e st'"
proof (induction rule: service_step.induct)
  case (row_account a st)
  then show ?case by (auto simp: resumable_def by_id_def find_append)
next
  case (row_edit f st)
  then show ?case using by_id_edit [of f i st] by (auto simp: resumable_def)
qed (auto simp: resumable_def by_id_def table_defs split: option.splits if_splits)

text \<open>Removing a persona leaves its account one: the last one is never removed, and ids are unique.\<close>

lemma persona_kept:
  assumes "keys_ok st" "\<exists>p \<in> set (personas st). per_account p = i"
  shows "\<exists>p \<in> set (personas (fst (delete_persona pid j st))). per_account p = i"
proof (cases "j = i \<and> length (filter (\<lambda>p. per_account p = i) (personas st)) > 1")
  case True
  let ?own = "filter (\<lambda>p. per_account p = i) (personas st)"
  obtain p q ps where own: "?own = p # q # ps"
    using True by (cases ?own rule: remdups_adj.cases) auto
  have "distinct (map per_id ?own)" using assms(1) by (simp add: keys_ok_def distinct_map_filter)
  then have "per_id p \<noteq> per_id q" unfolding own by simp
  moreover have "p \<in> set ?own" "q \<in> set ?own" unfolding own by simp_all
  ultimately have "\<exists>r \<in> set (personas st). per_account r = i \<and> per_id r \<noteq> pid" by (cases "per_id p = pid") auto
  then show ?thesis using True by (auto simp: delete_persona_def Let_def)
next
  case False
  then show ?thesis using assms(2) by (cases "j = i") (auto simp: delete_persona_def Let_def)
qed

lemma resumable_op:
  assumes "keys_ok st" "resumable i n h e st" "h \<notin> op_tokens cr op" "\<not> may_end i n h e op"
  shows "resumable i n h e (run_op cr op st)"
proof (rule run_op_keeps [where P = "resumable i n h e"])
  assume other: "\<not> is_service_op op"
  from assms(2) obtain b where b: "by_id i st = Some b" "acc_login b = n" "\<not> acc_disabled b" "acc_id b = i"
    by (auto simp: resumable_def dest: by_id_Some)
  show "resumable i n h e (run_op cr op st)"
  proof (cases op)
    case (OpEdit a phc access)
    then have "acc_id a \<noteq> i" using assms(4) by simp
    moreover have "by_id i (fst (update_credentials_and_access a phc access st)) = Some b"
    proof (cases "list_ex (unchanged_row a) (accounts st)")
      case True
      let ?f = "\<lambda>x. if unchanged_row a x
          then x\<lparr>acc_phc := (case phc of Some h \<Rightarrow> Some h | None \<Rightarrow> acc_phc x), acc_role := aa_role access,
             acc_class := aa_class access, acc_grant := aa_grant access, acc_revoke := aa_revoke access\<rparr> else x"
      have "\<not> unchanged_row a b" using \<open>acc_id a \<noteq> i\<close> b(4) by (auto simp: unchanged_row_def)
      then have "by_id i (st\<lparr>accounts := map ?f (accounts st)\<rparr>) = Some b" using by_id_edit [of ?f i st] b(1) by simp
      then show ?thesis using True by (simp add: update_credentials_and_access_def revoke_account_def by_id_def)
    qed (simp add: update_credentials_and_access_def b(1))
    ultimately show ?thesis using assms(2) b OpEdit
      by (auto simp: resumable_def update_credentials_and_access_def revoke_account_def)
  next
    case (OpAdminSet m ro ci off)
    let ?f = "\<lambda>a. if nocase (acc_login a) m
          then a\<lparr>acc_role := (case ro of Some v \<Rightarrow> v | None \<Rightarrow> acc_role a), acc_class := (case ci of Some v \<Rightarrow> v | None \<Rightarrow> acc_class a),
                 acc_disabled := (case off of Some v \<Rightarrow> v | None \<Rightarrow> acc_disabled a)\<rparr> else a"
    have "by_id i (st\<lparr>accounts := map ?f (accounts st)\<rparr>) = Some (?f b)" using by_id_edit [of ?f i st] b(1) by simp
    moreover have "\<not> acc_disabled (?f b)" using assms(4) b OpAdminSet by (auto split: option.splits)
    ultimately show ?thesis using assms(2) b OpAdminSet by (auto simp: resumable_def admin_set_def)
  next
    case (OpDeletePersona pid j)
    have "by_id i (fst (delete_persona pid j st)) = by_id i st" by (simp add: delete_persona_def by_id_def Let_def)
    moreover have "sessions (fst (delete_persona pid j st)) = sessions st" by (simp add: delete_persona_def Let_def)
    ultimately show ?thesis using assms(2) persona_kept [OF assms(1)] OpDeletePersona by (simp add: resumable_def)
  next
    case (OpDelete j r)
    then have "j \<noteq> i" using assms(4) by simp
    have "List.find (\<lambda>a. acc_id a = i) (filter (\<lambda>b. acc_id b \<noteq> j) xs) = List.find (\<lambda>a. acc_id a = i) xs" for xs :: "auth_account list"
      using \<open>j \<noteq> i\<close> by (induction xs) auto
    then show ?thesis using assms(2) OpDelete \<open>j \<noteq> i\<close>
      by (auto simp: resumable_def delete_account_def by_id_def Let_def split: option.splits)
  qed (use assms(2,4) other in \<open>auto simp: resumable_def by_id_def op_defs split: option.splits if_splits\<close>)
qed (use assms resumable_service in blast)+

lemma default_for_account_own:
  assumes "default_for_account i st = Some p"
  shows "p \<in> set (personas st) \<and> per_account p = i"
proof -
  have "p \<in> set (filter (\<lambda>p. per_account p = i) (personas st))"
    using assms by (auto simp: default_for_account_def Let_def find_Some_iff simp del: set_filter split: option.splits)
  then show ?thesis by simp
qed

lemma default_for_account_some: "\<exists>p \<in> set (personas st). per_account p = i \<Longrightarrow> default_for_account i st \<noteq> None"
  by (cases "filter (\<lambda>p. per_account p = i) (personas st)")
    (auto simp: default_for_account_def filter_empty_conv Let_def split: option.splits)

lemma resumable_resumes:
  assumes "resumable i n h expires st" "decode_token cr s = Some tok" "h = blake3 cr tok" "t < expires"
  shows "\<exists>u. login_resume cr t s st = (st, Inr u) \<and> by_id i st = Some (au_account u) \<and>
    au_subject u = subject_for st (au_account u) \<and> per_account (au_persona u) = i \<and> au_token u = Some tok"
proof -
  from assms(1) obtain b where b: "by_id i st = Some b" "\<not> acc_disabled b" "acc_id b = i" by (auto simp: resumable_def dest: by_id_Some)
  obtain p where p: "default_for_account i st = Some p" "per_account p = i"
    using assms(1) default_for_account_some [of st i] default_for_account_own [of i st] by (auto simp: resumable_def)
  then show ?thesis using assms b p
    by (auto simp: resumable_def login_resume_def resume_session_def default_persona_def Let_def)
qed

text \<open>
  C33. The life of a session, over any operations on the tables after its sign-in, none of which draws the same
  random token again. Right after the sign-in the token resumes the same account with the same rights and persona.
  Until it expires it resumes the account, with the rights the account's row and class have by then, a persona of
  the account, and no change to the tables, as long as nothing has revoked it, revoked the account's sessions,
  edited the account's credentials or access, disabled it, removed it, or swept it up as expired. From its expiry
  on it is refused, and so it is for ever once it or the account's sessions have been revoked, once an edit of the
  account's credentials or access was made, and once the account was removed.
\<close>

theorem session_lifecycle:
  assumes "keys_ok st" and "login_password cr dr n pw code st = (st1, Inr u)"
    and tok: "decode_token cr s = Some (token_bytes dr)"
    and fresh: "\<forall>op \<in> set ops. blake3 cr (token_bytes dr) \<notin> op_tokens cr op"
  defines "i \<equiv> acc_id (au_account u)" and "h \<equiv> blake3 cr (token_bytes dr)" and "expires \<equiv> now dr + session_ttl dr"
    and "st2 \<equiv> run_ops cr ops st1"
  shows "(t < expires \<longrightarrow>
       (\<exists>u'. login_resume cr t s st1 = (st1, Inr u') \<and> acc_id (au_account u') = i \<and>
             au_subject u' = au_subject u \<and> au_persona u' = au_persona u \<and> au_token u' = au_token u)) \<and>
    (t < expires \<and> (\<forall>op \<in> set ops. \<not> may_end i (acc_login (au_account u)) h expires op) \<longrightarrow>
       (\<exists>u'. login_resume cr t s st2 = (st2, Inr u') \<and> by_id i st2 = Some (au_account u') \<and>
             au_subject u' = subject_for st2 (au_account u') \<and> per_account (au_persona u') = i \<and> au_token u' = au_token u)) \<and>
    (expires \<le> t \<longrightarrow> login_resume cr t s st2 = (st2, Inl SessionExpired)) \<and>
    ((\<exists>before op after. ops = before @ op # after \<and> ends_for_good i h op (run_ops cr before st1)) \<longrightarrow>
       login_resume cr t s st2 = (st2, Inl SessionExpired))"
proof -
  from signed_in_row [OF assms(1,2)] obtain b where b: "by_id i st1 = Some b" "acc_id b = i"
    "acc_login b = acc_login (au_account u)" "\<not> acc_disabled b" "subject_for st1 b = au_subject u"
    "default_for_account i st1 = Some (au_persona u)" "sessions st1 h = Some (i, expires)" "au_token u = Some (token_bytes dr)"
    unfolding i_def h_def expires_def by metis
  note gone = no_session_expired [OF tok, folded h_def]
  have row: "sessions (run_ops cr os s0) h = None \<or> sessions (run_ops cr os s0) h = sessions s0 h" if "set os \<subseteq> set ops" for os s0
    by (rule run_ops_keep [where P = "\<lambda>s. sessions s h = None \<or> sessions s h = sessions s0 h"])
      (use that fresh sessions_op [of h cr] in \<open>fastforce simp: h_def\<close>)+
  have 1: "\<exists>u'. login_resume cr t s st1 = (st1, Inr u') \<and> acc_id (au_account u') = i \<and>
      au_subject u' = au_subject u \<and> au_persona u' = au_persona u \<and> au_token u' = au_token u"
    if "t < expires"
    using that b tok by (simp add: login_resume_def resume_session_def default_persona_def Let_def flip: h_def)
  have 2: "\<exists>u'. login_resume cr t s st2 = (st2, Inr u') \<and> by_id i st2 = Some (au_account u') \<and>
      au_subject u' = subject_for st2 (au_account u') \<and> per_account (au_persona u') = i \<and> au_token u' = au_token u"
    if "t < expires" "\<forall>op \<in> set ops. \<not> may_end i (acc_login (au_account u)) h expires op"
  proof -
    let ?P = "\<lambda>s. keys_ok s \<and> resumable i (acc_login (au_account u)) h expires s"
    have "au_persona u \<in> set (personas st1) \<and> per_account (au_persona u) = i"
      using b(6) by (rule default_for_account_own)
    moreover have "keys_ok st1" using keys_ok_op [OF assms(1), of cr "OpLogin dr n pw code"] assms(2) by simp
    ultimately have "?P st1" using b by (auto simp: resumable_def)
    then have "?P st2" unfolding st2_def
      by (rule run_ops_keep [where P = ?P]) (use fresh that(2) in \<open>simp add: keys_ok_op resumable_op h_def\<close>)
    then show ?thesis using resumable_resumes [OF _ tok meta_eq_to_obj_eq [OF h_def] that(1)] b(8) by fastforce
  qed
  have 3: "login_resume cr t s st2 = (st2, Inl SessionExpired)" if "expires \<le> t"
    using row [OF subset_refl, of st1] that b(7) tok gone
    by (auto simp: login_resume_def resume_session_def st2_def simp flip: h_def)
  have 4: "login_resume cr t s st2 = (st2, Inl SessionExpired)"
    if "ops = before @ op # after" "ends_for_good i h op (run_ops cr before st1)" for before op after
  proof -
    have "sessions (run_ops cr before st1) h = None \<or> (\<exists>e. sessions (run_ops cr before st1) h = Some (i, e))"
      using row [of before st1] that(1) b(7) by auto
    then have "sessions (run_op cr op (run_ops cr before st1)) h = None" by (rule session_ends [OF that(2)])
    moreover have "st2 = run_ops cr after (run_op cr op (run_ops cr before st1))" by (simp add: st2_def that(1) run_ops_def)
    ultimately have "sessions st2 h = None" using row [of after "run_op cr op (run_ops cr before st1)"] that(1) by auto
    then show ?thesis by (rule gone)
  qed
  show ?thesis using 1 2 3 4 by blast
qed

theorem session_lifecycle_witness:
  "(\<exists>u'. login_resume demo_crypto 159 (replicate 32 7) (run_ops demo_crypto [OpRemoveTotp 1, OpDeletePersona 1 1] demo_signed) =
       (run_ops demo_crypto [OpRemoveTotp 1, OpDeletePersona 1 1] demo_signed, Inr u') \<and> per_account (au_persona u') = 1) \<and>
   snd (login_resume demo_crypto 160 (replicate 32 7) (run_ops demo_crypto [OpRemoveTotp 1] demo_signed)) = Inl SessionExpired \<and>
   snd (login_resume demo_crypto 101 (replicate 32 7) (run_ops demo_crypto [OpRevokeAccount 1, OpSetPhc 1 [1]] demo_signed)) = Inl SessionExpired"
proof -
  have tok: "decode_token demo_crypto (replicate 32 7) = Some (token_bytes demo_draw)"
    by (simp add: decode_token_def demo_defs)
  have d: "acc_id (au_account demo_authed) = 1" "now demo_draw + session_ttl demo_draw = 160" by (simp_all add: demo_defs)
  note life = session_lifecycle [OF demo_keys(1) demo_login tok, unfolded d]
  let ?o = "[OpRemoveTotp 1, OpDeletePersona 1 1]" and ?r = "[OpRevokeAccount 1, OpSetPhc 1 [1]]"
  have "\<exists>u'. login_resume demo_crypto 159 (replicate 32 7) (run_ops demo_crypto ?o demo_signed) =
      (run_ops demo_crypto ?o demo_signed, Inr u') \<and> per_account (au_persona u') = 1"
    using life [of ?o 159] by auto
  moreover have "snd (login_resume demo_crypto 160 (replicate 32 7) (run_ops demo_crypto [OpRemoveTotp 1] demo_signed)) = Inl SessionExpired"
    using life [of "[OpRemoveTotp 1]" 160] by simp
  moreover have "\<exists>before op after. ?r = before @ op # after \<and>
      ends_for_good 1 (blake3 demo_crypto (token_bytes demo_draw)) op (run_ops demo_crypto before demo_signed)"
    by (rule exI [of _ "[]"], rule exI [of _ "OpRevokeAccount 1"]) simp
  ultimately show ?thesis using life [of ?r 101] by simp
qed

section \<open>The tables\<close>

text \<open>
  C34. In every store reachable from an empty one through the service's operations, administration, enrolment and
  the editing of personas, ids, logins and screen names are unique, and no persona, session or second factor belongs
  to an account that is not there.
\<close>

theorem auth_tables_sound:
  assumes "(auth_step cr)\<^sup>*\<^sup>* (fresh_store cs) st"
  shows "keys_ok st \<and> refs_ok st"
  using assms
proof (rule auth_steps_keep)
  show "keys_ok (fresh_store cs) \<and> refs_ok (fresh_store cs)"
    by (simp add: keys_ok_def refs_ok_def account_ids_def fresh_store_def)
qed (simp add: keys_ok_op refs_ok_op)

theorem auth_tables_sound_witness:
  "keys_ok (fst (create_account demo_crypto 0 [97] [112] User (fresh_store []))) \<and>
   refs_ok (fst (create_account demo_crypto 0 [97] [112] User (fresh_store [])))"
proof (rule auth_tables_sound [of demo_crypto "[]"])
  have "auth_step demo_crypto (fresh_store []) (run_op demo_crypto (OpCreateAccount 0 [97] [112] User) (fresh_store []))"
    by (rule auth_step.intros)
  then show "(auth_step demo_crypto)\<^sup>*\<^sup>* (fresh_store []) (fst (create_account demo_crypto 0 [97] [112] User (fresh_store [])))"
    by (simp add: r_into_rtranclp)
qed

end
