(* ===== verification/Core_Invite_Tree.thy ===== *)
theory Core_Invite_Tree
  imports Core_Auth
begin

text \<open>
  The walk of the invite tree (\<open>invite_subtree\<close> of \<open>server-core/src/auth.rs\<close>) against the relation it is meant
  to list: who was invited, directly or through others, by the root. The walk is breadth first over a queue, so
  the result is sorted by depth; a cycle in corrupt data is cut by the set of ids already listed.
\<close>

definition invited :: "auth_store \<Rightarrow> int \<Rightarrow> int \<Rightarrow> bool" where
  "invited st i j \<longleftrightarrow> (\<exists>a \<in> set (accounts st). acc_id a = j \<and> invited_by a = Some i)"

lemma invitees_iff: "j \<in> fst ` set (invitees i st) \<longleftrightarrow> invited st i j"
  by (force simp: invitees_def invited_def)

text \<open>
  What holds during the walk: the listed ids are the seen ones, each queued or listed id is that many hops below
  the root, depths never decrease from the listed to the queued and inside the queue span at most two levels, and
  while there is room every invitee of a listed id is listed or queued.
\<close>

definition hops :: "auth_store \<Rightarrow> int \<Rightarrow> nat \<Rightarrow> int \<Rightarrow> bool" where
  "hops st root d i \<longleftrightarrow> (invited st ^^ d) root i"

definition listed_ok :: "auth_store \<Rightarrow> int \<Rightarrow> nat \<Rightarrow> int set \<Rightarrow> (int \<times> str \<times> nat) list \<Rightarrow> invite_node list \<Rightarrow> bool" where
  "listed_ok st root m seen queue out \<longleftrightarrow>
     seen = node_id ` set out \<and> distinct (map node_id out) \<and> length out \<le> m \<and>
     (\<forall>x \<in> set out. hops st root (node_depth x) (node_id x)) \<and> (\<forall>x \<in> set queue. hops st root (snd (snd x)) (fst x))"

definition order_ok :: "nat list \<Rightarrow> nat list \<Rightarrow> bool" where
  "order_ok ds qs \<longleftrightarrow> sorted (ds @ qs) \<and> (\<forall>x \<in> set qs. \<forall>y \<in> set qs. x \<le> y + 1)"

definition cover_ok :: "auth_store \<Rightarrow> int \<Rightarrow> int set \<Rightarrow> int set \<Rightarrow> bool" where
  "cover_ok st root seen open_ids \<longleftrightarrow>
     root \<in> seen \<union> open_ids \<and> (\<forall>i \<in> seen. \<forall>j. invited st i j \<longrightarrow> j \<in> seen \<union> open_ids)"

definition walk_ok :: "auth_store \<Rightarrow> int \<Rightarrow> nat \<Rightarrow> int set \<Rightarrow> (int \<times> str \<times> nat) list \<Rightarrow> invite_node list \<Rightarrow> bool" where
  "walk_ok st root m seen queue out \<longleftrightarrow>
     listed_ok st root m seen queue out \<and> order_ok (map node_depth out) (map (\<lambda>x. snd (snd x)) queue) \<and>
     (length out < m \<longrightarrow> cover_ok st root seen (fst ` set queue))"

lemma order_ok_drop: "order_ok ds (d # qs) \<Longrightarrow> order_ok ds qs"
  by (auto simp: order_ok_def sorted_append)

lemma order_ok_push:
  assumes "order_ok ds (d # qs)"
  shows "order_ok (ds @ [d]) (qs @ replicate k (d + 1))"
proof -
  have span: "\<forall>x \<in> set qs. d \<le> x \<and> x \<le> d + 1" using assms by (auto simp: order_ok_def sorted_append)
  then have "\<forall>x \<in> set (qs @ replicate k (d + 1)). d \<le> x \<and> x \<le> d + 1" by auto
  then have "\<forall>x \<in> set (qs @ replicate k (d + 1)). \<forall>y \<in> set (qs @ replicate k (d + 1)). x \<le> y + 1"
    by (meson add_le_mono1 le_trans)
  moreover have "sorted ((ds @ [d]) @ (qs @ replicate k (d + 1)))"
    using assms span by (auto simp: order_ok_def sorted_append)
  ultimately show ?thesis unfolding order_ok_def by blast
qed

lemma walk_ok_skip:
  assumes "walk_ok st root m seen ((i, n, d) # queue) out" and "length out \<ge> m \<or> i \<in> seen"
  shows "walk_ok st root m seen queue out"
proof -
  have "cover_ok st root seen (fst ` set queue)" if "length out < m"
  proof -
    from that assms have "cover_ok st root seen (insert i (fst ` set queue))" "i \<in> seen" by (auto simp: walk_ok_def)
    then show ?thesis by (auto simp: cover_ok_def)
  qed
  then show ?thesis using assms(1) order_ok_drop by (auto simp: walk_ok_def listed_ok_def)
qed

lemma walk_ok_take:
  assumes ok: "walk_ok st root m seen ((i, n, d) # queue) out" and new: "length out < m" "i \<notin> seen"
  shows "walk_ok st root m (insert i seen) (queue @ map (\<lambda>(c, l). (c, l, d + 1)) (invitees i st))
           (out @ [\<lparr>node_id = i, node_login = n, node_depth = d\<rparr>])"
proof -
  let ?new = "map (\<lambda>(c, l). (c, l, d + 1)) (invitees i st)"
  have depths: "map (\<lambda>x. snd (snd x)) ?new = replicate (length (invitees i st)) (d + 1)"
    by (simp add: list_eq_iff_nth_eq case_prod_beta)
  have ids: "fst ` set ?new = {j. invited st i j}"
    using invitees_iff [of _ i st] by (force simp: image_image case_prod_beta)
  have "\<forall>x \<in> set ?new. hops st root (snd (snd x)) (fst x)"
  proof
    fix x assume that: "x \<in> set ?new"
    have "snd (snd x) = d + 1" using that by auto
    moreover have "invited st i (fst x)" using that ids by blast
    ultimately show "hops st root (snd (snd x)) (fst x)" using ok by (auto simp: walk_ok_def listed_ok_def hops_def)
  qed
  moreover have "i \<notin> set (map node_id out)" using ok new by (auto simp: walk_ok_def listed_ok_def)
  ultimately have "listed_ok st root m (insert i seen) (queue @ ?new) (out @ [\<lparr>node_id = i, node_login = n, node_depth = d\<rparr>])"
    using ok new unfolding walk_ok_def listed_ok_def set_append ball_Un by (simp del: set_map)
  moreover have "order_ok (map node_depth out @ [d]) (map (\<lambda>x. snd (snd x)) queue @ map (\<lambda>x. snd (snd x)) ?new)"
    using ok order_ok_push unfolding depths by (simp add: walk_ok_def)
  moreover have "cover_ok st root (insert i seen) (fst ` set (queue @ ?new))"
    using ok new(1) unfolding set_append image_Un ids by (auto simp: walk_ok_def cover_ok_def)
  ultimately show ?thesis by (simp add: walk_ok_def)
qed

lemma walk_invites_ok:
  "walk_ok st root m seen queue out \<Longrightarrow> \<exists>seen'. walk_ok st root m seen' [] (walk_invites st m seen queue out)"
proof (induction st m seen queue out rule: walk_invites.induct)
  case (2 st m seen i n d queue out)
  then show ?case
    using walk_ok_skip [OF 2(3)] walk_ok_take [OF 2(3)] by (cases "length out \<ge> m \<or> i \<in> seen") auto
qed auto

lemma covered_closed:
  assumes "cover_ok st root seen {}" and "hops st root d i"
  shows "i \<in> seen"
  using assms(2)
proof (induction d arbitrary: i)
  case 0
  then show ?case using assms(1) by (simp add: cover_ok_def hops_def)
next
  case (Suc d)
  then obtain j where "hops st root d j" "invited st j i" by (auto simp: hops_def)
  then show ?case using Suc.IH assms(1) by (auto simp: cover_ok_def)
qed

text \<open>
  C35. The walk of an invite tree ends and lists each account at most once, never more than the bound, in order of
  depth; every node is as many invitations below the root as its depth says; and if the bound was not reached,
  everybody the root invited, directly or through others, is listed.
\<close>

theorem invite_subtree_exact:
  assumes "by_login n st = Some root" and "nodes = invite_subtree n max_nodes st"
  shows "distinct (map node_id nodes) \<and> length nodes \<le> max_nodes \<and> sorted (map node_depth nodes) \<and>
    (\<forall>x \<in> set nodes. (invited st ^^ node_depth x) (acc_id root) (node_id x)) \<and>
    (length nodes < max_nodes \<longrightarrow> node_id ` set nodes = {i. (invited st)\<^sup>*\<^sup>* (acc_id root) i})"
proof -
  have "walk_ok st (acc_id root) max_nodes {} [(acc_id root, acc_login root, 0)] []"
    by (auto simp: walk_ok_def listed_ok_def order_ok_def cover_ok_def hops_def)
  from walk_invites_ok [OF this] obtain seen where ok: "walk_ok st (acc_id root) max_nodes seen [] nodes"
    using assms by (auto simp: invite_subtree_def)
  then have l: "listed_ok st (acc_id root) max_nodes seen [] nodes" and o: "order_ok (map node_depth nodes) []"
    and c: "length nodes < max_nodes \<longrightarrow> cover_ok st (acc_id root) seen {}"
    by (simp_all add: walk_ok_def)
  have "node_id ` set nodes = {i. (invited st)\<^sup>*\<^sup>* (acc_id root) i}" if "length nodes < max_nodes"
  proof (intro equalityI subsetI)
    fix i assume "i \<in> node_id ` set nodes"
    then show "i \<in> {i. (invited st)\<^sup>*\<^sup>* (acc_id root) i}"
      using l by (auto simp: listed_ok_def hops_def rtranclp_power)
  next
    fix i assume "i \<in> {i. (invited st)\<^sup>*\<^sup>* (acc_id root) i}"
    then obtain d where "hops st (acc_id root) d i" by (auto simp: hops_def rtranclp_power)
    then have "i \<in> seen" using covered_closed c that by blast
    then show "i \<in> node_id ` set nodes" using l by (simp add: listed_ok_def)
  qed
  then show ?thesis using l o by (simp add: listed_ok_def order_ok_def hops_def)
qed

definition tree_row :: "int \<Rightarrow> uchar \<Rightarrow> int option \<Rightarrow> auth_account" where
  "tree_row i c by = \<lparr>acc_id = i, acc_role = 1, acc_class = None, acc_grant = 0, acc_revoke = 0, acc_login = [c], acc_phc = None,
     acc_name = [c], acc_disabled = False, invited_by = by\<rparr>"

definition tree_store :: auth_store where
  "tree_store = \<lparr>accounts = [tree_row 1 97 (Some 3), tree_row 2 98 (Some 1), tree_row 3 99 (Some 2), tree_row 4 100 None],
     next_account = 5, personas = [], next_persona = 1, retired_names = [], invites = (\<lambda>_. None), sessions = (\<lambda>_. None),
     totps = (\<lambda>_. None), class_rows = []\<rparr>"

theorem invite_subtree_exact_witness:
  "map (\<lambda>x. (node_id x, node_depth x)) (invite_subtree [97] 10 tree_store) = [(1, 0), (2, 1), (3, 2)] \<and>
   {i. (invited tree_store)\<^sup>*\<^sup>* 1 i} = {1, 2, 3}"
proof -
  have root: "by_login [97] tree_store = Some (tree_row 1 97 (Some 3))"
    by (simp add: by_login_def nocase_def tree_store_def tree_row_def)
  have nodes: "map (\<lambda>x. (node_id x, node_depth x)) (invite_subtree [97] 10 tree_store) = [(1, 0), (2, 1), (3, 2)]"
    unfolding invite_subtree_def root by (simp add: invitees_def tree_store_def tree_row_def)
  then have "length (invite_subtree [97] 10 tree_store) = 3" by (metis length_map length_Cons list.size(3) numeral_3_eq_3)
  then have "node_id ` set (invite_subtree [97] 10 tree_store) = {i. (invited tree_store)\<^sup>*\<^sup>* 1 i}"
    using invite_subtree_exact [OF root refl, of 10] by (simp add: tree_row_def)
  moreover have "map node_id (invite_subtree [97] 10 tree_store) = [1, 2, 3]"
    using arg_cong [OF nodes, of "map fst"] by (simp add: comp_def)
  then have "node_id ` set (invite_subtree [97] 10 tree_store) = {1, 2, 3}" by (metis list.set_map list.set(1,2))
  ultimately show ?thesis using nodes by simp
qed

end
