(* ===== verification/Telnet_Proto.thy ===== *)
theory Telnet_Proto
  imports Text
begin

text \<open>
  The telnet byte codec (\<open>crates/legacy-telnet/src/proto.rs\<close>) and option negotiation
  (\<open>negotiate.rs\<close>). The parser takes socket bytes as they come and yields events in wire order; the
  negotiator keeps one state per side and option and answers the peer's requests. A function that
  appends to an output vector returns what it appends.
\<close>

section \<open>Commands and events\<close>

definition IAC :: u8 where "IAC = 255"
definition DONT :: u8 where "DONT = 254"
definition DO :: u8 where "DO = 253"
definition WONT :: u8 where "WONT = 252"
definition WILL :: u8 where "WILL = 251"
definition SB :: u8 where "SB = 250"
definition SE :: u8 where "SE = 240"
definition ECHO :: u8 where "ECHO = 1"
definition SGA :: u8 where "SGA = 3"
definition TTYPE :: u8 where "TTYPE = 24"
definition NAWS :: u8 where "NAWS = 31"
definition TTYPE_IS :: u8 where "TTYPE_IS = 0"
definition TTYPE_SEND :: u8 where "TTYPE_SEND = 1"
definition MAX_SUBNEG :: nat where "MAX_SUBNEG = 1024"

lemmas telnet_codes = IAC_def DONT_def DO_def WONT_def WILL_def SB_def SE_def

datatype telnet_event =
    TData bytes | Will u8 | Wont u8 | Do u8 | Dont u8 | Subnegotiation u8 bytes | Command u8

datatype parse_state = PData | PIac | POpt u8 | PSubOpt | PSub u8 | PSubIac u8

record telnet_parser =
  parse_state :: parse_state
  subbuf :: bytes

definition new_parser :: telnet_parser where
  "new_parser = \<lparr>parse_state = PData, subbuf = []\<rparr>"

section \<open>The parser\<close>

text \<open>A parser at work: itself, the data gathered since the last event, and the events so far.\<close>

type_synonym parsing = "telnet_parser \<times> bytes \<times> telnet_event list"

definition flush_data :: "bytes \<Rightarrow> telnet_event list \<Rightarrow> telnet_event list" where
  "flush_data dat events = (if dat \<noteq> [] then events @ [TData dat] else events)"

definition push_sub :: "telnet_parser \<Rightarrow> u8 \<Rightarrow> telnet_parser" where
  "push_sub p b = (if length (subbuf p) < MAX_SUBNEG then p\<lparr>subbuf := subbuf p @ [b]\<rparr> else p)"

definition after_iac :: "u8 \<Rightarrow> parsing \<Rightarrow> parsing" where
  "after_iac b = (\<lambda>(p, dat, events).
     if b = IAC then (p\<lparr>parse_state := PData\<rparr>, dat @ [IAC], events)
     else if b \<in> {WILL, WONT, DO, DONT} then (p\<lparr>parse_state := POpt b\<rparr>, dat, events)
     else if b = SB then (p\<lparr>parse_state := PSubOpt, subbuf := []\<rparr>, dat, events)
     else (p\<lparr>parse_state := PData\<rparr>, [], flush_data dat events @ [Command b]))"

definition option_event :: "u8 \<Rightarrow> u8 \<Rightarrow> telnet_event" where
  "option_event cmd b = (if cmd = WILL then Will b else if cmd = WONT then Wont b else if cmd = DO then Do b else Dont b)"

definition feed_byte :: "parsing \<Rightarrow> u8 \<Rightarrow> parsing" where
  "feed_byte = (\<lambda>(p, dat, events) b.
     case parse_state p of
       PData \<Rightarrow> if b = IAC then (p\<lparr>parse_state := PIac\<rparr>, dat, events) else (p, dat @ [b], events)
     | PIac \<Rightarrow> after_iac b (p, dat, events)
     | POpt cmd \<Rightarrow> (p\<lparr>parse_state := PData\<rparr>, [], flush_data dat events @ [option_event cmd b])
     | PSubOpt \<Rightarrow> (p\<lparr>parse_state := PSub b\<rparr>, dat, events)
     | PSub o' \<Rightarrow> if b = IAC then (p\<lparr>parse_state := PSubIac o'\<rparr>, dat, events) else (push_sub p b, dat, events)
     | PSubIac o' \<Rightarrow>
         if b = IAC then ((push_sub p IAC)\<lparr>parse_state := PSub o'\<rparr>, dat, events)
         else
           let events' = flush_data dat events @ [Subnegotiation o' (subbuf p)];
               p' = p\<lparr>subbuf := []\<rparr> in
           if b = SE then (p'\<lparr>parse_state := PData\<rparr>, [], events')
           else after_iac b (p', [], events'))"

definition feed_bytes :: "telnet_parser \<Rightarrow> bytes \<Rightarrow> telnet_parser \<times> telnet_event list" where
  "feed_bytes p input = (let (p', dat, events) = foldl feed_byte (p, [], []) input in (p', flush_data dat events))"

fun escape_iac :: "bytes \<Rightarrow> bytes" where
  "escape_iac [] = []"
| "escape_iac (b # bs) = (if b = IAC then [b, IAC] else [b]) @ escape_iac bs"

section \<open>Option negotiation\<close>

datatype opt_state = No | WantYes | Yes

datatype notice = RemoteEnabled u8 | RemoteDisabled u8 | LocalEnabled u8 | LocalDisabled u8

record negotiator =
  local_opts :: "(u8 \<times> opt_state) list"
  remote_opts :: "(u8 \<times> opt_state) list"

definition new_negotiator :: negotiator where
  "new_negotiator = \<lparr>local_opts = [(ECHO, No), (SGA, No)], remote_opts = [(SGA, No), (NAWS, No), (TTYPE, No)]\<rparr>"

text \<open>\<open>find\<close> and the write through the reference it returns.\<close>

definition find_opt :: "(u8 \<times> opt_state) list \<Rightarrow> u8 \<Rightarrow> opt_state option" where
  "find_opt xs o' = map_option snd (List.find (\<lambda>(i, _). i = o') xs)"

fun set_opt :: "(u8 \<times> opt_state) list \<Rightarrow> u8 \<Rightarrow> opt_state \<Rightarrow> (u8 \<times> opt_state) list" where
  "set_opt [] o' s = []"
| "set_opt ((i, t) # xs) o' s = (if i = o' then (i, s) # xs else (i, t) # set_opt xs o' s)"

definition offer_opts :: "u8 \<Rightarrow> (u8 \<times> opt_state) list \<Rightarrow> (u8 \<times> opt_state) list \<times> bytes" where
  "offer_opts verb xs =
     (map (\<lambda>(i, s). if s = No then (i, WantYes) else (i, s)) xs,
      concat (map (\<lambda>(i, s). if s = No then [IAC, verb, i] else []) xs))"

definition offer_all :: "negotiator \<Rightarrow> negotiator \<times> bytes" where
  "offer_all n =
     (let (l, out1) = offer_opts WILL (local_opts n); (r, out2) = offer_opts DO (remote_opts n)
      in (n\<lparr>local_opts := l, remote_opts := r\<rparr>, out1 @ out2))"

definition on_will :: "u8 \<Rightarrow> negotiator \<Rightarrow> negotiator \<times> bytes \<times> notice option" where
  "on_will o' n =
     (case find_opt (remote_opts n) o' of
        Some No \<Rightarrow> (n\<lparr>remote_opts := set_opt (remote_opts n) o' Yes\<rparr>, [IAC, DO, o'], Some (RemoteEnabled o'))
      | Some WantYes \<Rightarrow> (n\<lparr>remote_opts := set_opt (remote_opts n) o' Yes\<rparr>, [], Some (RemoteEnabled o'))
      | Some Yes \<Rightarrow> (n, [], None)
      | None \<Rightarrow> (n, [IAC, DONT, o'], None))"

definition on_wont :: "u8 \<Rightarrow> negotiator \<Rightarrow> negotiator \<times> bytes \<times> notice option" where
  "on_wont o' n =
     (case find_opt (remote_opts n) o' of
        Some No \<Rightarrow> (n, [], None)
      | Some WantYes \<Rightarrow> (n\<lparr>remote_opts := set_opt (remote_opts n) o' No\<rparr>, [], None)
      | Some Yes \<Rightarrow> (n\<lparr>remote_opts := set_opt (remote_opts n) o' No\<rparr>, [IAC, DONT, o'], Some (RemoteDisabled o'))
      | None \<Rightarrow> (n, [], None))"

definition on_do :: "u8 \<Rightarrow> negotiator \<Rightarrow> negotiator \<times> bytes \<times> notice option" where
  "on_do o' n =
     (case find_opt (local_opts n) o' of
        Some No \<Rightarrow> (n\<lparr>local_opts := set_opt (local_opts n) o' Yes\<rparr>, [IAC, WILL, o'], Some (LocalEnabled o'))
      | Some WantYes \<Rightarrow> (n\<lparr>local_opts := set_opt (local_opts n) o' Yes\<rparr>, [], Some (LocalEnabled o'))
      | Some Yes \<Rightarrow> (n, [], None)
      | None \<Rightarrow> (n, [IAC, WONT, o'], None))"

definition on_dont :: "u8 \<Rightarrow> negotiator \<Rightarrow> negotiator \<times> bytes \<times> notice option" where
  "on_dont o' n =
     (case find_opt (local_opts n) o' of
        Some No \<Rightarrow> (n, [], None)
      | Some WantYes \<Rightarrow> (n\<lparr>local_opts := set_opt (local_opts n) o' No\<rparr>, [], None)
      | Some Yes \<Rightarrow> (n\<lparr>local_opts := set_opt (local_opts n) o' No\<rparr>, [IAC, WONT, o'], Some (LocalDisabled o'))
      | None \<Rightarrow> (n, [], None))"

definition remote_enabled :: "u8 \<Rightarrow> negotiator \<Rightarrow> bool" where
  "remote_enabled o' n \<longleftrightarrow> list_ex (\<lambda>(i, s). i = o' \<and> s = Yes) (remote_opts n)"

definition local_enabled :: "u8 \<Rightarrow> negotiator \<Rightarrow> bool" where
  "local_enabled o' n \<longleftrightarrow> list_ex (\<lambda>(i, s). i = o' \<and> s = Yes) (local_opts n)"

definition local_active :: "u8 \<Rightarrow> negotiator \<Rightarrow> bool" where
  "local_active o' n \<longleftrightarrow> list_ex (\<lambda>(i, s). i = o' \<and> s \<noteq> No) (local_opts n)"

section \<open>What the parser reads back\<close>

text \<open>
  The stream without its accidental cuts: data byte by byte, and everything else as it is. Scanning one
  byte yields what it completes.
\<close>

datatype item = Byte u8 | Ctl telnet_event

fun items_of :: "telnet_event \<Rightarrow> item list" where
  "items_of (TData d) = map Byte d"
| "items_of e = [Ctl e]"

definition flat :: "telnet_event list \<Rightarrow> item list" where
  "flat es = concat (map items_of es)"

definition scan_byte :: "telnet_parser \<Rightarrow> u8 \<Rightarrow> telnet_parser \<times> item list" where
  "scan_byte p b = (let (p', dat, es) = feed_byte (p, [], []) b in (p', flat es @ map Byte dat))"

fun scan :: "telnet_parser \<Rightarrow> bytes \<Rightarrow> telnet_parser \<times> item list" where
  "scan p [] = (p, [])"
| "scan p (b # bs) = (let (p', its) = scan_byte p b; (p'', its') = scan p' bs in (p'', its @ its'))"

lemma flat_append [simp]: "flat (xs @ ys) = flat xs @ flat ys"
  by (simp add: flat_def)

lemma flat_flush [simp]: "flat (flush_data dat es) = flat es @ map Byte dat"
  by (simp add: flush_data_def flat_def)

lemma flat_Nil [simp]: "flat [] = []"
  by (simp add: flat_def)

definition gathers :: "(parsing \<Rightarrow> parsing) \<Rightarrow> telnet_parser \<Rightarrow> bool" where
  "gathers f p \<longleftrightarrow> (\<forall>dat es. case (f (p, dat, es), f (p, [], [])) of ((q, d, e), (q', d', e')) \<Rightarrow>
     q = q' \<and> flat e @ map Byte d = flat es @ map Byte dat @ flat e' @ map Byte d')"

lemma gathers_after_iac: "gathers (after_iac b) p"
proof -
  consider "b = IAC" | "b \<noteq> IAC" "b \<in> {WILL, WONT, DO, DONT}" | "b \<noteq> IAC" "b \<notin> {WILL, WONT, DO, DONT}" "b = SB"
    | "b \<noteq> IAC" "b \<notin> {WILL, WONT, DO, DONT}" "b \<noteq> SB" by blast
  then show ?thesis by cases (simp_all add: gathers_def after_iac_def)
qed

lemma gathers_byte: "gathers (\<lambda>s. feed_byte s b) p"
proof (cases "parse_state p")
  case PIac
  then show ?thesis using gathers_after_iac [of b p] by (simp add: gathers_def feed_byte_def)
next
  case (PSubIac o')
  show ?thesis
  proof (cases "b = IAC \<or> b = SE")
    case False
    obtain q d e where a: "after_iac b (p\<lparr>subbuf := []\<rparr>, [], []) = (q, d, e)" by (cases "after_iac b (p\<lparr>subbuf := []\<rparr>, [], [])")
    have "case after_iac b (p\<lparr>subbuf := []\<rparr>, [], es) of (q', d', e') \<Rightarrow> q' = q \<and> flat e' @ map Byte d' = flat es @ flat e @ map Byte d" for es
      using gathers_after_iac [of b "p\<lparr>subbuf := []\<rparr>"] a by (simp add: gathers_def case_prod_unfold)
    then show ?thesis using False PSubIac
      by (auto simp: gathers_def feed_byte_def Let_def case_prod_unfold)
  qed (auto simp: gathers_def feed_byte_def PSubIac Let_def)
qed (simp_all add: gathers_def feed_byte_def)

lemma feed_byte_scan:
  assumes "feed_byte (p, dat, es) b = (p', dat', es')"
  shows "\<exists>its. scan_byte p b = (p', its) \<and> flat es' @ map Byte dat' = flat es @ map Byte dat @ its"
  using gathers_byte [of b p, unfolded gathers_def, rule_format, of es dat] assms
  by (cases "feed_byte (p, [], []) b") (simp add: scan_byte_def)

lemma foldl_feed_scan:
  "foldl feed_byte (p, dat, es) bs = (p', dat', es') \<Longrightarrow>
   \<exists>its. scan p bs = (p', its) \<and> flat es' @ map Byte dat' = flat es @ map Byte dat @ its"
proof (induction bs arbitrary: p dat es)
  case (Cons b bs)
  obtain p1 d1 e1 where 1: "feed_byte (p, dat, es) b = (p1, d1, e1)" by (cases "feed_byte (p, dat, es) b")
  from feed_byte_scan [OF 1] obtain its where
    "scan_byte p b = (p1, its)" "flat e1 @ map Byte d1 = flat es @ map Byte dat @ its" by blast
  moreover from Cons.IH [of p1 d1 e1] Cons.prems 1 obtain its' where
    "scan p1 bs = (p', its')" "flat es' @ map Byte dat' = flat e1 @ map Byte d1 @ its'" by auto
  ultimately show ?case by (metis append.assoc case_prod_conv scan.simps(2) Let_def)
qed auto

lemma feed_scan: "scan p bs = (fst (feed_bytes p bs), flat (snd (feed_bytes p bs)))"
proof -
  obtain p' dat es where f: "foldl feed_byte (p, [], []) bs = (p', dat, es)" by (cases "foldl feed_byte (p, [], []) bs")
  from foldl_feed_scan [OF f] f show ?thesis by (auto simp: feed_bytes_def)
qed

lemma scan_append:
  "scan p (xs @ ys) = (let (p', its) = scan p xs; (p'', its') = scan p' ys in (p'', its @ its'))"
  by (induction xs arbitrary: p) (auto simp: Let_def split: prod.splits)

text \<open>A reader that feeds the parser whatever each read brings.\<close>

fun feed_chunks :: "telnet_parser \<Rightarrow> bytes list \<Rightarrow> telnet_parser \<times> telnet_event list" where
  "feed_chunks p [] = (p, [])"
| "feed_chunks p (c # cs) = (let (p', es) = feed_bytes p c; (p'', es') = feed_chunks p' cs in (p'', es @ es'))"

lemma feed_chunks_scan: "scan p (concat cs) = (fst (feed_chunks p cs), flat (snd (feed_chunks p cs)))"
proof (induction cs arbitrary: p)
  case (Cons c cs)
  then show ?case unfolding concat.simps scan_append feed_scan [of p c] by (simp add: Let_def split: prod.splits)
qed simp

text \<open>How a peer writes an item, and which items it can write.\<close>

fun item_bytes :: "item \<Rightarrow> bytes" where
  "item_bytes (Byte b) = escape_iac [b]"
| "item_bytes (Ctl (Will o')) = [IAC, WILL, o']"
| "item_bytes (Ctl (Wont o')) = [IAC, WONT, o']"
| "item_bytes (Ctl (Do o')) = [IAC, DO, o']"
| "item_bytes (Ctl (Dont o')) = [IAC, DONT, o']"
| "item_bytes (Ctl (Subnegotiation o' pl)) = [IAC, SB, o'] @ escape_iac pl @ [IAC, SE]"
| "item_bytes (Ctl (Command c)) = [IAC, c]"
| "item_bytes (Ctl (TData d)) = escape_iac d"

fun item_ok :: "item \<Rightarrow> bool" where
  "item_ok (Ctl (Subnegotiation o' pl)) \<longleftrightarrow> length pl \<le> MAX_SUBNEG"
| "item_ok (Ctl (Command c)) \<longleftrightarrow> c \<notin> {IAC, WILL, WONT, DO, DONT, SB}"
| "item_ok (Ctl (TData d)) \<longleftrightarrow> False"
| "item_ok _ \<longleftrightarrow> True"

lemmas scan_simps = scan_byte_def feed_byte_def after_iac_def option_event_def push_sub_def flush_data_def flat_def
  telnet_codes Let_def

lemma scan_payload:
  "length (subbuf p) + length pl \<le> MAX_SUBNEG \<Longrightarrow> parse_state p = PSub o' \<Longrightarrow>
   scan p (escape_iac pl) = (p\<lparr>subbuf := subbuf p @ pl\<rparr>, [])"
proof (induction pl arbitrary: p)
  case (Cons b pl)
  let ?q = "p\<lparr>subbuf := subbuf p @ [b]\<rparr>"
  have one: "scan p (if b = IAC then [b, IAC] else [b]) = (?q, [])"
    using Cons.prems by (cases p) (simp add: scan_simps)
  show ?case using Cons.IH [of ?q] Cons.prems unfolding escape_iac.simps scan_append one by simp
qed simp

lemma scan_item:
  assumes "parse_state p = PData" "item_ok i"
  shows "\<exists>q. scan p (item_bytes i) = (q, [i]) \<and> parse_state q = PData"
proof (cases i)
  case (Ctl e)
  show ?thesis
  proof (cases e)
    case (Subnegotiation o' pl)
    let ?q = "p\<lparr>parse_state := PSub o', subbuf := []\<rparr>"
    have "scan p [IAC, SB, o'] = (?q, [])" using assms(1) by (simp add: scan_simps)
    moreover have "scan ?q (escape_iac pl) = (?q\<lparr>subbuf := pl\<rparr>, [])"
      using scan_payload [of ?q pl o'] assms(2) Ctl Subnegotiation by simp
    moreover have "scan (?q\<lparr>subbuf := pl\<rparr>) [IAC, SE] = (p\<lparr>parse_state := PData, subbuf := []\<rparr>, [Ctl (Subnegotiation o' pl)])"
      by (simp add: scan_simps)
    ultimately show ?thesis by (simp add: Ctl Subnegotiation scan_append del: append_Cons)
  qed (use assms Ctl in \<open>auto simp: scan_simps\<close>)
qed (use assms in \<open>auto simp: scan_simps\<close>)

lemma scan_items:
  "parse_state p = PData \<Longrightarrow> \<forall>i \<in> set its. item_ok i \<Longrightarrow>
   \<exists>q. scan p (concat (map item_bytes its)) = (q, its) \<and> parse_state q = PData"
proof (induction its arbitrary: p)
  case (Cons i its)
  from scan_item [of p i] Cons.prems obtain q where q: "scan p (item_bytes i) = (q, [i])" "parse_state q = PData" by auto
  with Cons.IH [of q] Cons.prems show ?case by (auto simp: scan_append)
qed simp

text \<open>
  C36. Data and commands survive the wire: whatever a peer writes (bytes with 255 doubled, options, subnegotiations
  of at most 1024 bytes, other commands) is read back exactly and in order, however the reads cut the stream, and
  the parser is then ready for more data.
\<close>

theorem telnet_stream_delivers:
  assumes "\<forall>i \<in> set its. item_ok i" and "concat parts = concat (map item_bytes its)"
  shows "flat (snd (feed_chunks new_parser parts)) = its \<and> parse_state (fst (feed_chunks new_parser parts)) = PData"
  using scan_items [of new_parser its] feed_chunks_scan [of new_parser parts] assms by (auto simp: new_parser_def)

theorem telnet_stream_delivers_witness:
  "flat (snd (feed_chunks new_parser [[65, 255], [255, 255, 250, 24, 0], [255], [255, 120, 255, 240, 66]])) =
   [Byte 65, Byte 255, Ctl (Subnegotiation 24 [0, 255, 120]), Byte 66]"
  using telnet_stream_delivers [of "[Byte 65, Byte 255, Ctl (Subnegotiation 24 [0, 255, 120]), Byte 66]"
      "[[65, 255], [255, 255, 250, 24, 0], [255], [255, 120, 255, 240, 66]]"]
  by (simp add: telnet_codes MAX_SUBNEG_def)

text \<open>Whatever arrives, a subnegotiation never grows past its bound.\<close>

lemma subbuf_bounded: "length (subbuf p) \<le> MAX_SUBNEG \<Longrightarrow> length (subbuf (fst (feed_bytes p bs))) \<le> MAX_SUBNEG"
proof -
  assume "length (subbuf p) \<le> MAX_SUBNEG"
  then have "length (subbuf (fst (scan p bs))) \<le> MAX_SUBNEG"
  proof (induction bs arbitrary: p)
    case (Cons b bs)
    have "length (subbuf (fst (scan_byte p b))) \<le> MAX_SUBNEG"
      using Cons.prems by (auto simp: scan_byte_def feed_byte_def after_iac_def push_sub_def Let_def split: parse_state.splits)
    from Cons.IH [OF this] show ?case by (simp add: Let_def case_prod_unfold)
  qed simp
  then show ?thesis by (simp add: feed_scan)
qed

end
