(* ===== verification/Telnet_Negotiate.thy ===== *)
theory Telnet_Negotiate
  imports Telnet_Proto
begin

text \<open>
  Option negotiation between the server's machine and a peer that follows the same rules with any options of its
  own, offering them at once or only answering. The two are joined by ordered channels of what the parser reads
  from the replies. Each option has two independent lanes, one per direction; a lane goes through a fixed set of
  configurations, and every message delivered brings it closer to rest. So every exchange ends, and the two sides
  agree on exactly the options both support.
\<close>

section \<open>Two machines and their channels\<close>

definition reads_as :: "bytes \<Rightarrow> item list" where
  "reads_as out = snd (scan new_parser out)"

fun answer :: "item \<Rightarrow> negotiator \<Rightarrow> negotiator \<times> item list" where
  "answer (Ctl (Will o')) n = (let (n', out, _) = on_will o' n in (n', reads_as out))"
| "answer (Ctl (Wont o')) n = (let (n', out, _) = on_wont o' n in (n', reads_as out))"
| "answer (Ctl (Do o')) n = (let (n', out, _) = on_do o' n in (n', reads_as out))"
| "answer (Ctl (Dont o')) n = (let (n', out, _) = on_dont o' n in (n', reads_as out))"
| "answer _ n = (n, [])"

record telnet_link =
  side_a :: negotiator
  side_b :: negotiator
  to_a :: "item list"
  to_b :: "item list"

definition swap :: "telnet_link \<Rightarrow> telnet_link" where
  "swap l = \<lparr>side_a = side_b l, side_b = side_a l, to_a = to_b l, to_b = to_a l\<rparr>"

definition read_b :: "telnet_link \<Rightarrow> telnet_link" where
  "read_b l = (case to_b l of
      [] \<Rightarrow> l
    | i # q \<Rightarrow> (case answer i (side_b l) of (n, r) \<Rightarrow> l\<lparr>side_b := n, to_b := q, to_a := to_a l @ r\<rparr>))"

inductive telnet_link_step :: "telnet_link \<Rightarrow> telnet_link \<Rightarrow> bool" where
  reads_b: "to_b l \<noteq> [] \<Longrightarrow> telnet_link_step l (read_b l)"
| reads_a: "to_a l \<noteq> [] \<Longrightarrow> telnet_link_step l (swap (read_b (swap l)))"

definition link_opened :: "bool \<Rightarrow> negotiator \<Rightarrow> telnet_link" where
  "link_opened offers b =
     (let (a', out_a) = offer_all new_negotiator;
          (b', out_b) = (if offers then offer_all b else (b, []))
      in \<lparr>side_a = a', side_b = b', to_a = reads_as out_b, to_b = reads_as out_a\<rparr>)"

section \<open>Lanes\<close>

definition requests :: "u8 \<Rightarrow> item list \<Rightarrow> bool list" where
  "requests o' q = map (\<lambda>i. i = Ctl (Do o')) (filter (\<lambda>i. i = Ctl (Do o') \<or> i = Ctl (Dont o')) q)"

definition offers :: "u8 \<Rightarrow> item list \<Rightarrow> bool list" where
  "offers o' q = map (\<lambda>i. i = Ctl (Will o')) (filter (\<lambda>i. i = Ctl (Will o') \<or> i = Ctl (Wont o')) q)"

text \<open>
  The configurations of a lane (the performer's state, the requester's state, what is under way to each) with the
  number of messages still to be delivered.
\<close>

type_synonym lane_state = "opt_state option \<times> opt_state option \<times> bool list \<times> bool list"

definition LANES :: "(lane_state \<times> nat) list" where
  "LANES =
    [((Some WantYes, Some WantYes, [True], [True]), 2),
     ((Some WantYes, Some Yes, [], [True]), 1),
     ((Some Yes, Some WantYes, [True], []), 1),
     ((Some Yes, Some Yes, [], []), 0),
     ((Some WantYes, Some No, [True], []), 2),
     ((Some WantYes, None, [True], []), 2),
     ((Some WantYes, None, [], [False]), 1),
     ((Some No, None, [], []), 0),
     ((None, Some WantYes, [], [True]), 2),
     ((None, Some WantYes, [False], []), 1),
     ((None, Some No, [], []), 0),
     ((None, None, [], []), 0),
     ((Some No, Some WantYes, [], [True]), 2)]"

definition opt_lane :: "u8 \<Rightarrow> telnet_link \<Rightarrow> nat option" where
  "opt_lane o' l = map_of LANES (find_opt (local_opts (side_a l)) o', find_opt (remote_opts (side_b l)) o',
     offers o' (to_b l), requests o' (to_a l))"

fun negotiation :: "item \<Rightarrow> bool" where
  "negotiation (Ctl (Will _)) = True"
| "negotiation (Ctl (Wont _)) = True"
| "negotiation (Ctl (Do _)) = True"
| "negotiation (Ctl (Dont _)) = True"
| "negotiation _ = False"

definition lanes_ok :: "telnet_link \<Rightarrow> bool" where
  "lanes_ok l \<longleftrightarrow> (\<forall>o'. opt_lane o' l \<noteq> None \<and> opt_lane o' (swap l) \<noteq> None) \<and> list_all negotiation (to_a l @ to_b l)"

definition lanes_left :: "telnet_link \<Rightarrow> nat" where
  "lanes_left l = (\<Sum>o' \<in> UNIV. the (opt_lane o' l) + the (opt_lane o' (swap l)))"

lemma find_opt_simps [simp]:
  "find_opt [] p = None" "find_opt (x # xs) p = (if fst x = p then Some (snd x) else find_opt xs p)"
  by (auto simp: find_opt_def split: prod.splits)

lemma find_opt_set: "find_opt (set_opt xs o' s) p = (if p = o' \<and> find_opt xs o' \<noteq> None then Some s else find_opt xs p)"
  by (induction xs o' s rule: set_opt.induct) auto

lemma reads_as_command [simp]:
  "reads_as [] = []" "reads_as [IAC, WILL, o'] = [Ctl (Will o')]" "reads_as [IAC, WONT, o'] = [Ctl (Wont o')]"
  "reads_as [IAC, DO, o'] = [Ctl (Do o')]" "reads_as [IAC, DONT, o'] = [Ctl (Dont o')]"
  by (simp_all add: reads_as_def new_parser_def scan_simps)

lemma offers_simps [simp]: "offers p [] = []" "offers p (q @ r) = offers p q @ offers p r"
  "offers p (i # q) = (if i = Ctl (Will p) then [True] else if i = Ctl (Wont p) then [False] else []) @ offers p q"
  by (auto simp: offers_def)

lemma requests_simps [simp]: "requests p [] = []" "requests p (q @ r) = requests p q @ requests p r"
  "requests p (i # q) = (if i = Ctl (Do p) then [True] else if i = Ctl (Dont p) then [False] else []) @ requests p q"
  by (auto simp: requests_def)

lemma swap_simps [simp]: "swap (swap l) = l" "to_b (swap l) = to_a l" "to_a (swap l) = to_b l"
  "side_a (swap l) = side_b l" "side_b (swap l) = side_a l"
  by (simp_all add: swap_def)

section \<open>One message\<close>

lemmas on_defs = on_will_def on_wont_def on_do_def on_dont_def

lemma read_b_other:
  assumes "to_b l = i # q" "i \<noteq> Ctl (Will p)" "i \<noteq> Ctl (Wont p)"
  shows "opt_lane p (read_b l) = opt_lane p l"
proof (cases i)
  case (Ctl e)
  then show ?thesis using assms
    by (cases e) (auto simp: read_b_def opt_lane_def on_defs find_opt_set split: option.splits opt_state.splits)
qed (use assms in \<open>simp add: read_b_def opt_lane_def\<close>)

lemma read_b_other_swapped:
  assumes "to_b l = i # q" "i \<noteq> Ctl (Do p)" "i \<noteq> Ctl (Dont p)"
  shows "opt_lane p (swap (read_b l)) = opt_lane p (swap l)"
proof (cases i)
  case (Ctl e)
  then show ?thesis using assms
    by (cases e) (auto simp: read_b_def swap_def opt_lane_def on_defs find_opt_set split: option.splits opt_state.splits)
qed (use assms in \<open>simp add: read_b_def swap_def opt_lane_def\<close>)

lemma lane_cases: "map_of LANES c = Some k \<Longrightarrow> (c, k) \<in> set LANES"
  by (rule map_of_SomeD)

lemma requester_reads:
  assumes "opt_lane o' l = Some k" "to_b l = i # q" "i = Ctl (Will o') \<or> i = Ctl (Wont o')"
  shows "\<exists>k' < k. opt_lane o' (read_b l) = Some k'"
  using lane_cases [OF assms(1) [unfolded opt_lane_def]] assms(2,3)
  unfolding LANES_def list.set insert_iff empty_iff prod.inject
  by (elim disjE conjE) (auto simp: read_b_def opt_lane_def LANES_def on_defs find_opt_set)

lemma performer_reads:
  assumes "opt_lane o' (swap l) = Some k" "to_b l = i # q" "i = Ctl (Do o') \<or> i = Ctl (Dont o')"
  shows "\<exists>k' < k. opt_lane o' (swap (read_b l)) = Some k'"
  using lane_cases [OF assms(1) [unfolded opt_lane_def]] assms(2,3)
  unfolding LANES_def list.set insert_iff empty_iff prod.inject
  by (elim disjE conjE) (auto simp: read_b_def swap_def opt_lane_def LANES_def on_defs find_opt_set)

lemma answer_negotiates: "negotiation i \<Longrightarrow> list_all negotiation (snd (answer i n))"
  by (cases "(i, n)" rule: answer.cases) (auto simp: on_defs split: option.splits opt_state.splits)

lemma sum_less_one:
  fixes f g :: "u8 \<Rightarrow> nat"
  assumes "\<And>p. p \<noteq> o' \<Longrightarrow> f p = g p" "f o' < g o'"
  shows "sum f UNIV < sum g UNIV"
proof (rule sum_strict_mono_ex1)
  show "\<forall>p \<in> UNIV. f p \<le> g p" using assms by (metis less_imp_le order_refl)
qed (use assms(2) in auto)

lemma read_b_progress:
  assumes "lanes_ok l" "to_b l \<noteq> []"
  shows "lanes_ok (read_b l) \<and> lanes_left (read_b l) < lanes_left l"
proof -
  obtain i q where i: "to_b l = i # q" using assms(2) by (cases "to_b l") auto
  have ok: "\<And>p. opt_lane p l \<noteq> None" "\<And>p. opt_lane p (swap l) \<noteq> None" "negotiation i"
    using assms(1) i by (auto simp: lanes_ok_def)
  have neg: "list_all negotiation (to_a (read_b l) @ to_b (read_b l))"
    using assms(1) i answer_negotiates [OF ok(3), of "side_b l"]
    by (auto simp: read_b_def lanes_ok_def split: prod.splits)
  from ok(3) consider o' where "i = Ctl (Will o') \<or> i = Ctl (Wont o')" | o' where "i = Ctl (Do o') \<or> i = Ctl (Dont o')"
    by (cases i rule: negotiation.cases) auto
  then show ?thesis
  proof cases
    case 1
    obtain k where "opt_lane o' l = Some k" using ok(1) by blast
    from requester_reads [OF this i 1] this obtain k k' where
      k: "opt_lane o' l = Some k" "opt_lane o' (read_b l) = Some k'" "k' < k" by auto
    have same: "opt_lane p (read_b l) = opt_lane p l" if "p \<noteq> o'" for p using read_b_other [OF i] 1 that by auto
    have swapped: "opt_lane p (swap (read_b l)) = opt_lane p (swap l)" for p using read_b_other_swapped [OF i] 1 by auto
    have "opt_lane p (read_b l) \<noteq> None" for p using same [of p] k ok(1) by (cases "p = o'") auto
    moreover have "lanes_left (read_b l) < lanes_left l"
      unfolding lanes_left_def swapped using same k by (intro sum_less_one [of o']) auto
    ultimately show ?thesis using ok(2) swapped neg by (simp add: lanes_ok_def)
  next
    case 2
    obtain k where "opt_lane o' (swap l) = Some k" using ok(2) by blast
    from performer_reads [OF this i 2] this obtain k k' where
      k: "opt_lane o' (swap l) = Some k" "opt_lane o' (swap (read_b l)) = Some k'" "k' < k" by auto
    have same: "opt_lane p (swap (read_b l)) = opt_lane p (swap l)" if "p \<noteq> o'" for p using read_b_other_swapped [OF i] 2 that by auto
    have other: "opt_lane p (read_b l) = opt_lane p l" for p using read_b_other [OF i] 2 by auto
    have "opt_lane p (swap (read_b l)) \<noteq> None" for p using same [of p] k ok(2) by (cases "p = o'") auto
    moreover have "lanes_left (read_b l) < lanes_left l"
      unfolding lanes_left_def other using same k by (intro sum_less_one [of o']) auto
    ultimately show ?thesis using ok(1) other neg by (simp add: lanes_ok_def)
  qed
qed

lemma lanes_swap [simp]: "lanes_ok (swap l) = lanes_ok l" "lanes_left (swap l) = lanes_left l"
  by (auto simp: lanes_ok_def lanes_left_def add.commute)

lemma link_progress: "telnet_link_step l l' \<Longrightarrow> lanes_ok l \<Longrightarrow> lanes_ok l' \<and> lanes_left l' < lanes_left l"
proof (induction rule: telnet_link_step.induct)
  case (reads_a l)
  then show ?case using read_b_progress [of "swap l"] by simp
qed (rule read_b_progress)

lemma link_run: "(telnet_link_step ^^ n) l l' \<Longrightarrow> lanes_ok l \<Longrightarrow> lanes_ok l' \<and> n + lanes_left l' \<le> lanes_left l"
proof (induction n arbitrary: l')
  case (Suc n)
  then obtain m where "(telnet_link_step ^^ n) l m" "telnet_link_step m l'" by auto
  with Suc.IH [OF this(1) Suc.prems(2)] link_progress [OF this(2)] show ?case by auto
qed simp

section \<open>The whole exchange\<close>

abbreviation opts :: "(u8 \<times> opt_state) list \<Rightarrow> u8 set" where
  "opts xs \<equiv> fst ` set xs"

text \<open>A machine before its first message: every option off and listed once.\<close>

definition untouched :: "negotiator \<Rightarrow> bool" where
  "untouched n \<longleftrightarrow> list_all (\<lambda>(_, s). s = No) (local_opts n @ remote_opts n) \<and>
     distinct (map fst (local_opts n)) \<and> distinct (map fst (remote_opts n))"

lemma offers_listed:
  "distinct (map fst xs) \<Longrightarrow> offers p (map (\<lambda>x. Ctl (Will (fst x))) xs) = (if p \<in> opts xs then [True] else [])"
  "offers p (map (\<lambda>x. Ctl (Do (fst x))) xs) = []"
  by (induction xs) auto

lemma requests_listed:
  "distinct (map fst xs) \<Longrightarrow> requests p (map (\<lambda>x. Ctl (Do (fst x))) xs) = (if p \<in> opts xs then [True] else [])"
  "requests p (map (\<lambda>x. Ctl (Will (fst x))) xs) = []"
  by (induction xs) auto

lemma find_opt_all: "list_all (\<lambda>(_, s). s = t) xs \<Longrightarrow> find_opt xs p = (if p \<in> opts xs then Some t else None)"
  by (induction xs) auto

lemma find_opt_None: "find_opt xs p = None \<longleftrightarrow> p \<notin> opts xs"
  by (force simp: find_opt_def find_None_iff)

lemma offer_untouched:
  assumes "list_all (\<lambda>(_, s). s = No) xs"
  shows "list_all (\<lambda>(_, s). s = WantYes) (fst (offer_opts v xs))" "opts (fst (offer_opts v xs)) = opts xs"
    "snd (offer_opts v xs) = concat (map (\<lambda>x. [IAC, v, fst x]) xs)"
proof -
  show "list_all (\<lambda>(_, s). s = WantYes) (fst (offer_opts v xs))"
    using assms by (auto simp: offer_opts_def list_all_iff)
  show "opts (fst (offer_opts v xs)) = opts xs" by (force simp: offer_opts_def image_iff split: if_splits)
  show "snd (offer_opts v xs) = concat (map (\<lambda>x. [IAC, v, fst x]) xs)"
    using assms by (induction xs) (auto simp: offer_opts_def)
qed

lemma reads_offers:
  "reads_as (concat (map (\<lambda>x. [IAC, WILL, fst x]) xs) @ concat (map (\<lambda>x. [IAC, DO, fst x]) ys)) =
   map (\<lambda>x. Ctl (Will (fst x))) xs @ map (\<lambda>x. Ctl (Do (fst x))) ys"
proof -
  let ?its = "map (\<lambda>x. Ctl (Will (fst x))) xs @ map (\<lambda>x. Ctl (Do (fst x))) ys"
  have "concat (map item_bytes ?its) = concat (map (\<lambda>x. [IAC, WILL, fst x]) xs) @ concat (map (\<lambda>x. [IAC, DO, fst x]) ys)"
    by (simp add: comp_def)
  moreover have "\<forall>i \<in> set ?its. item_ok i" by auto
  ultimately show ?thesis
    using scan_items [of new_parser ?its] by (auto simp: reads_as_def new_parser_def)
qed

lemma offer_all_untouched:
  assumes "untouched n"
  shows "list_all (\<lambda>(_, s). s = WantYes) (local_opts (fst (offer_all n)) @ remote_opts (fst (offer_all n)))"
    "opts (local_opts (fst (offer_all n))) = opts (local_opts n)"
    "opts (remote_opts (fst (offer_all n))) = opts (remote_opts n)"
    "reads_as (snd (offer_all n)) = map (\<lambda>x. Ctl (Will (fst x))) (local_opts n) @ map (\<lambda>x. Ctl (Do (fst x))) (remote_opts n)"
  using assms offer_untouched [of "local_opts n"] offer_untouched [of "remote_opts n"]
  by (simp_all add: untouched_def offer_all_def reads_offers case_prod_unfold)

lemma server_untouched: "untouched new_negotiator"
  by (simp add: untouched_def new_negotiator_def ECHO_def SGA_def NAWS_def TTYPE_def)

lemma opened_lane:
  assumes "untouched b"
  shows "opt_lane p (link_opened off b) \<noteq> None \<and> the (opt_lane p (link_opened off b)) \<le>
      (if p \<in> opts (local_opts new_negotiator) then 2 else 0) + (if p \<in> opts (remote_opts b) then 2 else 0)"
    and "opt_lane p (swap (link_opened off b)) \<noteq> None \<and> the (opt_lane p (swap (link_opened off b))) \<le>
      (if p \<in> opts (local_opts b) then 2 else 0) + (if p \<in> opts (remote_opts new_negotiator) then 2 else 0)"
proof -
  note a = offer_all_untouched [OF server_untouched] and b = offer_all_untouched [OF assms]
  have st: "side_a (link_opened off b) = fst (offer_all new_negotiator)"
    "side_b (link_opened off b) = (if off then fst (offer_all b) else b)"
    "to_b (link_opened off b) = reads_as (snd (offer_all new_negotiator))"
    "to_a (link_opened off b) = (if off then reads_as (snd (offer_all b)) else [])"
    by (simp_all add: link_opened_def case_prod_unfold Let_def)
  have d: "distinct (map fst (local_opts new_negotiator))" "distinct (map fst (remote_opts new_negotiator))"
    "distinct (map fst (local_opts b))" "distinct (map fst (remote_opts b))"
    "list_all (\<lambda>(_, s). s = No) (local_opts b)" "list_all (\<lambda>(_, s). s = No) (remote_opts b)"
    using server_untouched assms by (simp_all add: untouched_def)
  have fa: "find_opt (local_opts (fst (offer_all new_negotiator))) p = (if p \<in> opts (local_opts new_negotiator) then Some WantYes else None)"
    "find_opt (remote_opts (fst (offer_all new_negotiator))) p = (if p \<in> opts (remote_opts new_negotiator) then Some WantYes else None)"
    using a(1-3) by (simp_all add: find_opt_all [where t = WantYes])
  have fb: "find_opt (local_opts (fst (offer_all b))) p = (if p \<in> opts (local_opts b) then Some WantYes else None)"
    "find_opt (remote_opts (fst (offer_all b))) p = (if p \<in> opts (remote_opts b) then Some WantYes else None)"
    using b(1-3) by (simp_all add: find_opt_all [where t = WantYes])
  have fn: "find_opt (local_opts b) p = (if p \<in> opts (local_opts b) then Some No else None)"
    "find_opt (remote_opts b) p = (if p \<in> opts (remote_opts b) then Some No else None)"
    using d(5,6) by (simp_all add: find_opt_all [where t = No])
  note facts = fa fb fn a(4) b(4) offers_listed(1) [OF d(1)] offers_listed(2) offers_listed(1) [OF d(3)]
    requests_listed(1) [OF d(2)] requests_listed(1) [OF d(4)] requests_listed(2)
  have 1: "opt_lane p (link_opened off b) = map_of LANES
      (if p \<in> opts (local_opts new_negotiator) then Some WantYes else None,
       if p \<in> opts (remote_opts b) then Some (if off then WantYes else No) else None,
       if p \<in> opts (local_opts new_negotiator) then [True] else [], if off \<and> p \<in> opts (remote_opts b) then [True] else [])"
    unfolding opt_lane_def st by (cases off) (simp_all add: facts)
  show "opt_lane p (link_opened off b) \<noteq> None \<and> the (opt_lane p (link_opened off b)) \<le>
      (if p \<in> opts (local_opts new_negotiator) then 2 else 0) + (if p \<in> opts (remote_opts b) then 2 else 0)"
    unfolding 1 by (simp add: LANES_def)
  have 2: "opt_lane p (swap (link_opened off b)) = map_of LANES
      (if p \<in> opts (local_opts b) then Some (if off then WantYes else No) else None,
       if p \<in> opts (remote_opts new_negotiator) then Some WantYes else None,
       if off \<and> p \<in> opts (local_opts b) then [True] else [], if p \<in> opts (remote_opts new_negotiator) then [True] else [])"
    unfolding opt_lane_def swap_simps st by (cases off) (simp_all add: facts)
  show "opt_lane p (swap (link_opened off b)) \<noteq> None \<and> the (opt_lane p (swap (link_opened off b))) \<le>
      (if p \<in> opts (local_opts b) then 2 else 0) + (if p \<in> opts (remote_opts new_negotiator) then 2 else 0)"
    unfolding 2 by (simp add: LANES_def)
qed

lemma opened_ok: "untouched b \<Longrightarrow> lanes_ok (link_opened off b)"
proof -
  assume b: "untouched b"
  have "list_all negotiation (to_a (link_opened off b) @ to_b (link_opened off b))"
    using offer_all_untouched(4) [OF server_untouched] offer_all_untouched(4) [OF b]
    by (auto simp: link_opened_def list_all_iff case_prod_unfold Let_def)
  then show ?thesis using opened_lane [OF b] by (simp add: lanes_ok_def)
qed

lemma sum_indicator: "(\<Sum>p \<in> UNIV. if p \<in> opts xs then 2 else 0 :: nat) \<le> 2 * length xs"
proof -
  have "(\<Sum>p \<in> UNIV. if p \<in> opts xs then 2 else 0 :: nat) = 2 * card (opts xs)"
    by (simp add: sum.If_cases)
  moreover have "card (opts xs) \<le> length xs" by (metis card_length length_map list.set_map)
  ultimately show ?thesis by simp
qed

lemma opened_bound:
  assumes "untouched b"
  shows "lanes_left (link_opened off b) \<le> 2 * (5 + length (local_opts b) + length (remote_opts b))"
proof -
  let ?ind = "\<lambda>xs p. if p \<in> opts xs then 2 else 0 :: nat"
  have "lanes_left (link_opened off b) \<le> (\<Sum>p \<in> UNIV. (?ind (local_opts new_negotiator) p + ?ind (remote_opts b) p) +
      (?ind (local_opts b) p + ?ind (remote_opts new_negotiator) p))"
    unfolding lanes_left_def using opened_lane [OF assms] by (intro sum_mono add_mono) blast+
  also have "\<dots> \<le> 2 * length (local_opts new_negotiator) + 2 * length (remote_opts b) +
      (2 * length (local_opts b) + 2 * length (remote_opts new_negotiator))"
    unfolding sum.distrib by (intro add_mono sum_indicator)
  also have "\<dots> = 2 * (5 + length (local_opts b) + length (remote_opts b))"
    by (simp add: new_negotiator_def)
  finally show ?thesis .
qed

text \<open>Which options a machine knows never changes, and each stays listed once.\<close>

lemma set_opt_keys [simp]: "map fst (set_opt xs o' s) = map fst xs"
  by (induction xs o' s rule: set_opt.induct) auto

definition knows :: "negotiator \<Rightarrow> u8 list \<times> u8 list" where
  "knows n = (map fst (local_opts n), map fst (remote_opts n))"

lemma answer_knows: "knows (fst (answer i n)) = knows n"
  by (cases "(i, n)" rule: answer.cases) (auto simp: knows_def on_defs split: option.splits opt_state.splits)

lemma link_knows:
  "(telnet_link_step ^^ k) l l' \<Longrightarrow> knows (side_a l') = knows (side_a l) \<and> knows (side_b l') = knows (side_b l)"
proof (induction k arbitrary: l')
  case (Suc k)
  then obtain m where m: "(telnet_link_step ^^ k) l m" "telnet_link_step m l'" by auto
  have "knows (side_a (read_b n)) = knows (side_a n) \<and> knows (side_b (read_b n)) = knows (side_b n)" for n
    using answer_knows by (auto simp: read_b_def split: list.splits prod.splits) (metis fst_conv)
  with m(2) have "knows (side_a l') = knows (side_a m) \<and> knows (side_b l') = knows (side_b m)"
    by (cases rule: telnet_link_step.cases) auto
  with Suc.IH [OF m(1)] show ?case by simp
qed simp

lemma enabled_iff:
  "distinct (map fst (local_opts n)) \<Longrightarrow> local_enabled p n \<longleftrightarrow> find_opt (local_opts n) p = Some Yes"
  "distinct (map fst (remote_opts n)) \<Longrightarrow> remote_enabled p n \<longleftrightarrow> find_opt (remote_opts n) p = Some Yes"
proof -
  have "list_ex (\<lambda>(i, s). i = p \<and> s = Yes) xs \<longleftrightarrow> find_opt xs p = Some Yes" if "distinct (map fst xs)" for xs
    using that
  proof (induction xs)
    case (Cons x xs)
    then have "\<not> list_ex (\<lambda>(i, s). i = p \<and> s = Yes) xs" if "fst x = p"
      using that by (auto simp: list_ex_iff) (metis fst_conv image_eqI)
    with Cons show ?case by (auto split: prod.splits)
  qed simp
  then show "distinct (map fst (local_opts n)) \<Longrightarrow> local_enabled p n \<longleftrightarrow> find_opt (local_opts n) p = Some Yes"
    "distinct (map fst (remote_opts n)) \<Longrightarrow> remote_enabled p n \<longleftrightarrow> find_opt (remote_opts n) p = Some Yes"
    by (simp_all add: local_enabled_def remote_enabled_def)
qed

lemma resting_lane:
  assumes "opt_lane p l \<noteq> None" "to_a l = []" "to_b l = []"
  shows "(find_opt (local_opts (side_a l)) p = Some Yes \<longleftrightarrow> find_opt (remote_opts (side_b l)) p = Some Yes) \<and>
    (find_opt (local_opts (side_a l)) p = Some Yes \<longleftrightarrow>
       find_opt (local_opts (side_a l)) p \<noteq> None \<and> find_opt (remote_opts (side_b l)) p \<noteq> None)"
proof -
  from assms(1) obtain k where "opt_lane p l = Some k" by blast
  from lane_cases [OF this [unfolded opt_lane_def]] assms(2,3) show ?thesis
    unfolding LANES_def list.set insert_iff empty_iff prod.inject by (elim disjE conjE) auto
qed

text \<open>
  C37. Negotiation with any peer that follows the same rules ends: whatever the order of reads, at most two messages
  per option and side are exchanged; and once nothing is under way, both sides agree, in each direction, on exactly
  the options that one performs and the other wants.
\<close>

theorem negotiation_settles:
  assumes "untouched b" and run: "(telnet_link_step ^^ k) (link_opened off b) l"
  shows "k \<le> 2 * (5 + length (local_opts b) + length (remote_opts b)) \<and>
    ((\<nexists>l'. telnet_link_step l l') \<longrightarrow>
      (\<forall>p. local_enabled p (side_a l) = remote_enabled p (side_b l) \<and>
           local_enabled p (side_a l) = (p \<in> {ECHO, SGA} \<and> p \<in> opts (remote_opts b)) \<and>
           remote_enabled p (side_a l) = local_enabled p (side_b l) \<and>
           remote_enabled p (side_a l) = (p \<in> {SGA, NAWS, TTYPE} \<and> p \<in> opts (local_opts b))))"
proof (intro conjI impI allI)
  have ok: "lanes_ok l" and "k + lanes_left l \<le> lanes_left (link_opened off b)"
    using link_run [OF run opened_ok [OF assms(1)]] by simp_all
  then show "k \<le> 2 * (5 + length (local_opts b) + length (remote_opts b))"
    using opened_bound [OF assms(1), of off] by linarith
next
  fix p assume rest: "\<nexists>l'. telnet_link_step l l'"
  have ok: "lanes_ok l" using link_run [OF run opened_ok [OF assms(1)]] by simp
  have empty: "to_a l = []" "to_b l = []" using rest reads_a reads_b by blast+
  have kept: "map fst (offer_list) = map fst xs" if "offer_list = fst (offer_opts v xs)" for offer_list v xs
    using that by (auto simp: offer_opts_def)
  have k0: "knows (side_a (link_opened off b)) = knows new_negotiator" "knows (side_b (link_opened off b)) = knows b"
    by (auto simp: link_opened_def knows_def offer_all_def case_prod_unfold Let_def kept)
  have ka: "map fst (local_opts (side_a l)) = [ECHO, SGA]" "map fst (remote_opts (side_a l)) = [SGA, NAWS, TTYPE]"
    and kb: "map fst (local_opts (side_b l)) = map fst (local_opts b)" "map fst (remote_opts (side_b l)) = map fst (remote_opts b)"
    using link_knows [OF run] k0 by (simp_all add: knows_def new_negotiator_def)
  have dist: "distinct (map fst (local_opts (side_a l)))" "distinct (map fst (remote_opts (side_a l)))"
    "distinct (map fst (local_opts (side_b l)))" "distinct (map fst (remote_opts (side_b l)))"
    using ka kb server_untouched assms(1) by (simp_all add: untouched_def new_negotiator_def)
  have mem: "opts (local_opts (side_a l)) = {ECHO, SGA}" "opts (remote_opts (side_a l)) = {SGA, NAWS, TTYPE}"
    "opts (local_opts (side_b l)) = opts (local_opts b)" "opts (remote_opts (side_b l)) = opts (remote_opts b)"
    using ka kb by (metis list.set_map list.set(1,2))+
  note r1 = resting_lane [of p l] and r2 = resting_lane [of p "swap l"]
  have l1: "opt_lane p l \<noteq> None" and l2: "opt_lane p (swap l) \<noteq> None" using ok by (auto simp: lanes_ok_def)
  note f = enabled_iff(1) [OF dist(1), of p] enabled_iff(2) [OF dist(2), of p] enabled_iff(1) [OF dist(3), of p]
    enabled_iff(2) [OF dist(4), of p]
  show "local_enabled p (side_a l) = remote_enabled p (side_b l)"
    and "local_enabled p (side_a l) = (p \<in> {ECHO, SGA} \<and> p \<in> opts (remote_opts b))"
    using r1 [OF l1 empty] unfolding f find_opt_None mem by blast+
  show "remote_enabled p (side_a l) = local_enabled p (side_b l)"
    and "remote_enabled p (side_a l) = (p \<in> {SGA, NAWS, TTYPE} \<and> p \<in> opts (local_opts b))"
    using r2 [OF l2] empty unfolding f find_opt_None swap_simps mem by blast+
qed

text \<open>Every exchange can be run to its end.\<close>

lemma runs_to_rest: "lanes_ok l \<Longrightarrow> \<exists>k l'. (telnet_link_step ^^ k) l l' \<and> (\<nexists>m. telnet_link_step l' m)"
proof (induction "lanes_left l" arbitrary: l rule: less_induct)
  case less
  show ?case
  proof (cases "\<exists>m. telnet_link_step l m")
    case True
    then obtain m where m: "telnet_link_step l m" by blast
    with link_progress [OF m less.prems] less.hyps [of m] obtain k l' where
      run: "(telnet_link_step ^^ k) m l'" and rest: "\<nexists>x. telnet_link_step l' x" by blast
    from m run have "(telnet_link_step ^^ Suc k) l l'" by (rule relpowp_Suc_I2)
    with rest show ?thesis by blast
  next
    case False
    then have "(telnet_link_step ^^ 0) l l \<and> (\<nexists>m. telnet_link_step l m)" by simp
    then show ?thesis by blast
  qed
qed

definition demo_client :: negotiator where
  "demo_client = \<lparr>local_opts = [(NAWS, No), (TTYPE, No)], remote_opts = [(ECHO, No)]\<rparr>"

theorem negotiation_settles_witness:
  "\<exists>k l. (telnet_link_step ^^ k) (link_opened False demo_client) l \<and> k \<le> 16 \<and> (\<nexists>m. telnet_link_step l m) \<and>
     local_enabled ECHO (side_a l) \<and> remote_enabled NAWS (side_a l) \<and> \<not> remote_enabled SGA (side_a l)"
proof -
  have b: "untouched demo_client" by (simp add: untouched_def demo_client_def NAWS_def TTYPE_def)
  obtain k l where l: "(telnet_link_step ^^ k) (link_opened False demo_client) l" "\<nexists>m. telnet_link_step l m"
    using runs_to_rest [OF opened_ok [OF b]] by blast
  have "opts (remote_opts demo_client) = {ECHO}" "opts (local_opts demo_client) = {NAWS, TTYPE}"
    "SGA \<notin> {NAWS, TTYPE}" "length (local_opts demo_client) = 2" "length (remote_opts demo_client) = 1"
    by (simp_all add: demo_client_def SGA_def NAWS_def TTYPE_def)
  moreover from negotiation_settles [OF b l(1)] l(2)
  have "k \<le> 2 * (5 + length (local_opts demo_client) + length (remote_opts demo_client))"
    "local_enabled ECHO (side_a l) = (ECHO \<in> {ECHO, SGA} \<and> ECHO \<in> opts (remote_opts demo_client))"
    "remote_enabled NAWS (side_a l) = (NAWS \<in> {SGA, NAWS, TTYPE} \<and> NAWS \<in> opts (local_opts demo_client))"
    "remote_enabled SGA (side_a l) = (SGA \<in> {SGA, NAWS, TTYPE} \<and> SGA \<in> opts (local_opts demo_client))"
    by blast+
  ultimately have "k \<le> 16 \<and> local_enabled ECHO (side_a l) \<and> remote_enabled NAWS (side_a l) \<and> \<not> remote_enabled SGA (side_a l)"
    by simp
  with l show ?thesis by blast
qed

end
