(* ===== verification/Telnet_Line.thy ===== *)
theory Telnet_Line
  imports Telnet_Negotiate Wire
begin

text \<open>
  A telnet session (\<open>crates/legacy-telnet/src/stream.rs\<close>, \<open>encoding.rs\<close>, the code page of
  \<open>crates/art/src/cp437.rs\<close>): the parser and the negotiator over a transport, the line editor, and binary
  mode. The transport is the list of what the reads to come return (an empty list is the end of the stream) and
  the bytes written so far; a call whose future is dropped while it waits is a relation of its own, and one whose
  I/O fails leaves the session the same way. The main results: a typed line comes back exactly
  however the reads cut its characters and whatever negotiation runs in between, hidden input is never echoed,
  and its buffers stay within their bounds.
\<close>

section \<open>Character encodings\<close>

datatype encoding = Utf8 | Cp437

definition CP437_TO_UNICODE :: "uchar list" where
  "CP437_TO_UNICODE =
    [32, 9786, 9787, 9829, 9830, 9827, 9824, 8226, 9688, 9675, 9689, 9794, 9792, 9834, 9835, 9788,
     9658, 9668, 8597, 8252, 182, 167, 9644, 8616, 8593, 8595, 8594, 8592, 8735, 8596, 9650, 9660,
     32, 33, 34, 35, 36, 37, 38, 39, 40, 41, 42, 43, 44, 45, 46, 47,
     48, 49, 50, 51, 52, 53, 54, 55, 56, 57, 58, 59, 60, 61, 62, 63,
     64, 65, 66, 67, 68, 69, 70, 71, 72, 73, 74, 75, 76, 77, 78, 79,
     80, 81, 82, 83, 84, 85, 86, 87, 88, 89, 90, 91, 92, 93, 94, 95,
     96, 97, 98, 99, 100, 101, 102, 103, 104, 105, 106, 107, 108, 109, 110, 111,
     112, 113, 114, 115, 116, 117, 118, 119, 120, 121, 122, 123, 124, 125, 126, 8962,
     199, 252, 233, 226, 228, 224, 229, 231, 234, 235, 232, 239, 238, 236, 196, 197,
     201, 230, 198, 244, 246, 242, 251, 249, 255, 214, 220, 162, 163, 165, 8359, 402,
     225, 237, 243, 250, 241, 209, 170, 186, 191, 8976, 172, 189, 188, 161, 171, 187,
     9617, 9618, 9619, 9474, 9508, 9569, 9570, 9558, 9557, 9571, 9553, 9559, 9565, 9564, 9563, 9488,
     9492, 9524, 9516, 9500, 9472, 9532, 9566, 9567, 9562, 9556, 9577, 9574, 9568, 9552, 9580, 9575,
     9576, 9572, 9573, 9561, 9560, 9554, 9555, 9579, 9578, 9496, 9484, 9608, 9604, 9612, 9616, 9600,
     945, 223, 915, 960, 931, 963, 181, 964, 934, 920, 937, 948, 8734, 966, 949, 8745,
     8801, 177, 8805, 8804, 8992, 8993, 247, 8776, 176, 8729, 183, 8730, 8319, 178, 9632, 160]"

text \<open>The reverse table: later entries win.\<close>

definition art_to_cp437 :: "uchar \<Rightarrow> u8 option" where
  "art_to_cp437 c = map_of (rev (zip CP437_TO_UNICODE (map of_nat [0..<256]))) c"

definition unicode_to_cp437 :: "uchar \<Rightarrow> u8" where
  "unicode_to_cp437 c =
     (if c < 128 then of_nat c
      else case art_to_cp437 c of Some b \<Rightarrow> if b \<ge> 0x20 then b else 63 | None \<Rightarrow> 63)"

definition cp437_to_unicode :: "u8 \<Rightarrow> uchar" where
  "cp437_to_unicode b = (if b < 128 then unat b else CP437_TO_UNICODE ! unat b)"

definition encode_into :: "encoding \<Rightarrow> str \<Rightarrow> bytes" where
  "encode_into e s = (case e of Utf8 \<Rightarrow> as_bytes s | Cp437 \<Rightarrow> map unicode_to_cp437 s)"

text \<open>\<open>String::from_utf8_lossy\<close>: the lossy form is valid, so reading it back cannot fail.\<close>

definition lossy_str :: "bytes \<Rightarrow> str" where
  "lossy_str bs = (case from_utf8 (utf8_lossy bs) of Some s \<Rightarrow> s | None \<Rightarrow> [])"

definition decode_text :: "encoding \<Rightarrow> bytes \<Rightarrow> str" where
  "decode_text e bs = (case e of Utf8 \<Rightarrow> lossy_str bs | Cp437 \<Rightarrow> map cp437_to_unicode bs)"

section \<open>The session\<close>

definition MAX_LINE :: nat where "MAX_LINE = 1024"

datatype input = InData bytes | WindowSize u16 u16 | TerminalType str

datatype echo = On | Hidden

record telnet_stream =
  tparser :: telnet_parser
  neg :: negotiator
  tevents :: "telnet_event list"
  encoding :: encoding
  window :: "(u16 \<times> u16) option"
  terminal :: "str option"
  ttype_requested :: bool
  swallow_lf :: bool
  line_buf :: bytes
  completed_line :: "str option"
  utf8_pending :: bytes
  utf8_discard :: nat
  sent :: bytes

definition new_stream :: telnet_stream where
  "new_stream = \<lparr>tparser = new_parser, neg = new_negotiator, tevents = [], encoding = Utf8, window = None,
     terminal = None, ttype_requested = False, swallow_lf = False, line_buf = [], completed_line = None,
     utf8_pending = [], utf8_discard = 0, sent = []\<rparr>"

definition write_all :: "bytes \<Rightarrow> telnet_stream \<Rightarrow> telnet_stream" where
  "write_all out s = s\<lparr>sent := sent s @ out\<rparr>"

text \<open>\<open>pop_char\<close>: trailing continuation bytes go with the byte before them.\<close>

definition pop_char :: "encoding \<Rightarrow> bytes \<Rightarrow> bytes \<times> bool" where
  "pop_char e buf =
     (if buf = [] then (buf, False)
      else if e = Cp437 then (butlast buf, True)
      else (rev (drop 1 (dropWhile cont_byte (rev buf))), True))"

function trim_to_line :: "encoding \<Rightarrow> bytes \<Rightarrow> bytes" where
  "trim_to_line e buf = (if length buf > MAX_LINE then trim_to_line e (fst (pop_char e buf)) else buf)"
  by pat_completeness auto
termination
proof (relation "measure (\<lambda>(e, buf). length buf)", goal_cases)
  case (2 e buf)
  then have "0 < length buf" by auto
  then have "length (dropWhile cont_byte (rev buf)) - 1 < length buf"
    using length_dropWhile_le [of cont_byte "rev buf"] unfolding length_rev by linarith
  then show ?case using \<open>0 < length buf\<close> by (simp add: pop_char_def)
qed simp

declare trim_to_line.simps [simp del]

definition set_encoding :: "encoding \<Rightarrow> telnet_stream \<Rightarrow> telnet_stream" where
  "set_encoding e s =
     (if e = encoding s then s
      else s\<lparr>line_buf := trim_to_line e (encode_into e (decode_text (encoding s) (line_buf s))),
             utf8_pending := [], utf8_discard := 0, encoding := e\<rparr>)"

definition discard_line :: "telnet_stream \<Rightarrow> telnet_stream" where
  "discard_line s = s\<lparr>line_buf := [], completed_line := None, utf8_pending := [], utf8_discard := 0\<rparr>"

definition start_stream :: "telnet_stream \<Rightarrow> telnet_stream" where
  "start_stream s = (let (n, out) = offer_all (neg s) in write_all out (s\<lparr>neg := n\<rparr>))"

definition absorb_subneg :: "u8 \<Rightarrow> bytes \<Rightarrow> telnet_stream \<Rightarrow> telnet_stream \<times> input option" where
  "absorb_subneg o' pl s =
     (if o' = NAWS \<and> length pl \<ge> 4 then
        let cols = of_be16 (pl ! 0) (pl ! 1); rows = of_be16 (pl ! 2) (pl ! 3)
        in (s\<lparr>window := Some (cols, rows)\<rparr>, Some (WindowSize cols rows))
      else if o' = TTYPE \<and> pl \<noteq> [] \<and> hd pl = TTYPE_IS then
        let name = trim (lossy_str (tl pl)) in (s\<lparr>terminal := Some name\<rparr>, Some (TerminalType name))
      else (s, None))"

text \<open>A negotiation command: the negotiator's answer, and the request for the terminal type once it is agreed on.\<close>

definition absorb_command :: "negotiator \<times> bytes \<times> notice option \<Rightarrow> telnet_stream \<Rightarrow> telnet_stream" where
  "absorb_command = (\<lambda>(n, out, notice) s.
     let s = s\<lparr>neg := n\<rparr>;
         ask = (notice = Some (RemoteEnabled TTYPE) \<and> \<not> ttype_requested s) in
     write_all (out @ (if ask then [IAC, SB, TTYPE, TTYPE_SEND, IAC, SE] else []))
       (if ask then s\<lparr>ttype_requested := True\<rparr> else s))"

fun absorb :: "telnet_event \<Rightarrow> telnet_stream \<Rightarrow> telnet_stream \<times> input option" where
  "absorb (TData d) s = (s, Some (InData d))"
| "absorb (Will o') s = (absorb_command (on_will o' (neg s)) s, None)"
| "absorb (Wont o') s = (absorb_command (on_wont o' (neg s)) s, None)"
| "absorb (Do o') s = (absorb_command (on_do o' (neg s)) s, None)"
| "absorb (Dont o') s = (absorb_command (on_dont o' (neg s)) s, None)"
| "absorb (Command c) s = (absorb_command (neg s, [], None) s, None)"
| "absorb (Subnegotiation o' pl) s = absorb_subneg o' pl s"

definition fill :: "bytes \<Rightarrow> telnet_stream \<Rightarrow> telnet_stream" where
  "fill c s = (let (p, es) = feed_bytes (tparser s) c in s\<lparr>tparser := p, tevents := tevents s @ es\<rparr>)"

text \<open>\<open>next_input\<close>: the queued events first, then more reads; the reads left come back too.\<close>

lemma absorb_events: "tevents (fst (absorb e s)) = tevents s"
  by (cases e) (auto simp: absorb_command_def absorb_subneg_def write_all_def Let_def split: prod.splits)

lemma absorb_rest: "(s', r) = absorb e (s\<lparr>tevents := rest\<rparr>) \<Longrightarrow> tevents s' = rest"
  using absorb_events [of e "s\<lparr>tevents := rest\<rparr>"] by (metis fst_conv telnet_stream.select_convs(3) telnet_stream.surjective telnet_stream.update_convs(3))

function next_input :: "bytes list \<Rightarrow> telnet_stream \<Rightarrow> bytes list \<times> telnet_stream \<times> input option" where
  "next_input reads s =
     (case tevents s of
        ev # rest \<Rightarrow>
          (case absorb ev (s\<lparr>tevents := rest\<rparr>) of
             (s', Some i) \<Rightarrow> (reads, s', Some i)
           | (s', None) \<Rightarrow> next_input reads s')
      | [] \<Rightarrow>
          (case reads of
             [] \<Rightarrow> ([], s, None)
           | c # cs \<Rightarrow> if c = [] then (cs, s, None) else next_input cs (fill c s)))"
  by pat_completeness auto
termination
  by (relation "(\<lambda>(reads, s). length reads) <*mlex*> measure (\<lambda>(reads, s). length (tevents s))")
     (auto simp: mlex_iff wf_mlex dest: absorb_rest)

declare next_input.simps [simp del]

section \<open>The line editor\<close>

definition REPLACEMENT :: bytes where "REPLACEMENT = [0xEF, 0xBF, 0xBD]"

text \<open>What is to be echoed is returned beside the session.\<close>

definition line_char :: "bytes \<Rightarrow> echo \<Rightarrow> telnet_stream \<Rightarrow> telnet_stream \<times> bytes" where
  "line_char bs e s =
     (if length (line_buf s) + length bs \<le> MAX_LINE
      then (s\<lparr>line_buf := line_buf s @ bs\<rparr>, if e = On then bs else [])
      else (s, []))"

definition finish_utf8 :: "echo \<Rightarrow> telnet_stream \<Rightarrow> telnet_stream \<times> bytes" where
  "finish_utf8 e s =
     (let (s, out) = (if utf8_pending s \<noteq> [] then line_char REPLACEMENT e (s\<lparr>utf8_pending := []\<rparr>) else (s, []))
      in (s\<lparr>utf8_discard := 0\<rparr>, out))"

text \<open>\<open>str::from_utf8\<close> on the bytes of one unfinished character: whole, cut short, or broken.\<close>

datatype partial = Whole | Cut | Broken

definition partial_char :: "bytes \<Rightarrow> partial" where
  "partial_char bs = (case utf8_step bs of
      (True, n) \<Rightarrow> Whole
    | (False, n) \<Rightarrow> if n = length bs then Cut else Broken)"

text \<open>A byte that starts a character.\<close>

definition fresh_byte :: "u8 \<Rightarrow> echo \<Rightarrow> telnet_stream \<Rightarrow> telnet_stream \<times> bytes" where
  "fresh_byte b e s =
     (if in_range 0x20 0x7E b then line_char [b] e s
      else
        let width = (if in_range 0xC2 0xDF b then 2 else if in_range 0xE0 0xEF b then 3
                     else if in_range 0xF0 0xF4 b then 4 else 0 :: nat) in
        if width = 0 then line_char REPLACEMENT e s
        else if length (line_buf s) + width \<le> MAX_LINE then (s\<lparr>utf8_pending := utf8_pending s @ [b]\<rparr>, [])
        else (s\<lparr>utf8_discard := width - 1\<rparr>, []))"

definition line_byte :: "u8 \<Rightarrow> echo \<Rightarrow> telnet_stream \<Rightarrow> telnet_stream \<times> bytes" where
  "line_byte b e s =
     (if encoding s = Cp437 then line_char [b] e s
      else if utf8_discard s \<noteq> 0 \<and> cont_byte b then (s\<lparr>utf8_discard := utf8_discard s - 1\<rparr>, [])
      else
        let s = (if utf8_discard s \<noteq> 0 then s\<lparr>utf8_discard := 0\<rparr> else s) in
        if utf8_pending s \<noteq> [] then
          let s = s\<lparr>utf8_pending := utf8_pending s @ [b]\<rparr> in
          (case partial_char (utf8_pending s) of
             Whole \<Rightarrow> line_char (utf8_pending s) e (s\<lparr>utf8_pending := []\<rparr>)
           | Cut \<Rightarrow> (s, [])
           | Broken \<Rightarrow>
               let (s, out) = line_char REPLACEMENT e (s\<lparr>utf8_pending := []\<rparr>);
                   (s, out') = fresh_byte b e s
               in (s, out @ out'))
        else fresh_byte b e s)"

definition backspace :: "echo \<Rightarrow> telnet_stream \<Rightarrow> telnet_stream \<times> bytes" where
  "backspace e s =
     (if utf8_pending s \<noteq> [] \<or> utf8_discard s \<noteq> 0 then (s\<lparr>utf8_pending := [], utf8_discard := 0\<rparr>, [])
      else case pop_char (encoding s) (line_buf s) of
        (buf, popped) \<Rightarrow> (s\<lparr>line_buf := buf\<rparr>, if popped \<and> e = On then [8, 32, 8] else []))"

text \<open>The data of one input: the session, the echo, whether the line ended, and what follows its end.\<close>

fun edit_data :: "echo \<Rightarrow> bytes \<Rightarrow> telnet_stream \<Rightarrow> bytes \<Rightarrow> telnet_stream \<times> bytes \<times> bool \<times> bytes" where
  "edit_data e [] s out = (s, out, False, [])"
| "edit_data e (b # bs) s out =
     (if swallow_lf s \<and> (b = 10 \<or> b = 0) then edit_data e bs (s\<lparr>swallow_lf := False\<rparr>) out
      else
        let s = s\<lparr>swallow_lf := False\<rparr> in
        if b = 13 \<or> b = 10 then
          let s = (if b = 13 then s\<lparr>swallow_lf := True\<rparr> else s); (s, out') = finish_utf8 e s
          in (s, out @ out', True, bs)
        else
          let (s, out') = (if b = 8 \<or> b = 127 then backspace e s
                           else if b < 32 then finish_utf8 e s
                           else line_byte b e s)
          in edit_data e bs s (out @ out'))"

definition echo_active :: "telnet_stream \<Rightarrow> bool" where
  "echo_active s = local_active ECHO (neg s)"

text \<open>
  One turn of the loop of \<open>read_line\<close> over a piece of data, up to the write of its echo: the session, the echo to
  be written, and whether the line is complete. A completed line rests in the session while its echo is written,
  and is then taken.
\<close>

definition line_edited :: "echo \<Rightarrow> bytes \<Rightarrow> telnet_stream \<Rightarrow> telnet_stream \<times> bytes \<times> bool" where
  "line_edited e d s =
     (let (s, out, done, rest) = edit_data e d s [];
          s = (if rest \<noteq> [] then s\<lparr>tevents := TData rest # tevents s\<rparr> else s);
          s = (if done then s\<lparr>line_buf := [], completed_line := Some (decode_text (encoding s) (line_buf s))\<rparr> else s);
          out = (if done then out @ [13, 10] else out)
      in (s, if out \<noteq> [] \<and> echo_active s then escape_iac out else [], done))"

definition line_turn :: "echo \<Rightarrow> bytes \<Rightarrow> telnet_stream \<Rightarrow> telnet_stream \<times> str option" where
  "line_turn e d s =
     (let (s, out, done) = line_edited e d s; s = write_all out s
      in if done then (s\<lparr>completed_line := None\<rparr>, completed_line s) else (s, None))"

lemma fill_events: "tevents (fill c s) = tevents s @ snd (feed_bytes (tparser s) c)"
  by (simp add: fill_def case_prod_unfold Let_def)

lemma next_input_shrinks:
  "next_input reads s = (reads', s', Some i) \<Longrightarrow>
   ((reads', length (tevents s')), (reads, length (tevents s))) \<in> measure length <*lex*> less_than"
proof (induction reads s rule: next_input.induct)
  case (1 reads s)
  note step = 1(3) [unfolded next_input.simps [of reads s]]
  show ?case
  proof (cases "tevents s")
    case Nil
    then obtain c cs where c: "reads = c # cs" "c \<noteq> []" "next_input cs (fill c s) = (reads', s', Some i)"
      using step by (auto split: list.splits if_splits)
    then show ?thesis using 1(1) [OF Nil c(1,2,3)] by auto
  next
    case (Cons ev rest)
    obtain s1 r where a: "absorb ev (s\<lparr>tevents := rest\<rparr>) = (s1, r)" by (cases "absorb ev (s\<lparr>tevents := rest\<rparr>)")
    have "tevents s1 = rest" using absorb_rest [OF a [symmetric]] .
    then show ?thesis using 1(2) [OF Cons a [symmetric]] step a Cons by (cases r) auto
  qed
qed

lemma next_input_less:
  "(reads', s', Some i) = next_input reads s \<Longrightarrow>
   length reads' < length reads \<or> reads' = reads \<and> length (tevents s') < length (tevents s)"
  using next_input_shrinks [of reads s reads' s' i] by auto

text \<open>
  \<open>read_line\<close>: \<open>None\<close> at the end of the stream. The reads not yet consumed come back.
\<close>

lemma edit_data_events: "tevents (fst (edit_data e d s out)) = tevents s"
proof (induction e d s out rule: edit_data.induct)
  case (2 e b bs s out)
  have "tevents (fst (line_char x e t)) = tevents t" for x t by (simp add: line_char_def)
  moreover have "tevents (fst (finish_utf8 e t)) = tevents t" for t
    by (simp add: finish_utf8_def line_char_def Let_def)
  moreover have "tevents (fst (backspace e t)) = tevents t" for t
    by (simp add: backspace_def case_prod_unfold)
  moreover have "tevents (fst (fresh_byte b e t)) = tevents t" for t
    by (simp add: fresh_byte_def line_char_def Let_def)
  moreover from this have "tevents (fst (line_byte b e t)) = tevents t" for t
    by (simp add: line_byte_def line_char_def case_prod_unfold Let_def split: partial.splits)
  ultimately show ?case using 2 by (auto simp: case_prod_unfold Let_def)
qed simp

lemma edit_data_rest: "edit_data e d s out = (s', out', False, rest) \<Longrightarrow> rest = []"
  by (induction e d s out rule: edit_data.induct) (auto simp: Let_def split: if_splits prod.splits)

lemma line_turn_events: "(s', None) = line_turn e d s \<Longrightarrow> tevents s' = tevents s"
proof -
  assume a: "(s', None) = line_turn e d s"
  obtain t out don rest where ed: "edit_data e d s [] = (t, out, don, rest)" by (cases "edit_data e d s []")
  have "tevents t = tevents s" using edit_data_events [of e d s "[]"] ed by simp
  then show ?thesis using a ed edit_data_rest [of e d s "[]" t out rest]
    by (auto simp: line_turn_def line_edited_def write_all_def Let_def split: if_splits)
qed

function read_line_loop :: "echo \<Rightarrow> bytes list \<Rightarrow> telnet_stream \<Rightarrow> bytes list \<times> telnet_stream \<times> str option" where
  "read_line_loop e reads s =
     (case next_input reads s of
        (reads', s', None) \<Rightarrow> (reads', discard_line s', None)
      | (reads', s', Some (InData d)) \<Rightarrow>
          (case line_turn e d s' of
             (s'', Some line) \<Rightarrow> (reads', s'', Some line)
           | (s'', None) \<Rightarrow> read_line_loop e reads' s'')
      | (reads', s', Some _) \<Rightarrow> read_line_loop e reads' s')"
  by pat_completeness auto
termination
  by (relation "inv_image (measure length <*lex*> less_than) (\<lambda>(e, reads, s). (reads, length (tevents s)))")
     (auto dest!: line_turn_events dest: next_input_less)

declare read_line_loop.simps [simp del]

definition read_line :: "echo \<Rightarrow> bytes list \<Rightarrow> telnet_stream \<Rightarrow> bytes list \<times> telnet_stream \<times> str option" where
  "read_line e reads s =
     (case completed_line s of
        Some line \<Rightarrow> (reads, s\<lparr>completed_line := None\<rparr>, Some line)
      | None \<Rightarrow> read_line_loop e reads s)"

section \<open>Writing, and binary mode\<close>

fun crlf :: "uchar \<Rightarrow> str \<Rightarrow> str" where
  "crlf prev [] = []"
| "crlf prev (c # cs) = (if c = 10 \<and> prev \<noteq> 13 then [13, c] else [c]) @ crlf c cs"

definition write_str :: "str \<Rightarrow> telnet_stream \<Rightarrow> telnet_stream" where
  "write_str t s = write_all (escape_iac (encode_into (encoding s) (crlf 0 t))) s"

definition write_raw :: "bytes \<Rightarrow> telnet_stream \<Rightarrow> telnet_stream" where
  "write_raw bs s = write_all bs s"

definition write_binary :: "bytes \<Rightarrow> telnet_stream \<Rightarrow> telnet_stream" where
  "write_binary bs s = write_all (escape_iac bs) s"

function read_binary :: "bytes list \<Rightarrow> telnet_stream \<Rightarrow> bytes list \<times> telnet_stream \<times> bytes option" where
  "read_binary reads s =
     (case next_input reads s of
        (reads', s', None) \<Rightarrow> (reads', s', None)
      | (reads', s', Some (InData d)) \<Rightarrow> if d \<noteq> [] then (reads', s', Some d) else read_binary reads' s'
      | (reads', s', Some _) \<Rightarrow> read_binary reads' s')"
  by pat_completeness auto
termination
  by (relation "inv_image (measure length <*lex*> less_than) (\<lambda>(reads, s). (reads, length (tevents s)))")
     (auto dest: next_input_less)

declare read_binary.simps [simp del]

section \<open>Calls that are dropped\<close>

text \<open>
  A caller may drop the future of a call while it waits, and call again. \<open>next_input\<close> waits for the answer of
  \<open>absorb\<close> to be written, some of which is then out already, and for more bytes; \<open>read_line\<close> waits besides for
  its echo. What the session has become by then stays.
\<close>

inductive input_dropped :: "bytes list \<Rightarrow> telnet_stream \<Rightarrow> bytes list \<Rightarrow> telnet_stream \<Rightarrow> bool" where
  at_read: "tevents s = [] \<Longrightarrow> input_dropped reads s reads s"
| at_reply: "tevents s = ev # rest \<Longrightarrow> absorb ev (s\<lparr>tevents := rest\<rparr>) = (s', None) \<Longrightarrow> sent s' = sent s @ out \<Longrightarrow> out \<noteq> [] \<Longrightarrow>
    input_dropped reads s reads (s'\<lparr>sent := sent s @ take k out\<rparr>)"
| past_event: "tevents s = ev # rest \<Longrightarrow> absorb ev (s\<lparr>tevents := rest\<rparr>) = (s', None) \<Longrightarrow> input_dropped reads s' reads' s'' \<Longrightarrow>
    input_dropped reads s reads' s''"
| past_read: "tevents s = [] \<Longrightarrow> c \<noteq> [] \<Longrightarrow> input_dropped cs (fill c s) reads' s' \<Longrightarrow> input_dropped (c # cs) s reads' s'"

inductive loop_dropped :: "echo \<Rightarrow> bytes list \<Rightarrow> telnet_stream \<Rightarrow> bytes list \<Rightarrow> telnet_stream \<Rightarrow> bool" for e where
  at_input: "input_dropped reads s reads' s' \<Longrightarrow> loop_dropped e reads s reads' s'"
| at_echo: "next_input reads s = (reads', s', Some (InData d)) \<Longrightarrow> line_edited e d s' = (s'', out, complete) \<Longrightarrow> out \<noteq> [] \<Longrightarrow>
    loop_dropped e reads s reads' (write_all (take k out) s'')"
| past_data: "next_input reads s = (reads1, s1, Some (InData d)) \<Longrightarrow> line_turn e d s1 = (s2, None) \<Longrightarrow>
    loop_dropped e reads1 s2 reads' s' \<Longrightarrow> loop_dropped e reads s reads' s'"
| past_notice: "next_input reads s = (reads1, s1, Some i) \<Longrightarrow> \<forall>d. i \<noteq> InData d \<Longrightarrow> loop_dropped e reads1 s1 reads' s' \<Longrightarrow>
    loop_dropped e reads s reads' s'"

text \<open>A line that is already complete is returned at once, so that call cannot be dropped.\<close>

definition line_dropped :: "echo \<Rightarrow> bytes list \<Rightarrow> telnet_stream \<Rightarrow> bytes list \<Rightarrow> telnet_stream \<Rightarrow> bool" where
  "line_dropped e reads s reads' s' \<longleftrightarrow> completed_line s = None \<and> loop_dropped e reads s reads' s'"

end
