(* ===== verification/Telnet_Line_Correct.thy ===== *)
theory Telnet_Line_Correct
  imports Telnet_Line
begin

text \<open>
  Lines typed at a telnet session come back exactly. The proof follows the data still to come (queued or not yet
  read): the editor has consumed a prefix of the text, ending perhaps inside a character, and every piece of data
  moves it on.
\<close>

section \<open>Characters byte by byte\<close>

lemma step_width: "utf8_step xs = (True, n) \<Longrightarrow> n = utf8_char_width (safe_get xs 0)"
  by (auto simp: utf8_step_def Let_def split: if_splits)

lemma char_width: "scalar c \<Longrightarrow> utf8_char_width (hd (utf8_char c)) = length (utf8_char c)"
  using step_width [of "utf8_char c" "length (utf8_char c)"] utf8_step_char [of c "[]"]
  by (cases "utf8_char c") (auto simp: safe_get_def)

lemma width_cases:
  "utf8_char_width b = 1 \<longleftrightarrow> b < 0x80"
  "utf8_char_width b = 2 \<longleftrightarrow> in_range 0xC2 0xDF b"
  "utf8_char_width b = 3 \<longleftrightarrow> in_range 0xE0 0xEF b"
  "utf8_char_width b = 4 \<longleftrightarrow> in_range 0xF0 0xF4 b"
  by (auto simp: utf8_char_width_def in_range_def word_le_nat_alt word_less_nat_alt)

lemma length_char: "length (utf8_char c) \<in> {1, 2, 3, 4}"
  by (simp add: utf8_char_def)

lemma no_continuation: "\<not> cont_byte 0" "\<not> second_ok b 0"
  by (simp_all add: cont_byte_def second_ok_def in_range_def)

lemma cut_step:
  assumes "utf8_step xs = (True, length xs)" "p = take k xs" "0 < k" "k < length xs"
  shows "utf8_step p = (False, length p)"
proof -
  have w: "length xs = utf8_char_width (safe_get xs 0)" using step_width [OF assms(1)] .
  have g: "safe_get p i = (if i < k then safe_get xs i else 0)" for i
    using assms(2-4) by (simp add: safe_get_def)
  have lp: "length p = k" using assms(2,4) by simp
  have "length xs \<in> {2, 3, 4}" using assms(3,4) w by (auto simp: utf8_char_width_def split: if_splits)
  then show ?thesis
    using assms(1,3,4) w unfolding utf8_step_def g lp Let_def
    by (auto simp: no_continuation split: if_splits)
qed

lemma cut_char:
  assumes "scalar c" "strict_prefix p (utf8_char c)" "p \<noteq> []"
  shows "partial_char p = Cut"
proof -
  obtain k where "p = take k (utf8_char c)" "0 < k" "k < length (utf8_char c)"
    using assms(2,3) by (metis append_eq_conv_conj length_greater_0_conv prefix_length_less strict_prefixE')
  from cut_step [OF _ this] utf8_step_char [OF assms(1), of "[]"] show ?thesis by (simp add: partial_char_def)
qed

lemma whole_char: "scalar c \<Longrightarrow> partial_char (utf8_char c) = Whole"
  using utf8_step_char [of c "[]"] by (simp add: partial_char_def)

lemma lossy_valid: "list_all scalar t \<Longrightarrow> utf8_lossy (as_bytes t) = as_bytes t"
proof (induction t)
  case (Cons c t)
  then show ?case
    by (simp add: as_bytes_def utf8_lossy.simps [of "utf8_char c @ concat (map utf8_char t)"] utf8_step_char)
qed (simp add: as_bytes_def utf8_lossy.simps)

lemma lossy_str_text: "list_all scalar t \<Longrightarrow> lossy_str (as_bytes t) = t"
  by (simp add: lossy_str_def lossy_valid from_utf8_as_bytes)

text \<open>Text that can be typed: no control characters.\<close>

definition typable :: "str \<Rightarrow> bool" where
  "typable t \<longleftrightarrow> list_all (\<lambda>c. scalar c \<and> 32 \<le> c \<and> c \<noteq> 127) t"

lemma typable_scalar: "typable t \<Longrightarrow> list_all scalar t"
  by (auto simp: typable_def list_all_iff)

lemma typed_bytes:
  assumes "b \<in> set (utf8_char c)" "scalar c" "32 \<le> c" "c \<noteq> 127"
  shows "32 \<le> b \<and> b \<noteq> 127"
proof -
  have "32 \<le> unat b \<and> unat b \<noteq> 127"
  proof (cases "c < 128")
    case True
    then show ?thesis using assms by (simp add: utf8_char_def unat_small)
  next
    case False
    have "128 \<le> unat b"
    proof -
      obtain k where "b = of_nat (128 + k)" "k < 128"
      proof -
        have "c div 64 \<le> 63" if "c < 2048" using that by auto
        moreover have "c div 4096 < 16" if "c < 65536" using that by auto
        moreover have "c div 262144 < 5" using assms(2) by (auto simp: scalar_def)
        moreover have "x mod 64 < 128" for x :: nat using mod_less_divisor [of 64 x] by linarith
        ultimately show thesis using assms(1) False that [of "64 + c div 64"] that [of "96 + c div 4096"]
            that [of "112 + c div 262144"] that [of "c mod 64"] that [of "c div 64 mod 64"] that [of "c div 4096 mod 64"]
          by (auto simp: utf8_char_def split: if_splits)
      qed
      then show ?thesis using unat_small [of "128 + k"] by simp
    qed
    then show ?thesis by simp
  qed
  then show ?thesis by (auto simp: word_le_nat_alt)
qed

section \<open>The editor inside a text\<close>

text \<open>
  The editor after part of \<open>text\<close>: the characters before are in the buffer, the bytes \<open>R\<close> are still to come, and
  the pending bytes are the start of the next character.
\<close>

definition editing :: "str \<Rightarrow> bytes \<Rightarrow> telnet_stream \<Rightarrow> bool" where
  "editing text R s \<longleftrightarrow> encoding s = Utf8 \<and> utf8_discard s = 0 \<and>
     (\<exists>before after. text = before @ after \<and> line_buf s = as_bytes before \<and> utf8_pending s @ R = as_bytes after \<and>
        (utf8_pending s = [] \<or> after \<noteq> [] \<and> strict_prefix (utf8_pending s) (utf8_char (hd after))))"

lemma as_bytes_simps [simp]: "as_bytes [] = []" "as_bytes (c # t) = utf8_char c @ as_bytes t"
  "as_bytes (t @ u) = as_bytes t @ as_bytes u"
  by (simp_all add: as_bytes_def)

text \<open>What the editor leaves alone.\<close>

definition surroundings :: "telnet_stream \<Rightarrow> telnet_parser \<times> negotiator \<times> telnet_event list \<times> encoding \<times> bytes" where
  "surroundings s = (tparser s, neg s, tevents s, encoding s, sent s)"

lemma editor_frame:
  "surroundings (fst (line_char bs e s)) = surroundings s" "surroundings (fst (finish_utf8 e s)) = surroundings s"
  "surroundings (fst (backspace e s)) = surroundings s" "surroundings (fst (fresh_byte b e s)) = surroundings s"
  "surroundings (fst (line_byte b e s)) = surroundings s"
proof -
  show lc: "surroundings (fst (line_char bs e s)) = surroundings s" for bs s
    by (simp add: line_char_def surroundings_def)
  show "surroundings (fst (finish_utf8 e s)) = surroundings s"
    by (simp add: finish_utf8_def line_char_def surroundings_def Let_def)
  show "surroundings (fst (backspace e s)) = surroundings s"
    by (simp add: backspace_def surroundings_def case_prod_unfold)
  show fb: "surroundings (fst (fresh_byte b e s)) = surroundings s" for s
    by (simp add: fresh_byte_def line_char_def surroundings_def Let_def)
  show "surroundings (fst (line_byte b e s)) = surroundings s"
    using fb by (auto simp: line_byte_def line_char_def surroundings_def case_prod_unfold Let_def split: partial.splits)
qed

lemma editing_byte:
  assumes ed: "editing text (b # R) s" and typed: "typable text" "length (as_bytes text) \<le> MAX_LINE"
  shows "editing text R (fst (line_byte b e s)) \<and> 32 \<le> b \<and> b \<noteq> 127 \<and>
     swallow_lf (fst (line_byte b e s)) = swallow_lf s \<and> completed_line (fst (line_byte b e s)) = completed_line s"
proof -
  from ed obtain before after where s: "encoding s = Utf8" "utf8_discard s = 0" "text = before @ after"
    "line_buf s = as_bytes before" "utf8_pending s @ b # R = as_bytes after"
    "utf8_pending s = [] \<or> after \<noteq> [] \<and> strict_prefix (utf8_pending s) (utf8_char (hd after))"
    by (auto simp: editing_def)
  then obtain c after' where c: "after = c # after'" by (cases after) auto
  have sc: "scalar c" "32 \<le> c" "c \<noteq> 127" using typed(1) s(3) c by (auto simp: typable_def)
  let ?u = "utf8_char c" and ?p = "utf8_pending s @ [b]"
  have fits: "length (as_bytes before) + length ?u \<le> MAX_LINE" using typed(2) s(3) c by simp
  have "strict_prefix (utf8_pending s) ?u" using s(6) c by (auto simp: strict_prefix_def)
  then have pre: "prefix ?p ?u" and R: "?p @ R = ?u @ as_bytes after'"
  proof -
    show R: "?p @ R = ?u @ as_bytes after'" using s(5) c by simp
    have "length ?p \<le> length ?u" using \<open>strict_prefix (utf8_pending s) ?u\<close> by (auto dest: prefix_length_less)
    then show "prefix ?p ?u" using R by (metis append_eq_append_conv_if prefix_def take_is_prefix)
  qed
  then have b: "b \<in> set ?u" by (auto simp: prefix_def)
  note ctl = typed_bytes [OF b sc]
  have fin: "editing text R t" if "encoding t = Utf8" "utf8_discard t = 0" "line_buf t = as_bytes before @ ?p"
    "utf8_pending t = []" "?p = ?u" for t
  proof -
    have "R = as_bytes after'" using R that(5) by simp
    moreover have "text = (before @ [c]) @ after'" using s(3) c by simp
    ultimately show ?thesis using that unfolding editing_def
      by (intro conjI exI [of _ "before @ [c]"] exI [of _ after']) simp_all
  qed
  have more: "editing text R t" if "encoding t = Utf8" "utf8_discard t = 0" "line_buf t = as_bytes before"
    "utf8_pending t = ?p" "?p \<noteq> ?u" for t
    using that s(3) c R pre unfolding editing_def strict_prefix_def
    by (intro conjI exI [of _ before] exI [of _ after]) simp_all
  show ?thesis
  proof (cases "utf8_pending s = []")
    case True
    show ?thesis
    proof (cases "c < 128")
      case True1: True
      then have u: "?u = [of_nat c]" by (simp add: utf8_char_def)
      then have bc: "b = of_nat c" using b by simp
      have "in_range 0x20 0x7E b" using True1 sc by (simp add: bc in_range_of_nat)
      then have "line_byte b e s = line_char [b] e s"
        using s True by (simp add: line_byte_def fresh_byte_def Let_def)
      then show ?thesis using fin [of "s\<lparr>line_buf := line_buf s @ [b]\<rparr>"] fits s True u bc ctl by (simp add: line_char_def)
    next
      case False
      then have long: "1 < length ?u" by (simp add: utf8_char_def)
      have hd: "b = hd ?u" using pre True by (cases ?u) auto
      then have w: "utf8_char_width b = length ?u" using char_width sc by simp
      then have "\<not> b < 0x80" using long width_cases(1) [of b] by simp
      then have nr: "\<not> in_range 0x20 0x7E b" by (auto simp: in_range_def word_le_nat_alt word_less_nat_alt)
      have "fresh_byte b e s = (s\<lparr>utf8_pending := [b]\<rparr>, [])"
      proof -
        have len: "length ?u = 2 \<or> length ?u = 3 \<or> length ?u = 4" using long length_char [of c] by auto
        then have width: "(if in_range 0xC2 0xDF b then 2 else if in_range 0xE0 0xEF b then 3
            else if in_range 0xF0 0xF4 b then 4 else 0 :: nat) = length ?u"
          using w width_cases(2-4) [of b] by (elim disjE) simp_all
        show ?thesis
          unfolding fresh_byte_def width Let_def using nr fits s(4) True long by simp
      qed
      then have "line_byte b e s = (s\<lparr>utf8_pending := [b]\<rparr>, [])" using s True by (simp add: line_byte_def)
      moreover have "length ?p = 1" using True by simp
      then have "?p \<noteq> ?u" using long by (metis less_irrefl)
      ultimately show ?thesis using more [of "s\<lparr>utf8_pending := [b]\<rparr>"] s True ctl by simp
    qed
  next
    case False
    show ?thesis
    proof (cases "?p = ?u")
      case True
      then have "line_byte b e s = line_char ?p e (s\<lparr>utf8_pending := []\<rparr>)"
        using s False whole_char [OF sc(1)] by (simp add: line_byte_def Let_def)
      then show ?thesis
        using fin [of "s\<lparr>utf8_pending := [], line_buf := line_buf s @ ?p\<rparr>"] True fits s ctl by (simp add: line_char_def)
    next
      case F: False
      then have "partial_char ?p = Cut" using cut_char [OF sc(1), of ?p] pre by (simp add: strict_prefix_def)
      then have "line_byte b e s = (s\<lparr>utf8_pending := ?p\<rparr>, [])" using s False by (simp add: line_byte_def Let_def)
      then show ?thesis using more [of "s\<lparr>utf8_pending := ?p\<rparr>"] F s ctl by simp
    qed
  qed
qed

lemma plain_byte: "32 \<le> b \<Longrightarrow> b \<noteq> 127 \<Longrightarrow> \<not> b < 32 \<and> b \<notin> {0, 8, 10, 13, 127}" for b :: u8
  by (auto simp: word_le_nat_alt word_less_nat_alt)

lemma edit_inside:
  assumes "editing text (d @ R) s" "typable text" "length (as_bytes text) \<le> MAX_LINE"
  shows "\<exists>s' out'. edit_data e d s out = (s', out', False, []) \<and> editing text R s' \<and>
    surroundings s' = surroundings s \<and> completed_line s' = completed_line s \<and> (d \<noteq> [] \<longrightarrow> \<not> swallow_lf s') \<and>
    (d = [] \<longrightarrow> s' = s)"
  using assms(1)
proof (induction d arbitrary: s out)
  case (Cons b d)
  let ?s = "s\<lparr>swallow_lf := False\<rparr>"
  have e0: "editing text (b # d @ R) ?s" using Cons.prems by (simp add: editing_def)
  note one = editing_byte [OF e0 assms(2,3), of e]
  obtain s1 o1 where l: "line_byte b e ?s = (s1, o1)" by (cases "line_byte b e ?s")
  have plain: "\<not> b < 32" "b \<notin> {0, 8, 10, 13, 127}" using plain_byte one by auto
  have "surroundings s1 = surroundings s" using editor_frame(5) [of b e ?s] l by (simp add: surroundings_def)
  moreover have "edit_data e (b # d) s out = edit_data e d s1 (out @ o1)" using plain l by simp
  moreover from Cons.IH [of s1 "out @ o1"] one l obtain s' out' where
    "edit_data e d s1 (out @ o1) = (s', out', False, [])" "editing text R s'" "surroundings s' = surroundings s1"
    "completed_line s' = completed_line s1" "d \<noteq> [] \<longrightarrow> \<not> swallow_lf s'" "d = [] \<longrightarrow> s' = s1" by auto
  ultimately show ?case using one l by auto
qed simp

lemma edit_append:
  "edit_data e d s out = (s1, out1, False, []) \<Longrightarrow> edit_data e (d @ d') s out = edit_data e d' s1 out1"
  by (induction e d s out rule: edit_data.induct) (auto simp: Let_def split: if_splits prod.splits)

lemma edit_end:
  assumes "editing text [] s"
  shows "\<exists>s' out'. edit_data e (13 # d') s out = (s', out', True, d') \<and> line_buf s' = as_bytes text \<and>
    utf8_pending s' = [] \<and> utf8_discard s' = 0 \<and> swallow_lf s' \<and> surroundings s' = surroundings s \<and> completed_line s' = completed_line s"
proof -
  from assms obtain before after where s: "text = before @ after" "line_buf s = as_bytes before"
    "utf8_pending s = as_bytes after" "utf8_pending s = [] \<or> after \<noteq> [] \<and> strict_prefix (utf8_pending s) (utf8_char (hd after))"
    "utf8_discard s = 0"
    by (auto simp: editing_def)
  then have "after = []" by (cases after) (auto simp: strict_prefix_def prefix_def)
  with s show ?thesis by (auto simp: finish_utf8_def surroundings_def Let_def)
qed

section \<open>The data to come\<close>

definition data_of :: "item list \<Rightarrow> bytes" where
  "data_of its = concat (map (\<lambda>i. case i of Byte b \<Rightarrow> [b] | Ctl _ \<Rightarrow> []) its)"

definition ahead :: "bytes list \<Rightarrow> telnet_stream \<Rightarrow> bytes" where
  "ahead reads s = data_of (flat (tevents s) @ snd (scan (tparser s) (concat reads)))"

definition line_part :: "telnet_stream \<Rightarrow> encoding \<times> bool \<times> bytes \<times> str option \<times> bytes \<times> nat" where
  "line_part s = (encoding s, swallow_lf s, line_buf s, completed_line s, utf8_pending s, utf8_discard s)"

lemma data_of_append [simp]: "data_of (xs @ ys) = data_of xs @ data_of ys" "data_of [] = []"
  by (simp_all add: data_of_def)

lemma data_of_bytes [simp]: "data_of (map Byte d) = d"
  by (induction d) (simp_all add: data_of_def)

lemma flat_Cons: "flat (e # es) = items_of e @ flat es"
  by (simp add: flat_def)

lemma fill_ahead: "ahead cs (fill c s) = ahead (c # cs) s"
  unfolding ahead_def fill_def concat.simps scan_append feed_scan [of "tparser s" c] by (simp add: case_prod_unfold Let_def)

lemma fill_line_part: "line_part (fill c s) = line_part s"
  by (simp add: line_part_def fill_def case_prod_unfold Let_def)

lemma absorb_frame: "line_part (fst (absorb ev s)) = line_part s" "tparser (fst (absorb ev s)) = tparser s"
  by (cases ev; simp add: line_part_def absorb_command_def absorb_subneg_def write_all_def Let_def split: prod.splits)+

lemma absorb_input:
  "absorb ev s = (s', r) \<Longrightarrow>
   (case r of Some (InData d) \<Rightarrow> ev = TData d | _ \<Rightarrow> data_of (items_of ev) = [])"
  by (cases ev) (auto simp: absorb_subneg_def data_of_def Let_def split: if_splits)

lemma next_input_data:
  assumes "\<forall>c \<in> set reads. c \<noteq> []" "next_input reads s = (reads', s', r)"
  shows "line_part s' = line_part s \<and> (\<forall>c \<in> set reads'. c \<noteq> []) \<and>
    (case r of None \<Rightarrow> ahead reads s = []
     | Some (InData d) \<Rightarrow> ahead reads s = d @ ahead reads' s'
     | Some _ \<Rightarrow> ahead reads s = ahead reads' s')"
  using assms
proof (induction reads s rule: next_input.induct)
  case (1 reads s)
  note step = 1(4) [unfolded next_input.simps [of reads s]]
  show ?case
  proof (cases "tevents s")
    case Nil
    show ?thesis
    proof (cases reads)
      case Nil': Nil
      then show ?thesis using step Nil by (auto simp: ahead_def)
    next
      case (Cons c cs)
      then have c: "c \<noteq> []" and rest: "next_input cs (fill c s) = (reads', s', r)" and cs: "\<forall>c \<in> set cs. c \<noteq> []"
        using step Nil 1(3) by (auto split: if_splits)
      have ah: "ahead reads s = ahead cs (fill c s)" unfolding Cons by (rule fill_ahead [symmetric])
      show ?thesis using 1(1) [OF Nil Cons c cs rest] unfolding ah fill_line_part .
    qed
  next
    case (Cons ev rest)
    let ?s = "s\<lparr>tevents := rest\<rparr>"
    obtain s1 q where a: "absorb ev ?s = (s1, q)" by (cases "absorb ev ?s")
    have ev: "tevents s1 = rest" using absorb_rest [OF a [symmetric]] .
    have fr: "line_part s1 = line_part s" "tparser s1 = tparser s"
      using absorb_frame [of ev ?s] a by (simp_all add: line_part_def)
    have ah: "ahead reads s = data_of (items_of ev) @ ahead reads s1"
      using ev fr(2) Cons by (simp add: ahead_def flat_Cons)
    show ?thesis
    proof (cases q)
      case None
      then have rest: "next_input reads s1 = (reads', s', r)" using step Cons a by simp
      have same: "ahead reads s = ahead reads s1" using ah absorb_input [OF a] None by simp
      show ?thesis using 1(2) [OF Cons a [symmetric] None 1(3) rest] unfolding same fr(1) .
    next
      case (Some i)
      then have "reads' = reads" "s' = s1" "r = Some i" using step Cons a by simp_all
      with absorb_input [OF a] ah fr 1(3) Some show ?thesis by (cases i) simp_all
    qed
  qed
qed

section \<open>Typed lines\<close>

lemma line_part_editing: "line_part s' = line_part s \<Longrightarrow> editing t R s' = editing t R s"
  by (simp add: line_part_def editing_def)

lemma editing_swallow: "editing t R (s\<lparr>swallow_lf := False\<rparr>) = editing t R s"
  by (simp add: editing_def)

text \<open>Where a line begins: nothing of it is there yet, and the second half of the last line's end may follow.\<close>

definition line_start :: "telnet_stream \<Rightarrow> bool" where
  "line_start s \<longleftrightarrow> encoding s = Utf8 \<and> utf8_discard s = 0 \<and> line_buf s = [] \<and> utf8_pending s = [] \<and> completed_line s = None"

lemma line_start_editing: "line_start s \<Longrightarrow> editing t (as_bytes t) s"
  unfolding line_start_def editing_def by (intro conjI exI [of _ "[]"] exI [of _ t]) simp_all

lemma line_turn_done:
  assumes "edit_data e d s [] = (s1, out, True, rest)"
  shows "snd (line_turn e d s) = Some (decode_text (encoding s1) (line_buf s1))"
    and "line_part (fst (line_turn e d s)) = (encoding s1, swallow_lf s1, [], None, utf8_pending s1, utf8_discard s1)"
    and "tevents (fst (line_turn e d s)) = (if rest \<noteq> [] then [TData rest] else []) @ tevents s1"
    and "tparser (fst (line_turn e d s)) = tparser s1"
  using assms by (simp_all add: line_turn_def line_edited_def line_part_def write_all_def Let_def)

lemma line_turn_open:
  assumes "edit_data e d s [] = (s1, out, False, [])"
  shows "snd (line_turn e d s) = None" "line_part (fst (line_turn e d s)) = line_part s1"
    "tevents (fst (line_turn e d s)) = tevents s1" "tparser (fst (line_turn e d s)) = tparser s1"
  using assms by (simp_all add: line_turn_def line_edited_def line_part_def write_all_def Let_def)

lemma ahead_rest: "ahead reads s = data_of (flat (tevents s)) @ data_of (snd (scan (tparser s) (concat reads)))"
  by (simp add: ahead_def)

lemma split_data:
  assumes "d @ X = R @ (13 :: u8) # later"
  obtains (inside) R' where "R = d @ R'" "X = R' @ 13 # later"
    | (over) d' where "d = R @ 13 # d'" "later = d' @ X"
proof -
  from assms(1) consider us where "d = R @ us" "us @ X = 13 # later" | us where "R = d @ us" "X = us @ 13 # later"
    by (auto simp: append_eq_append_conv2)
  then show thesis
  proof cases
    case (1 us)
    then show ?thesis using over inside [of "[]"] by (cases us) auto
  qed (rule inside)
qed

text \<open>The line feed after a carriage return is swallowed by the read that follows.\<close>

definition led :: "bytes \<Rightarrow> telnet_stream \<Rightarrow> bool" where
  "led lead s \<longleftrightarrow> lead = [] \<or> lead = [10] \<and> swallow_lf s"

lemma swallow_lead:
  assumes "led lead s" "d @ X = lead @ Y"
  obtains (waiting) "d = []" "lead = [10]" "swallow_lf s"
    | (through) d0 s0 where "edit_data e d s [] = edit_data e d0 s0 []" "d0 @ X = Y"
      "s0 = s \<or> s0 = s\<lparr>swallow_lf := False\<rparr>"
proof (cases lead)
  case Nil
  then show ?thesis using through [of d s] assms(2) by simp
next
  case (Cons a list)
  then have l: "lead = [10]" "swallow_lf s" using assms(1) by (simp_all add: led_def)
  show ?thesis
  proof (cases d)
    case Nil
    then show ?thesis using waiting l by simp
  next
    case (Cons b d')
    then show ?thesis using through [of d' "s\<lparr>swallow_lf := False\<rparr>"] l assms(2) by simp
  qed
qed

lemma line_turn_quiet:
  assumes "line_turn e [] s = (s', r)"
  shows "r = None \<and> line_part s' = line_part s \<and> tevents s' = tevents s \<and> tparser s' = tparser s"
  using assms by (auto simp: line_turn_def line_edited_def write_all_def line_part_def Let_def)

lemma line_turn_still:
  "\<exists>s'. line_turn e [] s = (s', None) \<and> line_part s' = line_part s \<and> tevents s' = tevents s \<and> tparser s' = tparser s"
  using line_turn_quiet [of e s] by (cases "line_turn e [] s") blast

lemma read_line_inside:
  assumes t: "typable text" "length (as_bytes text) \<le> MAX_LINE"
  shows "editing text R s \<Longrightarrow> led lead s \<Longrightarrow> completed_line s = None \<Longrightarrow> \<forall>c \<in> set reads. c \<noteq> [] \<Longrightarrow>
    ahead reads s = lead @ R @ 13 # later \<Longrightarrow>
    \<exists>reads' s'. read_line_loop e reads s = (reads', s', Some text) \<and> line_start s' \<and> swallow_lf s' \<and>
      ahead reads' s' = later \<and> (\<forall>c \<in> set reads'. c \<noteq> [])"
proof (induction e reads s arbitrary: R lead rule: read_line_loop.induct)
  case (1 e reads s)
  obtain reads1 s1 r where n: "next_input reads s = (reads1, s1, r)" by (cases "next_input reads s")
  note nd = next_input_data [OF 1(7) n] and loop = read_line_loop.simps [of e reads s]
  have ed1: "editing text R s1" using nd line_part_editing 1(4) by blast
  have c1: "completed_line s1 = None" and led1: "led lead s1" using nd 1(5,6) by (simp_all add: line_part_def led_def)
  obtain i where i: "r = Some i" using nd 1(8) by (cases r) auto
  show ?case
  proof (cases i)
    case (InData d)
    with nd i 1(8) have "d @ ahead reads1 s1 = lead @ R @ 13 # later" by simp
    then show ?thesis
    proof (cases rule: swallow_lead [OF led1, where e = e, consumes 1, case_names waiting through])
      case waiting
      obtain s3 where l: "line_turn e d s1 = (s3, None)" "line_part s3 = line_part s1" "tevents s3 = tevents s1" "tparser s3 = tparser s1"
        using line_turn_still [of e s1] unfolding waiting(1) by blast
      have "ahead reads1 s3 = lead @ R @ 13 # later"
        using \<open>d @ ahead reads1 s1 = _\<close> waiting(1) l(3,4) by (simp add: ahead_def)
      moreover have "editing text R s3" using ed1 line_part_editing [OF l(2)] by blast
      moreover have "completed_line s3 = None" "led lead s3" using l(2) c1 led1 by (simp_all add: line_part_def led_def)
      ultimately show ?thesis
        using 1(1) [OF n [symmetric] refl i InData l(1) [symmetric] refl, of R lead] nd n i InData l(1) unfolding loop by simp
    next
      case (through d0 s0)
      have ed0: "editing text R s0" and c0: "completed_line s0 = None" and f0: "surroundings s0 = surroundings s1"
        using through(3) ed1 c1 editing_swallow [of "text" R s1] by (auto simp: surroundings_def)
      from through(2) show ?thesis
      proof (cases rule: split_data [consumes 1])
        case (inside R')
        from edit_inside [of "text" d0 R' s0 e "[]"] ed0 inside(1) t obtain s2 out where
          e2: "edit_data e d s1 [] = (s2, out, False, [])" "editing text R' s2" "surroundings s2 = surroundings s1"
          "completed_line s2 = None" using through(1) f0 c0 by auto
        obtain s3 where l: "line_turn e d s1 = (s3, None)" "line_part s3 = line_part s2" "tevents s3 = tevents s2" "tparser s3 = tparser s2"
          using line_turn_open [OF e2(1)] by (cases "line_turn e d s1") auto
        have "ahead reads1 s3 = [] @ R' @ 13 # later"
          using inside(2) l(3,4) e2(3) by (simp add: ahead_def surroundings_def)
        moreover have "editing text R' s3" using e2(2) line_part_editing [OF l(2)] by blast
        moreover have "completed_line s3 = None" using l(2) e2(4) by (simp add: line_part_def)
        moreover have "led [] s3" by (simp add: led_def)
        ultimately show ?thesis
          using 1(1) [OF n [symmetric] refl i InData l(1) [symmetric] refl, of R' "[]"] nd n i InData l(1) unfolding loop by simp
      next
        case (over d')
        from edit_inside [of "text" R "[]" s0 e "[]"] ed0 t obtain s2 out where
          e2: "edit_data e R s0 [] = (s2, out, False, [])" "editing text [] s2" "surroundings s2 = surroundings s0" by auto
        from edit_end [OF e2(2), of e d' out] obtain s3 out' where
          e3: "edit_data e d s1 [] = (s3, out', True, d')" "line_buf s3 = as_bytes text" "utf8_pending s3 = []"
            "utf8_discard s3 = 0" "swallow_lf s3" "surroundings s3 = surroundings s1"
          using edit_append [OF e2(1), of "13 # d'"] over(1) e2(3) through(1) f0 by auto
        have enc: "encoding s3 = Utf8" using e3(6) ed1 by (simp add: surroundings_def editing_def)
        obtain s4 where l: "line_turn e d s1 = (s4, Some text)" "line_part s4 = (Utf8, True, [], None, [], 0)"
          "tevents s4 = (if d' \<noteq> [] then [TData d'] else []) @ tevents s3" "tparser s4 = tparser s3"
          using line_turn_done [OF e3(1)] enc e3(2-5) lossy_str_text [OF typable_scalar [OF t(1)]]
          by (cases "line_turn e d s1") (auto simp: decode_text_def)
        have "ahead reads1 s4 = later"
          using over(2) l(3,4) e3(6) by (auto simp: ahead_def surroundings_def flat_Cons)
        moreover have "line_start s4" "swallow_lf s4" using l(2) by (auto simp: line_part_def line_start_def)
        ultimately show ?thesis using nd n i InData l(1) unfolding loop by simp
      qed
    qed
  next
    case (WindowSize x1 x2)
    then show ?thesis
      using 1(2) [OF n [symmetric] refl i WindowSize, of R lead] nd n i ed1 c1 led1 1(8) unfolding loop by simp
  next
    case (TerminalType x)
    then show ?thesis
      using 1(3) [OF n [symmetric] refl i TerminalType, of R lead] nd n i ed1 c1 led1 1(8) unfolding loop by simp
  qed
qed

text \<open>Lines read one after the other, stopping at the end of the stream.\<close>

fun read_lines :: "nat \<Rightarrow> echo \<Rightarrow> bytes list \<Rightarrow> telnet_stream \<Rightarrow> str list" where
  "read_lines 0 e reads s = []"
| "read_lines (Suc n) e reads s =
     (case read_line e reads s of (reads', s', Some l) \<Rightarrow> l # read_lines n e reads' s' | _ \<Rightarrow> [])"

lemma typed_lines:
  assumes "\<forall>t \<in> set ts. typable t \<and> length (as_bytes t) \<le> MAX_LINE" "line_start s" "\<forall>c \<in> set reads. c \<noteq> []"
    and "led lead s" "ahead reads s = lead @ concat (map (\<lambda>t. as_bytes t @ [13, 10]) ts)"
    and "ts \<noteq> [] \<or> lead = []"
  shows "read_lines (length ts) e reads s = ts"
  using assms
proof (induction ts arbitrary: s reads lead)
  case (Cons t ts)
  let ?later = "[10] @ concat (map (\<lambda>t. as_bytes t @ [13, 10]) ts)"
  have "ahead reads s = lead @ as_bytes t @ 13 # ?later" using Cons.prems(5) by simp
  moreover have "completed_line s = None" using Cons.prems(2) by (simp add: line_start_def)
  ultimately obtain reads' s' where r: "read_line_loop e reads s = (reads', s', Some t)" "line_start s'" "swallow_lf s'"
    "ahead reads' s' = ?later" "\<forall>c \<in> set reads'. c \<noteq> []"
    using read_line_inside [of t "as_bytes t" s lead reads ?later e] line_start_editing [OF Cons.prems(2)] Cons.prems(1,3,4)
    by auto
  have "read_line e reads s = (reads', s', Some t)" using r(1) \<open>completed_line s = None\<close> by (simp add: read_line_def)
  moreover have "read_lines (length ts) e reads' s' = ts"
  proof (cases "ts = []")
    case False
    then show ?thesis using Cons.IH [of s' reads' "[10]"] Cons.prems(1) r by (simp add: led_def)
  qed simp
  ultimately show ?case by simp
qed simp

text \<open>
  C95. Typed lines arrive: a peer that sends typable lines of at most 1024 bytes, each ended by CR LF, with any
  negotiation in between, even inside a character, gets exactly these lines out of as many calls of \<open>read_line\<close>,
  wherever the reads cut the stream and whether or not the input is echoed.
\<close>

theorem typed_lines_delivered:
  assumes "\<forall>t \<in> set ts. typable t \<and> length (as_bytes t) \<le> MAX_LINE"
    and "\<forall>i \<in> set its. item_ok i" and "data_of its = concat (map (\<lambda>t. as_bytes t @ [13, 10]) ts)"
    and "concat reads = concat (map item_bytes its)" and "\<forall>c \<in> set reads. c \<noteq> []"
  shows "read_lines (length ts) e reads (start_stream new_stream) = ts"
proof (rule typed_lines [where lead = "[]"])
  have s: "line_start (start_stream new_stream)" "tparser (start_stream new_stream) = new_parser"
    "tevents (start_stream new_stream) = []"
    by (simp_all add: start_stream_def new_stream_def line_start_def write_all_def case_prod_unfold Let_def)
  show "line_start (start_stream new_stream)" by (rule s)
  show "ahead reads (start_stream new_stream) = [] @ concat (map (\<lambda>t. as_bytes t @ [13, 10]) ts)"
    using scan_items [of new_parser its] assms(2-4) s by (auto simp: ahead_def new_parser_def flat_def)
qed (use assms in \<open>simp_all add: led_def\<close>)

theorem typed_lines_delivered_witness:
  "read_lines 2 Hidden [[104, 0xC3], [255], [251, 31, 0xA9, 13], [10, 255, 241, 111, 107], [13, 10]] (start_stream new_stream)
   = [[104, 233], [111, 107]]"
proof -
  let ?its = "[Byte 104, Byte 0xC3, Ctl (Will 31), Byte 0xA9, Byte 13, Byte 10, Ctl (Command 241), Byte 111, Byte 107, Byte 13, Byte 10]"
  let ?ts = "[[104, 233], [111, 107]] :: str list"
  let ?reads = "[[104, 0xC3], [255], [251, 31, 0xA9, 13], [10, 255, 241, 111, 107], [13, 10]]"
  have len: "length ?ts = 2" by simp
  have "read_lines (length ?ts) Hidden ?reads (start_stream new_stream) = ?ts"
    by (rule typed_lines_delivered [where its = ?its])
       (simp_all add: typable_def scalar_def data_of_def utf8_char_def telnet_codes MAX_LINE_def)
  then show ?thesis unfolding len .
qed

end
