(* ===== verification/Telnet_Line_Safe.thy ===== *)
theory Telnet_Line_Safe
  imports Telnet_Line_Correct
begin

text \<open>
  Three guarantees of a telnet session against any peer: a line read with hidden echo reveals nothing of what was
  typed; the session's buffers stay within their bounds whatever is called, dropped half way and whatever arrives;
  and a read that is dropped and called again returns what the undisturbed one would have.
\<close>

section \<open>Hidden input\<close>

lemma hidden_byte:
  "snd (line_char bs Hidden s) = []" "snd (finish_utf8 Hidden s) = []" "snd (fresh_byte b Hidden s) = []"
  "snd (line_byte b Hidden s) = []" "snd (backspace Hidden s) = []"
proof -
  show lc: "snd (line_char bs Hidden s) = []" for bs s by (simp add: line_char_def)
  show "snd (finish_utf8 Hidden s) = []" using lc by (simp add: finish_utf8_def case_prod_unfold Let_def)
  show fb: "snd (fresh_byte b Hidden s) = []" for s using lc by (simp add: fresh_byte_def Let_def)
  show "snd (line_byte b Hidden s) = []"
    using lc fb by (simp add: line_byte_def case_prod_unfold Let_def split: partial.splits)
  show "snd (backspace Hidden s) = []" by (simp add: backspace_def case_prod_unfold)
qed

lemma hidden_edit:
  "fst (snd (edit_data Hidden d s out)) = out \<and> sent (fst (edit_data Hidden d s out)) = sent s \<and>
   neg (fst (edit_data Hidden d s out)) = neg s"
proof (induction "Hidden" d s out rule: edit_data.induct)
  case (2 b bs s out)
  have "sent (fst (f :: telnet_stream \<times> bytes)) = sent t \<and> neg (fst f) = neg t" if "surroundings (fst f) = surroundings t" for f t
    using that by (simp add: surroundings_def)
  note fr = this [OF editor_frame(2)] this [OF editor_frame(3)] this [OF editor_frame(5)]
  show ?case using 2 by (auto simp: fr hidden_byte case_prod_unfold Let_def)
qed simp

lemma hidden_turn:
  assumes "line_turn Hidden d s = (s', r)"
  shows "\<exists>tail. sent s' = sent s @ tail \<and> (tail = [] \<or> r \<noteq> None \<and> tail = [13, 10])"
  using assms hidden_edit [of d s "[]"]
  by (auto simp: line_turn_def line_edited_def write_all_def case_prod_unfold Let_def IAC_def split: if_splits)

text \<open>What negotiation alone can make the session send.\<close>

definition negotiation_word :: "bytes \<Rightarrow> bool" where
  "negotiation_word w \<longleftrightarrow> w = [IAC, SB, TTYPE, TTYPE_SEND, IAC, SE] \<or> (\<exists>v \<in> {WILL, WONT, DO, DONT}. \<exists>o'. w = [IAC, v, o'])"

definition negotiated :: "bytes \<Rightarrow> bool" where
  "negotiated out \<longleftrightarrow> (\<exists>ws. out = concat ws \<and> list_all negotiation_word ws)"

lemma negotiated_Nil: "negotiated []"
  unfolding negotiated_def by (intro exI [of _ "[]"]) simp

lemma negotiated_append: "negotiated x \<Longrightarrow> negotiated y \<Longrightarrow> negotiated (x @ y)"
  unfolding negotiated_def by (metis concat_append list_all_append)

lemma negotiated_word: "negotiation_word w \<Longrightarrow> negotiated w"
  unfolding negotiated_def by (intro exI [of _ "[w]"]) simp

lemma negotiator_words:
  "negotiated (fst (snd (on_will o' n)))" "negotiated (fst (snd (on_wont o' n)))"
  "negotiated (fst (snd (on_do o' n)))" "negotiated (fst (snd (on_dont o' n)))"
  by (auto simp: on_will_def on_wont_def on_do_def on_dont_def negotiation_word_def negotiated_Nil
      intro!: negotiated_word split: option.splits opt_state.splits)

lemma absorb_sent: "\<exists>out. sent (fst (absorb ev s)) = sent s @ out \<and> negotiated out"
proof -
  have cmd: "\<exists>out. sent (absorb_command r s) = sent s @ out \<and> negotiated out" if "negotiated (fst (snd r))" for r
    using that negotiated_append [OF that negotiated_word [of "[IAC, SB, TTYPE, TTYPE_SEND, IAC, SE]"]]
    by (cases r) (auto simp: absorb_command_def write_all_def Let_def negotiation_word_def)
  show ?thesis
  proof (cases ev)
    case (Subnegotiation o' pl)
    then show ?thesis using negotiated_Nil by (auto simp: absorb_subneg_def Let_def)
  qed (use cmd negotiator_words negotiated_Nil in \<open>simp_all add: cmd\<close>)
qed

lemma fill_sent: "sent (fill c s) = sent s"
  by (simp add: fill_def case_prod_unfold Let_def)

lemma next_input_sent:
  "next_input reads s = (reads', s', r) \<Longrightarrow> \<exists>out. sent s' = sent s @ out \<and> negotiated out"
proof (induction reads s rule: next_input.induct)
  case (1 reads s)
  note step = 1(3) [unfolded next_input.simps [of reads s]]
  show ?case
  proof (cases "tevents s")
    case Nil
    show ?thesis
    proof (cases reads)
      case (Cons c cs)
      then show ?thesis using 1(1) [OF Nil Cons] step Nil negotiated_Nil fill_sent by (cases "c = []") auto
    qed (use step Nil negotiated_Nil in auto)
  next
    case (Cons ev rest)
    obtain s1 q where a: "absorb ev (s\<lparr>tevents := rest\<rparr>) = (s1, q)" by (cases "absorb ev (s\<lparr>tevents := rest\<rparr>)")
    obtain out where out: "sent s1 = sent s @ out" "negotiated out"
      using absorb_sent [of ev "s\<lparr>tevents := rest\<rparr>"] a by auto
    show ?thesis
    proof (cases q)
      case None
      then have "next_input reads s1 = (reads', s', r)" using step Cons a by simp
      from 1(2) [OF Cons a [symmetric] None this] obtain out' where "sent s' = sent s1 @ out'" "negotiated out'" by blast
      then show ?thesis using out negotiated_append [of out out'] by auto
    qed (use step Cons a out in auto)
  qed
qed

lemma hidden_loop:
  "read_line_loop Hidden reads s = (reads', s', r) \<Longrightarrow>
   \<exists>out tail. sent s' = sent s @ out @ tail \<and> negotiated out \<and> (tail = [] \<or> r \<noteq> None \<and> tail = [13, 10])"
proof (induction "Hidden" reads s rule: read_line_loop.induct)
  case (1 reads s)
  obtain reads1 s1 q where n: "next_input reads s = (reads1, s1, q)" by (cases "next_input reads s")
  obtain out where out: "sent s1 = sent s @ out" "negotiated out" using next_input_sent [OF n] by blast
  have on: ?case if "\<exists>out' tail. sent s' = sent s1 @ out' @ tail \<and> negotiated out' \<and> (tail = [] \<or> r \<noteq> None \<and> tail = [13, 10])"
  proof -
    from that obtain out' tail where "sent s' = sent s1 @ out' @ tail" "negotiated out'" "tail = [] \<or> r \<noteq> None \<and> tail = [13, 10]"
      by blast
    then show ?thesis using out negotiated_append [OF out(2), of out'] by (intro exI [of _ "out @ out'"] exI [of _ tail]) simp
  qed
  note step = 1(4) [unfolded read_line_loop.simps [of "Hidden" reads s] n]
  show ?case
  proof (cases q)
    case None
    then have "sent s' = sent s1 @ [] @ []" using step by (auto simp: discard_line_def)
    then show ?thesis using on negotiated_Nil by blast
  next
    case (Some i)
    show ?thesis
    proof (cases i)
      case (InData d)
      obtain s2 l where t: "line_turn Hidden d s1 = (s2, l)" by (cases "line_turn Hidden d s1")
      show ?thesis
      proof (cases l)
        case None
        then have same: "sent s2 = sent s1" using hidden_turn [OF t] by auto
        have "read_line_loop Hidden reads1 s2 = (reads', s', r)" using step Some InData t None by simp
        from 1(1) [OF n [symmetric] refl Some InData t [symmetric] None this] show ?thesis unfolding same by (rule on)
      next
        case line: (Some t')
        then have "s' = s2" "r = Some t'" using step Some InData t by simp_all
        with hidden_turn [OF t] obtain tail where "sent s' = sent s1 @ [] @ tail" "tail = [] \<or> r \<noteq> None \<and> tail = [13, 10]" by auto
        then show ?thesis using on negotiated_Nil by blast
      qed
    next
      case (WindowSize x1 x2)
      have "read_line_loop Hidden reads1 s1 = (reads', s', r)" using step Some WindowSize by simp
      from 1(2) [OF n [symmetric] refl Some WindowSize this] show ?thesis by (rule on)
    next
      case (TerminalType x)
      have "read_line_loop Hidden reads1 s1 = (reads', s', r)" using step Some TerminalType by simp
      from 1(3) [OF n [symmetric] refl Some TerminalType this] show ?thesis by (rule on)
    qed
  qed
qed

text \<open>
  C39. Passwords are not echoed: whatever arrives while a line is read with hidden echo, the session sends only
  answers to option negotiation, and at most a line end once the line is complete.
\<close>

theorem hidden_input_silent:
  assumes "read_line Hidden reads s = (reads', s', r)"
  shows "\<exists>out tail. sent s' = sent s @ out @ tail \<and> negotiated out \<and> (tail = [] \<or> r \<noteq> None \<and> tail = [13, 10])"
proof (cases "completed_line s")
  case None
  then show ?thesis using assms hidden_loop by (simp add: read_line_def)
next
  case (Some line)
  then show ?thesis using assms negotiated_Nil by (auto simp: read_line_def)
qed

theorem hidden_input_silent_witness:
  "\<exists>reads' s' r out tail. read_line Hidden [[112, 255], [253, 1, 119, 13]] (start_stream new_stream) = (reads', s', r) \<and>
     sent s' = sent (start_stream new_stream) @ out @ tail \<and> negotiated out \<and> (tail = [] \<or> r \<noteq> None \<and> tail = [13, 10])"
proof -
  obtain reads' s' r where "read_line Hidden [[112, 255], [253, 1, 119, 13]] (start_stream new_stream) = (reads', s', r)"
    by (cases "read_line Hidden [[112, 255], [253, 1, 119, 13]] (start_stream new_stream)")
  with hidden_input_silent [OF this] show ?thesis by blast
qed

section \<open>Bounded buffers\<close>

text \<open>
  The calls a session offers, with any input behind them, run to their end or dropped while they wait: a dropped
  read leaves the session as it is by then, the line being typed included, a dropped write has sent some of its
  bytes. A dropped \<open>read_binary\<close> is some calls of \<open>next_input\<close> and a dropped one.
\<close>

inductive call_step :: "telnet_stream \<Rightarrow> telnet_stream \<Rightarrow> bool" where
  "call_step s (start_stream s)"
| "call_step s (set_encoding e s)"
| "call_step s (discard_line s)"
| "next_input reads s = (reads', s', r) \<Longrightarrow> call_step s s'"
| "read_line e reads s = (reads', s', l) \<Longrightarrow> call_step s s'"
| "read_binary reads s = (reads', s', b) \<Longrightarrow> call_step s s'"
| "call_step s (write_str t s)"
| "call_step s (write_raw bs s)"
| "call_step s (write_binary bs s)"
| "input_dropped reads s reads' s' \<Longrightarrow> call_step s s'"
| "line_dropped e reads s reads' s' \<Longrightarrow> call_step s s'"
| "call_step s (write_all out s)"
| "offer_all (neg s) = (n, out) \<Longrightarrow> call_step s (write_all (take k out) (s\<lparr>neg := n\<rparr>))"

definition within :: "telnet_stream \<Rightarrow> bool" where
  "within s \<longleftrightarrow> length (line_buf s) \<le> MAX_LINE \<and> length (utf8_pending s) \<le> 3 \<and> utf8_discard s \<le> 3 \<and>
     length (subbuf (tparser s)) \<le> MAX_SUBNEG"

lemma cut_short: "partial_char p = Cut \<Longrightarrow> length p \<le> 3"
  by (auto simp: partial_char_def utf8_step_def Let_def split: prod.splits if_splits)

lemma pop_char_shrinks: "length (fst (pop_char e buf)) \<le> length buf"
  using length_dropWhile_le [of cont_byte "rev buf"] by (auto simp: pop_char_def)

lemma within_editor:
  assumes "within s"
  shows "within (fst (line_char bs e s))" "within (fst (finish_utf8 e s))" "within (fst (backspace e s))"
    "within (fst (line_byte b e s))"
proof -
  have lc: "within (fst (line_char bs e t))" if "within t" for bs t
    using that by (auto simp: line_char_def within_def)
  have fb: "within (fst (fresh_byte b e t))" if "within t" "utf8_pending t = []" for t
    using that lc [OF that(1)] by (auto simp: fresh_byte_def within_def Let_def)
  show "within (fst (line_char bs e s))" using lc [OF assms] .
  show "within (fst (finish_utf8 e s))"
    using assms by (auto simp: finish_utf8_def line_char_def within_def Let_def)
  show "within (fst (backspace e s))"
    using assms pop_char_shrinks [of "encoding s" "line_buf s"] by (auto simp: backspace_def within_def case_prod_unfold)
  show "within (fst (line_byte b e s))"
  proof -
    let ?t = "if utf8_discard s \<noteq> 0 then s\<lparr>utf8_discard := 0\<rparr> else s"
    have t: "within ?t" using assms by (simp add: within_def)
    have p: "within (?t\<lparr>utf8_pending := utf8_pending ?t @ [b], utf8_pending := []\<rparr>)" using t by (simp add: within_def)
    have keep: "utf8_pending (fst (line_char REPLACEMENT e u)) = utf8_pending u" for u by (simp add: line_char_def)
    have cut: "within (?t\<lparr>utf8_pending := utf8_pending ?t @ [b]\<rparr>)" if "partial_char (utf8_pending ?t @ [b]) = Cut"
      using t cut_short [OF that] by (simp add: within_def)
    show ?thesis
      using assms lc [OF assms] lc [OF p] fb [OF lc [OF p]] fb [OF t] cut keep
      by (auto simp: line_byte_def within_def case_prod_unfold Let_def split: partial.splits)
  qed
qed

lemma within_edit: "within s \<Longrightarrow> within (fst (edit_data e d s out))"
proof (induction e d s out rule: edit_data.induct)
  case (2 e b bs s out)
  have "within (s\<lparr>swallow_lf := x\<rparr>)" for x using 2(3) by (simp add: within_def)
  then show ?case using 2 within_editor by (auto simp: case_prod_unfold Let_def)
qed simp

lemma within_edited: "within s \<Longrightarrow> within (fst (line_edited e d s))"
  using within_edit [of s e d "[]"] by (auto simp: line_edited_def within_def case_prod_unfold Let_def)

lemma within_turn: "within s \<Longrightarrow> within (fst (line_turn e d s))"
  using within_edited [of s e d] by (auto simp: line_turn_def within_def write_all_def case_prod_unfold Let_def)

lemma within_absorb: "within s \<Longrightarrow> within (fst (absorb ev s))"
  by (cases ev; simp add: within_def absorb_command_def absorb_subneg_def write_all_def Let_def split: prod.splits)

lemma within_events: "within (s\<lparr>tevents := es\<rparr>) = within s"
  by (simp add: within_def)

lemma within_fill: "within s \<Longrightarrow> within (fill c s)"
  using subbuf_bounded [of "tparser s" c] by (auto simp: within_def fill_def case_prod_unfold Let_def)

lemma within_next: "within s \<Longrightarrow> next_input reads s = (reads', s', r) \<Longrightarrow> within s'"
proof (induction reads s rule: next_input.induct)
  case (1 reads s)
  note step = 1(4) [unfolded next_input.simps [of reads s]]
  show ?case
  proof (cases "tevents s")
    case Nil
    then show ?thesis using 1(1) [OF Nil] 1(3) step within_fill by (cases reads) (auto split: if_splits)
  next
    case (Cons ev rest)
    obtain s1 q where a: "absorb ev (s\<lparr>tevents := rest\<rparr>) = (s1, q)" by (cases "absorb ev (s\<lparr>tevents := rest\<rparr>)")
    have "within s1" using within_absorb [of "s\<lparr>tevents := rest\<rparr>" ev] a 1(3) within_events by simp
    then show ?thesis using 1(2) [OF Cons a [symmetric]] step Cons a by (cases q) auto
  qed
qed

lemma within_input_dropped: "input_dropped reads s reads' s' \<Longrightarrow> within s \<Longrightarrow> within s'"
proof (induction rule: input_dropped.induct)
  case (at_reply s ev rest s' out reads k)
  then show ?case using within_absorb [of "s\<lparr>tevents := rest\<rparr>" ev] by (simp add: within_def)
next
  case (past_event s ev rest s' reads reads' s'')
  then show ?case using within_absorb [of "s\<lparr>tevents := rest\<rparr>" ev] within_events by simp
qed (simp_all add: within_fill)

lemma within_loop_dropped: "loop_dropped e reads s reads' s' \<Longrightarrow> within s \<Longrightarrow> within s'"
proof (induction rule: loop_dropped.induct)
  case (at_input reads s reads' s')
  then show ?case using within_input_dropped by blast
next
  case (at_echo reads s reads' s' d s'' out complete k)
  then show ?case using within_edited [OF within_next, of s reads reads' s' _ e d] by (simp add: within_def write_all_def)
next
  case (past_data reads s reads1 s1 d s2 reads' s')
  then show ?case using within_turn [OF within_next, of s reads reads1 s1 _ e d] by simp
next
  case (past_notice reads s reads1 s1 i reads' s')
  then show ?case using within_next by blast
qed

lemma within_discard: "within s \<Longrightarrow> within (discard_line s)"
  by (simp add: within_def discard_line_def)

lemma within_loop: "within s \<Longrightarrow> read_line_loop e reads s = (reads', s', r) \<Longrightarrow> within s'"
proof (induction e reads s rule: read_line_loop.induct)
  case (1 e reads s)
  obtain reads1 s1 q where n: "next_input reads s = (reads1, s1, q)" by (cases "next_input reads s")
  have w: "within s1" using within_next [OF 1(4) n] .
  note step = 1(5) [unfolded read_line_loop.simps [of e reads s] n]
  show ?case
  proof (cases q)
    case None
    then show ?thesis using step w within_discard by auto
  next
    case (Some i)
    show ?thesis
    proof (cases i)
      case (InData d)
      obtain s2 l where t: "line_turn e d s1 = (s2, l)" by (cases "line_turn e d s1")
      have "within s2" using within_turn [OF w, of e d] t by simp
      then show ?thesis using 1(1) [OF n [symmetric] refl Some InData t [symmetric]] step Some InData t by (cases l) auto
    next
      case (WindowSize x1 x2)
      show ?thesis using 1(2) [OF n [symmetric] refl Some WindowSize w] step Some WindowSize by simp
    next
      case (TerminalType x)
      show ?thesis using 1(3) [OF n [symmetric] refl Some TerminalType w] step Some TerminalType by simp
    qed
  qed
qed

lemma within_read_line: "within s \<Longrightarrow> read_line e reads s = (reads', s', r) \<Longrightarrow> within s'"
  using within_loop [of s e reads] by (auto simp: read_line_def within_def split: option.splits)

lemma within_binary: "within s \<Longrightarrow> read_binary reads s = (reads', s', r) \<Longrightarrow> within s'"
proof (induction reads s rule: read_binary.induct)
  case (1 reads s)
  obtain reads1 s1 q where n: "next_input reads s = (reads1, s1, q)" by (cases "next_input reads s")
  have w: "within s1" using within_next [OF 1(4) n] .
  note step = 1(5) [unfolded read_binary.simps [of reads s] n]
  show ?case
  proof (cases q)
    case None
    then show ?thesis using step w by auto
  next
    case (Some i)
    show ?thesis
    proof (cases i)
      case (InData d)
      then show ?thesis using 1(1) [OF n [symmetric] refl Some InData _ w] step Some w by (cases "d = []") auto
    next
      case (WindowSize x1 x2)
      show ?thesis using 1(2) [OF n [symmetric] refl Some WindowSize w] step Some WindowSize by simp
    next
      case (TerminalType x)
      show ?thesis using 1(3) [OF n [symmetric] refl Some TerminalType w] step Some TerminalType by simp
    qed
  qed
qed

lemma trim_bound: "length (trim_to_line e buf) \<le> MAX_LINE"
proof (induction e buf rule: trim_to_line.induct)
  case (1 e buf)
  then show ?case by (subst trim_to_line.simps) simp
qed

lemma within_set_encoding: "within s \<Longrightarrow> within (set_encoding e s)"
  using trim_bound by (simp add: within_def set_encoding_def)

lemma within_write: "within (write_all out s) = within s" "within (start_stream s) = within s"
  by (simp_all add: within_def write_all_def start_stream_def case_prod_unfold Let_def)

lemma within_neg: "within (s\<lparr>neg := n\<rparr>) = within s"
  by (simp add: within_def)

lemma within_call: "call_step s s' \<Longrightarrow> within s \<Longrightarrow> within s'"
  by (induction rule: call_step.induct)
     (auto simp: within_write write_str_def write_raw_def write_binary_def line_dropped_def within_neg
        intro: within_discard within_set_encoding within_next within_read_line within_binary within_input_dropped
          within_loop_dropped)

text \<open>
  C40. Memory is bounded: whatever is called on a session, calls dropped half way included, and whatever its peer
  sends, the line being typed holds at most 1024 bytes between calls, an unfinished character at most three, a
  rejected one leaves at most three bytes to skip, and a subnegotiation holds at most its own limit.
\<close>

theorem session_buffers_bounded:
  assumes "call_step\<^sup>*\<^sup>* new_stream s"
  shows "length (line_buf s) \<le> MAX_LINE \<and> length (utf8_pending s) \<le> 3 \<and> utf8_discard s \<le> 3 \<and>
    length (subbuf (tparser s)) \<le> MAX_SUBNEG"
  using assms
proof (induction rule: rtranclp_induct)
  case base
  show ?case by (simp add: new_stream_def new_parser_def)
next
  case (step s s')
  then show ?case using within_call unfolding within_def by blast
qed

theorem session_buffers_bounded_witness:
  "\<exists>s. call_step\<^sup>*\<^sup>* new_stream s \<and> line_buf s = [97, 98] \<and> utf8_pending s = [0xE2] \<and> length (line_buf s) \<le> MAX_LINE"
proof -
  let ?d = "[97, 98, 0xE2] :: bytes"
  define s2 where "s2 = new_stream\<lparr>line_buf := [97, 98], utf8_pending := [0xE2]\<rparr>"
  have "next_input [?d] new_stream = ([], new_stream, Some (InData ?d))"
    by (simp add: next_input.simps fill_def feed_bytes_def feed_byte_def flush_data_def IAC_def new_stream_def new_parser_def)
  moreover have "line_turn On ?d new_stream = (s2, None)"
    by (simp add: line_turn_def line_edited_def line_byte_def fresh_byte_def line_char_def in_range_def write_all_def MAX_LINE_def
        new_stream_def s2_def echo_active_def local_active_def new_negotiator_def Let_def)
  moreover have "input_dropped [] s2 [] s2" by (rule at_read) (simp add: s2_def new_stream_def)
  ultimately have "line_dropped On [?d] new_stream [] s2"
    by (auto simp: line_dropped_def new_stream_def intro: loop_dropped.intros)
  then have run: "call_step\<^sup>*\<^sup>* new_stream s2" by (intro r_into_rtranclp call_step.intros)
  show ?thesis using session_buffers_bounded [OF run] run by (intro exI [of _ s2]) (simp add: s2_def)
qed

section \<open>Dropped and resumed\<close>

text \<open>What has been sent matters to nothing the session does; an update of it moves to the outside.\<close>

lemma sent_last:
  "s\<lparr>sent := x, tparser := a1\<rparr> = s\<lparr>tparser := a1, sent := x\<rparr>" "s\<lparr>sent := x, neg := a2\<rparr> = s\<lparr>neg := a2, sent := x\<rparr>"
  "s\<lparr>sent := x, tevents := a3\<rparr> = s\<lparr>tevents := a3, sent := x\<rparr>" "s\<lparr>sent := x, window := a5\<rparr> = s\<lparr>window := a5, sent := x\<rparr>"
  "s\<lparr>sent := x, terminal := a6\<rparr> = s\<lparr>terminal := a6, sent := x\<rparr>"
  "s\<lparr>sent := x, ttype_requested := a7\<rparr> = s\<lparr>ttype_requested := a7, sent := x\<rparr>"
  "s\<lparr>sent := x, swallow_lf := a8\<rparr> = s\<lparr>swallow_lf := a8, sent := x\<rparr>" "s\<lparr>sent := x, line_buf := a9\<rparr> = s\<lparr>line_buf := a9, sent := x\<rparr>"
  "s\<lparr>sent := x, completed_line := b1\<rparr> = s\<lparr>completed_line := b1, sent := x\<rparr>"
  "s\<lparr>sent := x, utf8_pending := b2\<rparr> = s\<lparr>utf8_pending := b2, sent := x\<rparr>"
  "s\<lparr>sent := x, utf8_discard := b3\<rparr> = s\<lparr>utf8_discard := b3, sent := x\<rparr>"
  by simp_all

lemma command_sent_only: "\<exists>y. absorb_command r (s\<lparr>sent := x\<rparr>) = (absorb_command r s)\<lparr>sent := y\<rparr>"
proof (cases r)
  case (fields n out notice)
  let ?ask = "notice = Some (RemoteEnabled TTYPE) \<and> \<not> ttype_requested s"
  show ?thesis unfolding fields
    by (intro exI [of _ "x @ out @ (if ?ask then [IAC, SB, TTYPE, TTYPE_SEND, IAC, SE] else [])"])
      (simp add: absorb_command_def write_all_def sent_last Let_def)
qed

lemma absorb_sent_only: "\<exists>y. absorb ev (s\<lparr>sent := x\<rparr>) = ((fst (absorb ev s))\<lparr>sent := y\<rparr>, snd (absorb ev s))"
proof (cases ev)
  case (Subnegotiation o' pl)
  then show ?thesis by (intro exI [of _ x]) (simp add: absorb_subneg_def sent_last Let_def)
next
  case (TData d)
  then show ?thesis by (intro exI [of _ x]) simp
qed (simp_all add: command_sent_only)

lemma fill_sent_only: "fill c (s\<lparr>sent := x\<rparr>) = (fill c s)\<lparr>sent := x\<rparr>"
  by (simp add: fill_def case_prod_unfold Let_def)

lemma editor_sent_only:
  "line_char bs e (s\<lparr>sent := x\<rparr>) = apfst (sent_update (\<lambda>_. x)) (line_char bs e s)"
  "finish_utf8 e (s\<lparr>sent := x\<rparr>) = apfst (sent_update (\<lambda>_. x)) (finish_utf8 e s)"
  "fresh_byte b e (s\<lparr>sent := x\<rparr>) = apfst (sent_update (\<lambda>_. x)) (fresh_byte b e s)"
  "backspace e (s\<lparr>sent := x\<rparr>) = apfst (sent_update (\<lambda>_. x)) (backspace e s)"
proof -
  show lc: "line_char bs e (s\<lparr>sent := x\<rparr>) = apfst (sent_update (\<lambda>_. x)) (line_char bs e s)" for bs s
    by (simp add: line_char_def sent_last)
  show "finish_utf8 e (s\<lparr>sent := x\<rparr>) = apfst (sent_update (\<lambda>_. x)) (finish_utf8 e s)"
    by (simp add: finish_utf8_def lc sent_last case_prod_unfold Let_def)
  show "fresh_byte b e (s\<lparr>sent := x\<rparr>) = apfst (sent_update (\<lambda>_. x)) (fresh_byte b e s)"
    by (simp add: fresh_byte_def lc sent_last Let_def)
  show "backspace e (s\<lparr>sent := x\<rparr>) = apfst (sent_update (\<lambda>_. x)) (backspace e s)"
    by (simp add: backspace_def sent_last case_prod_unfold)
qed

lemma line_byte_sent_only: "line_byte b e (s\<lparr>sent := x\<rparr>) = apfst (sent_update (\<lambda>_. x)) (line_byte b e s)"
proof -
  define t where "t = (if utf8_discard s \<noteq> 0 then s\<lparr>utf8_discard := 0\<rparr> else s)"
  have t: "(if utf8_discard (s\<lparr>sent := x\<rparr>) \<noteq> 0 then s\<lparr>sent := x, utf8_discard := 0\<rparr> else s\<lparr>sent := x\<rparr>) = t\<lparr>sent := x\<rparr>"
    by (simp add: t_def sent_last)
  show ?thesis unfolding line_byte_def Let_def t t_def [symmetric]
    by (cases "partial_char (utf8_pending t @ [b])") (simp_all add: editor_sent_only sent_last case_prod_unfold)
qed

lemma edit_sent_only: "edit_data e d (s\<lparr>sent := x\<rparr>) out = apfst (sent_update (\<lambda>_. x)) (edit_data e d s out)"
proof (induction e d s out rule: edit_data.induct)
  case (2 e b bs s out)
  then show ?case by (simp add: editor_sent_only line_byte_sent_only sent_last case_prod_unfold Let_def)
qed simp

lemma edited_sent_only: "line_edited e d (s\<lparr>sent := x\<rparr>) = apfst (sent_update (\<lambda>_. x)) (line_edited e d s)"
  by (simp add: line_edited_def edit_sent_only echo_active_def sent_last case_prod_unfold Let_def)

lemma next_input_sent_only:
  "next_input reads s = (reads', s', r) \<Longrightarrow> \<exists>y. next_input reads (s\<lparr>sent := x\<rparr>) = (reads', s'\<lparr>sent := y\<rparr>, r)"
proof (induction reads s arbitrary: x rule: next_input.induct)
  case (1 reads s)
  note step = 1(3) [unfolded next_input.simps [of reads s]]
  show ?case
  proof (cases "tevents s")
    case Nil
    show ?thesis
    proof (cases reads)
      case (Cons c cs)
      show ?thesis
      proof (cases "c = []")
        case False
        then have "next_input cs (fill c s) = (reads', s', r)" using step Nil Cons by simp
        from 1(1) [OF Nil Cons False this, of x] obtain y where "next_input cs ((fill c s)\<lparr>sent := x\<rparr>) = (reads', s'\<lparr>sent := y\<rparr>, r)" ..
        then show ?thesis using Nil Cons False by (subst next_input.simps) (auto simp: fill_sent_only)
      qed (use step Nil Cons in \<open>intro exI [of _ x], simp add: next_input.simps [of "_ # _"]\<close>)
    qed (use step Nil in \<open>intro exI [of _ x], simp add: next_input.simps [of "[]"]\<close>)
  next
    case (Cons ev rest)
    obtain s1 q where a: "absorb ev (s\<lparr>tevents := rest\<rparr>) = (s1, q)" by (cases "absorb ev (s\<lparr>tevents := rest\<rparr>)")
    obtain y where y: "absorb ev (s\<lparr>tevents := rest, sent := x\<rparr>) = (s1\<lparr>sent := y\<rparr>, q)"
      using absorb_sent_only [of ev x "s\<lparr>tevents := rest\<rparr>"] a by auto
    show ?thesis
    proof (cases q)
      case None
      then have "next_input reads s1 = (reads', s', r)" using step Cons a by simp
      from 1(2) [OF Cons a [symmetric] None this, of y] obtain z where "next_input reads (s1\<lparr>sent := y\<rparr>) = (reads', s'\<lparr>sent := z\<rparr>, r)" ..
      then show ?thesis using Cons None y by (subst next_input.simps) (auto simp: sent_last)
    next
      case (Some i)
      then show ?thesis using step Cons a y by (subst next_input.simps) (auto simp: sent_last)
    qed
  qed
qed

lemma turn_sent_only: "\<exists>y. line_turn e d (s\<lparr>sent := x\<rparr>) = ((fst (line_turn e d s))\<lparr>sent := y\<rparr>, snd (line_turn e d s))"
  by (cases "line_edited e d s") (auto simp: line_turn_def edited_sent_only write_all_def sent_last Let_def)

lemma loop_sent_only:
  "read_line_loop e reads s = (reads', s', r) \<Longrightarrow> \<exists>y. read_line_loop e reads (s\<lparr>sent := x\<rparr>) = (reads', s'\<lparr>sent := y\<rparr>, r)"
proof (induction e reads s arbitrary: x rule: read_line_loop.induct)
  case (1 e reads s)
  obtain reads1 s1 q where n: "next_input reads s = (reads1, s1, q)" by (cases "next_input reads s")
  obtain y where y: "next_input reads (s\<lparr>sent := x\<rparr>) = (reads1, s1\<lparr>sent := y\<rparr>, q)" using next_input_sent_only [OF n] by blast
  note step = 1(4) [unfolded read_line_loop.simps [of e reads s] n]
  note unf = read_line_loop.simps [of e reads "s\<lparr>sent := x\<rparr>", unfolded y]
  show ?case
  proof (cases q)
    case None
    then show ?thesis unfolding unf using step by (intro exI [of _ y]) (auto simp: discard_line_def)
  next
    case (Some i)
    show ?thesis
    proof (cases i)
      case (InData d)
      obtain s2 l where t: "line_turn e d s1 = (s2, l)" by (cases "line_turn e d s1")
      obtain z where z: "line_turn e d (s1\<lparr>sent := y\<rparr>) = (s2\<lparr>sent := z\<rparr>, l)" using turn_sent_only [of e d y s1] t by auto
      show ?thesis
      proof (cases l)
        case None
        then have "read_line_loop e reads1 s2 = (reads', s', r)" using step Some InData t by simp
        from 1(1) [OF n [symmetric] refl Some InData t [symmetric] None this, of z] show ?thesis
          unfolding unf using Some InData z None by simp
      next
        case line: (Some t')
        then show ?thesis unfolding unf using step Some InData t z by (intro exI [of _ z]) auto
      qed
    next
      case (WindowSize x1 x2)
      have "read_line_loop e reads1 s1 = (reads', s', r)" using step Some WindowSize by simp
      from 1(2) [OF n [symmetric] refl Some WindowSize this, of y] show ?thesis unfolding unf using Some WindowSize by simp
    next
      case (TerminalType x)
      have "read_line_loop e reads1 s1 = (reads', s', r)" using step Some TerminalType by simp
      from 1(3) [OF n [symmetric] refl Some TerminalType this, of y] show ?thesis unfolding unf using Some TerminalType by simp
    qed
  qed
qed

lemma absorb_completed: "completed_line (fst (absorb ev s)) = completed_line s"
  by (cases ev) (auto simp: absorb_command_def absorb_subneg_def write_all_def Let_def split: prod.splits)

lemma fill_completed: "completed_line (fill c s) = completed_line s"
  using fill_line_part [of c s] by (simp add: line_part_def)

lemma next_input_completed: "next_input reads s = (reads', s', r) \<Longrightarrow> completed_line s' = completed_line s"
proof (induction reads s rule: next_input.induct)
  case (1 reads s)
  note step = 1(3) [unfolded next_input.simps [of reads s]]
  show ?case
  proof (cases "tevents s")
    case Nil
    then show ?thesis using 1(1) [OF Nil] step by (cases reads) (auto simp: fill_completed split: if_splits)
  next
    case (Cons ev rest)
    obtain s1 q where a: "absorb ev (s\<lparr>tevents := rest\<rparr>) = (s1, q)" by (cases "absorb ev (s\<lparr>tevents := rest\<rparr>)")
    then have "completed_line s1 = completed_line s" using absorb_completed [of ev "s\<lparr>tevents := rest\<rparr>"] by simp
    then show ?thesis using 1(2) [OF Cons a [symmetric]] step Cons a by (cases q) auto
  qed
qed

lemma edit_completed: "completed_line (fst (edit_data e d s out)) = completed_line s"
proof (induction e d s out rule: edit_data.induct)
  case (2 e b bs s out)
  have lc: "completed_line (fst (line_char x e t)) = completed_line t" for x t by (simp add: line_char_def)
  then have fu: "completed_line (fst (finish_utf8 e t)) = completed_line t" for t by (simp add: finish_utf8_def case_prod_unfold Let_def)
  have bs: "completed_line (fst (backspace e t)) = completed_line t" for t by (simp add: backspace_def case_prod_unfold)
  have fb: "completed_line (fst (fresh_byte b e t)) = completed_line t" for t using lc by (simp add: fresh_byte_def Let_def)
  have "completed_line (fst (line_byte b e t)) = completed_line t" for t
    using lc fb by (simp add: line_byte_def case_prod_unfold Let_def split: partial.splits)
  then show ?case using 2 fu bs by (auto simp: case_prod_unfold Let_def)
qed simp

lemma turn_completed: "line_turn e d s = (s', None) \<Longrightarrow> completed_line s' = completed_line s"
  using edit_completed [of e d s "[]"]
  by (auto simp: line_turn_def line_edited_def write_all_def case_prod_unfold Let_def split: if_splits)

lemma input_dropped_resumes:
  "input_dropped reads s reads' s' \<Longrightarrow> next_input reads s = (r, t, i) \<Longrightarrow>
   completed_line s' = completed_line s \<and> (\<exists>y. next_input reads' s' = (r, t\<lparr>sent := y\<rparr>, i))"
proof (induction rule: input_dropped.induct)
  case (at_read s reads)
  then show ?case by (auto intro: exI [of _ "sent t"])
next
  case (at_reply s ev rest s' out reads k)
  have "next_input reads s' = (r, t, i)" using at_reply by (simp add: next_input.simps [of reads s])
  moreover have "completed_line s' = completed_line s" using absorb_completed [of ev "s\<lparr>tevents := rest\<rparr>"] at_reply(2) by simp
  ultimately show ?case using next_input_sent_only by simp
next
  case (past_event s ev rest s' reads reads' s'')
  have "next_input reads s' = (r, t, i)" using past_event(1,2,5) by (simp add: next_input.simps [of reads s])
  moreover have "completed_line s' = completed_line s" using absorb_completed [of ev "s\<lparr>tevents := rest\<rparr>"] past_event(2) by simp
  ultimately show ?case using past_event(4) by simp
next
  case (past_read s c cs reads' s')
  then show ?case by (simp add: next_input.simps [of "c # cs" s] fill_completed)
qed

lemma loop_resumes:
  assumes "next_input reads s = (r, t, i)" "next_input reads' s' = (r, t\<lparr>sent := y\<rparr>, i)" "read_line_loop e reads s = (r1, t1, l)"
  shows "\<exists>z. read_line_loop e reads' s' = (r1, t1\<lparr>sent := z\<rparr>, l)"
proof (cases i)
  case None
  then show ?thesis using assms
    by (intro exI [of _ y]) (auto simp: read_line_loop.simps [of e reads s] read_line_loop.simps [of e reads' s'] discard_line_def)
next
  case (Some inp)
  show ?thesis
  proof (cases inp)
    case (InData d)
    obtain s2 c where t: "line_turn e d t = (s2, c)" by (cases "line_turn e d t")
    obtain z where z: "line_turn e d (t\<lparr>sent := y\<rparr>) = (s2\<lparr>sent := z\<rparr>, c)" using turn_sent_only [of e d y t] t by auto
    show ?thesis using assms Some InData t z loop_sent_only [of e r s2 r1 t1 l z]
      by (cases c) (auto simp: read_line_loop.simps [of e reads s] read_line_loop.simps [of e reads' s'])
  qed (use assms Some loop_sent_only [of e r t r1 t1 l y] in
      \<open>auto simp: read_line_loop.simps [of e reads s] read_line_loop.simps [of e reads' s']\<close>)
qed

text \<open>
  Dropping a read and reading again loses nothing that was typed: whatever the moment, the next call returns the
  very line, consumes the same reads and leaves the same session as the undisturbed call would have; only the bytes
  of an answer or an echo whose write was under way may be missing from what was sent.
\<close>

lemma read_line_cancel_safe:
  assumes "line_dropped e reads s reads' s'" and "read_line e reads s = (r, t, l)"
  shows "\<exists>y. read_line e reads' s' = (r, t\<lparr>sent := y\<rparr>, l)"
proof -
  have "\<exists>y. read_line e reads' s' = (r, t\<lparr>sent := y\<rparr>, l)"
    if "loop_dropped e reads s reads' s'" "completed_line s = None" "read_line_loop e reads s = (r, t, l)"
    using that
  proof (induction rule: loop_dropped.induct)
    case (at_input reads s reads' s')
    obtain r1 t1 i where n: "next_input reads s = (r1, t1, i)" by (cases "next_input reads s")
    from input_dropped_resumes [OF at_input(1) n] at_input(2) obtain y where
      "completed_line s' = None" "next_input reads' s' = (r1, t1\<lparr>sent := y\<rparr>, i)" by auto
    then show ?case using loop_resumes [OF n _ at_input(3)] by (simp add: read_line_def)
  next
    case (at_echo reads s reads' s' d s'' out complete k)
    let ?u = "write_all (take k out) s''"
    have none: "completed_line s' = None" using next_input_completed [OF at_echo(1)] at_echo(4) by simp
    have turn: "line_turn e d s' = (if complete then ((write_all out s'')\<lparr>completed_line := None\<rparr>, completed_line s'') else (write_all out s'', None))"
      using at_echo(2) by (simp add: line_turn_def write_all_def)
    have c: "completed_line s'' = None \<longleftrightarrow> \<not> complete"
      using at_echo(2) none edit_completed [of e d s' "[]"]
      by (auto simp: line_edited_def case_prod_unfold Let_def split: if_splits)
    show ?case
    proof (cases complete)
      case True
      then obtain line where line: "completed_line s'' = Some line" using c by auto
      then have "r = reads'" "t = (write_all out s'')\<lparr>completed_line := None\<rparr>" "l = Some line"
        using at_echo(1,5) turn True by (simp_all add: read_line_loop.simps [of e reads s])
      then show ?thesis using line by (intro exI [of _ "sent s'' @ take k out"]) (simp add: read_line_def write_all_def)
    next
      case False
      then have "read_line_loop e reads' (write_all out s'') = (r, t, l)"
        using at_echo(1,5) turn by (simp add: read_line_loop.simps [of e reads s])
      from loop_sent_only [OF this, of "sent ?u"] show ?thesis using False c by (simp add: read_line_def write_all_def)
    qed
  next
    case (past_data reads s reads1 s1 d s2 reads' s')
    then have "read_line_loop e reads1 s2 = (r, t, l)" by (simp add: read_line_loop.simps [of e reads s])
    moreover have "completed_line s2 = None"
      using next_input_completed [OF past_data(1)] turn_completed [OF past_data(2)] past_data(5) by simp
    ultimately show ?case using past_data(4) by blast
  next
    case (past_notice reads s reads1 s1 i reads' s')
    then have "read_line_loop e reads1 s1 = (r, t, l)"
      by (cases i) (simp_all add: read_line_loop.simps [of e reads s])
    moreover have "completed_line s1 = None" using next_input_completed [OF past_notice(1)] past_notice(5) by simp
    ultimately show ?case using past_notice(4) by blast
  qed
  then show ?thesis using assms by (simp add: line_dropped_def read_line_def)
qed

text \<open>
  The answer to an option, though, is lost with the future that was writing it: the option's new state stays, and
  the next call answers nothing more.
\<close>

lemma dropped_reply_lost:
  "\<exists>s s'. tevents s = [Do 34] \<and> sent (fst (snd (next_input [] s))) = [IAC, WONT, 34] \<and>
     input_dropped [] s [] s' \<and> sent s' = [] \<and> next_input [] s' = ([], s', None)"
proof -
  let ?s = "new_stream\<lparr>tevents := [Do 34]\<rparr>"
  have a: "absorb (Do 34) (?s\<lparr>tevents := []\<rparr>) = (new_stream\<lparr>sent := [IAC, WONT, 34]\<rparr>, None)"
    by (simp add: absorb_command_def on_do_def find_opt_def new_stream_def new_negotiator_def write_all_def Let_def
        ECHO_def SGA_def)
  have e: "tevents (new_stream\<lparr>sent := x\<rparr>) = []" "sent ?s = []" for x by (simp_all add: new_stream_def)
  have "input_dropped [] ?s [] (new_stream\<lparr>sent := [IAC, WONT, 34], sent := sent ?s @ take 0 [IAC, WONT, 34]\<rparr>)"
    by (rule at_reply [OF _ a]) (simp_all add: e)
  moreover have "sent (fst (snd (next_input [] ?s))) = [IAC, WONT, 34]"
    using a e by (simp add: next_input.simps)
  ultimately show ?thesis
    by (intro exI [of _ ?s] exI [of _ "new_stream\<lparr>sent := []\<rparr>"]) (simp add: e next_input.simps [of "[]" "new_stream\<lparr>sent := []\<rparr>"])
qed

end
