(* ===== verification/E2ee.thy ===== *)
theory E2ee
  imports Wire "HOL-Library.Finite_Map" "HOL-Library.Stream"
begin

text \<open>
  The end-to-end encryption core (\<open>crates/e2ee/src\<close>): key derivation (\<open>kdf.rs\<close>), authenticated encryption
  (\<open>aead.rs\<close>), key pairs (\<open>keys.rs\<close>), the X3DH-lite handshake (\<open>x3dh.rs\<close>), sealed envelopes (\<open>sealed.rs\<close>), the
  Double Ratchet (\<open>ratchet.rs\<close>) and sender keys for groups (\<open>group.rs\<close>). The third-party primitives (BLAKE3,
  X25519, ChaCha20-Poly1305, Ed25519) are the fields of the argument \<open>P\<close>; a random source is the stream of the
  32-byte draws to come. Counters are \<open>u32\<close>, kept as \<open>nat\<close> with the wrap-around written out. What decryption
  leaves behind is returned on the error branches too: the code draws a new key pair before it has checked
  the message, so a refused message can advance the random source.
\<close>

section \<open>Primitives\<close>

record primitives =
  derive_bytes :: "string \<Rightarrow> bytes \<Rightarrow> nat \<Rightarrow> bytes"
  x25519 :: "bytes \<Rightarrow> bytes \<Rightarrow> bytes"
  x25519_public :: "bytes \<Rightarrow> bytes"
  chacha_seal :: "bytes \<Rightarrow> bytes \<Rightarrow> bytes \<Rightarrow> bytes \<Rightarrow> bytes"
  chacha_open :: "bytes \<Rightarrow> bytes \<Rightarrow> bytes \<Rightarrow> bytes \<Rightarrow> bytes option"
  ed_public :: "bytes \<Rightarrow> bytes"
  ed_key_ok :: "bytes \<Rightarrow> bool"
  ed_sign :: "bytes \<Rightarrow> bytes \<Rightarrow> bytes"
  ed_verify :: "bytes \<Rightarrow> bytes \<Rightarrow> bytes \<Rightarrow> bool"

datatype e2ee_error = DecryptFailed | TooManySkipped nat | NoReceivingChain | NoSendingChain | UnknownSender
  | BadGroupSignature | WrongGroup

section \<open>Key derivation\<close>

definition kdf_rk :: "primitives \<Rightarrow> bytes \<Rightarrow> bytes \<Rightarrow> bytes \<times> bytes" where
  "kdf_rk P root_key dh_out =
     (let out = derive_bytes P ''RabbitHole-E2EE v1 double-ratchet root-kdf'' (root_key @ dh_out) 64
      in (take 32 out, drop 32 out))"

definition kdf_ck :: "primitives \<Rightarrow> bytes \<Rightarrow> bytes \<times> bytes" where
  "kdf_ck P chain_key =
     (derive_bytes P ''RabbitHole-E2EE v1 double-ratchet chain-step'' chain_key 32,
      derive_bytes P ''RabbitHole-E2EE v1 double-ratchet message-key'' chain_key 32)"

definition kdf_sender_ck :: "primitives \<Rightarrow> bytes \<Rightarrow> bytes \<times> bytes" where
  "kdf_sender_ck P chain_key =
     (derive_bytes P ''RabbitHole-E2EE v1 sender-key chain-step'' chain_key 32,
      derive_bytes P ''RabbitHole-E2EE v1 sender-key message-key'' chain_key 32)"

definition aead_key_nonce :: "primitives \<Rightarrow> bytes \<Rightarrow> bytes \<times> bytes" where
  "aead_key_nonce P message_key =
     (derive_bytes P ''RabbitHole-E2EE v1 aead key'' message_key 32,
      take 12 (derive_bytes P ''RabbitHole-E2EE v1 aead nonce'' message_key 32))"

definition kdf_x3dh :: "primitives \<Rightarrow> bytes \<Rightarrow> bytes" where
  "kdf_x3dh P dh_concat = derive_bytes P ''RabbitHole-E2EE v1 x3dh-lite shared-secret'' dh_concat 32"

definition kdf_sealed :: "primitives \<Rightarrow> bytes \<Rightarrow> bytes" where
  "kdf_sealed P dh_out = derive_bytes P ''RabbitHole-E2EE v1 sealed-sender message-key'' dh_out 32"

section \<open>Authenticated encryption\<close>

definition aead_seal :: "primitives \<Rightarrow> bytes \<Rightarrow> bytes \<Rightarrow> bytes \<Rightarrow> bytes" where
  "aead_seal P message_key plaintext ad =
     (let (key, nonce) = aead_key_nonce P message_key in chacha_seal P key nonce plaintext ad)"

definition aead_open :: "primitives \<Rightarrow> bytes \<Rightarrow> bytes \<Rightarrow> bytes \<Rightarrow> e2ee_error + bytes" where
  "aead_open P message_key ciphertext ad =
     (let (key, nonce) = aead_key_nonce P message_key in
      case chacha_open P key nonce ciphertext ad of Some p \<Rightarrow> Inr p | None \<Rightarrow> Inl DecryptFailed)"

section \<open>Key pairs and the handshake\<close>

record key_pair =
  secret :: bytes
  public :: bytes

type_synonym rng = "bytes stream"

definition from_secret_bytes :: "primitives \<Rightarrow> bytes \<Rightarrow> key_pair" where
  "from_secret_bytes P b = \<lparr>secret = b, public = x25519_public P b\<rparr>"

definition generate :: "primitives \<Rightarrow> rng \<Rightarrow> key_pair \<times> rng" where
  "generate P r = (from_secret_bytes P (shd r), stl r)"

definition dh :: "primitives \<Rightarrow> key_pair \<Rightarrow> bytes \<Rightarrow> bytes" where
  "dh P k their_public = x25519 P (secret k) their_public"

definition derive_secret :: "primitives \<Rightarrow> bytes \<Rightarrow> bytes \<Rightarrow> bytes \<Rightarrow> bytes" where
  "derive_secret P dh1 dh2 dh3 = kdf_x3dh P (dh1 @ dh2 @ dh3)"

definition initiator_shared_secret :: "primitives \<Rightarrow> key_pair \<Rightarrow> key_pair \<Rightarrow> bytes \<Rightarrow> bytes \<Rightarrow> bytes" where
  "initiator_shared_secret P our_identity our_ephemeral their_identity their_prekey =
     (let dh1 = dh P our_identity their_prekey;
          dh2 = dh P our_ephemeral their_identity;
          dh3 = dh P our_ephemeral their_prekey
      in derive_secret P dh1 dh2 dh3)"

definition responder_shared_secret :: "primitives \<Rightarrow> key_pair \<Rightarrow> key_pair \<Rightarrow> bytes \<Rightarrow> bytes \<Rightarrow> bytes" where
  "responder_shared_secret P our_identity our_prekey their_identity their_ephemeral =
     (let dh1 = dh P our_prekey their_identity;
          dh2 = dh P our_identity their_ephemeral;
          dh3 = dh P our_prekey their_ephemeral
      in derive_secret P dh1 dh2 dh3)"

section \<open>Sealed envelopes\<close>

record sealed_envelope =
  ephemeral_pub :: bytes
  env_ciphertext :: bytes

definition sealed_ad :: "bytes \<Rightarrow> bytes \<Rightarrow> bytes" where
  "sealed_ad ad eph = ad @ eph"

definition sealed_seal :: "primitives \<Rightarrow> bytes \<Rightarrow> bytes \<Rightarrow> bytes \<Rightarrow> rng \<Rightarrow> sealed_envelope \<times> rng" where
  "sealed_seal P recipient_pub plaintext ad r =
     (let (ephemeral, r) = generate P r;
          mk = kdf_sealed P (dh P ephemeral recipient_pub)
      in (\<lparr>ephemeral_pub = public ephemeral,
           env_ciphertext = aead_seal P mk plaintext (sealed_ad ad (public ephemeral))\<rparr>, r))"

definition sealed_open :: "primitives \<Rightarrow> key_pair \<Rightarrow> sealed_envelope \<Rightarrow> bytes \<Rightarrow> e2ee_error + bytes" where
  "sealed_open P recipient envelope ad =
     (let mk = kdf_sealed P (dh P recipient (ephemeral_pub envelope))
      in aead_open P mk (env_ciphertext envelope) (sealed_ad ad (ephemeral_pub envelope)))"

section \<open>The Double Ratchet\<close>

record ratchet_header =
  ratchet_pub :: bytes
  prev_chain_len :: nat
  msg_num :: nat

definition header_bytes :: "ratchet_header \<Rightarrow> bytes" where
  "header_bytes h = ratchet_pub h @ le32 (of_nat (prev_chain_len h)) @ le32 (of_nat (msg_num h))"

record ratchet_message =
  rheader :: ratchet_header
  rciphertext :: bytes

definition ratchet_ad :: "bytes \<Rightarrow> ratchet_header \<Rightarrow> bytes" where
  "ratchet_ad ad h = ad @ header_bytes h"

record ratchet_session =
  dhs :: key_pair
  dhr :: "bytes option"
  rk :: bytes
  cks :: "bytes option"
  ckr :: "bytes option"
  ns :: nat
  nr :: nat
  pn :: nat
  skipped :: "(bytes \<times> nat, bytes) fmap"
  max_skip :: nat
  rand :: rng

definition DEFAULT_MAX_SKIP :: nat where "DEFAULT_MAX_SKIP = 1000"

definition initiator :: "primitives \<Rightarrow> bytes \<Rightarrow> bytes \<Rightarrow> rng \<Rightarrow> ratchet_session" where
  "initiator P shared their_prekey r =
     (let (k, r) = generate P r; (root, chain) = kdf_rk P shared (dh P k their_prekey)
      in \<lparr>dhs = k, dhr = Some their_prekey, rk = root, cks = Some chain, ckr = None, ns = 0, nr = 0, pn = 0,
          skipped = fmempty, max_skip = DEFAULT_MAX_SKIP, rand = r\<rparr>)"

definition responder :: "bytes \<Rightarrow> key_pair \<Rightarrow> rng \<Rightarrow> ratchet_session" where
  "responder shared our_prekey r =
     \<lparr>dhs = our_prekey, dhr = None, rk = shared, cks = None, ckr = None, ns = 0, nr = 0, pn = 0,
      skipped = fmempty, max_skip = DEFAULT_MAX_SKIP, rand = r\<rparr>"

definition set_max_skip :: "nat \<Rightarrow> ratchet_session \<Rightarrow> ratchet_session" where
  "set_max_skip n s = s\<lparr>max_skip := n\<rparr>"

definition ratchet_encrypt :: "primitives \<Rightarrow> bytes \<Rightarrow> bytes \<Rightarrow> ratchet_session \<Rightarrow> ratchet_session \<times> (e2ee_error + ratchet_message)" where
  "ratchet_encrypt P plaintext ad s =
     (case cks s of
        None \<Rightarrow> (s, Inl NoSendingChain)
      | Some ck \<Rightarrow>
          let (next, mk) = kdf_ck P ck;
              h = \<lparr>ratchet_pub = public (dhs s), prev_chain_len = pn s, msg_num = ns s\<rparr>
          in (s\<lparr>cks := Some next, ns := (ns s + 1) mod 2 ^ 32\<rparr>,
              Inr \<lparr>rheader = h, rciphertext = aead_seal P mk plaintext (ratchet_ad ad h)\<rparr>))"

text \<open>\<open>skip_on_chain\<close>: the chain key, the counter and the keys to be stored, or the refusal.\<close>

function skip_loop :: "primitives \<Rightarrow> bytes \<Rightarrow> bytes \<Rightarrow> nat \<Rightarrow> nat \<Rightarrow> bytes \<times> nat \<times> ((bytes \<times> nat) \<times> bytes) list" where
  "skip_loop P p ck n until =
     (if n < until then
        let (next, mk) = kdf_ck P ck; (ck', n', out) = skip_loop P p next (n + 1) until
        in (ck', n', ((p, n), mk) # out)
      else (ck, n, []))"
  by pat_completeness auto
termination
  by (relation "measure (\<lambda>(P, p, ck, n, until). until - n)") auto

declare skip_loop.simps [simp del]

definition skip_on_chain ::
  "primitives \<Rightarrow> bytes option \<Rightarrow> nat \<Rightarrow> bytes option \<Rightarrow> nat \<Rightarrow> nat \<Rightarrow> nat \<Rightarrow>
   e2ee_error + (bytes option \<times> nat \<times> ((bytes \<times> nat) \<times> bytes) list)" where
  "skip_on_chain P ck n their until limit already_stored =
     (if until \<le> n then Inr (ck, n, [])
      else if until - n > limit \<or> already_stored + (until - n) > limit then Inl (TooManySkipped limit)
      else case (ck, their) of
        (Some c, Some p) \<Rightarrow> let (c', n', out) = skip_loop P p c n until in Inr (Some c', n', out)
      | _ \<Rightarrow> Inr (ck, n, []))"

text \<open>The staged state of \<open>decrypt\<close> before the message's own chain is advanced: the session and the staged keys.\<close>

definition ratchet_step :: "primitives \<Rightarrow> ratchet_header \<Rightarrow> ratchet_session \<Rightarrow>
    rng \<times> (e2ee_error + (ratchet_session \<times> ((bytes \<times> nat) \<times> bytes) list))" where
  "ratchet_step P h s =
     (if dhr s = Some (ratchet_pub h) then (rand s, Inr (s, []))
      else
        case skip_on_chain P (ckr s) (nr s) (dhr s) (prev_chain_len h) (max_skip s) (fcard (fmdom (skipped s))) of
          Inl e \<Rightarrow> (rand s, Inl e)
        | Inr (_, _, staged) \<Rightarrow>
            let received = ratchet_pub h;
                (rk_a, ckr_new) = kdf_rk P (rk s) (dh P (dhs s) received);
                (k, r) = generate P (rand s);
                (rk_b, cks_new) = kdf_rk P rk_a (dh P k received)
            in (r, Inr (s\<lparr>pn := ns s, ns := 0, nr := 0, rk := rk_b, dhr := Some received, ckr := Some ckr_new,
                          cks := Some cks_new, dhs := k, rand := r\<rparr>, staged)))"

definition store_keys :: "((bytes \<times> nat) \<times> bytes) list \<Rightarrow> (bytes \<times> nat, bytes) fmap \<Rightarrow> (bytes \<times> nat, bytes) fmap" where
  "store_keys staged m = fold (\<lambda>(k, v). fmupd k v) staged m"

definition ratchet_decrypt :: "primitives \<Rightarrow> ratchet_message \<Rightarrow> bytes \<Rightarrow> ratchet_session \<Rightarrow> ratchet_session \<times> (e2ee_error + bytes)" where
  "ratchet_decrypt P m ad s =
     (let h = rheader m; ad_full = ratchet_ad ad h; key = (ratchet_pub h, msg_num h) in
      case fmlookup (skipped s) key of
        Some mk \<Rightarrow>
          (case aead_open P mk (rciphertext m) ad_full of
             Inl e \<Rightarrow> (s, Inl e)
           | Inr pt \<Rightarrow> (s\<lparr>skipped := fmdrop key (skipped s)\<rparr>, Inr pt))
      | None \<Rightarrow>
          (case ratchet_step P h s of
             (r, Inl e) \<Rightarrow> (s\<lparr>rand := r\<rparr>, Inl e)
           | (r, Inr (t, staged)) \<Rightarrow>
               (case skip_on_chain P (ckr t) (nr t) (dhr t) (msg_num h) (max_skip s)
                       (fcard (fmdom (skipped s)) + length staged) of
                  Inl e \<Rightarrow> (s\<lparr>rand := r\<rparr>, Inl e)
                | Inr (ck, n, staged') \<Rightarrow>
                    (case ck of
                       None \<Rightarrow> (s\<lparr>rand := r\<rparr>, Inl NoReceivingChain)
                     | Some chain \<Rightarrow>
                         let (next, mk) = kdf_ck P chain in
                         (case aead_open P mk (rciphertext m) ad_full of
                            Inl e \<Rightarrow> (s\<lparr>rand := r\<rparr>, Inl e)
                          | Inr pt \<Rightarrow>
                              (t\<lparr>ckr := Some next, nr := (n + 1) mod 2 ^ 32,
                                 skipped := store_keys (staged @ staged') (skipped s)\<rparr>, Inr pt))))))"

definition skipped_len :: "ratchet_session \<Rightarrow> nat" where
  "skipped_len s = fcard (fmdom (skipped s))"

section \<open>Group messages with sender keys\<close>

record distribution_message =
  dm_group :: bytes
  dm_member :: bytes
  dm_iteration :: nat
  dm_chain_key :: bytes
  dm_signing_public :: bytes

record group_message =
  gm_member :: bytes
  gm_iteration :: nat
  gm_ciphertext :: bytes
  gm_signature :: bytes

record own_sender =
  own_chain_key :: bytes
  own_iteration :: nat
  own_signing :: bytes

record peer_sender =
  peer_chain_key :: bytes
  peer_iteration :: nat
  peer_signing_public :: bytes
  peer_skipped :: "(nat, bytes) fmap"

record group_session =
  group_id :: bytes
  self_id :: bytes
  own :: own_sender
  peers :: "(bytes, peer_sender) fmap"
  group_max_skip :: nat

definition generate_sender :: "rng \<Rightarrow> own_sender \<times> rng" where
  "generate_sender r =
     (\<lparr>own_chain_key = shd r, own_iteration = 0, own_signing = shd (stl r)\<rparr>, stl (stl r))"

definition new_group :: "bytes \<Rightarrow> bytes \<Rightarrow> rng \<Rightarrow> group_session \<times> rng" where
  "new_group gid me r =
     (let (o', r) = generate_sender r
      in (\<lparr>group_id = gid, self_id = me, own = o', peers = fmempty, group_max_skip = DEFAULT_MAX_SKIP\<rparr>, r))"

definition set_group_max_skip :: "nat \<Rightarrow> group_session \<Rightarrow> group_session" where
  "set_group_max_skip n s = s\<lparr>group_max_skip := n\<rparr>"

definition distribution_of :: "primitives \<Rightarrow> group_session \<Rightarrow> distribution_message" where
  "distribution_of P s =
     \<lparr>dm_group = group_id s, dm_member = self_id s, dm_iteration = own_iteration (own s),
      dm_chain_key = own_chain_key (own s), dm_signing_public = ed_public P (own_signing (own s))\<rparr>"

definition add_member :: "primitives \<Rightarrow> distribution_message \<Rightarrow> group_session \<Rightarrow> group_session \<times> (e2ee_error + unit)" where
  "add_member P dm s =
     (if dm_group dm \<noteq> group_id s then (s, Inl WrongGroup)
      else if \<not> ed_key_ok P (dm_signing_public dm) then (s, Inl BadGroupSignature)
      else (s\<lparr>peers := fmupd (dm_member dm)
               \<lparr>peer_chain_key = dm_chain_key dm, peer_iteration = dm_iteration dm,
                peer_signing_public = dm_signing_public dm, peer_skipped = fmempty\<rparr> (peers s)\<rparr>, Inr ()))"

definition has_member :: "bytes \<Rightarrow> group_session \<Rightarrow> bool" where
  "has_member who s \<longleftrightarrow> fmlookup (peers s) who \<noteq> None"

definition group_ad :: "bytes \<Rightarrow> bytes \<Rightarrow> nat \<Rightarrow> bytes \<Rightarrow> bytes" where
  "group_ad gid who it ad = gid @ who @ le32 (of_nat it) @ ad"

definition signing_input :: "bytes \<Rightarrow> bytes \<Rightarrow> nat \<Rightarrow> bytes \<Rightarrow> bytes \<Rightarrow> bytes" where
  "signing_input gid who it ad ct =
     group_ad gid who it ad @ le64 (of_nat (length ct)) @ ct"

definition bump :: "nat \<Rightarrow> nat" where
  "bump n = min (2 ^ 32 - 1) (n + 1)"

definition group_encrypt :: "primitives \<Rightarrow> bytes \<Rightarrow> bytes \<Rightarrow> group_session \<Rightarrow> group_session \<times> group_message" where
  "group_encrypt P plaintext ad s =
     (let it = own_iteration (own s); (next, mk) = kdf_sender_ck P (own_chain_key (own s));
          ct = aead_seal P mk plaintext (group_ad (group_id s) (self_id s) it ad);
          sig = ed_sign P (own_signing (own s)) (signing_input (group_id s) (self_id s) it ad ct)
      in (s\<lparr>own := (own s)\<lparr>own_chain_key := next, own_iteration := bump it\<rparr>\<rparr>,
          \<lparr>gm_member = self_id s, gm_iteration = it, gm_ciphertext = ct, gm_signature = sig\<rparr>))"

text \<open>The loop that derives the keys between: the chain key it ends with and the staged keys.\<close>

function sender_loop :: "primitives \<Rightarrow> bytes \<Rightarrow> nat \<Rightarrow> nat \<Rightarrow> bytes \<times> (nat \<times> bytes) list" where
  "sender_loop P ck it until =
     (if it < until then
        let (next, mk) = kdf_sender_ck P ck; (ck', out) = sender_loop P next (it + 1) until in (ck', (it, mk) # out)
      else (ck, []))"
  by pat_completeness auto
termination
  by (relation "measure (\<lambda>(P, ck, it, until). until - it)") auto

declare sender_loop.simps [simp del]

definition peer_decrypt :: "primitives \<Rightarrow> bytes \<Rightarrow> nat \<Rightarrow> group_message \<Rightarrow> bytes \<Rightarrow> peer_sender \<Rightarrow> peer_sender \<times> (e2ee_error + bytes)" where
  "peer_decrypt P gid limit m ad p =
     (if \<not> ed_verify P (peer_signing_public p) (signing_input gid (gm_member m) (gm_iteration m) ad (gm_ciphertext m)) (gm_signature m)
      then (p, Inl BadGroupSignature)
      else
        let aad = group_ad gid (gm_member m) (gm_iteration m) ad in
        case fmlookup (peer_skipped p) (gm_iteration m) of
          Some mk \<Rightarrow>
            (case aead_open P mk (gm_ciphertext m) aad of
               Inl e \<Rightarrow> (p, Inl e)
             | Inr pt \<Rightarrow> (p\<lparr>peer_skipped := fmdrop (gm_iteration m) (peer_skipped p)\<rparr>, Inr pt))
        | None \<Rightarrow>
            if gm_iteration m < peer_iteration p then (p, Inl DecryptFailed)
            else
              let to_skip = gm_iteration m - peer_iteration p in
              if to_skip > limit \<or> fcard (fmdom (peer_skipped p)) + to_skip > limit then (p, Inl (TooManySkipped limit))
              else
                let (ck, staged) = sender_loop P (peer_chain_key p) (peer_iteration p) (gm_iteration m);
                    (next, mk) = kdf_sender_ck P ck in
                (case aead_open P mk (gm_ciphertext m) aad of
                   Inl e \<Rightarrow> (p, Inl e)
                 | Inr pt \<Rightarrow>
                     (p\<lparr>peer_skipped := fold (\<lambda>(i, k). fmupd i k) staged (peer_skipped p), peer_chain_key := next,
                        peer_iteration := bump (gm_iteration m)\<rparr>, Inr pt)))"

definition group_decrypt :: "primitives \<Rightarrow> group_message \<Rightarrow> bytes \<Rightarrow> group_session \<Rightarrow> group_session \<times> (e2ee_error + bytes)" where
  "group_decrypt P m ad s =
     (case fmlookup (peers s) (gm_member m) of
        None \<Rightarrow> (s, Inl UnknownSender)
      | Some p \<Rightarrow>
          let (p', r) = peer_decrypt P (group_id s) (group_max_skip s) m ad p
          in (s\<lparr>peers := fmupd (gm_member m) p' (peers s)\<rparr>, r))"

definition group_skipped_len :: "bytes \<Rightarrow> group_session \<Rightarrow> nat" where
  "group_skipped_len who s = (case fmlookup (peers s) who of None \<Rightarrow> 0 | Some p \<Rightarrow> fcard (fmdom (peer_skipped p)))"

definition rekey :: "rng \<Rightarrow> group_session \<Rightarrow> group_session \<times> rng" where
  "rekey r s = (let (o', r) = generate_sender r in (s\<lparr>own := o'\<rparr>, r))"

end
