(* ===== verification/E2ee_Ratchet.thy ===== *)
theory E2ee_Ratchet
  imports E2ee
begin

text \<open>
  Two Double Ratchet sessions that share a handshake secret. The ratchet keys of a conversation form one
  sequence, each made by the side that did not make the one before; each opens one sending chain, whose key
  comes out of the roots both sides derive from that sequence. Messages may overtake each other at will, may
  be lost, and any number of refused messages (forged, replayed, cut) may come in between: as long as no more
  messages are outstanding than a session stores keys for, every genuine one is read.
\<close>

section \<open>Chains\<close>

definition ck_at :: "primitives \<Rightarrow> bytes \<Rightarrow> nat \<Rightarrow> bytes" where
  "ck_at P c n = ((\<lambda>x. fst (kdf_ck P x)) ^^ n) c"

definition mk_at :: "primitives \<Rightarrow> bytes \<Rightarrow> nat \<Rightarrow> bytes" where
  "mk_at P c n = snd (kdf_ck P (ck_at P c n))"

lemma ck_at_simps [simp]: "ck_at P c 0 = c" "fst (kdf_ck P (ck_at P c n)) = ck_at P c (Suc n)"
  by (simp_all add: ck_at_def)

lemma kdf_ck_at: "kdf_ck P (ck_at P c n) = (ck_at P c (Suc n), mk_at P c n)"
  by (metis ck_at_simps(2) mk_at_def prod.collapse)

definition chain_keys :: "primitives \<Rightarrow> bytes \<Rightarrow> bytes \<Rightarrow> nat \<Rightarrow> nat \<Rightarrow> ((bytes \<times> nat) \<times> bytes) list" where
  "chain_keys P p c n until = map (\<lambda>j. ((p, j), mk_at P c j)) [n..<until]"

lemma skip_loop_chain:
  "n \<le> until \<Longrightarrow> skip_loop P p (ck_at P c n) n until = (ck_at P c until, until, chain_keys P p c n until)"
proof (induction "until - n" arbitrary: n)
  case 0
  then show ?case by (simp add: skip_loop.simps chain_keys_def)
next
  case (Suc k)
  then have "skip_loop P p (ck_at P c (Suc n)) (Suc n) until = (ck_at P c until, until, chain_keys P p c (Suc n) until)" by simp
  moreover have "n < until" using Suc by simp
  ultimately show ?case
    by (subst skip_loop.simps) (simp add: kdf_ck_at chain_keys_def upt_conv_Cons)
qed

lemma skip_on_chain_open:
  "n \<le> until \<Longrightarrow> skip_on_chain P (Some (ck_at P c n)) n (Some p) until lim st =
     (if n < until \<and> st + (until - n) > lim then Inl (TooManySkipped lim)
      else Inr (Some (ck_at P c until), until, chain_keys P p c n until))"
  by (auto simp: skip_on_chain_def skip_loop_chain chain_keys_def)

lemma lookup_store:
  "fmlookup (store_keys (chain_keys P p c n until) m) (q, j) =
     (if q = p \<and> n \<le> j \<and> j < until then Some (mk_at P c j) else fmlookup m (q, j))"
proof (induction until)
  case (Suc u)
  show ?case
  proof (cases "n \<le> u")
    case True
    then have "store_keys (chain_keys P p c n (Suc u)) m = fmupd (p, u) (mk_at P c u) (store_keys (chain_keys P p c n u) m)"
      by (simp add: store_keys_def chain_keys_def)
    then show ?thesis using Suc True by auto
  qed (auto simp: store_keys_def chain_keys_def)
qed (simp add: store_keys_def chain_keys_def)

lemma store_keys_append: "store_keys (xs @ ys) m = store_keys ys (store_keys xs m)"
  by (simp add: store_keys_def)

lemma length_chain_keys [simp]: "length (chain_keys P p c n until) = until - n"
  by (simp add: chain_keys_def)

section \<open>The conversation\<close>

datatype talker = Alice | Bob

fun other :: "talker \<Rightarrow> talker" where
  "other Alice = Bob" | "other Bob = Alice"

lemma other_simps [simp]: "other (other x) = x" "other x \<noteq> x" "x \<noteq> other x"
  by (cases x; simp)+

text \<open>What is under way to a talker: the message, with the plaintext and associated data it was made from.\<close>

type_synonym under_way = "ratchet_message \<times> bytes \<times> bytes"

record conversation =
  peer :: "talker \<Rightarrow> ratchet_session"
  flight :: "talker \<Rightarrow> under_way list"

inductive converse :: "primitives \<Rightarrow> conversation \<Rightarrow> conversation \<Rightarrow> bool" for P where
  sends: "ratchet_encrypt P pt ad (peer c x) = (s, Inr m) \<Longrightarrow> ns (peer c x) + 1 < 2 ^ 32 \<Longrightarrow>
    converse P c (c\<lparr>peer := (peer c)(x := s), flight := (flight c)(other x := flight c (other x) @ [(m, pt, ad)])\<rparr>)"
| receives: "flight c x = us @ (m, pt, ad) # vs \<Longrightarrow> ratchet_decrypt P m ad (peer c x) = (s, Inr q) \<Longrightarrow>
    converse P c (c\<lparr>peer := (peer c)(x := s), flight := (flight c)(x := us @ vs)\<rparr>)"
| refuses: "ratchet_decrypt P m ad (peer c x) = (s, Inl e) \<Longrightarrow> converse P c (c\<lparr>peer := (peer c)(x := s)\<rparr>)"

text \<open>Both sides after the handshake: Alice from Bob's published keys, Bob from what Alice sent along.\<close>

definition begun :: "primitives \<Rightarrow> key_pair \<Rightarrow> key_pair \<Rightarrow> key_pair \<Rightarrow> key_pair \<Rightarrow> (talker \<Rightarrow> rng) \<Rightarrow> conversation" where
  "begun P ika eka ikb spk R =
     \<lparr>peer = (\<lambda>x. case x of
        Alice \<Rightarrow> initiator P (initiator_shared_secret P ika eka (public ikb) (public spk)) (public spk) (R Alice)
      | Bob \<Rightarrow> responder (responder_shared_secret P ikb spk (public ika) (public eka)) spk (R Bob)),
      flight = (\<lambda>x. [])\<rparr>"

section \<open>The ratchet sequence\<close>

fun ratchet_root :: "primitives \<Rightarrow> bytes \<Rightarrow> (nat \<Rightarrow> key_pair) \<Rightarrow> nat \<Rightarrow> bytes" where
  "ratchet_root P sh K 0 = sh"
| "ratchet_root P sh K (Suc i) = fst (kdf_rk P (ratchet_root P sh K i) (dh P (K (Suc i)) (public (K i))))"

definition chain_of :: "primitives \<Rightarrow> bytes \<Rightarrow> (nat \<Rightarrow> key_pair) \<Rightarrow> nat \<Rightarrow> bytes" where
  "chain_of P sh K i = snd (kdf_rk P (ratchet_root P sh K (i - 1)) (dh P (K i) (public (K (i - 1)))))"

declare ratchet_root.simps(2) [simp del]

lemma root_cong: "\<forall>j \<le> i. K j = K' j \<Longrightarrow> ratchet_root P sh K i = ratchet_root P sh K' i"
  by (induction i) (auto simp: ratchet_root.simps)

lemma chain_cong: "\<forall>j \<le> i. K j = K' j \<Longrightarrow> chain_of P sh K i = chain_of P sh K' i"
  unfolding chain_of_def using root_cong [of "i - 1" K K'] by auto

lemma kdf_rk_root: "kdf_rk P (ratchet_root P sh K i) (dh P (K (Suc i)) (public (K i))) = (ratchet_root P sh K (Suc i), chain_of P sh K (Suc i))"
  by (simp add: chain_of_def ratchet_root.simps prod_eq_iff)

text \<open>
  A session in epoch \<open>e\<close>: its own ratchet key is the \<open>e\<close>-th, \<open>L i\<close> messages were sent on chain \<open>i\<close>.
\<close>

definition prev_len :: "(nat \<Rightarrow> nat) \<Rightarrow> nat \<Rightarrow> nat" where
  "prev_len L i = (if i < 2 then 0 else L (i - 2))"

definition side_ok :: "primitives \<Rightarrow> bytes \<Rightarrow> (nat \<Rightarrow> key_pair) \<Rightarrow> (nat \<Rightarrow> nat) \<Rightarrow> nat \<Rightarrow> ratchet_session \<Rightarrow> bool" where
  "side_ok P sh K L e S \<longleftrightarrow> L 0 = 0 \<and>
     dhs S = K e \<and> rk S = ratchet_root P sh K e \<and> ns S = L e \<and> pn S = prev_len L e \<and>
     (if e = 0 then dhr S = None \<and> cks S = None
      else dhr S = Some (public (K (e - 1))) \<and> cks S = Some (ck_at P (chain_of P sh K e) (L e))) \<and>
     (if e < 2 then ckr S = None \<and> nr S = 0
      else ckr S = Some (ck_at P (chain_of P sh K (e - 1)) (nr S)) \<and> nr S \<le> L (e - 1))"

lemma side_frame:
  "side_ok P sh K L e (S\<lparr>skipped := m\<rparr>) = side_ok P sh K L e S" "side_ok P sh K L e (S\<lparr>rand := r\<rparr>) = side_ok P sh K L e S"
  by (simp_all add: side_ok_def)

text \<open>The chains of a side in epoch \<open>y\<close>, and what a receiver in epoch \<open>x\<close> that counted to \<open>r\<close> has passed.\<close>

definition chains_of :: "nat \<Rightarrow> nat set" where
  "chains_of y = {i. 1 \<le> i \<and> i \<le> y \<and> even (y - i)}"

definition passed :: "nat \<Rightarrow> nat \<Rightarrow> nat \<Rightarrow> nat \<Rightarrow> bool" where
  "passed x r i n \<longleftrightarrow> i + 1 < x \<or> i + 1 = x \<and> n < r"

definition genuine :: "primitives \<Rightarrow> bytes \<Rightarrow> (nat \<Rightarrow> key_pair) \<Rightarrow> (nat \<Rightarrow> nat) \<Rightarrow> nat \<Rightarrow> nat \<Rightarrow> under_way \<Rightarrow> bool" where
  "genuine P sh K L i n = (\<lambda>(m, pt, ad).
     rheader m = \<lparr>ratchet_pub = public (K i), prev_chain_len = prev_len L i, msg_num = n\<rparr> \<and>
     rciphertext m = aead_seal P (mk_at P (chain_of P sh K i) n) pt (ratchet_ad ad (rheader m)))"

definition key_of :: "under_way \<Rightarrow> bytes \<times> nat" where
  "key_of = (\<lambda>(m, _, _). (ratchet_pub (rheader m), msg_num (rheader m)))"

lemma key_of_genuine: "genuine P sh K L i n u \<Longrightarrow> key_of u = (public (K i), n)"
  by (auto simp: genuine_def key_of_def)

definition flight_ok :: "primitives \<Rightarrow> bytes \<Rightarrow> (nat \<Rightarrow> key_pair) \<Rightarrow> (nat \<Rightarrow> nat) \<Rightarrow> nat \<Rightarrow> under_way list \<Rightarrow> bool" where
  "flight_ok P sh K L y F \<longleftrightarrow> distinct (map key_of F) \<and>
     (\<forall>u \<in> set F. \<exists>i \<in> chains_of y. \<exists>n < L i. genuine P sh K L i n u)"

definition recv_ok ::
  "primitives \<Rightarrow> bytes \<Rightarrow> (nat \<Rightarrow> key_pair) \<Rightarrow> (nat \<Rightarrow> nat) \<Rightarrow> nat \<Rightarrow> nat \<Rightarrow> ratchet_session \<Rightarrow> under_way list \<Rightarrow> bool" where
  "recv_ok P sh K L y x X F \<longleftrightarrow>
     (\<forall>i \<in> chains_of y. \<forall>n < L i. \<not> passed x (nr X) i n \<longrightarrow> (public (K i), n) \<in> key_of ` set F) \<and>
     (\<forall>p n mk. fmlookup (skipped X) (p, n) = Some mk \<longleftrightarrow>
        (\<exists>i \<in> chains_of y. n < L i \<and> p = public (K i) \<and> passed x (nr X) i n \<and> (p, n) \<in> key_of ` set F \<and>
           mk = mk_at P (chain_of P sh K i) n))"

section \<open>Reading one message\<close>

text \<open>What is relied on of the primitives: X25519 commutes, and opening undoes sealing.\<close>

definition agreeing :: "primitives \<Rightarrow> bool" where
  "agreeing P \<longleftrightarrow> (\<forall>a b. x25519 P a (x25519_public P b) = x25519 P b (x25519_public P a)) \<and>
     (\<forall>k n m a. chacha_open P k n (chacha_seal P k n m a) a = Some m)"

lemma aead_open_seal: "agreeing P \<Longrightarrow> aead_open P mk (aead_seal P mk pt ad) ad = Inr pt"
  by (simp add: agreeing_def aead_open_def aead_seal_def case_prod_unfold)

definition key_ok :: "primitives \<Rightarrow> key_pair \<Rightarrow> bool" where
  "key_ok P k \<longleftrightarrow> public k = x25519_public P (secret k)"

lemma dh_swap: "agreeing P \<Longrightarrow> key_ok P k \<Longrightarrow> key_ok P l \<Longrightarrow> dh P k (public l) = dh P l (public k)"
  by (simp add: agreeing_def dh_def key_ok_def)

lemma dec_skipped:
  assumes "agreeing P" "genuine P sh K L i n (m, pt, ad)"
    "fmlookup (skipped X) (public (K i), n) = Some (mk_at P (chain_of P sh K i) n)"
  shows "ratchet_decrypt P m ad X = (X\<lparr>skipped := fmdrop (public (K i), n) (skipped X)\<rparr>, Inr pt)"
  using assms by (auto simp: ratchet_decrypt_def genuine_def aead_open_seal Let_def)

lemma sealed_roundtrip:
  assumes "agreeing P" "key_ok P recipient" "sealed_seal P (public recipient) pt ad r = (env, r')"
  shows "sealed_open P recipient env ad = Inr pt"
proof -
  let ?e = "from_secret_bytes P (shd r)"
  have "key_ok P ?e" by (simp add: key_ok_def from_secret_bytes_def)
  from dh_swap [OF assms(1) assms(2) this] assms(3) show ?thesis
    by (auto simp: sealed_open_def sealed_seal_def generate_def aead_open_seal [OF assms(1)] Let_def)
qed

text \<open>A message of the chain being received: the keys up to it are stored, unless they are too many.\<close>

lemma dec_current:
  assumes P: "agreeing P" and g: "genuine P sh K L i n (m, pt, ad)"
    and S: "side_ok P sh K L (Suc i) X" "0 < i" and n: "nr X \<le> n" "n + 1 < 2 ^ 32"
    and miss: "fmlookup (skipped X) (public (K i), n) = None"
  shows "ratchet_decrypt P m ad X =
    (if nr X < n \<and> fcard (fmdom (skipped X)) + (n - nr X) > max_skip X then (X, Inl (TooManySkipped (max_skip X)))
     else (X\<lparr>ckr := Some (ck_at P (chain_of P sh K i) (Suc n)), nr := Suc n,
             skipped := store_keys (chain_keys P (public (K i)) (chain_of P sh K i) (nr X) n) (skipped X)\<rparr>, Inr pt))"
proof -
  have X: "dhr X = Some (public (K i))" "ckr X = Some (ck_at P (chain_of P sh K i) (nr X))"
    using S by (auto simp: side_ok_def)
  have h: "rheader m = \<lparr>ratchet_pub = public (K i), prev_chain_len = prev_len L i, msg_num = n\<rparr>"
    "rciphertext m = aead_seal P (mk_at P (chain_of P sh K i) n) pt (ratchet_ad ad (rheader m))"
    using g by (simp_all add: genuine_def)
  have "ratchet_step P (rheader m) X = (rand X, Inr (X, []))" using X h by (simp add: ratchet_step_def)
  then show ?thesis
    using X n miss h skip_on_chain_open [OF n(1), of P "chain_of P sh K i" "public (K i)" "max_skip X" "fcard (fmdom (skipped X))"]
    by (auto simp: ratchet_decrypt_def Let_def kdf_ck_at aead_open_seal [OF P])
qed

text \<open>A message that opens the next chain: the old chain is finished, and a new key is drawn.\<close>

definition old_keys :: "primitives \<Rightarrow> bytes \<Rightarrow> (nat \<Rightarrow> key_pair) \<Rightarrow> (nat \<Rightarrow> nat) \<Rightarrow> nat \<Rightarrow> ratchet_session \<Rightarrow> ((bytes \<times> nat) \<times> bytes) list" where
  "old_keys P sh K L e X =
     (if e < 2 then [] else chain_keys P (public (K (e - 1))) (chain_of P sh K (e - 1)) (nr X) (L (e - 1)))"

lemma finish_chain:
  assumes "side_ok P sh K L e X"
  shows "skip_on_chain P (ckr X) (nr X) (dhr X) (prev_len L (Suc e)) lim st =
    (if old_keys P sh K L e X \<noteq> [] \<and> st + length (old_keys P sh K L e X) > lim then Inl (TooManySkipped lim)
     else Inr (if e < 2 then ckr X else Some (ck_at P (chain_of P sh K (e - 1)) (L (e - 1))),
               if e < 2 then nr X else L (e - 1), old_keys P sh K L e X))"
proof (cases "e < 2")
  case True
  then show ?thesis using assms by (auto simp: side_ok_def skip_on_chain_def old_keys_def prev_len_def)
next
  case False
  then have X: "dhr X = Some (public (K (e - 1)))" "ckr X = Some (ck_at P (chain_of P sh K (e - 1)) (nr X))" "nr X \<le> L (e - 1)"
    "prev_len L (Suc e) = L (e - 1)"
    using assms by (auto simp: side_ok_def prev_len_def numeral_2_eq_2 split: if_splits)
  then show ?thesis
    using False skip_on_chain_open [OF X(3), of P "chain_of P sh K (e - 1)" "public (K (e - 1))" lim st]
    by (auto simp: old_keys_def chain_keys_def)
qed

lemma dec_next:
  assumes P: "agreeing P" and g: "genuine P sh K L (Suc e) n (m, pt, ad)"
    and S: "side_ok P sh K L e X" and keys: "key_ok P (K e)" "key_ok P (K (Suc e))"
    and new: "dhr X \<noteq> Some (public (K (Suc e)))" and n: "n + 1 < 2 ^ 32"
    and miss: "fmlookup (skipped X) (public (K (Suc e)), n) = None"
    and K': "K' = K(Suc (Suc e) := from_secret_bytes P (shd (rand X)))"
  defines "Q \<equiv> old_keys P sh K L e X" and "c \<equiv> chain_of P sh K (Suc e)"
  shows "ratchet_decrypt P m ad X =
    (if Q \<noteq> [] \<and> fcard (fmdom (skipped X)) + length Q > max_skip X then (X, Inl (TooManySkipped (max_skip X)))
     else if 0 < n \<and> fcard (fmdom (skipped X)) + length Q + n > max_skip X
     then (X\<lparr>rand := stl (rand X)\<rparr>, Inl (TooManySkipped (max_skip X)))
     else (X\<lparr>pn := L e, ns := 0, nr := Suc n, rk := ratchet_root P sh K' (Suc (Suc e)), dhr := Some (public (K (Suc e))),
             ckr := Some (ck_at P c (Suc n)), cks := Some (chain_of P sh K' (Suc (Suc e))), dhs := K' (Suc (Suc e)), rand := stl (rand X),
             skipped := store_keys (Q @ chain_keys P (public (K (Suc e))) c 0 n) (skipped X)\<rparr>, Inr pt))"
proof -
  have h: "rheader m = \<lparr>ratchet_pub = public (K (Suc e)), prev_chain_len = prev_len L (Suc e), msg_num = n\<rparr>"
    "rciphertext m = aead_seal P (mk_at P c n) pt (ratchet_ad ad (rheader m))"
    using g by (simp_all add: genuine_def c_def)
  have X: "dhs X = K e" "rk X = ratchet_root P sh K e" "ns X = L e" using S by (simp_all add: side_ok_def)
  have old: "K' j = K j" if "j < Suc (Suc e)" for j using that K' by simp
  have rk1: "kdf_rk P (rk X) (dh P (dhs X) (public (K (Suc e)))) = (ratchet_root P sh K (Suc e), c)"
    unfolding X c_def using kdf_rk_root [of P sh K e] dh_swap [OF P keys] by simp
  have "ratchet_root P sh K (Suc e) = ratchet_root P sh K' (Suc e)" using old by (intro root_cong) simp
  then have rk2: "kdf_rk P (ratchet_root P sh K (Suc e)) (dh P (K' (Suc (Suc e))) (public (K (Suc e)))) = (ratchet_root P sh K' (Suc (Suc e)), chain_of P sh K' (Suc (Suc e)))"
    using kdf_rk_root [of P sh K' "Suc e"] old [of "Suc e"] by simp
  have gen: "generate P (rand X) = (K' (Suc (Suc e)), stl (rand X))" by (simp add: generate_def K')
  have step: "ratchet_step P (rheader m) X =
    (if Q \<noteq> [] \<and> fcard (fmdom (skipped X)) + length Q > max_skip X then (rand X, Inl (TooManySkipped (max_skip X)))
     else (stl (rand X), Inr (X\<lparr>pn := L e, ns := 0, nr := 0, rk := ratchet_root P sh K' (Suc (Suc e)), dhr := Some (public (K (Suc e))),
       ckr := Some c, cks := Some (chain_of P sh K' (Suc (Suc e))), dhs := K' (Suc (Suc e)), rand := stl (rand X)\<rparr>, Q)))"
    using new finish_chain [OF S] by (simp add: ratchet_step_def h Q_def rk1 rk2 gen X(3) Let_def)
  have skip: "skip_on_chain P (Some c) 0 (Some (public (K (Suc e)))) n lim st =
     (if 0 < n \<and> st + n > lim then Inl (TooManySkipped lim) else Inr (Some (ck_at P c n), n, chain_keys P (public (K (Suc e))) c 0 n))"
    for lim st using skip_on_chain_open [of 0 n P c "public (K (Suc e))" lim st] by simp
  show ?thesis
    unfolding ratchet_decrypt_def Let_def step using h n miss kdf_ck_at [of P c 0]
    by (simp add: skip kdf_ck_at aead_open_seal [OF P])
qed

text \<open>A refused message changes nothing but the random source.\<close>

lemma dec_refused:
  "ratchet_decrypt P m ad X = (s, Inl e) \<Longrightarrow> s = X \<or> s = X\<lparr>rand := stl (rand X)\<rparr>"
proof -
  have "fst (ratchet_step P h X) \<in> {rand X, stl (rand X)}" for h
    by (auto simp: ratchet_step_def generate_def Let_def split: sum.splits prod.splits)
  then have r: "X\<lparr>rand := fst (ratchet_step P h X)\<rparr> \<in> {X, X\<lparr>rand := stl (rand X)\<rparr>}" for h
    by (metis (no_types, lifting) insertCI insertE ratchet_session.surjective ratchet_session.update_convs(11) singletonD)
  assume "ratchet_decrypt P m ad X = (s, Inl e)"
  then consider "s = X" | r' where "s = X\<lparr>rand := r'\<rparr>" "r' = fst (ratchet_step P (rheader m) X)"
    by (auto simp: ratchet_decrypt_def Let_def split: option.splits sum.splits prod.splits)
  then show ?thesis using r by cases auto
qed

section \<open>Advancing the receiver\<close>

lemma flight_without:
  assumes "flight_ok P sh K L y (us @ u # vs)"
  shows "flight_ok P sh K L y (us @ vs)" "key_of ` set (us @ vs) = key_of ` set (us @ u # vs) - {key_of u}"
  using assms by (auto simp: flight_ok_def)

lemma recv_advance:
  assumes R: "recv_ok P sh K L y x X F" "flight_ok P sh K L y F" "F = us @ u # vs"
    and u: "key_of u = (public (K i), n)" "i \<in> chains_of y"
    and inj: "inj_on (\<lambda>j. public (K j)) (chains_of y)"
    and A: "\<And>j k. (j, k) \<in> A \<Longrightarrow> j \<in> chains_of y \<and> k < L j \<and> \<not> passed x (nr X) j k \<and> (j, k) \<noteq> (i, n)"
    and step: "\<And>j k. j \<in> chains_of y \<Longrightarrow> k < L j \<Longrightarrow>
      passed x' (nr X') j k = (passed x (nr X) j k \<or> (j, k) \<in> A \<or> (j, k) = (i, n))"
    and look: "\<And>p k mk. fmlookup (skipped X') (p, k) = Some mk \<longleftrightarrow>
      (\<exists>j. (j, k) \<in> A \<and> p = public (K j) \<and> mk = mk_at P (chain_of P sh K j) k) \<or>
      fmlookup (skipped X) (p, k) = Some mk \<and> (p, k) \<noteq> (public (K i), n)"
  shows "recv_ok P sh K L y x' X' (us @ vs)"
proof -
  have keys: "key_of ` set (us @ vs) = key_of ` set F - {(public (K i), n)}"
    using flight_without(2) [of P sh K L y us u vs] R(2,3) u(1) by simp
  have out: "(public (K j), k) \<in> key_of ` set F" if "j \<in> chains_of y" "k < L j" "\<not> passed x (nr X) j k" for j k
    using R(1) that by (auto simp: recv_ok_def)
  have same: "public (K j) = public (K i) \<longleftrightarrow> j = i" if "j \<in> chains_of y" for j
    using inj that u(2) by (auto dest: inj_onD)
  have one: "(public (K j), k) \<in> key_of ` set (us @ vs)" if "j \<in> chains_of y" "k < L j" "\<not> passed x' (nr X') j k" for j k
    using that step [OF that(1,2)] out [OF that(1,2)] same [OF that(1)] unfolding keys by auto
  have two: "(\<exists>j. (j, k) \<in> A \<and> p = public (K j) \<and> mk = mk_at P (chain_of P sh K j) k) \<or>
      fmlookup (skipped X) (p, k) = Some mk \<and> (p, k) \<noteq> (public (K i), n) \<longleftrightarrow>
    (\<exists>j \<in> chains_of y. k < L j \<and> p = public (K j) \<and> passed x' (nr X') j k \<and> (p, k) \<in> key_of ` set (us @ vs) \<and>
       mk = mk_at P (chain_of P sh K j) k)" (is "?l \<longleftrightarrow> ?r") for p k mk
  proof
    assume ?l
    then show ?r
    proof
      assume "\<exists>j. (j, k) \<in> A \<and> p = public (K j) \<and> mk = mk_at P (chain_of P sh K j) k"
      then obtain j where j: "(j, k) \<in> A" "p = public (K j)" "mk = mk_at P (chain_of P sh K j) k" by blast
      then show ?r using A [OF j(1)] step [of j k] out [of j k] same [of j] unfolding keys by auto
    next
      assume l: "fmlookup (skipped X) (p, k) = Some mk \<and> (p, k) \<noteq> (public (K i), n)"
      then obtain j where "j \<in> chains_of y" "k < L j" "p = public (K j)" "passed x (nr X) j k" "(p, k) \<in> key_of ` set F"
        "mk = mk_at P (chain_of P sh K j) k"
        using R(1) unfolding recv_ok_def by blast
      then show ?r using l step [of j k] unfolding keys by blast
    qed
  next
    assume ?r
    then obtain j where j: "j \<in> chains_of y" "k < L j" "p = public (K j)" "passed x' (nr X') j k"
      "(p, k) \<in> key_of ` set F" "(p, k) \<noteq> (public (K i), n)" "mk = mk_at P (chain_of P sh K j) k"
      unfolding keys by blast
    then consider "passed x (nr X) j k" | "(j, k) \<in> A" using step by auto
    then show ?l
    proof cases
      case 1
      then have "fmlookup (skipped X) (p, k) = Some mk" using R(1) j unfolding recv_ok_def by blast
      then show ?thesis using j by blast
    qed (use j in blast)
  qed
  show ?thesis unfolding recv_ok_def look two using one by blast
qed

lemma chains_below: "i \<in> chains_of y \<Longrightarrow> 0 < i \<and> i \<le> y"
  by (simp add: chains_of_def)

lemma chains_gap: "i \<in> chains_of y \<Longrightarrow> y = Suc x \<or> x = Suc y \<Longrightarrow> i \<noteq> x \<and> (i < x \<longrightarrow> Suc i = x \<or> Suc i < x)"
  by (auto simp: chains_of_def)

lemma chains_last: "0 < y \<Longrightarrow> y \<in> chains_of y"
  by (simp add: chains_of_def)

lemma chains_prev: "y = Suc x \<or> x = Suc y \<Longrightarrow> 2 \<le> x \<Longrightarrow> x - 1 \<in> chains_of y"
  by (auto simp: chains_of_def)

text \<open>Sequences that agree as far as they are used.\<close>

definition same_upto :: "nat \<Rightarrow> (nat \<Rightarrow> key_pair) \<Rightarrow> (nat \<Rightarrow> nat) \<Rightarrow> (nat \<Rightarrow> key_pair) \<Rightarrow> (nat \<Rightarrow> nat) \<Rightarrow> bool" where
  "same_upto t K L K' L' \<longleftrightarrow> (\<forall>i \<le> t. K' i = K i \<and> L' i = L i)"

lemma same_parts:
  assumes "same_upto t K L K' L'" "i \<le> t"
  shows "K' i = K i" "L' i = L i" "prev_len L' i = prev_len L i" "ratchet_root P sh K' i = ratchet_root P sh K i"
    "chain_of P sh K' i = chain_of P sh K i" "genuine P sh K' L' i = genuine P sh K L i"
proof -
  show k: "K' i = K i" "L' i = L i" using assms by (simp_all add: same_upto_def)
  show p: "prev_len L' i = prev_len L i" using assms by (simp add: same_upto_def prev_len_def)
  show "ratchet_root P sh K' i = ratchet_root P sh K i" using assms by (intro root_cong) (simp add: same_upto_def)
  show c: "chain_of P sh K' i = chain_of P sh K i" using assms by (intro chain_cong) (simp add: same_upto_def)
  show "genuine P sh K' L' i = genuine P sh K L i" unfolding genuine_def k p c ..
qed

lemma side_same:
  assumes "same_upto t K L K' L'" "e \<le> t" "side_ok P sh K L e X"
  shows "side_ok P sh K' L' e X"
proof -
  have "e - 1 \<le> t" using assms(2) by simp
  note same = same_parts [OF assms(1,2)] same_parts [OF assms(1) this] same_parts(2) [OF assms(1) le0]
  show ?thesis using assms(3) unfolding side_ok_def same .
qed

lemma flight_same:
  assumes "same_upto t K L K' L'" "y \<le> t" "flight_ok P sh K L y F"
  shows "flight_ok P sh K' L' y F"
proof -
  have "L' i = L i \<and> genuine P sh K' L' i = genuine P sh K L i" if "i \<in> chains_of y" for i
    using same_parts(2,6) [OF assms(1)] chains_below [OF that] assms(2) by simp
  then show ?thesis using assms(3) unfolding flight_ok_def by simp
qed

lemma recv_same:
  assumes "same_upto t K L K' L'" "y \<le> t" "recv_ok P sh K L y x X F"
  shows "recv_ok P sh K' L' y x X F"
proof -
  have "L' i = L i \<and> K' i = K i \<and> chain_of P sh K' i = chain_of P sh K i" if "i \<in> chains_of y" for i
    using same_parts(1,2,5) [OF assms(1)] chains_below [OF that] assms(2) by simp
  then show ?thesis using assms(3) unfolding recv_ok_def by simp
qed

text \<open>A new chain with nothing sent on it adds nothing to receive.\<close>

lemma chains_grow: "chains_of (y + 2) = insert (y + 2) (chains_of y)"
  by (auto simp: chains_of_def) presburger+

lemma recv_new_chain: "L (y + 2) = 0 \<Longrightarrow> recv_ok P sh K L y x X F \<Longrightarrow> recv_ok P sh K L (y + 2) x X F"
  unfolding recv_ok_def chains_grow by simp

lemma flight_new_chain: "flight_ok P sh K L y F \<Longrightarrow> flight_ok P sh K L (y + 2) F"
  unfolding flight_ok_def chains_grow by blast

section \<open>One delivery\<close>

lemma keys_outstanding:
  assumes R: "recv_ok P sh K L y x X F" and inj: "inj_on (\<lambda>j. public (K j)) (chains_of y)"
    and B: "\<And>j k. (j, k) \<in> B \<Longrightarrow> j \<in> chains_of y \<and> k < L j \<and> \<not> passed x (nr X) j k"
  shows "fcard (fmdom (skipped X)) + card B \<le> length F"
proof -
  let ?f = "\<lambda>(j, k). (public (K j), k)"
  have f: "inj_on ?f B" using B inj by (auto simp: inj_on_def)
  have D: "fset (fmdom (skipped X)) \<subseteq> key_of ` set F"
    using R unfolding recv_ok_def by (auto simp: fmlookup_dom_iff)
  have I: "?f ` B \<subseteq> key_of ` set F" using B R unfolding recv_ok_def by fast
  have "(public (K j), k) \<notin> fset (fmdom (skipped X))" if "(j, k) \<in> B" for j k
  proof
    assume "(public (K j), k) \<in> fset (fmdom (skipped X))"
    then obtain i where "i \<in> chains_of y" "public (K j) = public (K i)" "passed x (nr X) i k"
      using R unfolding recv_ok_def by (auto simp: fmlookup_dom_iff)
    then show False using B [OF that] inj by (metis inj_onD)
  qed
  then have disj: "fset (fmdom (skipped X)) \<inter> ?f ` B = {}" by auto
  have fin: "finite (?f ` B)" using I by (rule finite_subset) simp
  have "fcard (fmdom (skipped X)) + card B = card (fset (fmdom (skipped X)) \<union> ?f ` B)"
    using card_Un_disjoint [OF _ fin disj] card_image [OF f] by (simp add: fcard.rep_eq)
  also have "\<dots> \<le> card (key_of ` set F)" using D I by (intro card_mono) auto
  also have "\<dots> \<le> length F" using card_image_le [of "set F" key_of] card_length [of F] by simp
  finally show ?thesis .
qed

lemma missed_lookup:
  assumes R: "recv_ok P sh K L y x X F" and inj: "inj_on (\<lambda>j. public (K j)) (chains_of y)"
    and i: "i \<in> chains_of y" "\<not> passed x (nr X) i n"
  shows "fmlookup (skipped X) (public (K i), n) = None"
proof (rule ccontr)
  assume "fmlookup (skipped X) (public (K i), n) \<noteq> None"
  then obtain j where "j \<in> chains_of y" "public (K i) = public (K j)" "passed x (nr X) j n"
    using R unfolding recv_ok_def by blast
  then show False using i inj by (metis inj_onD)
qed

lemma deliver_skipped:
  assumes P: "agreeing P" and R: "recv_ok P sh K L y x X F" "flight_ok P sh K L y F" "F = us @ (m, pt, ad) # vs"
    and g: "genuine P sh K L i n (m, pt, ad)" "i \<in> chains_of y" "n < L i" "passed x (nr X) i n"
    and inj: "inj_on (\<lambda>j. public (K j)) (chains_of y)"
  shows "\<exists>s. ratchet_decrypt P m ad X = (s, Inr pt) \<and> rand s = rand X \<and>
    (side_ok P sh K L x X \<longrightarrow> side_ok P sh K L x s) \<and> recv_ok P sh K L y x s (us @ vs)"
proof -
  have k: "key_of (m, pt, ad) = (public (K i), n)" using key_of_genuine [OF g(1)] .
  then have "(public (K i), n) \<in> key_of ` set F" using R(3) by force
  then have hit: "fmlookup (skipped X) (public (K i), n) = Some (mk_at P (chain_of P sh K i) n)"
    using R(1) g unfolding recv_ok_def by blast
  let ?s = "X\<lparr>skipped := fmdrop (public (K i), n) (skipped X)\<rparr>"
  have "recv_ok P sh K L y x ?s (us @ vs)"
    by (rule recv_advance [OF R k g(2) inj, where A = "{}"]) (use g(4) in auto)
  moreover have "side_ok P sh K L x ?s" if "side_ok P sh K L x X" using that by (simp only: side_frame)
  ultimately show ?thesis using dec_skipped [OF P g(1) hit] by auto
qed

lemma deliver_current:
  assumes P: "agreeing P" and R: "recv_ok P sh K L y x X F" "flight_ok P sh K L y F" "F = us @ (m, pt, ad) # vs"
    and g: "genuine P sh K L i n (m, pt, ad)" "i \<in> chains_of y" "n < L i" "\<not> passed x (nr X) i n" and x: "x = Suc i"
    and inj: "inj_on (\<lambda>j. public (K j)) (chains_of y)" and S: "side_ok P sh K L x X" and L: "L i < 2 ^ 32"
  shows "\<exists>s. rand s = rand X \<and> side_ok P sh K L x s \<and> recv_ok P sh K L y x s (us @ vs) \<and>
    (ratchet_decrypt P m ad X = (s, Inr pt) \<or>
     length F > max_skip X \<and> snd (ratchet_decrypt P m ad X) = Inl (TooManySkipped (max_skip X)))"
proof -
  have k: "key_of (m, pt, ad) = (public (K i), n)" using key_of_genuine [OF g(1)] .
  have n: "nr X \<le> n" "n + 1 < 2 ^ 32" using g(3,4) x L by (simp_all add: passed_def)
  have i: "0 < i" using chains_below [OF g(2)] by simp
  note miss = missed_lookup [OF R(1) inj g(2,4)]
  let ?s = "X\<lparr>ckr := Some (ck_at P (chain_of P sh K i) (Suc n)), nr := Suc n,
             skipped := store_keys (chain_keys P (public (K i)) (chain_of P sh K i) (nr X) n) (skipped X)\<rparr>"
  have "recv_ok P sh K L y x ?s (us @ vs)"
  proof (rule recv_advance [OF R k g(2) inj, where A = "{i} \<times> {nr X..<n}"])
    show "\<And>j k. j \<in> chains_of y \<Longrightarrow> k < L j \<Longrightarrow>
      passed x (nr ?s) j k = (passed x (nr X) j k \<or> (j, k) \<in> {i} \<times> {nr X..<n} \<or> (j, k) = (i, n))"
      using n(1) x by (auto simp: passed_def)
    show "\<And>p k mk. fmlookup (skipped ?s) (p, k) = Some mk \<longleftrightarrow>
      (\<exists>j. (j, k) \<in> {i} \<times> {nr X..<n} \<and> p = public (K j) \<and> mk = mk_at P (chain_of P sh K j) k) \<or>
      fmlookup (skipped X) (p, k) = Some mk \<and> (p, k) \<noteq> (public (K i), n)"
      using miss missed_lookup [OF R(1) inj g(2)] x by (auto simp: lookup_store passed_def)
  qed (use g x n in \<open>auto simp: passed_def\<close>)
  moreover have "side_ok P sh K L x ?s" using S g(3) x i by (auto simp: side_ok_def)
  moreover have "fcard (fmdom (skipped X)) + (n - nr X) < length F"
    using keys_outstanding [OF R(1) inj, of "{i} \<times> {nr X..n}"] g x n by (fastforce simp: passed_def)
  ultimately show ?thesis
    using dec_current [OF P g(1) S [unfolded x] i n miss] by (intro exI [of _ ?s]) auto
qed

lemma lookup_old_keys:
  "fmlookup (store_keys (old_keys P sh K L e X) m) (q, j) =
     (if 2 \<le> e \<and> q = public (K (e - 1)) \<and> nr X \<le> j \<and> j < L (e - 1) then Some (mk_at P (chain_of P sh K (e - 1)) j)
      else fmlookup m (q, j))"
  by (simp add: old_keys_def lookup_store) (simp add: store_keys_def)

definition newly :: "(nat \<Rightarrow> nat) \<Rightarrow> nat \<Rightarrow> nat \<Rightarrow> nat \<Rightarrow> (nat \<times> nat) set" where
  "newly L x r n = (if x < 2 then {} else {x - 1} \<times> {r..<L (x - 1)}) \<union> {Suc x} \<times> {..<n}"

lemma card_newly: "card (insert (Suc x, n) (newly L x (nr X) n)) = length (old_keys P sh K L x X) + n + 1"
proof -
  have "card (newly L x (nr X) n) = length (old_keys P sh K L x X) + n"
    unfolding newly_def old_keys_def
    by (subst card_Un_disjoint) (auto simp: card_cartesian_product)
  moreover have "finite (newly L x (nr X) n)" "(Suc x, n) \<notin> newly L x (nr X) n" by (auto simp: newly_def)
  ultimately show ?thesis by simp
qed

lemma deliver_next:
  assumes P: "agreeing P" and R: "recv_ok P sh K L (Suc x) x X F" "flight_ok P sh K L (Suc x) F" "F = us @ (m, pt, ad) # vs"
    and g: "genuine P sh K L (Suc x) n (m, pt, ad)" "n < L (Suc x)"
    and inj: "inj_on (\<lambda>j. public (K j)) {..Suc x}" and keys: "key_ok P (K x)" "key_ok P (K (Suc x))"
    and S: "side_ok P sh K L x X" and L: "L (Suc x) < 2 ^ 32"
    and K': "K' = K(Suc (Suc x) := from_secret_bytes P (shd (rand X)))" and L': "L' = L(Suc (Suc x) := 0)"
  shows "\<exists>s. rand s = stl (rand X) \<and> side_ok P sh K' L' (Suc (Suc x)) s \<and> recv_ok P sh K' L' (Suc x) (Suc (Suc x)) s (us @ vs) \<and>
    (ratchet_decrypt P m ad X = (s, Inr pt) \<or>
     length F > max_skip X \<and> snd (ratchet_decrypt P m ad X) = Inl (TooManySkipped (max_skip X)))"
proof -
  let ?y = "Suc x"
  have ch: "?y \<in> chains_of ?y" by (rule chains_last) simp
  have injc: "inj_on (\<lambda>j. public (K j)) (chains_of ?y)" by (rule inj_on_subset [OF inj]) (auto simp: chains_of_def)
  have k: "key_of (m, pt, ad) = (public (K ?y), n)" using key_of_genuine [OF g(1)] .
  have np: "\<not> passed x (nr X) ?y j" for j by (simp add: passed_def)
  note miss = missed_lookup [OF R(1) injc ch np]
  have apart: "public (K (x - 1)) \<noteq> public (K ?y)"
  proof -
    have "x - 1 \<noteq> ?y" "x - 1 \<in> {..?y}" "?y \<in> {..?y}" by auto
    then show ?thesis using inj_on_contraD [OF inj] by blast
  qed
  then have new: "dhr X \<noteq> Some (public (K ?y))" using S by (auto simp: side_ok_def split: if_splits)
  have n: "n + 1 < 2 ^ 32" using g(2) L by simp
  let ?c = "chain_of P sh K ?y" and ?O = "old_keys P sh K L x X" and ?A = "newly L x (nr X) n"
  let ?s = "X\<lparr>pn := L x, ns := 0, nr := Suc n, rk := ratchet_root P sh K' (Suc ?y), dhr := Some (public (K ?y)),
             ckr := Some (ck_at P ?c (Suc n)), cks := Some (chain_of P sh K' (Suc ?y)), dhs := K' (Suc ?y), rand := stl (rand X),
             skipped := store_keys (?O @ chain_keys P (public (K ?y)) ?c 0 n) (skipped X)\<rparr>"
  have same: "same_upto ?y K L K' L'" by (simp add: same_upto_def K' L')
  have odd: "j = ?y \<or> Suc j < x \<or> 2 \<le> x \<and> j = x - 1" if "j \<in> chains_of ?y" for j
    using that chains_below [OF that] chains_gap [OF that, of x] by auto
  have A: "j \<in> chains_of ?y \<and> l < L j \<and> \<not> passed x (nr X) j l \<and> (j, l) \<noteq> (?y, n)" if "(j, l) \<in> ?A" for j l
    using that ch g(2) chains_prev [of ?y x] by (auto simp: newly_def passed_def split: if_splits)
  have "recv_ok P sh K L ?y (Suc ?y) ?s (us @ vs)"
  proof (rule recv_advance [OF R k ch injc, where A = ?A])
    show "passed (Suc ?y) (nr ?s) j l = (passed x (nr X) j l \<or> (j, l) \<in> ?A \<or> (j, l) = (?y, n))"
      if "j \<in> chains_of ?y" "l < L j" for j l
      using odd [OF that(1)]
    proof (elim disjE conjE)
      assume "2 \<le> x" "j = x - 1"
      then show ?thesis using that(2) by (auto simp: passed_def newly_def)
    qed (auto simp: passed_def newly_def)
    show "fmlookup (skipped ?s) (p, l) = Some mk \<longleftrightarrow>
      (\<exists>j. (j, l) \<in> ?A \<and> p = public (K j) \<and> mk = mk_at P (chain_of P sh K j) l) \<or>
      fmlookup (skipped X) (p, l) = Some mk \<and> (p, l) \<noteq> (public (K ?y), n)" for p l mk
    proof -
      have "fmlookup (skipped X) (public (K (x - 1)), l) = None" if "2 \<le> x" "nr X \<le> l"
        using missed_lookup [OF R(1) injc chains_prev [of ?y x]] that by (simp add: passed_def)
      then show ?thesis
        using miss apart by (auto simp: store_keys_append lookup_store lookup_old_keys newly_def split: if_splits)
    qed
  qed (use A in auto)
  then have "recv_ok P sh K' L' ?y (Suc ?y) ?s (us @ vs)" by (rule recv_same [OF same order.refl])
  moreover have "side_ok P sh K' L' (Suc ?y) ?s"
    using same_parts [OF same, of ?y] same_parts(2) [OF same, of 0] S g(2) by (auto simp: side_ok_def prev_len_def L' K')
  moreover have "fcard (fmdom (skipped X)) + (length ?O + n + 1) \<le> length F"
    using keys_outstanding [OF R(1) injc, of "insert (?y, n) ?A"] A ch g(2) np card_newly [of x n L X P sh K] by auto
  ultimately show ?thesis
    using dec_next [OF P g(1) S keys new n miss K'] by (intro exI [of _ ?s]) auto
qed

section \<open>One message sent\<close>

lemma send_side:
  assumes "side_ok P sh K L e S" "ratchet_encrypt P pt ad S = (s, Inr m)" "ns S + 1 < 2 ^ 32"
  shows "0 < e" "genuine P sh K L e (L e) (m, pt, ad)" "side_ok P sh K (L(e := Suc (L e))) e s"
    "rand s = rand S" "skipped s = skipped S" "nr s = nr S"
proof -
  show e: "0 < e" using assms by (cases e) (auto simp: side_ok_def ratchet_encrypt_def)
  then have c: "cks S = Some (ck_at P (chain_of P sh K e) (L e))" "ns S = L e" "pn S = prev_len L e" "dhs S = K e"
    using assms(1) by (simp_all add: side_ok_def)
  then have s: "s = S\<lparr>cks := Some (ck_at P (chain_of P sh K e) (Suc (L e))), ns := Suc (L e)\<rparr>"
    "rheader m = \<lparr>ratchet_pub = public (K e), prev_chain_len = prev_len L e, msg_num = L e\<rparr>"
    "rciphertext m = aead_seal P (mk_at P (chain_of P sh K e) (L e)) pt (ratchet_ad ad (rheader m))"
    using assms(2,3) by (auto simp: ratchet_encrypt_def kdf_ck_at Let_def)
  show "genuine P sh K L e (L e) (m, pt, ad)" using s by (simp add: genuine_def)
  have "prev_len (L(e := Suc (L e))) e = prev_len L e" by (simp add: prev_len_def) arith
  then show "side_ok P sh K (L(e := Suc (L e))) e s" using assms(1) e by (auto simp: s(1) side_ok_def)
  show "rand s = rand S" "skipped s = skipped S" "nr s = nr S" by (simp_all add: s(1))
qed

lemma send_other:
  assumes "side_ok P sh K L y Y" "y = Suc e \<or> e = Suc y" "0 < e"
  shows "side_ok P sh K (L(e := Suc (L e))) y Y"
proof -
  have "prev_len (L(e := Suc (L e))) y = prev_len L y" using assms(2,3) by (auto simp: prev_len_def)
  moreover have "y \<noteq> e" using assms(2) by auto
  ultimately show ?thesis using assms by (auto simp: side_ok_def)
qed

lemma genuine_longer: "i \<le> Suc e \<Longrightarrow> 0 < e \<Longrightarrow> genuine P sh K (L(e := Suc (L e))) i = genuine P sh K L i"
proof -
  assume "i \<le> Suc e" "0 < e"
  then have "prev_len (L(e := Suc (L e))) i = prev_len L i" by (auto simp: prev_len_def)
  then show ?thesis by (intro ext) (simp add: genuine_def)
qed

lemma send_flight_back:
  assumes "flight_ok P sh K L y F" "y = Suc e \<or> e = Suc y \<or> y = e" "0 < e"
  shows "flight_ok P sh K (L(e := Suc (L e))) y F"
proof -
  have "genuine P sh K (L(e := Suc (L e))) i = genuine P sh K L i" if "i \<in> chains_of y" for i
    using genuine_longer [OF _ assms(3)] chains_below [OF that] assms(2) by auto
  moreover have "n < L i \<Longrightarrow> n < (L(e := Suc (L e))) i" for i n by auto
  ultimately have "\<exists>i \<in> chains_of y. \<exists>n < (L(e := Suc (L e))) i. genuine P sh K (L(e := Suc (L e))) i n u"
    if "\<exists>i \<in> chains_of y. \<exists>n < L i. genuine P sh K L i n u" for u
    using that by (elim bexE exE conjE) (intro bexI exI conjI, simp_all only:)
  then show ?thesis using assms(1) unfolding flight_ok_def by blast
qed

lemma send_recv_back:
  assumes "recv_ok P sh K L y x X F" "y = Suc e \<or> e = Suc y" "skipped X' = skipped X" "nr X' = nr X"
  shows "recv_ok P sh K (L(e := Suc (L e))) y x X' F"
proof -
  have "(L(e := Suc (L e))) i = L i" if "i \<in> chains_of y" for i using chains_gap [OF that assms(2)] by simp
  then show ?thesis using assms(1) unfolding recv_ok_def assms(3,4) by simp
qed

lemma send_flight:
  assumes F: "flight_ok P sh K L e F" and g: "genuine P sh K L e (L e) u" and e: "0 < e"
    and inj: "inj_on (\<lambda>j. public (K j)) (chains_of e)"
  shows "flight_ok P sh K (L(e := Suc (L e))) e (F @ [u])"
proof -
  have "key_of u \<notin> key_of ` set F"
  proof
    assume "key_of u \<in> key_of ` set F"
    then obtain v where v: "v \<in> set F" "key_of v = key_of u" by auto
    then obtain i n where "i \<in> chains_of e" "n < L i" "genuine P sh K L i n v" using F unfolding flight_ok_def by blast
    then show False using v(2) key_of_genuine [OF g] key_of_genuine inj_onD [OF inj _ _ chains_last [OF e]] by fastforce
  qed
  moreover have "genuine P sh K (L(e := Suc (L e))) e (L e) u" using g genuine_longer [of e e] e by simp
  ultimately show ?thesis
    using send_flight_back [OF F _ e] chains_last [OF e] unfolding flight_ok_def by fastforce
qed

lemma send_recv:
  assumes R: "recv_ok P sh K L e x X F" and S: "side_ok P sh K L x X" and near: "x = Suc e \<or> e = Suc x" and e: "0 < e"
    and u: "key_of u = (public (K e), L e)" and inj: "inj_on (\<lambda>j. public (K j)) (chains_of e)"
  shows "recv_ok P sh K (L(e := Suc (L e))) e x X (F @ [u])"
proof -
  let ?L = "L(e := Suc (L e))"
  have np: "\<not> passed x (nr X) e (L e)" using S near e by (auto simp: passed_def side_ok_def)
  have len: "n < ?L i \<longleftrightarrow> n < L i \<or> i = e \<and> n = L e" for i n by auto
  have keys: "key_of ` set (F @ [u]) = insert (public (K e), L e) (key_of ` set F)" using u by simp
  have fresh: "(p, n) \<noteq> (public (K e), L e)" if "i \<in> chains_of e" "n < L i" "p = public (K i)" for i n p
    using that inj_onD [OF inj _ that(1) chains_last [OF e]] by auto
  have "n < ?L i \<and> p = public (K i) \<and> passed x (nr X) i n \<and> (p, n) \<in> key_of ` set (F @ [u]) \<longleftrightarrow>
        n < L i \<and> p = public (K i) \<and> passed x (nr X) i n \<and> (p, n) \<in> key_of ` set F" if "i \<in> chains_of e" for i p n
    unfolding len keys using np fresh [OF that, of n p] by auto
  then have "(\<exists>i \<in> chains_of e. n < ?L i \<and> p = public (K i) \<and> passed x (nr X) i n \<and> (p, n) \<in> key_of ` set (F @ [u]) \<and>
           mk = mk_at P (chain_of P sh K i) n) \<longleftrightarrow>
        (\<exists>i \<in> chains_of e. n < L i \<and> p = public (K i) \<and> passed x (nr X) i n \<and> (p, n) \<in> key_of ` set F \<and>
           mk = mk_at P (chain_of P sh K i) n)" for p n mk
    by (metis (no_types, opaque_lifting))
  note two = this
  have "(public (K i), n) \<in> key_of ` set (F @ [u])" if "i \<in> chains_of e" "n < ?L i" "\<not> passed x (nr X) i n" for i n
    using that R unfolding len keys recv_ok_def by blast
  then show ?thesis using R unfolding recv_ok_def two by blast
qed

section \<open>Every conversation\<close>

text \<open>The handshake gives both sides one secret.\<close>

lemma shared_secrets_agree:
  assumes "agreeing P" "key_ok P ika" "key_ok P eka" "key_ok P ikb" "key_ok P spk"
  shows "responder_shared_secret P ikb spk (public ika) (public eka) = initiator_shared_secret P ika eka (public ikb) (public spk)"
  using dh_swap [OF assms(1)] assms(2-5) by (simp add: responder_shared_secret_def initiator_shared_secret_def Let_def)

definition drawn :: "primitives \<Rightarrow> (talker \<Rightarrow> rng) \<Rightarrow> (talker \<Rightarrow> nat) \<Rightarrow> bytes set" where
  "drawn P R k = {x25519_public P (R x !! j) | x j. j < k x}"

definition fresh_keys :: "primitives \<Rightarrow> (talker \<Rightarrow> rng) \<Rightarrow> bytes \<Rightarrow> nat \<Rightarrow> bool" where
  "fresh_keys P R pk N \<longleftrightarrow>
     (\<forall>a b. \<forall>i < N. \<forall>j < N. x25519_public P (R a !! i) = x25519_public P (R b !! j) \<longrightarrow> a = b \<and> i = j) \<and>
     (\<forall>a. \<forall>i < N. x25519_public P (R a !! i) \<noteq> pk)"

text \<open>One talker in epoch \<open>x\<close>, its partner in epoch \<open>y\<close>; \<open>D\<close> are the public keys there can be.\<close>

definition talker_ok ::
  "primitives \<Rightarrow> bytes \<Rightarrow> bytes set \<Rightarrow> (nat \<Rightarrow> key_pair) \<Rightarrow> (nat \<Rightarrow> nat) \<Rightarrow> nat \<Rightarrow> nat \<Rightarrow> ratchet_session \<Rightarrow> under_way list \<Rightarrow> rng \<Rightarrow> bool" where
  "talker_ok P sh D K L x y X F r \<longleftrightarrow> (x = Suc y \<or> y = Suc x) \<and>
     side_ok P sh K L x X \<and> flight_ok P sh K L y F \<and> recv_ok P sh K L y x X F \<and>
     rand X = r \<and> max_skip X = DEFAULT_MAX_SKIP \<and>
     (\<forall>i \<le> x. key_ok P (K i) \<and> public (K i) \<in> D) \<and> inj_on (\<lambda>i. public (K i)) {..x}"

definition talk_ok :: "primitives \<Rightarrow> bytes \<Rightarrow> (talker \<Rightarrow> rng) \<Rightarrow> bytes \<Rightarrow> (talker \<Rightarrow> nat) \<Rightarrow> (nat \<Rightarrow> key_pair) \<Rightarrow> (nat \<Rightarrow> nat) \<Rightarrow>
    (talker \<Rightarrow> nat) \<Rightarrow> conversation \<Rightarrow> bool" where
  "talk_ok P sh R pk k K L e c \<longleftrightarrow>
     (\<forall>z. talker_ok P sh (insert pk (drawn P R k)) K L (e z) (e (other z)) (peer c z) (flight c z) (sdrop (k z) (R z))) \<and>
     (\<forall>i. L i < 2 ^ 32)"

lemma talk_okI:
  assumes "talker_ok P sh (insert pk (drawn P R k)) K L (e x) (e (other x)) (peer c x) (flight c x) (sdrop (k x) (R x))"
    and "talker_ok P sh (insert pk (drawn P R k)) K L (e (other x)) (e x) (peer c (other x)) (flight c (other x)) (sdrop (k (other x)) (R (other x)))"
    and "\<forall>i. L i < 2 ^ 32"
  shows "talk_ok P sh R pk k K L e c"
  unfolding talk_ok_def
proof (intro conjI allI)
  fix z
  have "z = x \<or> z = other x" by (cases z; cases x) auto
  then show "talker_ok P sh (insert pk (drawn P R k)) K L (e z) (e (other z)) (peer c z) (flight c z) (sdrop (k z) (R z))"
    using assms(1,2) by (elim disjE) simp_all
qed (use assms(3) in blast)

lemma talk_okD:
  assumes "talk_ok P sh R pk k K L e c"
  shows "talker_ok P sh (insert pk (drawn P R k)) K L (e x) (e (other x)) (peer c x) (flight c x) (sdrop (k x) (R x))" "L i < 2 ^ 32"
  using assms by (simp_all add: talk_ok_def)

lemma drawn_mono: "(\<And>x. k x \<le> k' x) \<Longrightarrow> drawn P R k \<subseteq> drawn P R k'"
  unfolding drawn_def using less_le_trans by blast

lemma chains_inj: "talker_ok P sh D K L x y X F r \<Longrightarrow> inj_on (\<lambda>i. public (K i)) (chains_of x)"
  by (rule inj_on_subset [of _ "{..x}"]) (auto simp: talker_ok_def chains_of_def)

lemma send_keeps:
  assumes T: "talk_ok P sh R pk k K L e c" and s: "ratchet_encrypt P pt ad (peer c x) = (s, Inr m)" "ns (peer c x) + 1 < 2 ^ 32"
  shows "talk_ok P sh R pk k K (L(e x := Suc (L (e x)))) e
    (c\<lparr>peer := (peer c)(x := s), flight := (flight c)(other x := flight c (other x) @ [(m, pt, ad)])\<rparr>)"
proof -
  let ?y = "other x"
  note X = talk_okD(1) [OF T, of x] and Y = talk_okD(1) [OF T, of ?y, simplified]
  have S: "side_ok P sh K L (e x) (peer c x)" using X by (simp add: talker_ok_def)
  note sent = send_side [OF S s]
  have near: "e ?y = Suc (e x) \<or> e x = Suc (e ?y)" using X by (auto simp: talker_ok_def)
  have ms: "max_skip s = max_skip (peer c x)" using s(1) by (auto simp: ratchet_encrypt_def Let_def split: option.splits prod.splits)
  show ?thesis
  proof (rule talk_okI [where x = x], goal_cases)
    case 1
    show ?case using X near sent(3,4) ms
      by (auto simp: talker_ok_def intro!: send_flight_back [OF _ _ sent(1)] send_recv_back [OF _ near sent(5,6)])
  next
    case 2
    show ?case using Y near sent chains_inj [OF X] key_of_genuine [OF sent(2)]
      by (auto simp: talker_ok_def intro!: send_flight send_recv send_other)
  next
    case 3
    show ?case using talk_okD(2) [OF T] S s(2) by (auto simp: side_ok_def)
  qed
qed

lemma party_mono: "talker_ok P sh D K L x y X F r \<Longrightarrow> D \<subseteq> D' \<Longrightarrow> talker_ok P sh D' K L x y X F r"
  by (auto simp: talker_ok_def)

lemma drawn_grow: "drawn P R k \<subseteq> drawn P R (k(x := Suc (k x)))"
  by (rule drawn_mono) simp

lemma refuse_keeps:
  assumes T: "talk_ok P sh R pk k K L e c" and d: "ratchet_decrypt P m ad (peer c x) = (s, Inl err)"
  shows "\<exists>k'. talk_ok P sh R pk k' K L e (c\<lparr>peer := (peer c)(x := s)\<rparr>) \<and> (\<forall>z. k' z \<le> Suc (k z))"
proof (cases "s = peer c x")
  case True
  then show ?thesis using T by (intro exI [of _ k]) simp
next
  case False
  then have s: "s = (peer c x)\<lparr>rand := stl (rand (peer c x))\<rparr>" using dec_refused [OF d] by blast
  let ?k = "k(x := Suc (k x))"
  note grow = drawn_grow [of P R k x, THEN insert_mono]
  have "talk_ok P sh R pk ?k K L e (c\<lparr>peer := (peer c)(x := s)\<rparr>)"
  proof (rule talk_okI [where x = x], goal_cases)
    case 1
    show ?case using party_mono [OF talk_okD(1) [OF T, of x] grow] unfolding talker_ok_def s
      by (simp add: side_frame recv_ok_def del: sdrop.simps(2))
  next
    case 2
    show ?case using party_mono [OF talk_okD(1) [OF T, of "other x"] grow] by simp
  next
    case 3
    show ?case using talk_okD(2) [OF T] by blast
  qed
  then show ?thesis by (intro exI [of _ ?k]) simp
qed

text \<open>What a genuine message does to its receiver.\<close>

lemma deliver_party:
  assumes P: "agreeing P" and X: "talker_ok P sh D K L x y X (us @ (m, pt, ad) # vs) r"
    and Y: "talker_ok P sh D K L y x Y G r'" and L: "\<forall>i. L i < 2 ^ 32"
  defines "K' \<equiv> K(Suc (Suc x) := from_secret_bytes P (shd r))" and "L' \<equiv> L(Suc (Suc x) := 0)"
  shows "\<exists>s. (ratchet_decrypt P m ad X = (s, Inr pt) \<or>
       length (us @ (m, pt, ad) # vs) > DEFAULT_MAX_SKIP \<and> snd (ratchet_decrypt P m ad X) = Inl (TooManySkipped DEFAULT_MAX_SKIP)) \<and>
    (rand s = r \<and> side_ok P sh K L x s \<and> recv_ok P sh K L y x s (us @ vs) \<or>
     y = Suc x \<and> rand s = stl r \<and> side_ok P sh K' L' (Suc (Suc x)) s \<and> recv_ok P sh K' L' y (Suc (Suc x)) s (us @ vs))"
proof -
  let ?F = "us @ (m, pt, ad) # vs"
  have x: "x = Suc y \<or> y = Suc x" "side_ok P sh K L x X" "flight_ok P sh K L y ?F" "recv_ok P sh K L y x X ?F" "rand X = r"
    "max_skip X = DEFAULT_MAX_SKIP" "key_ok P (K x)"
    using X by (simp_all add: talker_ok_def)
  have y: "inj_on (\<lambda>i. public (K i)) {..y}" "key_ok P (K y)" using Y by (simp_all add: talker_ok_def)
  obtain i n where g: "genuine P sh K L i n (m, pt, ad)" "i \<in> chains_of y" "n < L i" using x(3) by (auto simp: flight_ok_def)
  note inj = chains_inj [OF Y]
  consider "passed x (nr X) i n" | "x = Suc i" "\<not> passed x (nr X) i n" | "i = y" "y = Suc x"
    using chains_below [OF g(2)] chains_gap [OF g(2), of x] x(1) by (cases "n < nr X") (auto simp: passed_def)
  then show ?thesis
  proof cases
    case 1
    from deliver_skipped [OF P x(4,3) refl g 1 inj] x(2,5) show ?thesis by auto
  next
    case 2
    from deliver_current [OF P x(4,3) refl g 2(2) 2(1) inj x(2)] L x(5,6) show ?thesis by fastforce
  next
    case 3
    from deliver_next [OF P x(4,3) [unfolded 3(2)] refl g(1,3) [unfolded 3] y(1) [unfolded 3(2)] x(7) y(2) [unfolded 3(2)] x(2) _ refl refl]
      L x(5,6) 3(2) show ?thesis unfolding K'_def L'_def by fastforce
  qed
qed

lemma dec_max_skip: "ratchet_decrypt P m ad X = (s, q) \<Longrightarrow> max_skip s = max_skip X"
proof -
  have "max_skip t = max_skip X" if "ratchet_step P h X = (r, Inr (t, st))" for h r t st
    using that by (auto simp: ratchet_step_def generate_def Let_def split: if_splits sum.splits prod.splits)
  then show "ratchet_decrypt P m ad X = (s, q) \<Longrightarrow> max_skip s = max_skip X"
    by (auto simp: ratchet_decrypt_def Let_def split: option.splits sum.splits prod.splits)
qed

lemma fresh_draw:
  assumes "fresh_keys P R pk N" "k x < N" "\<forall>z. k z \<le> N"
  shows "x25519_public P (R x !! k x) \<notin> insert pk (drawn P R k)"
proof
  assume "x25519_public P (R x !! k x) \<in> insert pk (drawn P R k)"
  then obtain z j where "j < k z" "x25519_public P (R x !! k x) = x25519_public P (R z !! j)"
    using assms(1,2) by (auto simp: drawn_def fresh_keys_def)
  moreover from this(1) have "j < N" using assms(3) less_le_trans by blast
  ultimately show False using assms(1,2) unfolding fresh_keys_def by blast
qed

lemma new_epoch_party:
  assumes Y: "talker_ok P sh D K L (Suc x) x Y G r'" and d: "pub \<notin> D" "pub = x25519_public P b"
    and K': "K' = K(Suc (Suc x) := from_secret_bytes P b)"
  shows "\<forall>i \<le> Suc (Suc x). key_ok P (K' i) \<and> public (K' i) \<in> insert pub D" "inj_on (\<lambda>i. public (K' i)) {..Suc (Suc x)}"
proof -
  have old: "\<forall>i \<le> Suc x. key_ok P (K i) \<and> public (K i) \<in> D" "inj_on (\<lambda>i. public (K i)) {..Suc x}"
    using Y by (simp_all add: talker_ok_def)
  have new: "key_ok P (K' (Suc (Suc x)))" "public (K' (Suc (Suc x))) = pub" by (simp_all add: K' d key_ok_def from_secret_bytes_def)
  show "\<forall>i \<le> Suc (Suc x). key_ok P (K' i) \<and> public (K' i) \<in> insert pub D"
    using old(1) new by (auto simp: K' le_Suc_eq)
  have "inj_on (\<lambda>i. public (K' i)) {..Suc x} = inj_on (\<lambda>i. public (K i)) {..Suc x}"
    by (intro inj_on_cong) (simp add: K')
  moreover have "public (K' (Suc (Suc x))) \<notin> (\<lambda>i. public (K' i)) ` {..Suc x}"
    using old(1) d(1) unfolding new(2) by (auto simp: K')
  ultimately show "inj_on (\<lambda>i. public (K' i)) {..Suc (Suc x)}" using old(2) by (simp add: atMost_Suc inj_on_insert)
qed

lemma receive_keeps:
  assumes P: "agreeing P" and T: "talk_ok P sh R pk k K L e c" and f: "flight c x = us @ (m, pt, ad) # vs"
    and d: "ratchet_decrypt P m ad (peer c x) = (s, Inr q)" and fresh: "fresh_keys P R pk N" "\<forall>z. k z < N"
  shows "\<exists>k' K' L' e'. talk_ok P sh R pk k' K' L' e' (c\<lparr>peer := (peer c)(x := s), flight := (flight c)(x := us @ vs)\<rparr>) \<and>
    (\<forall>z. k' z \<le> Suc (k z))"
proof -
  let ?y = "other x" and ?r = "sdrop (k x) (R x)" and ?c = "c\<lparr>peer := (peer c)(x := s), flight := (flight c)(x := us @ vs)\<rparr>"
  note X = talk_okD(1) [OF T, of x, unfolded f] and Y = talk_okD(1) [OF T, of ?y, unfolded other_simps]
  define K' where "K' = K(Suc (Suc (e x)) := from_secret_bytes P (shd ?r))"
  define L' where "L' = L(Suc (Suc (e x)) := 0)"
  have len: "\<forall>i. L i < 2 ^ 32" using talk_okD(2) [OF T] by blast
  have ms: "max_skip s = DEFAULT_MAX_SKIP" using dec_max_skip [OF d] X by (simp add: talker_ok_def)
  have fl: "flight_ok P sh K L (e ?y) (us @ vs)" using X flight_without(1) unfolding talker_ok_def by blast
  consider (stay) "rand s = ?r" "side_ok P sh K L (e x) s" "recv_ok P sh K L (e ?y) (e x) s (us @ vs)"
    | (turn) "e ?y = Suc (e x)" "rand s = stl ?r" "side_ok P sh K' L' (Suc (Suc (e x))) s"
      "recv_ok P sh K' L' (e ?y) (Suc (Suc (e x))) s (us @ vs)"
    using deliver_party [OF P X Y len] d unfolding K'_def L'_def by auto
  then show ?thesis
  proof cases
    case stay
    have "talk_ok P sh R pk k K L e ?c"
    proof (rule talk_okI [where x = x], goal_cases)
      case 1
      show ?case using X stay ms fl by (simp add: talker_ok_def)
    qed (use Y len in simp_all)
    then show ?thesis by (intro exI [of _ k] exI [of _ K] exI [of _ L] exI [of _ e]) simp
  next
    case turn
    let ?k = "k(x := Suc (k x))" and ?e = "e(x := Suc (Suc (e x)))"
    let ?D = "insert pk (drawn P R k)" and ?D' = "insert pk (drawn P R ?k)" and ?p = "x25519_public P (R x !! k x)"
    have "?p \<in> drawn P R ?k" by (auto simp: drawn_def)
    then have D: "insert ?p ?D \<subseteq> ?D'" using drawn_grow [of P R k x] by blast
    have np: "?p \<notin> ?D" using fresh_draw [OF fresh(1)] fresh(2) less_imp_le by blast
    have b: "?p = x25519_public P (shd ?r)" by (simp add: sdrop_simps)
    note new = new_epoch_party [OF Y [unfolded turn(1)] np b K'_def]
    have keys: "\<forall>i \<le> Suc (Suc (e x)). key_ok P (K' i) \<and> public (K' i) \<in> ?D'" using new(1) D by blast
    have same: "same_upto (e ?y) K L K' L'" by (simp add: same_upto_def turn(1) K'_def L'_def)
    have "talk_ok P sh R pk ?k K' L' ?e ?c"
    proof (rule talk_okI [where x = x], goal_cases)
      case 1
      have "rand s = sdrop (Suc (k x)) (R x)" using turn(2) by (simp only: sdrop_simps)
      then show ?case using turn(1,3,4) ms flight_same [OF same order.refl fl] keys new(2) by (simp add: talker_ok_def del: sdrop.simps(2))
    next
      case 2
      have old: "side_ok P sh K L (e ?y) (peer c ?y)" "flight_ok P sh K L (e x) (flight c ?y)"
        "recv_ok P sh K L (e x) (e ?y) (peer c ?y) (flight c ?y)" "rand (peer c ?y) = sdrop (k ?y) (R ?y)"
        "max_skip (peer c ?y) = DEFAULT_MAX_SKIP"
        using Y by (simp_all add: talker_ok_def)
      have le: "e x \<le> e ?y" and zero: "L' (e x + 2) = 0" using turn(1) by (simp_all add: L'_def)
      have "flight_ok P sh K' L' (Suc (Suc (e x))) (flight c ?y)" "recv_ok P sh K' L' (Suc (Suc (e x))) (e ?y) (peer c ?y) (flight c ?y)"
        using flight_new_chain [OF flight_same [OF same le old(2)]] recv_new_chain [where L = L', OF zero recv_same [OF same le old(3)]]
        by simp_all
      moreover have "inj_on (\<lambda>i. public (K' i)) {..e ?y}" by (rule inj_on_subset [OF new(2)]) (simp add: turn(1))
      ultimately show ?case using keys turn(1) side_same [OF same order.refl old(1)] old(4,5) by (simp add: talker_ok_def)
    next
      case 3
      show ?case using len by (simp add: L'_def)
    qed
    then show ?thesis by (intro exI [of _ ?k] exI [of _ K'] exI [of _ L'] exI [of _ ?e]) simp
  qed
qed

lemma nothing_received: "flight_ok P sh K (\<lambda>_. 0) y []" "skipped X = fmempty \<Longrightarrow> recv_ok P sh K (\<lambda>_. 0) y x X []"
  by (simp_all add: flight_ok_def recv_ok_def)

fun first_epoch :: "talker \<Rightarrow> nat" where
  "first_epoch Alice = Suc 0" | "first_epoch Bob = 0"

lemma begun_ok:
  assumes P: "agreeing P" and keys: "key_ok P ika" "key_ok P eka" "key_ok P ikb" "key_ok P spk"
    and fresh: "fresh_keys P R (public spk) (Suc n)"
  shows "\<exists>sh K. talk_ok P sh R (public spk) first_epoch K (\<lambda>_. 0) first_epoch
    (begun P ika eka ikb spk R)"
proof -
  let ?sh = "initiator_shared_secret P ika eka (public ikb) (public spk)" and ?a = "from_secret_bytes P (shd (R Alice))"
  let ?k = first_epoch and ?D = "insert (public spk) (drawn P R first_epoch)"
  define K where "K = (\<lambda>i :: nat. if i = 0 then spk else ?a)"
  have ak: "key_ok P ?a" by (simp add: key_ok_def from_secret_bytes_def)
  have "public ?a \<in> drawn P R ?k" unfolding drawn_def from_secret_bytes_def
    by (simp, intro exI [of _ Alice] exI [of _ 0]) simp
  then have kd: "\<forall>i \<le> e. key_ok P (K i) \<and> public (K i) \<in> ?D" for e using keys(4) ak by (simp add: K_def)
  have "public ?a \<noteq> public spk" using fresh unfolding fresh_keys_def from_secret_bytes_def by (metis key_pair.select_convs(2) snth.simps(1) zero_less_Suc)
  then have inj: "inj_on (\<lambda>i. public (K i)) {..e}" if "e \<le> 1" for e using that by (auto simp: inj_on_def K_def)
  have kdf: "kdf_rk P ?sh (dh P ?a (public spk)) = (ratchet_root P ?sh K 1, chain_of P ?sh K 1)"
    using kdf_rk_root [of P ?sh K 0] by (simp add: K_def)
  let ?A = "initiator P ?sh (public spk) (R Alice)" and ?B = "responder (responder_shared_secret P ikb spk (public ika) (public eka)) spk (R Bob)"
  have "talk_ok P ?sh R (public spk) ?k K (\<lambda>_. 0) ?k (begun P ika eka ikb spk R)"
  proof (rule talk_okI [where x = Alice], goal_cases)
    case 1
    have "side_ok P ?sh K (\<lambda>_. 0) 1 ?A"
      by (simp add: initiator_def generate_def kdf side_ok_def prev_len_def) (simp add: K_def)
    then show ?case using kd [of 1] inj [of 1]
      by (simp add: begun_def talker_ok_def nothing_received) (simp add: initiator_def generate_def nothing_received case_prod_unfold Let_def)
  next
    case 2
    have "side_ok P ?sh K (\<lambda>_. 0) 0 ?B"
      using shared_secrets_agree [OF P keys] by (simp add: responder_def side_ok_def prev_len_def K_def)
    then show ?case using kd [of 0] inj [of 0]
      by (simp add: begun_def talker_ok_def nothing_received) (simp add: responder_def nothing_received)
  qed simp
  then show ?thesis by blast
qed

lemma talk_run:
  assumes "agreeing P" "fresh_keys P R pk N" "(converse P ^^ n) c c'" "talk_ok P sh R pk k K L e c" "\<forall>z. k z + n \<le> N"
  shows "\<exists>k' K' L' e'. talk_ok P sh R pk k' K' L' e' c'"
  using assms(3-5)
proof (induction n arbitrary: c k K L e)
  case (Suc n)
  then obtain c1 where c1: "converse P c c1" "(converse P ^^ n) c1 c'" by (blast elim: relpowp_Suc_E2)
  have N: "\<forall>z. k z < N"
  proof
    fix z
    show "k z < N" using Suc.prems(3) [THEN spec, of z] by simp
  qed
  have "\<exists>k' K' L' e'. talk_ok P sh R pk k' K' L' e' c1 \<and> (\<forall>z. k' z \<le> Suc (k z))"
    using c1(1)
  proof cases
    case (sends pt ad x s m)
    then show ?thesis using send_keeps [OF Suc.prems(2) sends(2,3)] le_SucI by blast
  next
    case (receives x us m pt ad vs s q)
    then show ?thesis using receive_keeps [OF assms(1) Suc.prems(2) receives(2,3) assms(2) N] by simp
  next
    case (refuses m ad x s e)
    then show ?thesis using refuse_keeps [OF Suc.prems(2) refuses(2)] by blast
  qed
  then obtain k' K' L' e' where k': "talk_ok P sh R pk k' K' L' e' c1" "\<forall>z. k' z \<le> Suc (k z)" by blast
  have "\<forall>z. k' z + n \<le> N" using k'(2) Suc.prems(3) by (metis add_Suc_right add_Suc add_le_mono1 order.trans)
  from Suc.IH [OF c1(2) k'(1) this] show ?case .
qed auto

text \<open>
  C5. Messages get through: after the handshake, whatever the two sides send, in whatever order messages arrive, and
  whatever forged or repeated messages are refused in between, every message under way is read as it was written,
  unless more messages are outstanding than a session keeps keys for. The keys drawn must be distinct, X25519
  commute and opening undo sealing.
\<close>

theorem ratchet_delivers:
  assumes "agreeing P" and "\<forall>q \<in> {ika, eka, ikb, spk}. key_ok P q" and "fresh_keys P R (public spk) (Suc n)"
    and run: "(converse P ^^ n) (begun P ika eka ikb spk R) c" and "(m, pt, ad) \<in> set (flight c x)"
  shows "snd (ratchet_decrypt P m ad (peer c x)) = Inr pt \<or>
    length (flight c x) > DEFAULT_MAX_SKIP \<and> snd (ratchet_decrypt P m ad (peer c x)) = Inl (TooManySkipped DEFAULT_MAX_SKIP)"
proof -
  obtain sh K where b: "talk_ok P sh R (public spk) first_epoch K (\<lambda>_. 0)
      first_epoch (begun P ika eka ikb spk R)"
    using begun_ok [OF assms(1) _ _ _ _ assms(3), of ika eka ikb] assms(2) by auto
  have "first_epoch z + n \<le> Suc n" for z by (cases z) simp_all
  then have "\<forall>z. first_epoch z + n \<le> Suc n" by blast
  from talk_run [OF assms(1,3) run b this] obtain k' K' L' e' where T: "talk_ok P sh R (public spk) k' K' L' e' c" by blast
  obtain us vs where f: "flight c x = us @ (m, pt, ad) # vs" using assms(5) by (meson split_list)
  show ?thesis
    using deliver_party [OF assms(1) talk_okD(1) [OF T, of x, unfolded f] talk_okD(1) [OF T, of "other x", unfolded other_simps]]
      talk_okD(2) [OF T] unfolding f by fastforce
qed

text \<open>Stand-ins with the laws of the primitives, and two random sources, to see that the hypotheses can hold.\<close>

definition demo_primitives :: primitives where
  "demo_primitives = \<lparr>derive_bytes = (\<lambda>_ m _. m), x25519 = (\<lambda>a b. map2 (+) a b), x25519_public = (\<lambda>a. a),
     chacha_seal = (\<lambda>_ _ m _. m), chacha_open = (\<lambda>_ _ c _. Some c), ed_public = (\<lambda>a. a), ed_key_ok = (\<lambda>_. True),
     ed_sign = (\<lambda>_ m. m), ed_verify = (\<lambda>_ m s. s = m)\<rparr>"

definition demo_random :: "talker \<Rightarrow> rng" where
  "demo_random x = smap (\<lambda>j. replicate j (case x of Alice \<Rightarrow> 1 | Bob \<Rightarrow> 2)) (fromN 1)"

definition demo_key :: "u8 \<Rightarrow> key_pair" where
  "demo_key b = \<lparr>secret = [b, b], public = [b, b]\<rparr>"

lemma demo_agreeing: "agreeing demo_primitives"
proof -
  have "map2 (+) a b = map2 (+) b a" for a b :: bytes
    by (induction a b rule: list_induct2') (simp_all add: add.commute)
  then show ?thesis by (simp add: agreeing_def demo_primitives_def)
qed

lemma demo_fresh: "fresh_keys demo_primitives demo_random [3, 3] N"
  unfolding fresh_keys_def demo_primitives_def demo_random_def by (auto simp: Cons_replicate_eq split: talker.splits)

lemma encrypt_ready:
  assumes "cks s = Some ck"
  shows "\<exists>s' m. ratchet_encrypt P pt ad s = (s', Inr m) \<and> cks s' \<noteq> None \<and> ns s' = (ns s + 1) mod 2 ^ 32"
  using assms by (simp add: ratchet_encrypt_def case_prod_unfold Let_def)

theorem ratchet_delivers_witness:
  "\<exists>c m1 m2. (converse demo_primitives ^^ 2)
       (begun demo_primitives (demo_key 4) (demo_key 5) (demo_key 6) (demo_key 3) demo_random) c \<and>
     flight c Bob = [(m1, [7], []), (m2, [8], [])] \<and> snd (ratchet_decrypt demo_primitives m2 [] (peer c Bob)) = Inr [8]"
proof -
  let ?P = demo_primitives and ?c = "begun demo_primitives (demo_key 4) (demo_key 5) (demo_key 6) (demo_key 3) demo_random"
  have a: "cks (peer ?c Alice) \<noteq> None" "ns (peer ?c Alice) = 0" by (simp_all add: begun_def initiator_def case_prod_unfold Let_def)
  from a(1) obtain s1 m1 where 1: "ratchet_encrypt ?P [7] [] (peer ?c Alice) = (s1, Inr m1)" "cks s1 \<noteq> None" "ns s1 = 1"
    using encrypt_ready [of "peer ?c Alice" _ ?P "[7]" "[]"] a(2) by auto
  define c1 where "c1 = ?c\<lparr>peer := (peer ?c)(Alice := s1), flight := (flight ?c)(Bob := flight ?c Bob @ [(m1, [7], [])])\<rparr>"
  have t1: "converse ?P ?c c1" using converse.sends [OF 1(1)] a(2) by (simp add: c1_def)
  from 1(2) obtain s2 m2 where 2: "ratchet_encrypt ?P [8] [] (peer c1 Alice) = (s2, Inr m2)"
    using encrypt_ready [of s1 _ ?P "[8]" "[]"] by (auto simp: c1_def)
  define c2 where "c2 = c1\<lparr>peer := (peer c1)(Alice := s2), flight := (flight c1)(Bob := flight c1 Bob @ [(m2, [8], [])])\<rparr>"
  have t2: "converse ?P c1 c2" using converse.sends [OF 2] 1(3) by (simp add: c2_def c1_def)
  have run: "(converse ?P ^^ 2) ?c c2" using t1 t2 by (auto simp: numeral_2_eq_2)
  have f: "flight c2 Bob = [(m1, [7], []), (m2, [8], [])]" by (simp add: c2_def c1_def begun_def)
  have ok: "\<forall>q \<in> {demo_key 4, demo_key 5, demo_key 6, demo_key 3}. key_ok ?P q"
    by (simp add: key_ok_def demo_key_def demo_primitives_def)
  have "fresh_keys ?P demo_random (public (demo_key 3)) (Suc 2)" using demo_fresh by (simp add: demo_key_def)
  from ratchet_delivers [OF demo_agreeing ok this run, of m2 "[8]" "[]" Bob] f
  have "snd (ratchet_decrypt ?P m2 [] (peer c2 Bob)) = Inr [8]" by (simp add: DEFAULT_MAX_SKIP_def)
  with run f show ?thesis by blast
qed

end
