(* ===== verification/E2ee_Group.thy ===== *)
theory E2ee_Group
  imports E2ee_Ratchet
begin

text \<open>
  Sender keys in a group. A session keeps one receiving state per member, independent of the others. What one
  member sends after its key was distributed is read by a receiver in any order, within the bound on stored
  keys, and no message number of one registration is ever accepted twice.
\<close>

section \<open>The sender's chain\<close>

definition sck :: "primitives \<Rightarrow> bytes \<Rightarrow> nat \<Rightarrow> bytes" where
  "sck P c n = ((\<lambda>x. fst (kdf_sender_ck P x)) ^^ n) c"

definition smk :: "primitives \<Rightarrow> bytes \<Rightarrow> nat \<Rightarrow> bytes" where
  "smk P c n = snd (kdf_sender_ck P (sck P c n))"

lemma kdf_sender_at: "kdf_sender_ck P (sck P c n) = (sck P c (Suc n), smk P c n)"
  by (simp add: smk_def sck_def prod_eq_iff)

lemma sck_0 [simp]: "sck P c 0 = c"
  by (simp add: sck_def)

definition staged_keys :: "primitives \<Rightarrow> bytes \<Rightarrow> nat \<Rightarrow> nat \<Rightarrow> nat \<Rightarrow> (nat \<times> bytes) list" where
  "staged_keys P c i0 it until = map (\<lambda>j. (j, smk P c (j - i0))) [it..<until]"

lemma sender_loop_chain:
  "i0 \<le> it \<Longrightarrow> it \<le> until \<Longrightarrow> sender_loop P (sck P c (it - i0)) it until = (sck P c (until - i0), staged_keys P c i0 it until)"
proof (induction "until - it" arbitrary: it)
  case 0
  then show ?case by (simp add: sender_loop.simps staged_keys_def)
next
  case (Suc k)
  then have "sender_loop P (sck P c (Suc it - i0)) (Suc it) until = (sck P c (until - i0), staged_keys P c i0 (Suc it) until)"
    and "it < until" by simp_all
  then show ?case using Suc.prems
    by (subst sender_loop.simps) (simp add: kdf_sender_at Suc_diff_le staged_keys_def upt_conv_Cons)
qed

lemma lookup_staged:
  "fmlookup (fold (\<lambda>(i, k). fmupd i k) (staged_keys P c i0 it until) m) j =
     (if it \<le> j \<and> j < until then Some (smk P c (j - i0)) else fmlookup m j)"
proof (induction until)
  case (Suc u)
  then show ?case by (cases "it \<le> u") (auto simp: staged_keys_def)
qed (simp add: staged_keys_def)

section \<open>Accepted once\<close>

text \<open>A peer state whose stored keys are all behind its chain, and a number that is spent.\<close>

definition behind :: "peer_sender \<Rightarrow> bool" where
  "behind p \<longleftrightarrow> (\<forall>j \<in> fset (fmdom (peer_skipped p)). j < peer_iteration p)"

definition spent :: "nat \<Rightarrow> peer_sender \<Rightarrow> bool" where
  "spent i p \<longleftrightarrow> i < peer_iteration p \<and> fmlookup (peer_skipped p) i = None"

lemma lookup_fold_upd:
  "fmlookup (fold (\<lambda>(i, k). fmupd i k) xs m) j = Some v \<Longrightarrow> j \<in> fst ` set xs \<or> fmlookup m j = Some v"
  by (induction xs arbitrary: m) (fastforce split: if_splits)+

lemma lookup_fold_upd_other: "j \<notin> fst ` set xs \<Longrightarrow> fmlookup (fold (\<lambda>(i, k). fmupd i k) xs m) j = fmlookup m j"
  by (induction xs arbitrary: m) auto

lemma sender_loop_range: "fst ` set (snd (sender_loop P ck it until)) \<subseteq> {it..<until}"
proof (induction P ck it until rule: sender_loop.induct)
  case (1 P ck it until)
  show ?case
  proof (cases "it < until")
    case True
    obtain nx mk where k: "kdf_sender_ck P ck = (nx, mk)" by (cases "kdf_sender_ck P ck")
    then have "snd (sender_loop P ck it until) = (it, mk) # snd (sender_loop P nx (it + 1) until)"
      using True by (subst sender_loop.simps) (simp add: case_prod_unfold Let_def)
    then show ?thesis using 1 [OF True k [symmetric] refl] True by auto
  qed (subst sender_loop.simps, simp)
qed

lemma peer_cases:
  assumes "peer_decrypt P gid limit m ad p = (p', r)"
  obtains (refused) e where "p' = p" "r = Inl e"
    | (cached) pt where "r = Inr pt" "p' = p\<lparr>peer_skipped := fmdrop (gm_iteration m) (peer_skipped p)\<rparr>"
        "fmlookup (peer_skipped p) (gm_iteration m) \<noteq> None"
    | (advanced) pt xs ck where "r = Inr pt" "peer_iteration p \<le> gm_iteration m" "fmlookup (peer_skipped p) (gm_iteration m) = None"
        "fst ` set xs \<subseteq> {peer_iteration p..<gm_iteration m}"
        "p' = p\<lparr>peer_skipped := fold (\<lambda>(i, k). fmupd i k) xs (peer_skipped p), peer_chain_key := ck, peer_iteration := bump (gm_iteration m)\<rparr>"
proof (cases "fmlookup (peer_skipped p) (gm_iteration m)")
  case None
  obtain ck xs where l: "sender_loop P (peer_chain_key p) (peer_iteration p) (gm_iteration m) = (ck, xs)"
    by (cases "sender_loop P (peer_chain_key p) (peer_iteration p) (gm_iteration m)")
  have range: "fst ` set xs \<subseteq> {peer_iteration p..<gm_iteration m}"
    using sender_loop_range [of P "peer_chain_key p" "peer_iteration p" "gm_iteration m"] l by simp
  obtain nx mk where k: "kdf_sender_ck P ck = (nx, mk)" by (cases "kdf_sender_ck P ck")
  define p1 where "p1 = p\<lparr>peer_skipped := fold (\<lambda>(i, k). fmupd i k) xs (peer_skipped p), peer_chain_key := nx,
    peer_iteration := bump (gm_iteration m)\<rparr>"
  define q where "q = aead_open P mk (gm_ciphertext m) (group_ad gid (gm_member m) (gm_iteration m) ad)"
  note step = assms [unfolded peer_decrypt_def Let_def None l k option.case prod.case, folded p1_def q_def]
  have "p' = p \<and> (\<exists>e. r = Inl e) \<or> peer_iteration p \<le> gm_iteration m \<and> (\<exists>pt. r = Inr pt) \<and> p' = p1"
    using step by (cases q) (auto split: if_splits)
  then show thesis using refused advanced [OF _ _ None range] unfolding p1_def by blast
next
  case (Some mk)
  define p1 where "p1 = p\<lparr>peer_skipped := fmdrop (gm_iteration m) (peer_skipped p)\<rparr>"
  define q where "q = aead_open P mk (gm_ciphertext m) (group_ad gid (gm_member m) (gm_iteration m) ad)"
  note step = assms [unfolded peer_decrypt_def Let_def Some option.case, folded p1_def q_def]
  have "p' = p \<and> (\<exists>e. r = Inl e) \<or> (\<exists>pt. r = Inr pt) \<and> p' = p1"
    using step by (cases q) (auto split: if_splits)
  then show thesis using refused cached Some unfolding p1_def by blast
qed

lemma behind_lookup: "behind p \<Longrightarrow> fmlookup (peer_skipped p) j = Some v \<Longrightarrow> j < peer_iteration p"
  unfolding behind_def by (metis fmdomI)

lemma behindI: "(\<And>j v. fmlookup (peer_skipped p) j = Some v \<Longrightarrow> j < peer_iteration p) \<Longrightarrow> behind p"
  unfolding behind_def by (metis fmdomE)

lemma peer_once:
  assumes d: "peer_decrypt P gid limit m ad p = (p', r)" and b: "behind p" and i: "peer_iteration p < 2 ^ 32" "gm_iteration m < 2 ^ 32"
  shows "behind p' \<and> peer_iteration p' < 2 ^ 32 \<and> (\<forall>i. spent i p \<longrightarrow> spent i p') \<and>
    (\<forall>pt. r = Inr pt \<longrightarrow> gm_iteration m \<noteq> 2 ^ 32 - 1 \<longrightarrow> spent (gm_iteration m) p') \<and>
    (spent (gm_iteration m) p \<longrightarrow> (\<exists>e. r = Inl e))"
  using d
proof (cases rule: peer_cases)
  case (refused e)
  then show ?thesis using b i by simp
next
  case (cached pt)
  have "behind p'" using behind_lookup [OF b] cached(2) by (intro behindI) (auto split: if_splits)
  moreover have "gm_iteration m < peer_iteration p" using behind_lookup [OF b] cached(3) by blast
  ultimately show ?thesis using cached i by (auto simp: spent_def)
next
  case (advanced pt xs ck)
  have le: "gm_iteration m \<le> bump (gm_iteration m)" "bump (gm_iteration m) < 2 ^ 32" using i(2) by (simp_all add: bump_def)
  have other: "fmlookup (peer_skipped p') j = fmlookup (peer_skipped p) j" if "j < peer_iteration p \<or> gm_iteration m \<le> j" for j
    using advanced(4,5) that by (auto intro!: lookup_fold_upd_other)
  have "behind p'"
  proof (rule behindI)
    fix j v
    assume "fmlookup (peer_skipped p') j = Some v"
    then have "j \<in> fst ` set xs \<or> fmlookup (peer_skipped p) j = Some v" using lookup_fold_upd advanced(5) by simp
    then have "j < gm_iteration m" using behind_lookup [OF b] advanced(2,4) by fastforce
    then show "j < peer_iteration p'" using le advanced(5) by simp
  qed
  moreover have "spent j p'" if "spent j p" for j using that other [of j] le advanced(2,5) by (simp add: spent_def)
  moreover have "spent (gm_iteration m) p'" if "gm_iteration m \<noteq> 2 ^ 32 - 1"
  proof -
    have "gm_iteration m < peer_iteration p'" using that i(2) advanced(5) by (simp add: bump_def)
    then show ?thesis using other [of "gm_iteration m"] advanced(3) by (simp add: spent_def)
  qed
  moreover have "peer_iteration p' < 2 ^ 32" using le advanced(5) by simp
  moreover have "\<not> spent (gm_iteration m) p" using advanced(2) by (simp add: spent_def)
  ultimately show ?thesis by blast
qed

text \<open>Everything a session can go through short of a new key of the member \<open>who\<close>.\<close>

inductive group_step :: "primitives \<Rightarrow> bytes \<Rightarrow> group_session \<Rightarrow> group_session \<Rightarrow> bool" for P who where
  "group_decrypt P m ad s = (s', r) \<Longrightarrow> gm_iteration m < 2 ^ 32 \<Longrightarrow> group_step P who s s'"
| "group_encrypt P pt ad s = (s', m) \<Longrightarrow> group_step P who s s'"
| "dm_member dm \<noteq> who \<Longrightarrow> add_member P dm s = (s', r) \<Longrightarrow> group_step P who s s'"
| "rekey r s = (s', r') \<Longrightarrow> group_step P who s s'"
| "group_step P who s (set_group_max_skip n s)"

definition member_spent :: "bytes \<Rightarrow> nat \<Rightarrow> group_session \<Rightarrow> bool" where
  "member_spent who i s \<longleftrightarrow> (\<exists>p. fmlookup (peers s) who = Some p \<and> behind p \<and> peer_iteration p < 2 ^ 32 \<and> spent i p)"

lemma group_decrypt_cases:
  assumes "group_decrypt P m ad s = (s', r)"
  obtains (unknown) "s' = s" "r = Inl UnknownSender" "fmlookup (peers s) (gm_member m) = None"
    | (known) p p' where "fmlookup (peers s) (gm_member m) = Some p" "peer_decrypt P (group_id s) (group_max_skip s) m ad p = (p', r)"
        "s' = s\<lparr>peers := fmupd (gm_member m) p' (peers s)\<rparr>"
  using assms by (auto simp: group_decrypt_def Let_def split: option.splits prod.splits)

lemma group_step_spent: "group_step P who s s' \<Longrightarrow> member_spent who i s \<Longrightarrow> member_spent who i s'"
proof (induction rule: group_step.induct)
  case (1 m ad s s' r)
  from 1(1) show ?case
  proof (cases rule: group_decrypt_cases)
    case (known p p')
    then show ?thesis using 1(2,3) peer_once [OF known(2)] by (cases "gm_member m = who") (auto simp: member_spent_def)
  qed (use 1 in simp)
next
  case (3 dm s s' r)
  then show ?case by (auto simp: member_spent_def add_member_def split: if_splits)
qed (auto simp: member_spent_def group_encrypt_def rekey_def generate_sender_def set_group_max_skip_def case_prod_unfold Let_def)

text \<open>
  The message counter is a saturating \<open>u32\<close>: a sender that has reached the largest number gives it to every further
  message, and a receiver that is due that number stays due it.
\<close>

lemma group_number_repeats:
  assumes "own_iteration (own s) = 2 ^ 32 - 1"
  shows "gm_iteration (snd (group_encrypt P pt ad s)) = 2 ^ 32 - 1 \<and> own_iteration (own (fst (group_encrypt P pt ad s))) = 2 ^ 32 - 1"
  using assms by (simp add: group_encrypt_def bump_def Let_def case_prod_unfold)

text \<open>
  C7. Replays fail: once a group session has accepted a message of a member under a number below the largest one
  (\<open>2^32 - 1\<close>, where the saturating counter stops and the number is used again), it never accepts that number of
  that member again, whatever it sends, receives or is told in between, until it is given a new key of that member.
  This rests on no property of the cryptography.
\<close>

theorem group_accepts_once:
  assumes "add_member P dm s0 = (s1, Inr ())" and "dm_iteration dm < 2 ^ 32" and "(group_step P (dm_member dm))\<^sup>*\<^sup>* s1 s2"
    and "group_decrypt P m ad s2 = (s3, Inr pt)" and "gm_member m = dm_member dm" and "gm_iteration m < 2 ^ 32 - 1"
    and "(group_step P (dm_member dm))\<^sup>*\<^sup>* s3 s4" and "gm_member m' = gm_member m" and "gm_iteration m' = gm_iteration m"
  shows "\<exists>e. snd (group_decrypt P m' ad' s4) = Inl e"
proof -
  let ?w = "dm_member dm"
  have inv: "\<exists>p. fmlookup (peers t) ?w = Some p \<and> behind p \<and> peer_iteration p < 2 ^ 32" if "(group_step P ?w)\<^sup>*\<^sup>* s1 t" for t
    using that
  proof (induction rule: rtranclp_induct)
    case base
    then show ?case using assms(1,2) by (auto simp: add_member_def behind_def split: if_splits)
  next
    case (step t u)
    from step(2,3) show ?case
    proof (induction rule: group_step.induct)
      case (1 m ad t u r)
      from 1(1) show ?case
      proof (cases rule: group_decrypt_cases)
        case (known p p')
        then show ?thesis using 1(2,3) peer_once [OF known(2)] by (cases "gm_member m = ?w") auto
      qed (use 1 in simp)
    next
      case (3 dm' t u r)
      then show ?case by (auto simp: add_member_def split: if_splits)
    qed (auto simp: group_encrypt_def rekey_def generate_sender_def set_group_max_skip_def case_prod_unfold Let_def)
  qed
  from assms(4) have "member_spent ?w (gm_iteration m) s3"
  proof (cases rule: group_decrypt_cases)
    case (known p p')
    then show ?thesis using inv [OF assms(3)] peer_once [OF known(2)] assms(5,6) by (auto simp: member_spent_def)
  qed simp
  from assms(7) this have "member_spent ?w (gm_iteration m) s4" by (induction rule: rtranclp_induct) (auto intro: group_step_spent)
  then obtain p where p: "fmlookup (peers s4) ?w = Some p" "behind p" "peer_iteration p < 2 ^ 32" "spent (gm_iteration m) p"
    by (auto simp: member_spent_def)
  obtain p' r where d: "peer_decrypt P (group_id s4) (group_max_skip s4) m' ad' p = (p', r)"
    by (cases "peer_decrypt P (group_id s4) (group_max_skip s4) m' ad' p")
  have "\<exists>e. r = Inl e" using peer_once [OF d p(2,3)] p(4) assms(6,9) by simp
  then show ?thesis using p(1) d assms(5,8) by (auto simp: group_decrypt_def)
qed

theorem group_accepts_once_witness:
  "\<exists>s1 s3 e. let S = fst (new_group [1] [2] (sconst [5])); m = snd (group_encrypt demo_primitives [7] [] S) in
     add_member demo_primitives (distribution_of demo_primitives S) (fst (new_group [1] [3] (sconst [6]))) = (s1, Inr ()) \<and>
     group_decrypt demo_primitives m [] s1 = (s3, Inr [7]) \<and> snd (group_decrypt demo_primitives m [] s3) = Inl e"
proof -
  let ?P = demo_primitives and ?S = "fst (new_group [1] [2] (sconst [5]))" and ?R = "fst (new_group [1] [3] (sconst [6]))"
  let ?m = "snd (group_encrypt ?P [7] [] ?S)" and ?dm = "distribution_of ?P ?S"
  obtain s1 where a: "add_member ?P ?dm ?R = (s1, Inr ())" and s1: "fmlookup (peers s1) [2] =
      Some \<lparr>peer_chain_key = [5], peer_iteration = 0, peer_signing_public = [5], peer_skipped = fmempty\<rparr>" "group_id s1 = [1]"
      "group_max_skip s1 = 1000"
    by (simp add: add_member_def distribution_of_def new_group_def generate_sender_def demo_primitives_def DEFAULT_MAX_SKIP_def)
  have m: "gm_member ?m = [2]" "gm_iteration ?m = 0" "dm_member ?dm = [2]" "dm_iteration ?dm = 0"
    by (simp_all add: group_encrypt_def distribution_of_def new_group_def generate_sender_def case_prod_unfold Let_def)
  have "snd (group_decrypt ?P ?m [] s1) = Inr [7]"
    using s1 by (simp add: group_decrypt_def peer_decrypt_def group_encrypt_def new_group_def generate_sender_def demo_primitives_def
        sender_loop.simps kdf_sender_ck_def aead_seal_def aead_open_def aead_key_nonce_def fcard.rep_eq Let_def)
  then obtain s3 where d: "group_decrypt ?P ?m [] s1 = (s3, Inr [7])" by (cases "group_decrypt ?P ?m [] s1") simp
  have "\<exists>e. snd (group_decrypt ?P ?m [] s3) = Inl e"
    by (rule group_accepts_once [OF a _ rtranclp.rtrancl_refl d _ _ rtranclp.rtrancl_refl]) (simp_all add: m)
  then show ?thesis unfolding Let_def using a d by blast
qed

section \<open>Read in any order\<close>

record group_room =
  speaker :: group_session
  listener :: group_session
  posted :: "(group_message \<times> bytes \<times> bytes) list"

inductive room_step :: "primitives \<Rightarrow> group_room \<Rightarrow> group_room \<Rightarrow> bool" for P where
  posts: "group_encrypt P pt ad (speaker c) = (s, m) \<Longrightarrow> own_iteration (own (speaker c)) < 2 ^ 32 - 1 \<Longrightarrow>
    room_step P c (c\<lparr>speaker := s, posted := posted c @ [(m, pt, ad)]\<rparr>)"
| reads: "posted c = us @ (m, pt, ad) # vs \<Longrightarrow> group_decrypt P m ad (listener c) = (s, Inr q) \<Longrightarrow>
    room_step P c (c\<lparr>listener := s, posted := us @ vs\<rparr>)"
| refuses: "group_decrypt P m ad (listener c) = (s, Inl e) \<Longrightarrow> room_step P c (c\<lparr>listener := s\<rparr>)"
| hears: "gm_member m \<noteq> self_id (speaker c) \<Longrightarrow> group_decrypt P m ad (listener c) = (s, r) \<Longrightarrow> room_step P c (c\<lparr>listener := s\<rparr>)"
| says: "group_encrypt P pt ad (listener c) = (s, m) \<Longrightarrow> room_step P c (c\<lparr>listener := s\<rparr>)"
| admits: "dm_member dm \<noteq> self_id (speaker c) \<Longrightarrow> add_member P dm (listener c) = (s, r) \<Longrightarrow> room_step P c (c\<lparr>listener := s\<rparr>)"

definition iterations :: "(group_message \<times> bytes \<times> bytes) list \<Rightarrow> nat list" where
  "iterations F = map (\<lambda>(m, _, _). gm_iteration m) F"

definition posted_ok :: "primitives \<Rightarrow> bytes \<Rightarrow> bytes \<Rightarrow> bytes \<Rightarrow> bytes \<Rightarrow> nat \<Rightarrow> nat \<Rightarrow> group_message \<times> bytes \<times> bytes \<Rightarrow> bool" where
  "posted_ok P gid who sk C i0 j = (\<lambda>(m, pt, ad). gm_member m = who \<and> gm_iteration m = j \<and>
     gm_ciphertext m = aead_seal P (smk P C (j - i0)) pt (group_ad gid who j ad) \<and>
     gm_signature m = ed_sign P sk (signing_input gid who j ad (gm_ciphertext m)))"

definition speaker_ok :: "primitives \<Rightarrow> bytes \<Rightarrow> bytes \<Rightarrow> bytes \<Rightarrow> bytes \<Rightarrow> nat \<Rightarrow> nat \<Rightarrow> group_session \<Rightarrow> bool" where
  "speaker_ok P gid who sk C i0 t s \<longleftrightarrow> group_id s = gid \<and> self_id s = who \<and> own_signing (own s) = sk \<and>
     own_iteration (own s) = t \<and> own_chain_key (own s) = sck P C (t - i0) \<and> i0 \<le> t \<and> t < 2 ^ 32"

definition listener_ok :: "primitives \<Rightarrow> bytes \<Rightarrow> bytes \<Rightarrow> nat \<Rightarrow> nat \<Rightarrow> nat set \<Rightarrow> peer_sender \<Rightarrow> bool" where
  "listener_ok P sk C i0 t I p \<longleftrightarrow> peer_signing_public p = ed_public P sk \<and> i0 \<le> peer_iteration p \<and> peer_iteration p \<le> t \<and>
     peer_chain_key p = sck P C (peer_iteration p - i0) \<and>
     (\<forall>j mk. fmlookup (peer_skipped p) j = Some mk \<longleftrightarrow> i0 \<le> j \<and> j < peer_iteration p \<and> j \<in> I \<and> mk = smk P C (j - i0)) \<and>
     (\<forall>j. peer_iteration p \<le> j \<longrightarrow> j < t \<longrightarrow> j \<in> I)"

definition group_room_ok :: "primitives \<Rightarrow> bytes \<Rightarrow> bytes \<Rightarrow> bytes \<Rightarrow> bytes \<Rightarrow> nat \<Rightarrow> nat \<Rightarrow> group_room \<Rightarrow> bool" where
  "group_room_ok P gid who sk C i0 lim c \<longleftrightarrow> (\<exists>t p. speaker_ok P gid who sk C i0 t (speaker c) \<and>
     fmlookup (peers (listener c)) who = Some p \<and> group_id (listener c) = gid \<and> group_max_skip (listener c) = lim \<and>
     listener_ok P sk C i0 t (set (iterations (posted c))) p \<and> distinct (iterations (posted c)) \<and>
     (\<forall>u \<in> set (posted c). \<exists>j. i0 \<le> j \<and> j < t \<and> posted_ok P gid who sk C i0 j u))"

text \<open>What is relied on of the primitives: opening undoes sealing, and a signature verifies under its own key.\<close>

definition signing_ok :: "primitives \<Rightarrow> bool" where
  "signing_ok P \<longleftrightarrow> (\<forall>k n m a. chacha_open P k n (chacha_seal P k n m a) a = Some m) \<and>
     (\<forall>sk m. ed_verify P (ed_public P sk) m (ed_sign P sk m))"

lemma open_seal: "signing_ok P \<Longrightarrow> aead_open P mk (aead_seal P mk pt ad) ad = Inr pt"
  by (simp add: signing_ok_def aead_open_def aead_seal_def case_prod_unfold)

lemma listener_count:
  assumes "listener_ok P sk C i0 t (set is) p" "peer_iteration p \<le> j" "j < t"
  shows "fcard (fmdom (peer_skipped p)) + (j - peer_iteration p) < length is"
proof -
  have D: "fset (fmdom (peer_skipped p)) \<subseteq> set is \<inter> {..<peer_iteration p}"
    using assms(1) by (auto simp: listener_ok_def fmlookup_dom_iff)
  have I: "{peer_iteration p..j} \<subseteq> set is" using assms by (auto simp: listener_ok_def)
  have "fcard (fmdom (peer_skipped p)) + card {peer_iteration p..j} = card (fset (fmdom (peer_skipped p)) \<union> {peer_iteration p..j})"
    using D by (subst card_Un_disjoint) (auto simp: fcard.rep_eq)
  also have "\<dots> \<le> card (set is)" using D I by (intro card_mono) auto
  also have "\<dots> \<le> length is" by (rule card_length)
  finally show ?thesis using assms(2) by simp
qed

text \<open>One message of the speaker at the listener.\<close>

lemma peer_reads:
  assumes P: "signing_ok P" and p: "listener_ok P sk C i0 t (set is) p" and u: "posted_ok P gid who sk C i0 j (m, pt, ad)"
    and j: "i0 \<le> j" "j < t" "j \<in> set is" "t < 2 ^ 32"
  shows "(\<exists>p'. peer_decrypt P gid lim m ad p = (p', Inr pt) \<and> listener_ok P sk C i0 t (set is - {j}) p') \<or>
    length is > lim \<and> peer_decrypt P gid lim m ad p = (p, Inl (TooManySkipped lim))"
proof -
  have m: "gm_member m = who" "gm_iteration m = j" "gm_ciphertext m = aead_seal P (smk P C (j - i0)) pt (group_ad gid who j ad)"
    "ed_verify P (peer_signing_public p) (signing_input gid who j ad (gm_ciphertext m)) (gm_signature m)"
    using u p P by (simp_all add: posted_ok_def listener_ok_def signing_ok_def)
  note open_m = open_seal [OF P, of "smk P C (j - i0)" pt "group_ad gid who j ad", folded m(3)]
  show ?thesis
  proof (cases "j < peer_iteration p")
    case True
    then have l: "fmlookup (peer_skipped p) j = Some (smk P C (j - i0))" using p j by (simp add: listener_ok_def)
    let ?p = "p\<lparr>peer_skipped := fmdrop j (peer_skipped p)\<rparr>"
    have "peer_decrypt P gid lim m ad p = (?p, Inr pt)" using m l open_m by (simp add: peer_decrypt_def)
    moreover have "listener_ok P sk C i0 t (set is - {j}) ?p" using p True by (auto simp: listener_ok_def)
    ultimately show ?thesis by blast
  next
    case False
    have b: "bump j = Suc j" using j by (simp add: bump_def)
    have l: "fmlookup (peer_skipped p) j = None"
    proof (rule ccontr)
      assume "fmlookup (peer_skipped p) j \<noteq> None"
      then obtain mk where "fmlookup (peer_skipped p) j = Some mk" by blast
      then have "j < peer_iteration p" using p unfolding listener_ok_def by blast
      then show False using False by simp
    qed
    have c: "peer_chain_key p = sck P C (peer_iteration p - i0)" "i0 \<le> peer_iteration p" using p by (simp_all add: listener_ok_def)
    have loop: "sender_loop P (peer_chain_key p) (peer_iteration p) j = (sck P C (j - i0), staged_keys P C i0 (peer_iteration p) j)"
      using sender_loop_chain [of i0 "peer_iteration p" j P C] c False by simp
    let ?p = "p\<lparr>peer_skipped := fold (\<lambda>(i, k). fmupd i k) (staged_keys P C i0 (peer_iteration p) j) (peer_skipped p),
      peer_chain_key := sck P C (Suc (j - i0)), peer_iteration := Suc j\<rparr>"
    have "listener_ok P sk C i0 t (set is - {j}) ?p"
      using p j False Suc_diff_le [OF j(1)] c l by (auto simp: listener_ok_def lookup_staged)
    moreover have "peer_decrypt P gid lim m ad p =
      (if fcard (fmdom (peer_skipped p)) + (j - peer_iteration p) > lim then (p, Inl (TooManySkipped lim)) else (?p, Inr pt))"
      using False by (auto simp: peer_decrypt_def m(1,2) m(4) l loop kdf_sender_at open_m b)
    ultimately show ?thesis using listener_count [OF p _ j(2)] False by auto
  qed
qed

lemma group_refused: "group_decrypt P m ad s = (s', Inl e) \<Longrightarrow> s' = s"
proof (erule group_decrypt_cases)
  fix p p'
  assume "fmlookup (peers s) (gm_member m) = Some p" "peer_decrypt P (group_id s) (group_max_skip s) m ad p = (p', Inl e)"
    "s' = s\<lparr>peers := fmupd (gm_member m) p' (peers s)\<rparr>"
  moreover from this(2) have "p' = p" by (cases rule: peer_cases) auto
  moreover from calculation(1) have "fmupd (gm_member m) p (peers s) = peers s" by (intro fmap_ext) auto
  ultimately show "s' = s" by simp
qed

lemma iterations_split: "iterations ((m, pt, ad) # vs) = gm_iteration m # iterations vs"
  "iterations (us @ vs) = iterations us @ iterations vs" "iterations [] = []"
  by (simp_all add: iterations_def)

lemma room_reads:
  assumes P: "signing_ok P" and R: "group_room_ok P gid who sk C i0 lim c" and f: "posted c = us @ (m, pt, ad) # vs"
  shows "(\<exists>s. group_decrypt P m ad (listener c) = (s, Inr pt) \<and> group_room_ok P gid who sk C i0 lim (c\<lparr>listener := s, posted := us @ vs\<rparr>)) \<or>
    length (posted c) > lim \<and> snd (group_decrypt P m ad (listener c)) = Inl (TooManySkipped lim)"
proof -
  let ?is = "iterations (posted c)"
  from R obtain t p where r: "speaker_ok P gid who sk C i0 t (speaker c)" "fmlookup (peers (listener c)) who = Some p"
    "group_id (listener c) = gid" "group_max_skip (listener c) = lim" "listener_ok P sk C i0 t (set ?is) p" "distinct ?is"
    "\<forall>u \<in> set (posted c). \<exists>j. i0 \<le> j \<and> j < t \<and> posted_ok P gid who sk C i0 j u"
    by (auto simp: group_room_ok_def)
  obtain j where j: "i0 \<le> j" "j < t" "posted_ok P gid who sk C i0 j (m, pt, ad)" using r(7) f by auto
  then have m: "gm_member m = who" "gm_iteration m = j" by (simp_all add: posted_ok_def)
  have ji: "j \<in> set ?is" using f m by (simp add: iterations_split)
  have left: "set (iterations (us @ vs)) = set ?is - {j}" "distinct (iterations (us @ vs))"
    using r(6) m unfolding f by (auto simp: iterations_split)
  have len: "length ?is = length (posted c)" by (simp add: iterations_def)
  have d: "group_decrypt P m ad (listener c) = (let (p', r) = peer_decrypt P gid lim m ad p
      in ((listener c)\<lparr>peers := fmupd who p' (peers (listener c))\<rparr>, r))"
    using r(2-4) m(1) by (simp add: group_decrypt_def)
  have "t < 2 ^ 32" using r(1) by (simp add: speaker_ok_def)
  from peer_reads [OF P r(5) j(3,1,2) ji this] consider
      p' where "peer_decrypt P gid lim m ad p = (p', Inr pt)" "listener_ok P sk C i0 t (set ?is - {j}) p'"
    | "length (posted c) > lim" "peer_decrypt P gid lim m ad p = (p, Inl (TooManySkipped lim))"
    unfolding len by blast
  then show ?thesis
  proof cases
    case (1 p')
    let ?s = "(listener c)\<lparr>peers := fmupd who p' (peers (listener c))\<rparr>"
    have "group_room_ok P gid who sk C i0 lim (c\<lparr>listener := ?s, posted := us @ vs\<rparr>)"
      unfolding group_room_ok_def using r 1(2) left f by (intro exI [of _ t] exI [of _ p']) auto
    then show ?thesis using d 1(1) by simp
  qed (use d in simp)
qed

lemma room_posts:
  assumes R: "group_room_ok P gid who sk C i0 lim c" and e: "group_encrypt P pt ad (speaker c) = (s, m)" "own_iteration (own (speaker c)) < 2 ^ 32 - 1"
  shows "group_room_ok P gid who sk C i0 lim (c\<lparr>speaker := s, posted := posted c @ [(m, pt, ad)]\<rparr>)"
proof -
  let ?is = "iterations (posted c)"
  from R obtain t p where r: "speaker_ok P gid who sk C i0 t (speaker c)" "fmlookup (peers (listener c)) who = Some p"
    "group_id (listener c) = gid" "group_max_skip (listener c) = lim" "listener_ok P sk C i0 t (set ?is) p" "distinct ?is"
    "\<forall>u \<in> set (posted c). \<exists>j. i0 \<le> j \<and> j < t \<and> posted_ok P gid who sk C i0 j u"
    by (auto simp: group_room_ok_def)
  have t: "i0 \<le> t" "t < 2 ^ 32 - 1" "bump t = Suc t" using r(1) e(2) by (auto simp: speaker_ok_def bump_def)
  have s: "speaker_ok P gid who sk C i0 (Suc t) s" "posted_ok P gid who sk C i0 t (m, pt, ad)"
    using e(1) r(1) t Suc_diff_le [OF t(1)]
    by (auto simp: speaker_ok_def posted_ok_def group_encrypt_def kdf_sender_at Let_def)
  have bound: "\<forall>j \<in> set ?is. j < t"
  proof
    fix j
    assume "j \<in> set ?is"
    then obtain m pt ad where "(m, pt, ad) \<in> set (posted c)" "gm_iteration m = j" by (auto simp: iterations_def)
    then show "j < t" using r(7) by (fastforce simp: posted_ok_def)
  qed
  have it: "gm_iteration m = t" using s(2) by (simp add: posted_ok_def)
  have new: "iterations (posted c @ [(m, pt, ad)]) = ?is @ [t]" by (simp add: iterations_def it)
  have "listener_ok P sk C i0 (Suc t) (set (?is @ [t])) p" using r(5) by (auto simp: listener_ok_def less_Suc_eq)
  moreover have "\<forall>u \<in> set (posted c @ [(m, pt, ad)]). \<exists>j. i0 \<le> j \<and> j < Suc t \<and> posted_ok P gid who sk C i0 j u"
    using r(7) s(2) t(1) less_SucI by (auto, blast)
  ultimately show ?thesis
    unfolding group_room_ok_def using r(2-4,6) s(1) bound by (intro exI [of _ "Suc t"] exI [of _ p]) (auto simp: new)
qed

lemma room_other:
  assumes "group_room_ok P gid who sk C i0 lim c" "fmlookup (peers s) who = fmlookup (peers (listener c)) who"
    "group_id s = group_id (listener c)" "group_max_skip s = group_max_skip (listener c)"
  shows "group_room_ok P gid who sk C i0 lim (c\<lparr>listener := s\<rparr>)"
  using assms by (simp add: group_room_ok_def)

lemma room_keeps:
  assumes P: "signing_ok P" and R: "group_room_ok P gid who sk C i0 lim c" and "room_step P c c'"
  shows "group_room_ok P gid who sk C i0 lim c'"
  using assms(3)
proof cases
  case (posts pt ad s m)
  then show ?thesis using room_posts [OF R] by blast
next
  case (reads us m pt ad vs s q)
  then show ?thesis using room_reads [OF P R reads(2)] by auto
next
  case (refuses m ad s e)
  then show ?thesis using R group_refused [OF refuses(2)] by simp
next
  case (hears m ad s r)
  have who: "gm_member m \<noteq> who" using R hears(2) by (auto simp: group_room_ok_def speaker_ok_def)
  show ?thesis unfolding hears(1)
  proof (rule room_other [OF R])
    show "fmlookup (peers s) who = fmlookup (peers (listener c)) who" "group_id s = group_id (listener c)"
      "group_max_skip s = group_max_skip (listener c)"
      using hears(3) who by (cases rule: group_decrypt_cases; simp)+
  qed
next
  case (says pt ad s m)
  show ?thesis unfolding says(1)
    by (rule room_other [OF R]) (use says(2) in \<open>auto simp: group_encrypt_def case_prod_unfold Let_def\<close>)
next
  case (admits dm s r)
  have who: "dm_member dm \<noteq> who" using R admits(2) by (auto simp: group_room_ok_def speaker_ok_def)
  show ?thesis unfolding admits(1)
    by (rule room_other [OF R]) (use admits(3) who in \<open>auto simp: add_member_def split: if_splits\<close>)
qed

text \<open>
  C6. Group messages get through: once a member has been given the sender key of another, it reads what that one
  posts from then on, each as it was written and in whatever order they come, whatever else it is sent in between,
  unless more are outstanding than it keeps keys for. The speaker posts only while its counter is below the
  \<open>2^32 - 1\<close> at which it saturates.
\<close>

theorem group_delivers:
  assumes "signing_ok P" and "add_member P (distribution_of P S) R = (R1, Inr ())" and "own_iteration (own S) < 2 ^ 32"
    and run: "(room_step P)\<^sup>*\<^sup>* \<lparr>speaker = S, listener = R1, posted = []\<rparr> c" and "(m, pt, ad) \<in> set (posted c)"
  shows "snd (group_decrypt P m ad (listener c)) = Inr pt \<or>
    length (posted c) > group_max_skip R \<and> snd (group_decrypt P m ad (listener c)) = Inl (TooManySkipped (group_max_skip R))"
proof -
  have "group_room_ok P (group_id S) (self_id S) (own_signing (own S)) (own_chain_key (own S)) (own_iteration (own S)) (group_max_skip R)
      \<lparr>speaker = S, listener = R1, posted = []\<rparr>"
    using assms(2,3) by (auto simp: group_room_ok_def speaker_ok_def listener_ok_def add_member_def distribution_of_def iterations_def split: if_splits)
  with run have "group_room_ok P (group_id S) (self_id S) (own_signing (own S)) (own_chain_key (own S)) (own_iteration (own S)) (group_max_skip R) c"
    by (induction rule: rtranclp_induct) (auto intro: room_keeps [OF assms(1)])
  moreover obtain us vs where "posted c = us @ (m, pt, ad) # vs" using assms(5) by (meson split_list)
  ultimately show ?thesis using room_reads [OF assms(1)] by fastforce
qed

theorem group_delivers_witness:
  "\<exists>R1 c m1 m2. let S = fst (new_group [1] [2] (sconst [5])) in
     add_member demo_primitives (distribution_of demo_primitives S) (fst (new_group [1] [3] (sconst [6]))) = (R1, Inr ()) \<and>
     (room_step demo_primitives)\<^sup>*\<^sup>* \<lparr>speaker = S, listener = R1, posted = []\<rparr> c \<and>
     posted c = [(m1, [7], []), (m2, [8], [])] \<and> snd (group_decrypt demo_primitives m2 [] (listener c)) = Inr [8]"
proof -
  let ?P = demo_primitives and ?S = "fst (new_group [1] [2] (sconst [5]))" and ?R = "fst (new_group [1] [3] (sconst [6]))"
  obtain R1 where a: "add_member ?P (distribution_of ?P ?S) ?R = (R1, Inr ())"
    by (simp add: add_member_def distribution_of_def new_group_def generate_sender_def demo_primitives_def)
  have i: "own_iteration (own ?S) = 0" "group_max_skip ?R = 1000"
    by (simp_all add: new_group_def generate_sender_def DEFAULT_MAX_SKIP_def)
  have ok: "signing_ok ?P" by (simp add: signing_ok_def demo_primitives_def)
  obtain s1 m1 where 1: "group_encrypt ?P [7] [] ?S = (s1, m1)" by (cases "group_encrypt ?P [7] [] ?S")
  then have s1: "own_iteration (own s1) = 1" using i(1) by (auto simp: group_encrypt_def bump_def case_prod_unfold Let_def)
  obtain s2 m2 where 2: "group_encrypt ?P [8] [] s1 = (s2, m2)" by (cases "group_encrypt ?P [8] [] s1")
  let ?c0 = "\<lparr>speaker = ?S, listener = R1, posted = []\<rparr>" and ?c1 = "\<lparr>speaker = s1, listener = R1, posted = [(m1, [7], [])]\<rparr>"
  let ?c2 = "\<lparr>speaker = s2, listener = R1, posted = [(m1, [7], []), (m2, [8], [])]\<rparr>"
  have "room_step ?P ?c0 ?c1" "room_step ?P ?c1 ?c2"
    using room_step.posts [of ?P "[7]" "[]" ?c0 s1 m1] room_step.posts [of ?P "[8]" "[]" ?c1 s2 m2] 1 2 i s1 by simp_all
  then have run: "(room_step ?P)\<^sup>*\<^sup>* ?c0 ?c2" by (meson converse_rtranclp_into_rtranclp r_into_rtranclp)
  from group_delivers [OF ok a _ run, of m2 "[8]" "[]"] i
  have "snd (group_decrypt ?P m2 [] (listener ?c2)) = Inr [8]" by simp
  with a run show ?thesis unfolding Let_def
    by (intro exI [of _ R1] exI [of _ ?c2] exI [of _ m1] exI [of _ m2] conjI) simp_all
qed

end
