(* ===== verification/Spec2Isabelle.thy ===== *)
theory Spec2Isabelle
  imports Hotline_Correct Hotline_Access_Correct Binkp_Delivery Permissions Chat_Correct Zmodem_Session_Correct Proto_Frame Federation_Ingest Federation_Pull Swarm_Delivery Core_Dedup Core_Push Core_RateLimit Core_Auth_Correct Core_Invite_Tree Telnet_Line_Safe E2ee_Group
begin

text \<open>
  \<^bold>\<open>A verification development for RabbitHole.\<close>

  RabbitHole is a community server (a Burrow) and its clients. Clients speak the native protocol RHP:
  frames on a byte stream (\<open>src/crates/proto\<close>), carried by QUIC or WebSocket (\<open>src/crates/net\<close>) to
  the sessions of \<open>src/apps/server\<close>. A session calls the services of \<open>src/crates/server-core\<close>:
  sign-in and registration, the rate limiter and the permission evaluator decide, the chat service and
  the other services act and publish on the event bus, and sessions forward what the bus carries to
  whom it may be shown; what a disconnected client missed waits in the push log. Legacy clients come
  in through one crate per protocol (\<open>src/crates/legacy-*\<close>): Hotline, telnet (whose callers move
  files by ZMODEM), FidoNet mail by binkp; every message that enters from another network passes the
  duplicate gate. Servers federate (\<open>src/crates/federation\<close>): they exchange signed documents, search
  each other's catalogs, and send files under a signed pull grant. Large files are fetched from
  several sources at once by the swarm (\<open>src/crates/swarm\<close>). Private messages between clients are
  encrypted end to end (\<open>src/crates/e2ee\<close>).

  \<^bold>\<open>What is modelled, and where.\<close> Each definition carries the name of the Rust item it translates
  where that name is free; structs are records, enums are datatypes, \<open>Result\<close> is a sum with the error
  on the left, and a method that changes its receiver returns it beside the result, on the error
  branches too. A method that runs under one lock is one function, so a sequence of calls is every
  interleaving there is; where the code releases the lock, the model is cut there.

  \<^item> \<open>Prelude\<close>: Rust's integers as words, strings as code point lists, saturating arithmetic, and four
    interfaces as locales: a generation-tagged cache (\<open>keyed_cache\<close>, provided by the permission
    evaluator), an append-only log (\<open>event_log\<close>, by the chat service's bus), a bounded retry counter
    (\<open>retry_budget\<close>, by both ZMODEM machines) and a table of independent machines, one per key
    (\<open>multiplexed\<close>, by the Hotline reassembler and the push log).
  \<^item> \<open>Wire\<close>: integers as bytes and the two interfaces of byte protocols, \<open>byte_stuffing\<close> (each payload
    byte is escaped on its own; ZDLE) and \<open>stream_codec\<close> (whole messages are cut from a buffer that
    arrives in arbitrary pieces; native frames and binkp events). \<open>Text\<close>: UTF-8 and the string
    functions of the standard library. \<open>Float64\<close>: \<open>f64\<close> arithmetic with its rounding.
  \<^item> \<open>Permissions\<close>: \<open>server-core/src/permissions.rs\<close>. Capability masks are 64-bit words; the evaluator
    is a record of the ACL table, the generation counter and the cache, and \<open>effective\<close> returns the
    evaluator whose cache it has filled.
  \<^item> \<open>Chat\<close>, \<open>Chat_Correct\<close>: \<open>server-core/src/chat.rs\<close> and what it uses of \<open>bus.rs\<close>.
  \<^item> \<open>Core_Auth\<close>, \<open>Core_Auth_Correct\<close>, \<open>Core_Invite_Tree\<close>: \<open>server-core/src/auth.rs\<close> with the account,
    persona, session, invitation and second-factor tables of \<open>store-server/src/repo.rs\<close> and
    \<open>repo2.rs\<close>, each statement as the function it computes on the rows, and the request to add a screen
    name of \<open>apps/server/src/handlers2.rs\<close>. \<open>auth_op\<close> lists what is done to the tables; a run is any
    sequence of these.
  \<^item> \<open>Core_Dedup\<close>, \<open>Core_Push\<close>, \<open>Core_RateLimit\<close>: \<open>dedup.rs\<close>, \<open>pushlog.rs\<close>, \<open>ratelimit.rs\<close> of
    \<open>server-core/src\<close>.
  \<^item> \<open>Zmodem_Wire\<close>, \<open>Zmodem_Correct\<close>, \<open>Zmodem_File\<close>, \<open>Zmodem_Session\<close>, \<open>Zmodem_Session_Correct\<close>:
    \<open>legacy-zmodem/src\<close> in full and the sending loop of \<open>apps/server/src/zmodem.rs\<close>.
  \<^item> \<open>Hotline_Wire\<close>, \<open>Hotline_Correct\<close>: handshake, fields, transactions and reassembly of
    \<open>legacy-hotline/src\<close> and the reader of \<open>apps/server/src/hotline.rs\<close>. \<open>Hotline_Access\<close>,
    \<open>Hotline_Access_Correct\<close>: the privilege bitmap and the decisions of NewUser and SetUser.
  \<^item> \<open>Telnet_Proto\<close>, \<open>Telnet_Negotiate\<close>, \<open>Telnet_Line\<close>, \<open>Telnet_Line_Correct\<close>, \<open>Telnet_Line_Safe\<close>:
    \<open>legacy-telnet/src\<close>, files \<open>proto.rs\<close>, \<open>negotiate.rs\<close>, \<open>stream.rs\<close> and \<open>encoding.rs\<close>, with the
    code page of \<open>art/src/cp437.rs\<close>. A transport is the list of the reads to come and the bytes written.
  \<^item> \<open>Binkp_Wire\<close>, \<open>Binkp_Correct\<close>, \<open>Binkp_Session\<close>, \<open>Binkp_Session_Correct\<close>, \<open>Binkp_Link\<close>,
    \<open>Binkp_Delivery\<close>: \<open>legacy-binkp/src\<close> and the session driver of \<open>apps/server/src/ftn.rs\<close>.
  \<^item> \<open>Proto_Frame\<close>: \<open>proto/src\<close>, files \<open>frame.rs\<close>, \<open>codec.rs\<close>, \<open>version.rs\<close>, \<open>error.rs\<close>.
  \<^item> \<open>Federation_Search\<close>: \<open>search.rs\<close>, \<open>dedupe.rs\<close>, \<open>fanout.rs\<close> and the data of \<open>catalog.rs\<close> in
    \<open>federation/src\<close>. \<open>Federation_Ingest\<close>: \<open>bloom.rs\<close> and the peer policy of \<open>policy.rs\<close>.
    \<open>Federation_Signed\<close>, \<open>Federation_Pull\<close>: signing and checking in \<open>catalog.rs\<close>, \<open>redaction.rs\<close>,
    \<open>handshake.rs\<close> and \<open>pull.rs\<close>, with the path, host and endpoint rules; the four kinds of signed
    document are instances of the locale \<open>signed_surface\<close>.
  \<^item> \<open>E2ee\<close>, \<open>E2ee_Ratchet\<close>, \<open>E2ee_Group\<close>: \<open>e2ee/src\<close>, the handshake, sealed envelopes, the Double Ratchet and
    the sender keys of groups. A random source is the stream of its draws; a conversation is a step
    relation over two sessions and what is under way between them.
  \<^item> \<open>Swarm_Map\<close>, \<open>Swarm_Availability\<close>, \<open>Swarm_Scheduler\<close>, \<open>Swarm_Correct\<close>, \<open>Swarm_Delivery\<close>:
    \<open>swarm/src\<close>, files \<open>peer.rs\<close>, \<open>scheduler.rs\<close> and \<open>scheduler/availability.rs\<close>. A fetch is a step
    relation: lanes cut at their lock regions, availability probes, failed writes, and being dropped.

  \<^bold>\<open>What the theorems show.\<close>

  \<^item> Permissions: in every reachable evaluator the cache is invisible; the nearest ancestor with a rule
    decides and deny wins there; inserting a rule is a point update of an abstract table.
  \<^item> Chat: an invariant of every reachable state; what an accepted line does and that a refused one
    leaves no trace; slow mode and mutes against the clock; private rooms are closed to outsiders.
  \<^item> Sign-in: only a verified password with a met second factor opens a session, and a refusal changes
    nothing; a recovery code works once as long as its second factor stays; a token resumes its account until it
    expires or something ends it, and then never again; an
    invitation admits one account; the name of a removed account stays taken; the tables keep unique
    keys and no dangling rows; the invite tree is listed completely and once. A registration that fails
    after the reservation leaves the invitation spent.
  \<^item> Server core: a message is processed once within the gate's window and capacity; a replay gives
    exactly the missed pushes the ring still holds; the limiter grants no more than burst and refill
    allow, rounding included, while its retry hint can be one millisecond short.
  \<^item> ZMODEM: both checksums see every one-byte change; encoders are inverted by their decoders at the
    front of any stream; decoders stay in bounds; both machines grant at most eight recoveries; the
    receiver's writes are contiguous under every sequence of events, hostile ones included, until a file
    outgrows its 32-bit offsets, where the driver refuses the next write; over a faithful link the driver
    delivers the file from any resume position.
  \<^item> Hotline: the reader delivers a stream of transactions exactly, however fragments are interleaved;
    NewUser and SetUser never hand out a right or a rank beyond the operator's own.
  \<^item> Telnet: data and commands survive the wire under every cut; negotiation with any peer of the same
    rules ends, in agreement; typed lines come back exactly, cut and interleaved with negotiation as
    they may be; hidden input is not echoed; the buffers are bounded, and a read that is dropped and called
    again loses no typing.
  \<^item> binkp: nothing is sent or taken before authentication; received names stay in the inbox; two
    drivers deliver both batches under every schedule; an uplink that closes early is mistaken for a
    clean finish.
  \<^item> Native frames: a stream of frames is decoded exactly under every fragmentation, and the buffer the
    codec waits on is bounded.
  \<^item> Federation: search pages partition the matches; deduplication loses no source and invents none; the
    Bloom filter has no false negatives; an accepted pull path resolves to a place below its folder;
    \<open>check\<close> accepts a grant exactly under the listed conditions; a signature made for one kind of
    document says nothing about another.
  \<^item> End-to-end encryption: both sides of the handshake derive one secret; between two ratchet
    sessions every message is read as written, in any order and among any refused messages, unless
    more are outstanding than keys are kept; the same for the members of a group, where no message
    number below the largest is accepted twice. The secrecy of the primitives is no claim of this development.
  \<^item> Swarm: every step of a fetch is a step of an abstract pool that never loses or duplicates a unit; a
    fetch that succeeds leaves exactly the content; the resume record and the shared bitmap are honest
    at every moment; what a lane is told to do next is exact; a failure names exactly what is missing.

  \<^bold>\<open>Parameters.\<close> Code outside the repository is an argument of the definitions that use it, with what
  is needed of it as a hypothesis of the theorem: Unicode lower-casing \<open>lc\<close>; the \<open>postcard\<close> encoders
  and decoders \<open>ser\<close>, \<open>de\<close>, \<open>mser\<close>, \<open>mde\<close> (a value's bytes read back as the value); the Ed25519
  \<open>signer\<close> (its own signature verifies); the blake3 \<open>digest\<close>; HMAC-MD5 \<open>hmac\<close> and SHA-256 \<open>sha\<close>; the
  Bao encoder \<open>encode\<close> and decoder \<open>decode\<close> (it accepts only the content's own bytes); the record
  \<open>cr\<close> of the sign-in cryptography (Argon2id, TOTP, blake3, base64); the floating point formula
  \<open>sizing\<close> of the Bloom filter. Clocks and random bytes are arguments. Strings are code points, or
  UTF-8 bytes where the code works on bytes. The record \<open>P\<close> of the end-to-end encryption holds BLAKE3,
  X25519 (it commutes), ChaCha20-Poly1305 (opening undoes sealing) and Ed25519 (a signature verifies).

  \<^bold>\<open>Bounds and fuel.\<close> All loops are structural or have a termination proof except three. \<open>drain\<close> of
  theory \<open>Wire\<close> takes the buffer length as fuel: every message takes at least one byte. \<open>perform\<close>, one
  turn of the ZMODEM sending driver, gets four units where the longest turn has three actions, and
  \<open>transfer\<close>, the conversation, gets five turns (init, file, data, end, fin); the delivery theorem
  is stated as termination with the result within them, for files of fewer than \<open>2^32\<close> bytes, the
  largest the driver sends. The limits of the
  code (subpacket payload, frame size, scrollback, pull items, path depth, grant lifetime, typed line,
  subnegotiation, replay ring) are the code's constants. \<open>Float64\<close> leaves out the limits of the
  exponent, which the values of the limiter do not come near.

  \<^bold>\<open>What is not modelled.\<close> Sockets, timeouts, futures cancelled in mid-call (but for the telnet session) and the async handlers of
  \<open>apps/server\<close> are I/O, and so are the SQL stores beyond the tables of sign-in. The message families
  of \<open>proto\<close> are plain data with derived encodings. The user interfaces are presentation;
  \<open>identity\<close> is a layer over cryptographic libraries (only its recovery codes and its session token
  are modelled). The services of \<open>server-core\<close> over boards, files and moderation
  interleave their decisions with queries. Of the legacy surfaces NNTP, QWK, FidoNet packets,
  syndication, finger, doors and Icecast are left out, of the others radio, Reticulum, the directory
  and the tracker: they share no state with what is modelled here.
\<close>

end
